(* ===== verification/Prelude.thy ===== *)
theory Prelude
  imports Main "HOL-Library.Word" "HOL-Library.Monad_Syntax"
begin

text \<open>
  Shared ground of the development: the names of the machine types, C buffers with
  checked accesses, C strings, and the contracts (locales) several programs of the
  repository share.

  A buffer is a list of bytes. An access outside it has no meaning in C; the checked
  accesses \<open>rd\<close> and \<open>wr\<close> return \<open>None\<close> there, and a routine written over them
  returns \<open>None\<close> exactly when the code would read or write out of bounds. A theorem
  that such a routine returns \<open>Some\<close> is therefore a memory-safety theorem.
\<close>

unbundle bit_operations_syntax

type_synonym u8 = "8 word"
type_synonym u16 = "16 word"
type_synonym u32 = "32 word"
type_synonym u64 = "64 word"
type_synonym bytes = "u8 list"

named_theorems buf_simps \<open>rewrite rules for checked buffer accesses and C strings\<close>

lemma u8_less [simp]: "unat (x :: u8) < 256"
  using unsigned_less[of x, where ?'a = nat] by simp

lemma u16_less [simp]: "unat (x :: u16) < 65536"
  using unsigned_less[of x, where ?'a = nat] by simp

lemma u32_less [simp]: "unat (x :: u32) < 4294967296"
  using unsigned_less[of x, where ?'a = nat] by simp

lemma u64_less [simp]: "unat (x :: u64) < 18446744073709551616"
  using unsigned_less[of x, where ?'a = nat] by simp

lemma u8_bit_high [simp]: "8 \<le> n \<Longrightarrow> \<not> bit (x :: u8) n"
  using bit_imp_le_length[of x n] by auto

text \<open>Two bytes with the same eight bits are equal.\<close>

lemma u8_bits_eqI:
  fixes x y :: u8
  assumes "bit x 0 = bit y 0" "bit x 1 = bit y 1" "bit x 2 = bit y 2" "bit x 3 = bit y 3"
    and "bit x 4 = bit y 4" "bit x 5 = bit y 5" "bit x 6 = bit y 6" "bit x 7 = bit y 7"
  shows "x = y"
proof (rule bit_eqI)
  fix n :: nat
  consider "n = 0" | "n = 1" | "n = 2" | "n = 3" | "n = 4" | "n = 5" | "n = 6" | "n = 7" | "8 \<le> n"
    by linarith
  then show "bit x n = bit y n" by cases (use assms in auto)
qed

lemma bit_FF8: "bit (0xFF :: u8) n \<longleftrightarrow> n < 8"
proof -
  have "(0xFF :: u8) = mask 8" by (simp add: mask_eq_exp_minus_1)
  then show ?thesis by (simp only: bit_mask_iff possible_bit_word) auto
qed

lemma bit_FF: "bit (0xFF :: u32) n \<longleftrightarrow> n < 8"
proof -
  have "(0xFF :: u32) = mask 8" by (simp add: mask_eq_exp_minus_1)
  then show ?thesis by (simp only: bit_mask_iff possible_bit_word) auto
qed

section \<open>Checked buffer accesses\<close>

definition rd :: "'a list \<Rightarrow> nat \<Rightarrow> 'a option" where
  "rd b i = (if i < length b then Some (b ! i) else None)"

definition wr :: "'a list \<Rightarrow> nat \<Rightarrow> 'a \<Rightarrow> 'a list option" where
  "wr b i x = (if i < length b then Some (b[i := x]) else None)"

lemma rd_in [buf_simps]: "i < length b \<Longrightarrow> rd b i = Some (b ! i)"
  by (simp add: rd_def)

lemma rd_out [buf_simps]: "length b \<le> i \<Longrightarrow> rd b i = None"
  by (simp add: rd_def)

lemma wr_in [buf_simps]: "i < length b \<Longrightarrow> wr b i x = Some (b[i := x])"
  by (simp add: wr_def)

lemma wr_out [buf_simps]: "length b \<le> i \<Longrightarrow> wr b i x = None"
  by (simp add: wr_def)

lemma wr_length: "wr b i x = Some b' \<Longrightarrow> length b' = length b"
  by (auto simp: wr_def split: if_splits)

lemma rd_Some_iff: "rd b i = Some x \<longleftrightarrow> i < length b \<and> b ! i = x"
  by (auto simp: rd_def)

lemma wr_Some_iff: "wr b i x = Some b' \<longleftrightarrow> i < length b \<and> b' = b[i := x]"
  by (auto simp: wr_def)

lemma rd_skip [buf_simps]: "rd (xs @ ys) (length xs + k) = rd ys k"
  by (simp add: rd_def)

lemma wr_front: "js \<noteq> [] \<Longrightarrow> wr (out @ js @ rest) (length out) y = Some (out @ y # tl js @ rest)"
  by (cases js) (auto simp: wr_def)


section \<open>C strings\<close>

text \<open>The string a buffer holds: its bytes before the first NUL.\<close>

definition cstr :: "bytes \<Rightarrow> bytes" where
  "cstr b = takeWhile (\<lambda>c. c \<noteq> 0) b"

definition strlen :: "bytes \<Rightarrow> nat" where
  "strlen b = length (cstr b)"

definition terminated :: "bytes \<Rightarrow> bool" where
  "terminated b \<longleftrightarrow> 0 \<in> set b"

definition str :: "string \<Rightarrow> bytes" where
  "str s = map of_char s"

lemma cstr_Nil [simp]: "cstr [] = []"
  by (simp add: cstr_def)

lemma cstr_Cons [simp]: "cstr (c # b) = (if c = 0 then [] else c # cstr b)"
  by (simp add: cstr_def)

lemma strlen_le: "strlen b \<le> length b"
  by (simp add: strlen_def cstr_def length_takeWhile_le)

lemma cstr_take: "cstr b = take (strlen b) b"
  by (simp add: strlen_def cstr_def takeWhile_eq_take[symmetric])

lemma strlen_less: "terminated b \<Longrightarrow> strlen b < length b"
proof -
  assume "terminated b"
  then have "cstr b \<noteq> b" by (auto simp: terminated_def cstr_def takeWhile_eq_all_conv)
  then show ?thesis
    using strlen_le[of b] cstr_take[of b] by (metis le_neq_implies_less take_all_iff)
qed

lemma nth_strlen: "terminated b \<Longrightarrow> b ! strlen b = 0"
  using nth_length_takeWhile[of "\<lambda>c. c \<noteq> 0" b] strlen_less[of b]
  by (simp add: strlen_def cstr_def)

lemma nth_less_strlen: "i < strlen b \<Longrightarrow> b ! i \<noteq> 0"
  by (metis (mono_tags, lifting) cstr_def cstr_take length_take min.absorb2 nth_mem nth_take
      set_takeWhileD strlen_def strlen_le)

lemma cstr_no_nul: "0 \<notin> set (cstr b)"
  by (auto simp: cstr_def dest: set_takeWhileD)

lemma cstr_append_nul [simp]: "0 \<notin> set s \<Longrightarrow> cstr (s @ 0 # r) = s"
  by (induction s) auto

lemma cstr_id [simp]: "0 \<notin> set s \<Longrightarrow> cstr s = s"
  by (induction s) auto

lemma split_cstr: "terminated b \<Longrightarrow> b = cstr b @ 0 # drop (Suc (strlen b)) b"
  by (metis Cons_nth_drop_Suc append_take_drop_id cstr_take nth_strlen strlen_less)


section \<open>Standard input\<close>

text \<open>
  \<open>fgets(buf, n, stdin)\<close> with \<open>n > 1\<close>: the line read (with its line feed, at most \<open>n - 1\<close>
  bytes) and the input left; \<open>None\<close> at the end of the input.
\<close>

fun line_of :: "nat \<Rightarrow> bytes \<Rightarrow> bytes" where
  "line_of 0 inp = []"
| "line_of (Suc n) [] = []"
| "line_of (Suc n) (c # inp) = (if c = 0x0A then [c] else c # line_of n inp)"

definition fgets :: "nat \<Rightarrow> bytes \<Rightarrow> (bytes \<times> bytes) option" where
  "fgets n inp =
     (if inp = [] then None
      else let l = line_of (n - 1) inp in Some (l, drop (length l) inp))"

lemma length_line_of: "length (line_of n inp) \<le> n"
  by (induction n inp rule: line_of.induct) auto

lemma length_line_of_le: "length (line_of n inp) \<le> length inp"
  by (induction n inp rule: line_of.induct) auto

lemma line_of_take: "line_of n inp = take (length (line_of n inp)) inp"
  by (induction n inp rule: line_of.induct) auto

lemma line_of_line: "0x0A \<notin> set s \<Longrightarrow> length s < n \<Longrightarrow> line_of n (s @ 0x0A # r) = s @ [0x0A]"
proof (induction s arbitrary: n)
  case Nil
  then show ?case by (cases n) auto
next
  case (Cons c s)
  then show ?case by (cases n) auto
qed

lemma line_of_nonempty: "0 < n \<Longrightarrow> inp \<noteq> [] \<Longrightarrow> line_of n inp \<noteq> []"
  by (cases n; cases inp) auto

lemma fgets_line: "0x0A \<notin> set s \<Longrightarrow> length s < n - 1 \<Longrightarrow>
    fgets n (s @ 0x0A # r) = Some (s @ [0x0A], r)"
  by (simp add: fgets_def line_of_line)

lemma fgets_decreases: "fgets n inp = Some (l, rest) \<Longrightarrow> 1 < n \<Longrightarrow> length rest < length inp"
  using line_of_nonempty[of "n - 1" inp] by (auto simp: fgets_def Let_def split: if_splits)

text \<open>What a buffer holds after a read of \<open>l\<close> into it: the line, a NUL, and the old rest.\<close>

definition fill :: "bytes \<Rightarrow> bytes \<Rightarrow> bytes" where
  "fill l b = l @ 0 # drop (Suc (length l)) b"

lemma length_fill [simp]: "length l < length b \<Longrightarrow> length (fill l b) = length b"
  by (simp add: fill_def)

lemma cstr_fill: "0 \<notin> set l \<Longrightarrow> cstr (fill l b) = l"
  by (simp add: fill_def)

section \<open>Hexadecimal digits\<close>

text \<open>The lower-case digit of a value below 16, as \<open>printf("%x")\<close> writes it.\<close>

definition hex_digit :: "u8 \<Rightarrow> u8" where
  "hex_digit n = (if n < 10 then 0x30 + n else 0x57 + n)"

lemma and_15: "x AND 15 = take_bit 4 (x :: u8)"
  by (simp add: take_bit_eq_mask mask_eq_exp_minus_1)

lemma nibble_less_16: "drop_bit 4 x < 16" "x AND 15 < (16 :: u8)"
proof -
  show "drop_bit 4 x < 16"
    using u8_less[of x]
    by (simp add: word_less_nat_alt drop_bit_eq_div unat_div less_mult_imp_div_less)
  show "x AND 15 < (16 :: u8)"
    by (simp add: and_15 word_less_nat_alt take_bit_eq_mod unat_mod)
qed

lemma byte_halves: "push_bit 4 (drop_bit 4 x) OR (x AND 15) = (x :: u8)"
  by (rule bit_eqI) (auto simp: and_15 bit_simps)

text \<open>What \<open>printf("%02x")\<close> prints for a byte, and for a run of bytes.\<close>

definition hex2 :: "u8 \<Rightarrow> bytes" where
  "hex2 x = [hex_digit (drop_bit 4 x), hex_digit (x AND 15)]"

definition hex_bytes :: "bytes \<Rightarrow> bytes" where
  "hex_bytes xs = concat (map hex2 xs)"

lemma hex_bytes_Nil [simp]: "hex_bytes [] = []"
  by (simp add: hex_bytes_def)

lemma hex_bytes_Cons [simp]: "hex_bytes (x # xs) = hex2 x @ hex_bytes xs"
  by (simp add: hex_bytes_def)

lemma length_hex2 [simp]: "length (hex2 x) = 2"
  by (simp add: hex2_def)

lemma length_hex_bytes [simp]: "length (hex_bytes xs) = 2 * length xs"
  by (induction xs) auto

text \<open>White space and the value of a digit, as the C library sees them.\<close>

definition isspace :: "u8 \<Rightarrow> bool" where
  "isspace c \<longleftrightarrow> c = 0x20 \<or> (9 \<le> c \<and> c \<le> 13)"

definition hex_value :: "u8 \<Rightarrow> int option" where
  "hex_value c =
     (if 0x30 \<le> c \<and> c \<le> 0x39 then Some (uint c - 0x30)
      else if 0x61 \<le> c \<and> c \<le> 0x66 then Some (uint c - 0x57)
      else if 0x41 \<le> c \<and> c \<le> 0x46 then Some (uint c - 0x37)
      else None)"

lemma hex_value_digit: "n < 16 \<Longrightarrow> hex_value (hex_digit n) = Some (uint n)"
  by (auto simp: hex_value_def hex_digit_def word_le_def word_less_def uint_word_ariths)

lemma hex_digit_graphic:
  "n < 16 \<Longrightarrow> \<not> isspace (hex_digit n) \<and> hex_digit n \<notin> {0x2B, 0x2D, 0x78, 0x58, 0, 0x0A}"
  by (auto simp: isspace_def hex_digit_def word_le_nat_alt word_less_nat_alt unat_word_ariths word_unat_eq_iff)

section \<open>Decimal numbers\<close>

text \<open>What \<open>printf("%lu")\<close> prints.\<close>

fun decimal :: "nat \<Rightarrow> bytes" where
  "decimal n = (if n < 10 then [0x30 + of_nat n] else decimal (n div 10) @ [0x30 + of_nat (n mod 10)])"

declare decimal.simps [simp del]

section \<open>Little-endian words\<close>

fun le_bytes :: "nat \<Rightarrow> 'a::len word \<Rightarrow> bytes" where
  "le_bytes 0 w = []"
| "le_bytes (Suc k) w = ucast w # le_bytes k (drop_bit 8 w)"

fun of_le :: "bytes \<Rightarrow> 'a::len word" where
  "of_le [] = 0"
| "of_le (b # bs) = ucast b OR push_bit 8 (of_le bs)"

lemma length_le_bytes [simp]: "length (le_bytes k w) = k"
  by (induction k arbitrary: w) auto

lemma of_le_le_bytes: "of_le (le_bytes k w) = take_bit (8 * k) w"
proof (induction k arbitrary: w)
  case (Suc k)
  show ?case
    by (rule bit_word_eqI) (auto simp: Suc bit_simps)
qed simp

lemma of_le_le_bytes_u64 [simp]: "of_le (le_bytes 8 w) = (w :: u64)"
  using of_le_le_bytes[of 8 w] take_bit_length_eq[of w] by simp

lemma bit_of_le: "bit (of_le bs :: 'a::len word) n \<longleftrightarrow> n < LENGTH('a) \<and> n div 8 < length bs \<and> bit (bs ! (n div 8)) (n mod 8)"
proof (induction bs arbitrary: n)
  case (Cons b bs)
  show ?case
  proof (cases "n < 8")
    case True
    then show ?thesis by (simp add: bit_or_iff bit_push_bit_iff bit_ucast_iff)
  next
    case False
    then have "n div 8 = Suc ((n - 8) div 8)" "n mod 8 = (n - 8) mod 8" by (simp_all add: le_div_geq le_mod_geq)
    then show ?thesis using False by (auto simp: bit_or_iff bit_push_bit_iff bit_ucast_iff Cons.IH dest: bit_imp_le_length)
  qed
qed simp

lemma of_le_inject:
  assumes "length as = length bs" "8 * length as \<le> LENGTH('a)"
  shows "(of_le as :: 'a::len word) = of_le bs \<longleftrightarrow> as = bs"
proof
  assume e: "(of_le as :: 'a word) = of_le bs"
  show "as = bs"
  proof (rule nth_equalityI[OF assms(1)])
    fix i assume i: "i < length as"
    show "as ! i = bs ! i"
    proof (rule bit_word_eqI)
      fix m assume "m < LENGTH(8)"
      then have m: "m < 8" by simp
      then have "(8 * i + m) div 8 = i" "(8 * i + m) mod 8 = m" "8 * i + m < LENGTH('a)" using i assms(2) by simp_all
      then show "bit (as ! i) m = bit (bs ! i) m"
        using bit_of_le[of as "8 * i + m", where ?'a = 'a] bit_of_le[of bs "8 * i + m", where ?'a = 'a] e i assms(1) by simp
    qed
  qed
qed simp

section \<open>Contracts\<close>

text \<open>
  An encoder with its decoder: the decoder undoes the encoder on valid values. Every
  encoder of the repository (hexadecimal, base64, run lengths, passwords, wire format)
  is an instance.
\<close>

locale codec =
  fixes valid :: "'a \<Rightarrow> bool"
    and enc :: "'a \<Rightarrow> 'b"
    and dec :: "'b \<Rightarrow> 'a option"
  assumes dec_enc: "valid x \<Longrightarrow> dec (enc x) = Some x"
begin

lemma enc_inj: "valid x \<Longrightarrow> valid y \<Longrightarrow> enc x = enc y \<Longrightarrow> x = y"
  using dec_enc by (metis option.inject)

lemma enc_inj_on: "inj_on enc (Collect valid)"
  by (auto intro: inj_onI enc_inj)

end

text \<open>An exact codec: the decoder accepts nothing but the encodings of valid values.\<close>

locale exact_codec = codec +
  assumes enc_dec: "dec y = Some x \<Longrightarrow> valid x \<and> enc x = y"
begin

lemma dec_inj: "dec y = Some x \<Longrightarrow> dec z = Some x \<Longrightarrow> y = z"
  using enc_dec by metis

lemma dec_iff: "dec y = Some x \<longleftrightarrow> valid x \<and> y = enc x"
  using enc_dec dec_enc by metis

end

text \<open>A transformation of a buffer that undoes itself and keeps its length.\<close>

locale self_inverse =
  fixes crypt :: "'k \<Rightarrow> bytes \<Rightarrow> bytes"
    and ok :: "'k \<Rightarrow> bool"
  assumes crypt_crypt: "ok k \<Longrightarrow> crypt k (crypt k xs) = xs"
    and crypt_length: "ok k \<Longrightarrow> length (crypt k xs) = length xs"
begin

lemma crypt_inj: "ok k \<Longrightarrow> crypt k xs = crypt k ys \<Longrightarrow> xs = ys"
  by (metis crypt_crypt)

lemma crypt_surj: "ok k \<Longrightarrow> \<exists>xs. crypt k xs = ys \<and> length xs = length ys"
  by (metis crypt_crypt crypt_length)

end

section \<open>Exclusive or with a key stream\<close>

text \<open>The shape the repository's stream ciphers share: byte \<open>i\<close> is xored with \<open>ks i\<close>.\<close>

definition xor_with :: "(nat \<Rightarrow> u8) \<Rightarrow> bytes \<Rightarrow> bytes" where
  "xor_with ks xs = map2 (\<lambda>i x. x XOR ks i) [0..<length xs] xs"

lemma length_xor_with [simp]: "length (xor_with ks xs) = length xs"
  by (simp add: xor_with_def)

lemma nth_xor_with [simp]: "i < length xs \<Longrightarrow> xor_with ks xs ! i = xs ! i XOR ks i"
  by (simp add: xor_with_def)

lemma xor_with_twice [simp]: "xor_with ks (xor_with ks xs) = xs"
  by (rule nth_equalityI) (simp_all add: xor.assoc)

lemma xor_with_Nil [simp]: "xor_with ks [] = []"
  by (simp add: xor_with_def)

lemma xor_with_Cons: "xor_with ks (x # xs) = (x XOR ks 0) # xor_with (\<lambda>i. ks (Suc i)) xs"
  by (rule nth_equalityI) (auto simp: nth_Cons split: nat.splits)

lemma xor_with_snoc: "xor_with ks (xs @ [x]) = xor_with ks xs @ [x XOR ks (length xs)]"
  by (rule nth_equalityI) (auto simp: nth_append less_Suc_eq)

interpretation keystream: self_inverse xor_with "\<lambda>_. True"
  by unfold_locales auto

end
