(* ===== verification/Urldecode.thy ===== *)
theory Urldecode
  imports Prelude
begin

text \<open>
  \<open>hashpop/challenge/src/urldecode.c\<close>: percent decoding of a C string in place. The
  model reads and writes one and the same buffer, as the code does, with a read index
  \<open>s\<close> and a write index \<open>p\<close>.
\<close>

section \<open>The code\<close>

text \<open>\<open>nibble\<close> returns -1 for a byte that is not a hexadecimal digit; \<open>None\<close> here.\<close>

definition nibble :: "u8 \<Rightarrow> u8 option" where
  "nibble c =
     (if 0x30 \<le> c \<and> c \<le> 0x39 then Some (c - 0x30)
      else if 0x61 \<le> c \<and> c \<le> 0x66 then Some (c - 0x61 + 10)
      else if 0x41 \<le> c \<and> c \<le> 0x46 then Some (c - 0x41 + 10)
      else None)"

definition urldecode_done :: "bytes \<Rightarrow> nat \<Rightarrow> (bytes \<times> nat) option" where
  "urldecode_done b p = do { b \<leftarrow> wr b p 0; Some (b, p) }"

function urldecode_loop :: "bytes \<Rightarrow> nat \<Rightarrow> nat \<Rightarrow> (bytes \<times> nat) option" where
  "urldecode_loop b s p =
     (case rd b s of
        None \<Rightarrow> None
      | Some x \<Rightarrow>
          if x = 0 then urldecode_done b p
          else if x = 0x2B then
            (case wr b p 0x20 of
               None \<Rightarrow> None
             | Some b \<Rightarrow> urldecode_loop b (s + 1) (p + 1))
          else if x = 0x25 then
            (case rd b (s + 1) of
               None \<Rightarrow> None
             | Some c \<Rightarrow>
                 if c = 0 then do { b \<leftarrow> wr b p 0x25; urldecode_done b (p + 1) }
                 else
                   (case rd b (s + 2) of
                      None \<Rightarrow> None
                    | Some d \<Rightarrow>
                        if d = 0 then
                          do { b \<leftarrow> wr b p 0x25; b \<leftarrow> wr b (p + 1) c; urldecode_done b (p + 2) }
                        else
                          (case (nibble c, nibble d) of
                             (Some u, Some l) \<Rightarrow>
                               (case wr b p (push_bit 4 u OR l) of
                                  None \<Rightarrow> None
                                | Some b \<Rightarrow> urldecode_loop b (s + 3) (p + 1))
                           | _ \<Rightarrow>
                               (case do { b \<leftarrow> wr b p 0x25; b \<leftarrow> wr b (p + 1) c; wr b (p + 2) d } of
                                  None \<Rightarrow> None
                                | Some b \<Rightarrow> urldecode_loop b (s + 3) (p + 3)))))
          else
            (case wr b p x of
               None \<Rightarrow> None
             | Some b \<Rightarrow> urldecode_loop b (s + 1) (p + 1)))"
  by pat_completeness auto
termination
  by (relation "measure (\<lambda>(b, s, p). length b - s)")
    (auto simp: rd_Some_iff wr_Some_iff bind_eq_Some_conv)

declare urldecode_loop.simps [simp del]

definition urldecode :: "bytes \<Rightarrow> (bytes \<times> nat) option" where
  "urldecode b = urldecode_loop b 0 0"

section \<open>What it computes\<close>

text \<open>The decoding as a function on strings.\<close>

fun decode :: "bytes \<Rightarrow> bytes" where
  "decode [] = []"
| "decode (x # xs) =
     (if x = 0x2B then 0x20 # decode xs
      else if x = 0x25 then
        (case xs of
           c # d # ys \<Rightarrow>
             (case (nibble c, nibble d) of
                (Some u, Some l) \<Rightarrow> (push_bit 4 u OR l) # decode ys
              | _ \<Rightarrow> 0x25 # c # d # decode ys)
         | _ \<Rightarrow> x # xs)
      else x # decode xs)"


lemma length_decode: "length (decode xs) \<le> length xs"
proof (induction xs rule: decode.induct)
  case (2 x xs)
  show ?case
  proof (cases "x = 0x25")
    case True
    then show ?thesis
      using 2 by (auto split: list.split option.split simp del: decode.simps(2) simp: decode.simps(2)[of "0x25"]) 
        (metis le_Suc_eq)+
  next
    case False
    then show ?thesis using 2 by auto
  qed
qed simp

text \<open>
  One round of the loop moves \<open>k\<close> bytes from the source to the consumed gap \<open>junk\<close> and
  writes \<open>ys\<close> over the front of the gap; what is left is the same situation again.
\<close>

definition loop_ok :: "bytes \<Rightarrow> bytes \<Rightarrow> bytes \<Rightarrow> bytes \<Rightarrow> bool" where
  "loop_ok out junk src post \<longleftrightarrow>
     (\<exists>X. urldecode_loop (out @ junk @ src @ 0 # post) (length out + length junk) (length out)
            = Some (out @ decode src @ 0 # X @ post, length out + length (decode src))
          \<and> length X + length (decode src) = length junk + length src)"

lemma loop_okI:
  assumes "loop_ok (out @ ys) junk' src' post"
    and "urldecode_loop (out @ junk @ src @ 0 # post) (length out + length junk) (length out)
         = urldecode_loop ((out @ ys) @ junk' @ src' @ 0 # post)
             (length (out @ ys) + length junk') (length (out @ ys))"
    and "decode src = ys @ decode src'"
    and "length ys + length junk' + length src' = length junk + length src"
  shows "loop_ok out junk src post"
  using assms by (force simp: loop_ok_def)

lemma rd_gap:
  "rd (out @ junk @ r) (length out + length junk) = rd r 0"
  "rd (out @ junk @ r) (Suc (length out + length junk)) = rd r (Suc 0)"
  "rd (out @ junk @ r) (Suc (Suc (length out + length junk))) = rd r (Suc (Suc 0))"
  by (simp_all add: rd_def nth_append numeral_2_eq_2)

lemma plus3: "n + 3 = Suc (Suc (Suc n))"
  by simp

lemma rd_Cons: "rd (x # xs) 0 = Some x" "rd (x # xs) (Suc n) = rd xs n"
  by (simp_all add: rd_def)

lemma urldecode_loop_ok: "0 \<notin> set src \<Longrightarrow> loop_ok out junk src post"
proof (induction "length src" arbitrary: out junk src rule: less_induct)
  case less
  note unfold = urldecode_loop.simps[of "out @ junk @ src @ 0 # post" "length out + length junk" "length out"]
  consider "src = []" | xs where "src = 0x2B # xs"
    | x xs where "src = x # xs" "x \<noteq> 0x2B" "x \<noteq> 0x25" | "src = [0x25]"
    | c where "src = [0x25, c]" | c d ys where "src = 0x25 # c # d # ys"
    by (metis neq_Nil_conv)
  then show ?case
  proof cases
    case 1
    have "wr (out @ junk @ 0 # post) (length out) 0 = Some (out @ 0 # tl (junk @ [0]) @ post)"
      using wr_front[of "junk @ [0]" out post 0] by simp
    then show ?thesis
      using 1 unfold by (auto simp: loop_ok_def rd_def urldecode_done_def nth_append
          intro: exI[of _ "tl (junk @ [0])"])
  next
    case 2
    have "loop_ok (out @ [0x20]) (tl (junk @ [0x2B])) xs post"
      by (rule less.hyps) (use 2 less.prems in auto)
    moreover have "wr (out @ junk @ 0x2B # xs @ 0 # post) (length out) 0x20
       = Some ((out @ [0x20]) @ tl (junk @ [0x2B]) @ xs @ 0 # post)"
      using wr_front[of "junk @ [0x2B]" out "xs @ 0 # post" "0x20"] by simp
    ultimately show ?thesis
      by (rule_tac loop_okI) (use 2 unfold in \<open>auto simp: rd_gap rd_Cons\<close>)
  next
    case 3
    have "loop_ok (out @ [x]) (tl (junk @ [x])) xs post"
      by (rule less.hyps) (use 3 less.prems in auto)
    moreover have "wr (out @ junk @ x # xs @ 0 # post) (length out) x
       = Some ((out @ [x]) @ tl (junk @ [x]) @ xs @ 0 # post)"
      using wr_front[of "junk @ [x]" out "xs @ 0 # post" x] by simp
    ultimately show ?thesis
      by (rule_tac loop_okI) (use 3 less.prems unfold in \<open>auto simp: rd_gap rd_Cons\<close>)
  next
    case 4
    have "wr (out @ junk @ 0x25 # 0 # post) (length out) 0x25 = Some (out @ 0x25 # tl (junk @ [0x25]) @ 0 # post)"
      using wr_front[of "junk @ [0x25]" out "0 # post" "0x25"] by simp
    moreover have "wr (out @ 0x25 # tl (junk @ [0x25]) @ 0 # post) (Suc (length out)) 0
        = Some (out @ 0x25 # 0 # tl (tl (junk @ [0x25]) @ [0]) @ post)"
      using wr_front[of "tl (junk @ [0x25]) @ [0]" "out @ [0x25]" post 0] by simp
    ultimately show ?thesis
      using 4 unfold by (auto simp: loop_ok_def rd_gap rd_Cons urldecode_done_def
          intro!: exI[of _ "tl (tl (junk @ [0x25]) @ [0])"])
  next
    case 5
    then have "c \<noteq> 0" using less.prems by simp
    let ?j1 = "tl (junk @ [0x25, c])"
    have "wr (out @ junk @ 0x25 # c # 0 # post) (length out) 0x25 = Some (out @ 0x25 # ?j1 @ 0 # post)"
      using wr_front[of "junk @ [0x25, c]" out "0 # post" "0x25"] by simp
    moreover have "wr (out @ 0x25 # ?j1 @ 0 # post) (Suc (length out)) c
        = Some (out @ 0x25 # c # tl ?j1 @ 0 # post)"
      using wr_front[of "?j1" "out @ [0x25]" "0 # post" c] by (cases junk) auto
    moreover have "wr (out @ 0x25 # c # tl ?j1 @ 0 # post) (Suc (Suc (length out))) 0
        = Some (out @ 0x25 # c # 0 # tl (tl ?j1 @ [0]) @ post)"
      using wr_front[of "tl ?j1 @ [0]" "out @ [0x25, c]" post 0] by simp
    ultimately show ?thesis
      using 5 unfold \<open>c \<noteq> 0\<close> by (auto simp: loop_ok_def rd_gap rd_Cons urldecode_done_def add_2_eq_Suc'
          intro!: exI[of _ "tl (tl ?j1 @ [0])"])
  next
    case 6
    then have nz: "c \<noteq> 0" "d \<noteq> 0" using less.prems by simp_all
    let ?j1 = "tl (junk @ [0x25, c, d])"
    have w1: "wr (out @ junk @ 0x25 # c # d # ys @ 0 # post) (length out) y
        = Some (out @ y # ?j1 @ ys @ 0 # post)" for y
      using wr_front[of "junk @ [0x25, c, d]" out "ys @ 0 # post" y] by simp
    have w2: "wr (out @ 0x25 # ?j1 @ ys @ 0 # post) (Suc (length out)) c
        = Some (out @ 0x25 # c # tl ?j1 @ ys @ 0 # post)"
      using wr_front[of "?j1" "out @ [0x25]" "ys @ 0 # post" c] by (cases junk) auto
    have w3: "wr (out @ 0x25 # c # tl ?j1 @ ys @ 0 # post) (Suc (Suc (length out))) d
        = Some (out @ 0x25 # c # d # tl (tl ?j1) @ ys @ 0 # post)"
      using wr_front[of "tl ?j1" "out @ [0x25, c]" "ys @ 0 # post" d]
      by (cases junk; cases "tl junk") auto
    show ?thesis
    proof (cases "nibble c = None \<or> nibble d = None")
      case True
      have "loop_ok (out @ [0x25, c, d]) (tl (tl ?j1)) ys post"
        by (rule less.hyps) (use 6 less.prems in auto)
      then show ?thesis
        by (rule loop_okI)
          (use 6 nz True unfold w1 w2 w3 in \<open>auto simp: rd_gap rd_Cons add_2_eq_Suc' plus3
             split: option.split\<close>)
    next
      case False
      then obtain u l where ul: "nibble c = Some u" "nibble d = Some l" by auto
      have "loop_ok (out @ [push_bit 4 u OR l]) ?j1 ys post"
        by (rule less.hyps) (use 6 less.prems in auto)
      then show ?thesis
        by (rule loop_okI)
          (use 6 nz ul unfold w1 in \<open>auto simp: rd_gap rd_Cons add_2_eq_Suc' plus3\<close>)
    qed
  qed
qed


lemma loop_ok_start: "loop_ok [] [] src post \<longleftrightarrow>
    (\<exists>X. urldecode (src @ 0 # post) = Some (decode src @ 0 # X @ post, length (decode src))
       \<and> length X + length (decode src) = length src)"
  by (simp add: loop_ok_def urldecode_def)

text \<open>
  C40: \<open>urldecode\<close>, run in place on any NUL-terminated buffer, never reads or writes out of
  bounds, leaves the decoding of its string there with its terminator, returns its
  length, and touches nothing behind the old terminator.
\<close>

theorem urldecode_refines_decode:
  assumes "terminated b"
  shows "\<exists>b'. urldecode b = Some (b', length (decode (cstr b)))
    \<and> take (Suc (length (decode (cstr b)))) b' = decode (cstr b) @ [0]
    \<and> length b' = length b
    \<and> drop (Suc (strlen b)) b' = drop (Suc (strlen b)) b"
proof -
  let ?post = "drop (Suc (strlen b)) b"
  have "loop_ok [] [] (cstr b) ?post" by (rule urldecode_loop_ok) (rule cstr_no_nul)
  then obtain X where X: "urldecode (cstr b @ 0 # ?post)
      = Some (decode (cstr b) @ 0 # X @ ?post, length (decode (cstr b)))"
    and len: "length X + length (decode (cstr b)) = strlen b"
    by (auto simp: loop_ok_start strlen_def)
  have "Suc (strlen b) \<le> length b" using strlen_less[OF assms] by simp
  then have "length (decode (cstr b) @ 0 # X @ ?post) = length b"
    and "drop (Suc (strlen b)) (decode (cstr b) @ 0 # X @ ?post) = ?post"
    using len by (simp_all add: Suc_diff_le)
  moreover have "urldecode b = Some (decode (cstr b) @ 0 # X @ ?post, length (decode (cstr b)))"
    using X split_cstr[OF assms] by simp
  ultimately show ?thesis by (intro exI[of _ "decode (cstr b) @ 0 # X @ ?post"]) simp
qed

theorem urldecode_refines_decode_witness:
  "\<exists>b'. urldecode (str ''a%4%41+%zz%42'' @ [0, 7]) = Some (b', 11)
     \<and> take 12 b' = str ''a%4%41 %zzB'' @ [0] \<and> drop 14 b' = [7]"
proof -
  let ?b = "str ''a%4%41+%zz%42'' @ [0, 7]"
  have t: "terminated ?b" by (simp add: terminated_def)
  have d: "decode (cstr ?b) = str ''a%4%41 %zzB''" "strlen ?b = 13"
    "length (str ''a%4%41 %zzB'') = 11"
    by (simp_all add: str_def strlen_def nibble_def)
  show ?thesis using urldecode_refines_decode[OF t] unfolding d by (auto simp: str_def)
qed

section \<open>Every byte string can be sent\<close>

definition percent_encode :: "bytes \<Rightarrow> bytes" where
  "percent_encode xs = concat (map (\<lambda>x. [0x25, hex_digit (drop_bit 4 x), hex_digit (x AND 15)]) xs)"

lemma nibble_hex_digit: "n < 16 \<Longrightarrow> nibble (hex_digit n) = Some n"
  by (auto simp: nibble_def hex_digit_def word_le_nat_alt word_less_nat_alt unat_word_ariths)

lemma hex_digit_nonzero: "n < 16 \<Longrightarrow> hex_digit n \<noteq> 0"
  using nibble_hex_digit[of n] by (auto simp: nibble_def)

lemma decode_percent_encode: "decode (percent_encode xs) = xs"
  by (induction xs) (auto simp: percent_encode_def nibble_hex_digit nibble_less_16 byte_halves)

lemma percent_encode_no_nul: "0 \<notin> set (percent_encode xs)"
  by (auto simp: percent_encode_def nibble_less_16 hex_digit_nonzero dest: sym)

text \<open>
  Every byte string, NUL bytes included, can be sent to \<open>urldecode\<close>: the buffer that
  holds its percent encoding decodes to exactly these bytes and their number.
\<close>

lemma urldecode_percent_encode:
  "\<exists>b'. urldecode (percent_encode xs @ 0 # post) = Some (b', length xs)
     \<and> take (length xs) b' = xs \<and> drop (Suc (3 * length xs)) b' = post"
proof -
  have len: "length (percent_encode xs) = 3 * length xs"
    by (induction xs) (auto simp: percent_encode_def)
  have "loop_ok [] [] (percent_encode xs) post" by (rule urldecode_loop_ok) (rule percent_encode_no_nul)
  then obtain X where "urldecode (percent_encode xs @ 0 # post) = Some (xs @ 0 # X @ post, length xs)"
    and "length X + length xs = 3 * length xs"
    by (auto simp: loop_ok_start decode_percent_encode len)
  then show ?thesis by (intro exI[of _ "xs @ 0 # X @ post"]) simp
qed

end
