(* ===== verification/Base64.thy ===== *)
theory Base64
  imports Prelude
begin

text \<open>
  \<open>hashpop/challenge/src/base64.c\<close> (the same file serves \<open>ripc4\<close>): base64 with a line
  feed after every 72 characters. The output buffer is the list of the bytes written to
  it; its allocated size is computed in 64-bit arithmetic as in the code.
\<close>

section \<open>The encoder\<close>

definition base64_table :: bytes where
  "base64_table = str ''ABCDEFGHIJKLMNOPQRSTUVWXYZabcdefghijklmnopqrstuvwxyz0123456789+/''"

definition b64 :: "u8 \<Rightarrow> u8" where
  "b64 i = base64_table ! unat i"

text \<open>The size of the output buffer; \<open>None\<close> is the overflow check's \<open>return NULL\<close>.\<close>

definition base64_olen :: "u64 \<Rightarrow> u64 option" where
  "base64_olen len =
     (let olen = len * 4 div 3 + 4;
          olen = olen + olen div 72;
          olen = olen + 1
      in if olen < len then None else Some olen)"

text \<open>
  The main loop, over whole 3-byte blocks: the bytes written, the input left and
  \<open>line_len\<close>.
\<close>

fun base64_blocks :: "bytes \<Rightarrow> nat \<Rightarrow> bytes \<times> bytes \<times> nat" where
  "base64_blocks (a # b # c # src) line_len =
     (let quad = [b64 (drop_bit 2 a), b64 (push_bit 4 (a AND 0x03) OR drop_bit 4 b),
                  b64 (push_bit 2 (b AND 0x0f) OR drop_bit 6 c), b64 (c AND 0x3f)];
          line_len = line_len + 4
      in if line_len \<ge> 72
         then (let (out, rest, l) = base64_blocks src 0 in (quad @ 0x0A # out, rest, l))
         else (let (out, rest, l) = base64_blocks src line_len in (quad @ out, rest, l)))"
| "base64_blocks src line_len = ([], src, line_len)"

text \<open>What follows the loop: the last one or two bytes with padding, then the line end.\<close>

definition base64_tail :: "bytes \<Rightarrow> nat \<Rightarrow> bytes" where
  "base64_tail src line_len =
     (case src of
        [] \<Rightarrow> (if line_len \<noteq> 0 then [0x0A] else [])
      | [a] \<Rightarrow> [b64 (drop_bit 2 a), b64 (push_bit 4 (a AND 0x03)), 0x3D, 0x3D] @
          (if line_len + 4 \<noteq> 0 then [0x0A] else [])
      | a # b # _ \<Rightarrow> [b64 (drop_bit 2 a), b64 (push_bit 4 (a AND 0x03) OR drop_bit 4 b),
                      b64 (push_bit 2 (b AND 0x0f)), 0x3D] @
          (if line_len + 4 \<noteq> 0 then [0x0A] else []))"

definition base64_text :: "bytes \<Rightarrow> bytes" where
  "base64_text src = (let (out, rest, line_len) = base64_blocks src 0 in out @ base64_tail rest line_len)"

text \<open>\<open>alloc n\<close> says whether \<open>malloc(n)\<close> succeeds.\<close>

definition base64_encode :: "(u64 \<Rightarrow> bool) \<Rightarrow> bytes \<Rightarrow> bytes option" where
  "base64_encode alloc src =
     (case base64_olen (of_nat (length src)) of
        None \<Rightarrow> None
      | Some olen \<Rightarrow> if alloc olen then Some (base64_text src) else None)"

section \<open>The decoder\<close>

definition dtable :: bytes where
  "dtable = (foldl (\<lambda>t i. t[unat (base64_table ! i) := of_nat i]) (replicate 256 0x80) [0..<64])[0x3D := 0]"

definition base64_count :: "bytes \<Rightarrow> nat" where
  "base64_count src = length (filter (\<lambda>c. dtable ! unat c \<noteq> 0x80) src)"

definition base64_triple :: "bytes \<Rightarrow> bytes" where
  "base64_triple block =
     [push_bit 2 (block ! 0) OR drop_bit 4 (block ! 1),
      push_bit 4 (block ! 1) OR drop_bit 2 (block ! 2),
      push_bit 6 (block ! 2) OR block ! 3]"

fun base64_decode_loop :: "bytes \<Rightarrow> bytes \<Rightarrow> nat \<Rightarrow> bytes \<Rightarrow> bytes option" where
  "base64_decode_loop [] block pad out = Some out"
| "base64_decode_loop (c # src) block pad out =
     (let tmp = dtable ! unat c in
      if tmp = 0x80 then base64_decode_loop src block pad out
      else
        let pad = (if c = 0x3D then pad + 1 else pad);
            block = block @ [tmp]
        in if length block = 4 then
             let out = out @ base64_triple block in
             if pad \<noteq> 0 then
               (if pad = 1 then Some (butlast out)
                else if pad = 2 then Some (butlast (butlast out))
                else None)
             else base64_decode_loop src [] pad out
           else base64_decode_loop src block pad out)"

definition base64_decode :: "(nat \<Rightarrow> bool) \<Rightarrow> bytes \<Rightarrow> bytes option" where
  "base64_decode alloc src =
     (let count = base64_count src in
      if count = 0 \<or> count mod 4 \<noteq> 0 then None
      else if \<not> alloc (count div 4 * 3) then None
      else base64_decode_loop src [] 0 [])"

declare push_bit_and [simp del]

section \<open>The tables\<close>

lemma length_base64_table: "length base64_table = 64"
  by (simp add: base64_table_def str_def)

lemma distinct_base64_table: "distinct base64_table"
  by (simp add: base64_table_def str_def)

lemma base64_table_chars: "0x3D \<notin> set base64_table" "0x0A \<notin> set base64_table"
  by (simp_all add: base64_table_def str_def)

lemma foldl_update:
  "distinct (map k is) \<Longrightarrow> i \<in> set is \<Longrightarrow> k i < length t \<Longrightarrow>
     foldl (\<lambda>t i. t[k i := v i]) t is ! k i = v i"
proof (induction "is" arbitrary: t)
  case (Cons j js)
  have other: "m \<notin> set (map k js) \<Longrightarrow> foldl (\<lambda>t i. t[k i := v i]) u js ! m = u ! m" for u m
    by (induction js arbitrary: u) auto
  show ?case
    using Cons by (cases "i = j") (auto simp: other)
qed simp

lemma foldl_update_other:
  "m \<notin> k ` set is \<Longrightarrow> foldl (\<lambda>t i. t[k i := v i]) t is ! m = t ! m"
  by (induction "is" arbitrary: t) auto

lemma foldl_update_length: "length (foldl (\<lambda>t i. t[k i := v i]) t is) = length t"
  by (induction "is" arbitrary: t) auto

lemma dtable_b64: "i < 64 \<Longrightarrow> dtable ! unat (b64 i) = i"
proof -
  assume i: "i < 64"
  then have ui: "unat i < 64" by (simp add: word_less_nat_alt)
  let ?k = "\<lambda>i. unat (base64_table ! i)"
  have inj: "distinct (map ?k [0..<64])"
    using distinct_base64_table length_base64_table
    by (auto simp: distinct_map inj_on_def nth_eq_iff_index_eq simp flip: word_unat_eq_iff)
  have ne: "base64_table ! unat i \<noteq> 0x3D"
    using base64_table_chars(1) ui length_base64_table nth_mem by metis
  then have "?k (unat i) \<noteq> 0x3D" using word_unat_eq_iff[of "base64_table ! unat i" "0x3D"] by simp
  then show ?thesis
    using foldl_update[OF inj, of "unat i" "replicate 256 0x80 :: bytes" of_nat] ui
    by (simp add: dtable_def b64_def)
qed


lemma dtable_pad: "dtable ! 0x3D = 0"
  by (simp add: dtable_def foldl_update_length)

lemma b64_in_table: "i < 64 \<Longrightarrow> b64 i \<in> set base64_table"
  by (simp add: b64_def length_base64_table word_less_nat_alt)

lemma b64_no_pad: "i < 64 \<Longrightarrow> b64 i \<noteq> 0x3D" "i < 64 \<Longrightarrow> b64 i \<noteq> 0x0A"
  using b64_in_table base64_table_chars by metis+

lemma dtable_newline: "dtable ! 0x0A = 0x80"
proof -
  have "0x0A \<notin> (\<lambda>i. unat (base64_table ! i)) ` set [0..<64]"
  proof
    assume "0x0A \<in> (\<lambda>i. unat (base64_table ! i)) ` set [0..<64]"
    then obtain i where i: "i < 64" "unat (base64_table ! i) = 0x0A" by auto
    then have "base64_table ! i = 0x0A" using word_unat_eq_iff[of "base64_table ! i" "0x0A"] by simp
    then show False
      using base64_table_chars(2) length_base64_table i(1) nth_mem[of i base64_table] by simp
  qed
  then show ?thesis
    by (simp add: dtable_def foldl_update_other)
qed

text \<open>The four digits of a block are below 64 and put the block together again.\<close>

lemma and_3: "x AND 3 = take_bit 2 (x :: u8)"
  by (simp add: take_bit_eq_mask mask_eq_exp_minus_1)

lemma and_63: "x AND 0x3f = take_bit 6 (x :: u8)"
  by (simp add: take_bit_eq_mask mask_eq_exp_minus_1)

lemma less_64_iff: "(x :: u8) < 64 \<longleftrightarrow> take_bit 6 x = x"
proof -
  have "take_bit 6 x = x \<longleftrightarrow> unat (take_bit 6 x) = unat x" by (simp add: word_unat_eq_iff)
  also have "\<dots> \<longleftrightarrow> unat x mod 64 = unat x" by (simp add: take_bit_eq_mod unat_mod)
  also have "\<dots> \<longleftrightarrow> x < 64" by (auto simp: word_less_nat_alt mod_eq_self_iff_div_eq_0)
  finally show ?thesis by simp
qed

lemmas bits_simps = less_64_iff and_3 and_15 and_63

lemma digits_less [simp]:
  "drop_bit 2 a < (64 :: u8)"
  "push_bit 4 (a AND 3) OR drop_bit 4 b < (64 :: u8)"
  "push_bit 2 (b AND 15) OR drop_bit 6 c < (64 :: u8)"
  "c AND 0x3f < (64 :: u8)"
  "push_bit 4 (a AND 3) < (64 :: u8)"
  "push_bit 2 (b AND 15) < (64 :: u8)"
  by (simp_all only: bits_simps, (rule u8_bits_eqI; simp add: bit_simps)+)

lemma triple_digits:
  fixes a b c :: u8
  shows "push_bit 2 (drop_bit 2 a) OR drop_bit 4 (push_bit 4 (a AND 3) OR drop_bit 4 b) = a"
    and "push_bit 4 (push_bit 4 (a AND 3) OR drop_bit 4 b)
           OR drop_bit 2 (push_bit 2 (b AND 15) OR drop_bit 6 c) = b"
    and "push_bit 6 (push_bit 2 (b AND 15) OR drop_bit 6 c) OR (c AND 0x3f) = c"
    and "push_bit 2 (drop_bit 2 a) OR drop_bit 4 (push_bit 4 (a AND 3)) = a"
    and "push_bit 4 (push_bit 4 (a AND 3) OR drop_bit 4 b) OR drop_bit 2 (push_bit 2 (b AND 15)) = b"
    and "push_bit 4 (drop_bit 4 b) OR drop_bit 2 (push_bit 2 (b AND 15)) = b"
    and "push_bit 6 (drop_bit 6 c) OR (c AND 0x3f) = c"
  by (simp_all only: bits_simps, (rule u8_bits_eqI; simp add: bit_simps)+)


section \<open>Decoding what was encoded\<close>

lemma less_64_not_80: "i < 64 \<Longrightarrow> i \<noteq> (0x80 :: u8)"
  by auto

lemma decode_quad:
  assumes "i < 64" "j < 64" "k < 64" "l < 64"
  shows "base64_decode_loop (b64 i # b64 j # b64 k # b64 l # src) [] 0 out
       = base64_decode_loop src [] 0 (out @ base64_triple [i, j, k, l])"
  using assms by (simp add: dtable_b64 b64_no_pad less_64_not_80)

lemma decode_newline: "base64_decode_loop (0x0A # src) block pad out = base64_decode_loop src block pad out"
  by (simp add: dtable_newline)

lemma decode_pad2:
  assumes "i < 64" "j < 64"
  shows "base64_decode_loop (b64 i # b64 j # 0x3D # 0x3D # src) [] 0 out
       = Some (out @ [push_bit 2 i OR drop_bit 4 j])"
  using assms
  by (simp add: dtable_b64 b64_no_pad less_64_not_80 dtable_pad base64_triple_def butlast_append)

lemma decode_pad1:
  assumes "i < 64" "j < 64" "k < 64"
  shows "base64_decode_loop (b64 i # b64 j # b64 k # 0x3D # src) [] 0 out
       = Some (out @ [push_bit 2 i OR drop_bit 4 j, push_bit 4 j OR drop_bit 2 k])"
  using assms
  by (simp add: dtable_b64 b64_no_pad less_64_not_80 dtable_pad base64_triple_def butlast_append)

lemmas decode_steps = decode_quad decode_newline decode_pad1 decode_pad2

lemma decode_blocks:
  "base64_blocks src l = (o1, rest, l') \<Longrightarrow>
     \<exists>pre. src = pre @ rest \<and> length rest < 3
       \<and> (\<forall>tl out. base64_decode_loop (o1 @ tl) [] 0 out = base64_decode_loop tl [] 0 (out @ pre))"
proof (induction src l arbitrary: o1 rest l' rule: base64_blocks.induct)
  case (1 a b c src l)
  show ?case
  proof (cases "72 \<le> l + 4")
    case True
    obtain o2 where o2: "base64_blocks src 0 = (o2, rest, l')"
      and o1: "o1 = [b64 (drop_bit 2 a), b64 (push_bit 4 (a AND 3) OR drop_bit 4 b),
          b64 (push_bit 2 (b AND 15) OR drop_bit 6 c), b64 (c AND 0x3f)] @ 0x0A # o2"
      using "1.prems" True by (auto simp: Let_def split: prod.splits)
    from "1.IH"(1)[OF refl refl True o2] obtain pre where "src = pre @ rest" "length rest < 3"
      "\<And>tl out. base64_decode_loop (o2 @ tl) [] 0 out = base64_decode_loop tl [] 0 (out @ pre)" by auto
    then show ?thesis unfolding o1
      by (intro exI[of _ "a # b # c # pre"])
        (simp add: decode_steps base64_triple_def triple_digits del: base64_decode_loop.simps)
  next
    case False
    obtain o2 where o2: "base64_blocks src (l + 4) = (o2, rest, l')"
      and o1: "o1 = [b64 (drop_bit 2 a), b64 (push_bit 4 (a AND 3) OR drop_bit 4 b),
          b64 (push_bit 2 (b AND 15) OR drop_bit 6 c), b64 (c AND 0x3f)] @ o2"
      using "1.prems" False by (auto simp: Let_def split: prod.splits)
    from "1.IH"(2)[OF refl refl False o2] obtain pre where "src = pre @ rest" "length rest < 3"
      "\<And>tl out. base64_decode_loop (o2 @ tl) [] 0 out = base64_decode_loop tl [] 0 (out @ pre)" by auto
    then show ?thesis unfolding o1
      by (intro exI[of _ "a # b # c # pre"])
        (simp add: decode_steps base64_triple_def triple_digits del: base64_decode_loop.simps)
  qed
qed auto

lemma decode_tail:
  "length rest < 3 \<Longrightarrow> base64_decode_loop (base64_tail rest l) [] 0 out = Some (out @ rest)"
proof -
  assume "length rest < 3"
  then consider "rest = []" | a where "rest = [a]" | a b where "rest = [a, b]"
    by (cases rest; cases "tl rest"; cases "tl (tl rest)") auto
  then show ?thesis
    by cases (simp_all add: base64_tail_def decode_steps triple_digits base64_triple_def dtable_newline
        del: base64_decode_loop.simps(2))
qed

lemma decode_text: "base64_decode_loop (base64_text src) [] 0 [] = Some src"
proof -
  obtain o1 rest l where b: "base64_blocks src 0 = (o1, rest, l)" by (cases "base64_blocks src 0")
  from decode_blocks[OF b] show ?thesis
    using decode_tail[of rest l] by (auto simp: base64_text_def b)
qed

text \<open>The first pass of the decoder counts a multiple of four digits.\<close>

lemma count_Cons: "base64_count (c # src) = (if dtable ! unat c = 0x80 then 0 else 1) + base64_count src"
  by (simp add: base64_count_def)

lemma count_append: "base64_count (xs @ ys) = base64_count xs + base64_count ys"
  by (simp add: base64_count_def)

lemma count_blocks:
  "base64_blocks src l = (o1, rest, l') \<Longrightarrow>
     4 * (length src div 3) = base64_count o1 \<and> length rest = length src mod 3"
proof (induction src l arbitrary: o1 rest l' rule: base64_blocks.induct)
  case (1 a b c src l)
  note quad = count_Cons dtable_b64 dtable_newline less_64_not_80
  obtain o2 where "base64_blocks src (if 72 \<le> l + 4 then 0 else l + 4) = (o2, rest, l')"
    and "base64_count o1 = 4 + base64_count o2"
    using "1.prems" by (auto simp: Let_def quad split: prod.splits if_splits)
  moreover have "(3 + length src) div 3 = Suc (length src div 3)" by simp
  ultimately show ?case using "1.IH"[OF refl refl] by (auto split: if_splits)
qed (auto simp: base64_count_def)

lemma count_tail:
  "length rest < 3 \<Longrightarrow> base64_count (base64_tail rest l) = (if rest = [] then 0 else 4)"
proof -
  assume "length rest < 3"
  then consider "rest = []" | a where "rest = [a]" | a b where "rest = [a, b]"
    by (cases rest; cases "tl rest"; cases "tl (tl rest)") auto
  then show ?thesis
    by cases (simp_all add: base64_tail_def count_Cons dtable_b64 dtable_newline dtable_pad
        less_64_not_80 base64_count_def[of "[]"])
qed

lemma count_arith: "4 * ((n + 2) div 3) = 4 * (n div 3) + (if n mod 3 = 0 then 0 else (4 :: nat))"
proof -
  have "n + 2 = (n mod 3 + 2) + n div 3 * 3" by simp
  then have "(n + 2) div 3 = n div 3 + (n mod 3 + 2) div 3"
    by (simp only: div_mult_self1 zero_neq_numeral not_False_eq_True)
  moreover have "n mod 3 = 0 \<or> n mod 3 = 1 \<or> n mod 3 = 2" using mod_less_divisor[of 3 n] by auto
  ultimately show ?thesis by auto
qed

lemma count_text: "base64_count (base64_text src) = 4 * ((length src + 2) div 3)"
proof -
  obtain o1 rest l where b: "base64_blocks src 0 = (o1, rest, l)" by (cases "base64_blocks src 0")
  from count_blocks[OF b] have "4 * (length src div 3) = base64_count o1" "length rest = length src mod 3"
    by auto
  moreover from this(2) have "length rest < 3" by simp
  ultimately show ?thesis
    using count_tail[of rest l] count_arith[of "length src"] by (cases rest) (auto simp: base64_text_def b count_append)
qed


text \<open>The contract of a codec; the empty input is excluded, since the decoder returns NULL on it.\<close>

interpretation base64_codec: codec "\<lambda>src. src \<noteq> []" base64_text "base64_decode (\<lambda>_. True)"
proof unfold_locales
  fix src :: bytes
  assume "src \<noteq> []"
  then have "0 < (length src + 2) div 3" by (cases src) auto
  then show "base64_decode (\<lambda>_. True) (base64_text src) = Some src"
    by (simp add: base64_decode_def count_text decode_text)
qed

section \<open>The output fits its buffer\<close>

lemma length_blocks:
  "base64_blocks src l = (o1, rest, l') \<Longrightarrow> l < 72 \<Longrightarrow> 4 dvd l \<Longrightarrow>
     length o1 = 4 * (length src div 3) + (l + 4 * (length src div 3)) div 72
     \<and> l' = (l + 4 * (length src div 3)) mod 72 \<and> length rest = length src mod 3"
proof (induction src l arbitrary: o1 rest l' rule: base64_blocks.induct)
  case (1 a b c src l)
  have k: "(3 + length src) div 3 = Suc (length src div 3)" by simp
  show ?case
  proof (cases "72 \<le> l + 4")
    case True
    then have l: "l = 68" using "1.prems" by (auto elim!: dvdE)
    obtain o2 where o2: "base64_blocks src 0 = (o2, rest, l')" and "length o1 = 5 + length o2"
      using "1.prems"(1) True by (auto simp: Let_def split: prod.splits)
    then show ?thesis using "1.IH"(1)[OF refl refl True o2] k by (simp add: l)
  next
    case False
    obtain o2 where o2: "base64_blocks src (l + 4) = (o2, rest, l')" and "length o1 = 4 + length o2"
      using "1.prems"(1) False by (auto simp: Let_def split: prod.splits)
    then show ?thesis using "1.IH"(2)[OF refl refl False o2] "1.prems" False k
      by (simp add: algebra_simps)
  qed
qed auto

lemma length_text:
  "length (base64_text src) \<le> 4 * (length src div 3) + 4 * (length src div 3) div 72
     + (if length src mod 3 = 0 then 1 else 5)"
proof -
  obtain o1 rest l where b: "base64_blocks src 0 = (o1, rest, l)" by (cases "base64_blocks src 0")
  from length_blocks[OF b] have "length o1 = 4 * (length src div 3) + (4 * (length src div 3)) div 72"
    "length rest = length src mod 3" by auto
  then show ?thesis
    by (auto simp: base64_text_def b base64_tail_def split: list.split)
qed

text \<open>The allocated size, with the wrap-around of the 64-bit product.\<close>

lemma unat_olen:
  fixes len :: u64
  assumes "base64_olen len = Some olen"
  shows "unat olen = 4 * unat len div 3 + 4 + (4 * unat len div 3 + 4) div 72 + 1"
proof -
  let ?n = "unat len" and ?M = "2 ^ 64 :: nat"
  let ?m = "(4 * ?n) mod ?M"
  have n: "?n < ?M" using u64_less[of len] by simp
  have m: "?m < ?M" by simp
  have 1: "unat (len * 4 div 3 + 4) = ?m div 3 + 4"
    using m by (simp add: unat_word_ariths unat_div mult.commute)
  define x where "x = len * 4 div 3 + 4"
  have "?m div 3 + 4 + (?m div 3 + 4) div 72 + 1 < ?M" using m by simp
  then have 2: "unat (x + x div 72 + 1) = ?m div 3 + 4 + (?m div 3 + 4) div 72 + 1"
    using 1 by (simp add: unat_word_ariths(1) unat_div flip: x_def)
  have le: "?n \<le> ?m div 3 + 4 + (?m div 3 + 4) div 72 + 1"
    using assms by (auto simp: base64_olen_def Let_def word_less_nat_alt 2 simp flip: x_def split: if_splits)
  have "4 * ?n < ?M"
  proof (rule ccontr)
    assume "\<not> 4 * ?n < ?M"
    then have "1 \<le> 4 * ?n div ?M" by (simp add: Suc_le_eq div_greater_zero_iff)
    then have "?m + ?M \<le> 4 * ?n"
      by (metis add.commute add_le_mono div_mult_mod_eq le_refl mult.commute mult_le_mono1 nat_mult_1)
    then show False using le m by simp
  qed
  then show ?thesis using assms 2 by (auto simp: base64_olen_def Let_def simp flip: x_def split: if_splits)
qed


text \<open>
  Whatever non-empty input \<open>base64_encode\<close> encodes, \<open>base64_decode\<close> returns it from the
  encoding, line feeds and padding included.
\<close>

lemma base64_decode_encode:
  assumes "base64_encode alloc src = Some t" and "src \<noteq> []"
  shows "base64_decode (\<lambda>_. True) t = Some src"
proof -
  have "t = base64_text src"
    using assms(1) by (auto simp: base64_encode_def split: option.splits if_splits)
  then show ?thesis using base64_codec.dec_enc[OF assms(2)] by simp
qed

lemma base64_decode_encode_example:
  "base64_encode (\<lambda>_. True) (str ''pleasure.'') = Some (str ''cGxlYXN1cmUu'' @ [0x0A]) \<and>
   base64_decode (\<lambda>_. True) (str ''cGxlYXN1cmUu'' @ [0x0A]) = Some (str ''pleasure.'')"
proof -
  have e: "base64_encode (\<lambda>_. True) (str ''pleasure.'') = Some (str ''cGxlYXN1cmUu'' @ [0x0A])"
    by (simp add: base64_encode_def base64_olen_def base64_text_def base64_tail_def b64_def
        base64_table_def str_def)
  then show ?thesis using base64_decode_encode[OF e] by (simp add: str_def)
qed

text \<open>
  The size \<open>base64_encode\<close> allocates, computed with 64-bit wrap-around, always holds
  the text it writes and the terminating NUL: its overflow check is enough.
\<close>

lemma base64_encode_fits:
  assumes "base64_olen (of_nat (length src)) = Some olen" and "length src < 2 ^ 64"
  shows "length (base64_text src) + 1 \<le> unat olen"
proof -
  have n: "unat (of_nat (length src) :: u64) = length src"
    using assms(2) by (simp add: unat_of_nat)
  let ?k = "length src div 3"
  have "4 * ?k + (if length src mod 3 = 0 then 0 else 1) \<le> 4 * length src div 3" by presburger
  moreover have "4 * ?k div 72 \<le> (4 * length src div 3 + 4) div 72"
    using calculation by (intro div_le_mono) (auto split: if_splits)
  ultimately show ?thesis
    using length_text[of src] unat_olen[OF assms(1)] n by (auto split: if_splits)
qed

lemma base64_encode_fits_example:
  "base64_olen (of_nat (length (str ''abcd''))) = Some 10 \<and> length (base64_text (str ''abcd'')) + 1 \<le> 10"
proof -
  have o: "base64_olen (of_nat (length (str ''abcd''))) = Some 10"
    by (simp add: base64_olen_def str_def)
  show ?thesis using base64_encode_fits[OF o] o by (simp add: str_def)
qed

end
