(* ===== verification/Hashpop.thy ===== *)
theory Hashpop
  imports Urldecode Base64
begin

text \<open>
  \<open>hashpop/challenge/src/hashpop.c\<close>: a CGI program that hashes one form field. The
  request line is split with \<open>strtok\<close>, its fields are percent-decoded, and the digest
  is written into the 16-byte field \<open>output\<close> of the heap record \<open>hash_runner\<close>, in front
  of the function pointer \<open>print_func\<close>.

  The digest functions of OpenSSL are a parameter \<open>dig\<close>; what the code relies on is the
  length of its result. The addresses of the program's functions are a parameter
  \<open>addr\<close>.
\<close>

section \<open>Data\<close>

datatype alg = MD5 | SHA1 | SHA256 | SHA512

fun alg_bits :: "alg \<Rightarrow> nat" where
  "alg_bits MD5 = 128"
| "alg_bits SHA1 = 160"
| "alg_bits SHA256 = 256"
| "alg_bits SHA512 = 512"

text \<open>The functions of the program a pointer of type \<open>printer *\<close> can name.\<close>

datatype func = PrintHex alg | PrintB64 alg | PrintFlag | PrintFlagJson | PrintFlagXml

text \<open>
  \<open>struct hash_runner\<close>. A string pointer is the string it points to, \<open>None\<close> for NULL.
  The last two fields of the struct and the heap behind it are one region of bytes,
  \<open>area\<close>: \<open>output\<close> is its bytes 0 to 15, \<open>print_func\<close> its bytes 16 to 23, and what
  follows is behind the allocation.
\<close>

record hash_runner =
  input :: "bytes option"
  input_len :: nat
  hash_name :: bytes
  op_format :: "bytes option"
  which_hash :: "alg option"
  area :: bytes

definition print_func :: "hash_runner \<Rightarrow> u64" where
  "print_func h = of_le (take 8 (drop 16 (area h)))"

definition set_print_func :: "hash_runner \<Rightarrow> u64 \<Rightarrow> hash_runner" where
  "set_print_func h p = h\<lparr>area := take 16 (area h) @ le_bytes 8 p @ drop 24 (area h)\<rparr>"

section \<open>Parsing the request\<close>

text \<open>
  \<open>strtok(buf, "&")\<close> on the string of \<open>buf\<close>: the maximal runs of bytes other than the
  ampersand.
\<close>

function strtok_amp :: "bytes \<Rightarrow> bytes list" where
  "strtok_amp s =
     (case dropWhile (\<lambda>c. c = 0x26) s of
        [] \<Rightarrow> []
      | c # cs \<Rightarrow> takeWhile (\<lambda>c. c \<noteq> 0x26) (c # cs) # strtok_amp (dropWhile (\<lambda>c. c \<noteq> 0x26) (c # cs)))"
  by pat_completeness auto
termination
proof (relation "measure length", goal_cases)
  case (2 s c cs)
  then have d: "dropWhile (\<lambda>c. c = 0x26) s = c # cs" by simp
  then have "c \<noteq> 0x26" using hd_dropWhile[of "\<lambda>c. c = 0x26" s] by simp
  then have "length (dropWhile (\<lambda>c. c \<noteq> 0x26) (c # cs)) \<le> length cs"
    using length_dropWhile_le[of "\<lambda>c. c \<noteq> 0x26" cs] by simp
  moreover have "length (c # cs) \<le> length s"
    using length_dropWhile_le[of "\<lambda>c. c = 0x26" s] unfolding d .
  ultimately show ?case by simp
qed simp

declare strtok_amp.simps [simp del]

definition MAX_FIELDS :: nat where
  "MAX_FIELDS = 10"

text \<open>
  The loop that collects the tokens after the first. It tests the number of fields
  before it asks \<open>strtok\<close> for one more; \<open>None\<close> is \<open>goto parse_done\<close> with \<open>rv = 1\<close>.
\<close>

fun collect_fields :: "nat \<Rightarrow> bytes list \<Rightarrow> bytes list option" where
  "collect_fields n [] = (if n \<ge> MAX_FIELDS then None else Some [])"
| "collect_fields n (t # ts) =
     (if n \<ge> MAX_FIELDS then None else map_option ((#) t) (collect_fields (n + 1) ts))"

text \<open>
  \<open>fields[0].key\<close> is \<open>buf\<close> itself, not the first token: leading separators stay in it,
  and \<open>strtok\<close> has put its NUL behind the first token.
\<close>

definition request_fields :: "bytes \<Rightarrow> bytes list option" where
  "request_fields s =
     (case strtok_amp s of
        [] \<Rightarrow> Some [s]
      | t # ts \<Rightarrow> map_option ((#) (takeWhile (\<lambda>c. c = 0x26) s @ t)) (collect_fields 1 ts))"

definition urldecode_str :: "bytes \<Rightarrow> bytes" where
  "urldecode_str s = (case urldecode (s @ [0]) of Some (b, n) \<Rightarrow> take n b | None \<Rightarrow> [])"

text \<open>One field: the new record and what \<open>printf\<close> writes.\<close>

definition parse_field :: "bytes \<Rightarrow> hash_runner \<times> bytes \<Rightarrow> hash_runner \<times> bytes" where
  "parse_field f st =
     (case st of (h, out) \<Rightarrow>
        if 0x3D \<notin> set f then (h, out)
        else
          let key = cstr (urldecode_str (takeWhile (\<lambda>c. c \<noteq> 0x3D) f));
              val = urldecode_str (tl (dropWhile (\<lambda>c. c \<noteq> 0x3D) f))
          in if key = str ''output'' then (h\<lparr>op_format := Some (cstr val)\<rparr>, out)
             else if key = str ''input'' then (h\<lparr>input := Some val, input_len := length val\<rparr>, out)
             else if key = str ''hash'' then (h\<lparr>hash_name := cstr val\<rparr>, out)
             else if key = str ''blog''
               then (h, out @ str ''X-WWW-Blog: https://systemoverlord.com/'' @ [0x0D, 0x0A])
             else (h, out))"

definition parse_request :: "bool \<Rightarrow> hash_runner \<Rightarrow> bytes \<Rightarrow> (hash_runner \<times> bytes) option" where
  "parse_request calloc_ok h s =
     (if \<not> calloc_ok then None
      else (case request_fields s of
              None \<Rightarrow> None
            | Some fs \<Rightarrow> Some (fold parse_field fs (h, []))))"

section \<open>Hashing and printing\<close>

definition is_b64_format :: "bytes option \<Rightarrow> bool" where
  "is_b64_format f \<longleftrightarrow> f = Some (str ''base64'') \<or> f = Some (str ''b64'')"

definition choose_hash :: "(func \<Rightarrow> u64) \<Rightarrow> alg \<Rightarrow> hash_runner \<Rightarrow> hash_runner" where
  "choose_hash addr a h =
     set_print_func (h\<lparr>which_hash := Some a\<rparr>)
       (addr (if is_b64_format (op_format h) then PrintB64 a else PrintHex a))"

definition set_hash_and_printer :: "(func \<Rightarrow> u64) \<Rightarrow> hash_runner \<Rightarrow> hash_runner" where
  "set_hash_and_printer addr h =
     (let n = hash_name h in
      if n = str ''md5'' \<or> n = str ''MD5'' then choose_hash addr MD5 h
      else if n = str ''sha1'' \<or> n = str ''SHA1'' then choose_hash addr SHA1 h
      else if n = str ''sha256'' \<or> n = str ''SHA256'' then choose_hash addr SHA256 h
      else if n = str ''sha512'' \<or> n = str ''SHA512'' then choose_hash addr SHA512 h
      else h)"

text \<open>
  \<open>EVP_DigestFinal_ex\<close> writes the whole digest at \<open>output\<close>, whatever the field's size;
  \<open>None\<close> when even the modelled memory behind the record is too short.
\<close>

definition exec_hashing :: "(alg \<Rightarrow> bytes \<Rightarrow> bytes) \<Rightarrow> alg \<Rightarrow> hash_runner \<Rightarrow> hash_runner option" where
  "exec_hashing dig a h =
     (let d = dig a (take (input_len h) (case input h of Some s \<Rightarrow> s | None \<Rightarrow> [])) in
      if length d \<le> length (area h)
      then Some (h\<lparr>area := d @ drop (length d) (area h)\<rparr>)
      else None)"

definition print_header :: bytes where
  "print_header = str ''Content-type: text/plain'' @ [0x0D, 0x0A, 0x0D, 0x0A]"

definition b64_print :: "bytes \<Rightarrow> bytes" where
  "b64_print what = (case base64_encode (\<lambda>_. True) what of Some e \<Rightarrow> e @ [0x0A] | None \<Rightarrow> [0x0A])"

text \<open>
  \<open>print_flag\<close>, \<open>print_flag_json\<close>, \<open>print_flag_xml\<close>. \<open>flag\<close> is the content of the file
  \<open>open_flag\<close> opens. A flag of 256 bytes fills \<open>buf\<close>, and the NUL stored behind it is out of
  bounds (\<open>None\<close>).
\<close>

definition read_flag :: "bytes \<Rightarrow> bytes option" where
  "read_flag f = (if length f < 256 then Some (cstr f) else None)"

definition print_flag :: "bytes option \<Rightarrow> bytes option" where
  "print_flag flag =
     (case flag of
        None \<Rightarrow> Some print_header
      | Some f \<Rightarrow>
          if f = [] then Some print_header
          else map_option (\<lambda>s. print_header @ s @ [0x0A]) (read_flag f))"

definition print_flag_json :: "bytes option \<Rightarrow> bytes option" where
  "print_flag_json flag =
     (case flag of
        None \<Rightarrow> Some []
      | Some f \<Rightarrow>
          if f = [] then Some []
          else map_option (\<lambda>s. str ''Content-type: application/json'' @ [0x0D, 0x0A, 0x0D, 0x0A]
            @ str ''{'' @ [0x22] @ str ''flag'' @ [0x22] @ str '': '' @ [0x22] @ s @ [0x22]
            @ str ''}'' @ [0x0A]) (read_flag f))"

definition print_flag_xml :: "bytes option \<Rightarrow> bytes option" where
  "print_flag_xml flag =
     (case flag of
        None \<Rightarrow> Some []
      | Some f \<Rightarrow>
          if f = [] then Some []
          else map_option (\<lambda>s. str ''Content-type: application/xml'' @ [0x0D, 0x0A, 0x0D, 0x0A]
            @ str ''<flag>'' @ s @ str ''</flag>'' @ [0x0A]) (read_flag f))"

text \<open>
  A call through a function pointer: the function at that address, \<open>None\<close> when no
  function of the program is there. \<open>mem\<close> is the memory its argument points to.
\<close>

definition call :: "(u64 \<Rightarrow> func option) \<Rightarrow> bytes option \<Rightarrow> u64 \<Rightarrow> bytes \<Rightarrow> bytes option" where
  "call at flag p mem =
     (case at p of
        None \<Rightarrow> None
      | Some (PrintHex a) \<Rightarrow>
          if alg_bits a div 8 \<le> length mem
          then Some (hex_bytes (take (alg_bits a div 8) mem) @ [0x0A]) else None
      | Some (PrintB64 a) \<Rightarrow>
          if alg_bits a div 8 \<le> length mem
          then Some (b64_print (take (alg_bits a div 8) mem)) else None
      | Some PrintFlag \<Rightarrow> print_flag flag
      | Some PrintFlagJson \<Rightarrow> print_flag_json flag
      | Some PrintFlagXml \<Rightarrow> print_flag_xml flag)"

definition print_hash :: "(u64 \<Rightarrow> func option) \<Rightarrow> bytes option \<Rightarrow> hash_runner \<Rightarrow> bytes option" where
  "print_hash at flag h = map_option ((@) print_header) (call at flag (print_func h) (area h))"

section \<open>The program\<close>

text \<open>
  \<open>rstrip\<close>: walks the string from its end to its start and writes a NUL over every
  carriage return and line feed it meets.
\<close>

fun rstrip_loop :: "bytes \<Rightarrow> nat \<Rightarrow> bytes option" where
  "rstrip_loop b 0 = Some b"
| "rstrip_loop b (Suc s) =
     (case rd b s of
        None \<Rightarrow> None
      | Some c \<Rightarrow>
          if c = 0x0D \<or> c = 0x0A
          then (case wr b s 0 of None \<Rightarrow> None | Some b \<Rightarrow> rstrip_loop b s)
          else rstrip_loop b s)"

definition rstrip :: "bytes \<Rightarrow> bytes option" where
  "rstrip b = rstrip_loop b (strlen b + 1)"

definition BUF_SIZE :: nat where
  "BUF_SIZE = 65536"

text \<open>The environment of a run: memory contents, library and file system.\<close>

record env =
  stdin :: bytes
  heap_buf :: bytes
  heap_runner :: hash_runner
  calloc_ok :: bool
  digest :: "alg \<Rightarrow> bytes \<Rightarrow> bytes"
  func_addr :: "func \<Rightarrow> u64"
  func_at :: "u64 \<Rightarrow> func option"
  flag_file :: "bytes option"

datatype outcome = Exit nat bytes

text \<open>
  \<open>main\<close>: \<open>None\<close> when the run leaves its buffers or calls through a wild pointer,
  otherwise the exit status and the output. \<open>heap_buf\<close> and \<open>heap_runner\<close> are what
  \<open>malloc\<close> returned, with whatever contents the memory had.
\<close>

definition hashpop_main :: "env \<Rightarrow> outcome option" where
  "hashpop_main e =
     (let inp = take BUF_SIZE (stdin e) in
      if inp = [] then Some (Exit 1 [])
      else do {
        buf \<leftarrow> wr (inp @ drop (length inp) (heap_buf e)) (length inp) 0;
        buf \<leftarrow> rstrip buf;
        let h = (heap_runner e)\<lparr>hash_name := str ''md5'', op_format := Some (str ''hex'')\<rparr>;
        (case parse_request (calloc_ok e) h (cstr buf) of
           None \<Rightarrow> Some (Exit 1 [])
         | Some (h, out) \<Rightarrow>
             if input h = None then Some (Exit 1 out)
             else
               let h = set_hash_and_printer (func_addr e) (h\<lparr>which_hash := None\<rparr>)
               in (case which_hash h of
                     None \<Rightarrow> Some (Exit 1 out)
                   | Some a \<Rightarrow> do {
                       h \<leftarrow> exec_hashing (digest e) a h;
                       p \<leftarrow> print_hash (func_at e) (flag_file e) h;
                       Some (Exit 0 (out @ p)) }))
      })"


section \<open>Lemmas\<close>

lemma rstrip_loop_map:
  "s \<le> length b \<Longrightarrow>
     rstrip_loop b s = Some (map (\<lambda>c. if c = 0x0D \<or> c = 0x0A then 0 else c) (take s b) @ drop s b)"
proof (induction s arbitrary: b)
  case (Suc s)
  then have s: "s < length b" by simp
  have t: "take (Suc s) b = take s b @ [b ! s]" using s by (rule take_Suc_conv_app_nth)
  have d: "drop s b = b ! s # drop (Suc s) b" using s by (simp add: Cons_nth_drop_Suc)
  show ?case
    using Suc.IH[of b] Suc.IH[of "b[s := 0]"] s by (simp add: rd_in wr_in t d drop_update_swap)
qed simp

lemma cstr_map_strip:
  "cstr (map (\<lambda>c. if c = 0x0D \<or> c = 0x0A then 0 else c) xs)
     = takeWhile (\<lambda>c. c \<noteq> 0x0D \<and> c \<noteq> 0x0A) (cstr xs)"
  by (induction xs) auto

lemma cstr_append: "cstr (xs @ ys) = (if 0 \<in> set xs then cstr xs else xs @ cstr ys)"
  by (induction xs) auto

lemma collect_fields_None: "collect_fields n ts = None \<longleftrightarrow> MAX_FIELDS \<le> n + length ts"
  by (induction n ts rule: collect_fields.induct) (auto simp: MAX_FIELDS_def)

lemma collect_fields_Some: "collect_fields n ts = Some fs \<Longrightarrow> fs = ts"
  by (induction n ts arbitrary: fs rule: collect_fields.induct) (auto split: if_splits)

lemma urldecode_str_decode: "0 \<notin> set s \<Longrightarrow> urldecode_str s = decode s"
proof -
  assume s: "0 \<notin> set s"
  have "loop_ok [] [] s []" using s by (rule urldecode_loop_ok)
  then show ?thesis by (auto simp: loop_ok_start urldecode_str_def)
qed

lemma strtok_amp_single:
  assumes "0x26 \<notin> set s" and "s \<noteq> []"
  shows "strtok_amp s = [s]"
proof -
  obtain c cs where s: "s = c # cs" using assms(2) by (cases s) auto
  have t: "takeWhile (\<lambda>c. c \<noteq> 0x26) s = s" and d: "dropWhile (\<lambda>c. c \<noteq> 0x26) s = []"
    using assms(1) by (auto simp: takeWhile_eq_all_conv dropWhile_eq_Nil_conv)
  have "dropWhile (\<lambda>c. c = 0x26) s = c # cs" using assms(1) s by auto
  moreover have "strtok_amp [] = []" by (subst strtok_amp.simps) simp
  ultimately show ?thesis using t d unfolding s by (subst strtok_amp.simps) simp
qed

lemma hex_digit_range:
  "n < 16 \<Longrightarrow> hex_digit n \<noteq> 0x26 \<and> hex_digit n \<noteq> 0x3D \<and> hex_digit n \<noteq> 0x0D
     \<and> hex_digit n \<noteq> 0x0A \<and> hex_digit n \<noteq> 0"
  by (auto simp: hex_digit_def word_less_nat_alt unat_word_ariths word_unat_eq_iff)

lemma percent_encode_chars:
  assumes "c \<in> set (percent_encode xs)"
  shows "c \<noteq> 0x26 \<and> c \<noteq> 0x3D \<and> c \<noteq> 0x0D \<and> c \<noteq> 0x0A \<and> c \<noteq> 0"
proof -
  have "c = 0x25 \<or> (\<exists>n < 16. c = hex_digit n)"
    using assms nibble_less_16 by (auto simp: percent_encode_def split: if_splits)
  then show ?thesis using hex_digit_range by auto
qed

lemma print_func_set:
  assumes "24 \<le> length (area h)"
  shows "print_func (set_print_func h p) = p"
proof -
  have "take 8 (drop 16 (take 16 (area h) @ le_bytes 8 p @ drop 24 (area h))) = le_bytes 8 p"
    using assms by simp
  then show ?thesis by (simp add: print_func_def set_print_func_def del: take_append drop_append)
qed

lemma parse_input_field:
  "parse_field (str ''input='' @ percent_encode x) (h, out) = (h\<lparr>input := Some x, input_len := length x\<rparr>, out)"
proof -
  let ?s = "str ''input='' @ percent_encode x"
  have s: "?s = str ''input'' @ 0x3D # percent_encode x" by (simp add: str_def)
  have ne: "0x3D \<notin> set (str ''input'')" by (simp add: str_def)
  then have "takeWhile (\<lambda>c. c \<noteq> 0x3D) ?s = str ''input''"
    and "tl (dropWhile (\<lambda>c. c \<noteq> 0x3D) ?s) = percent_encode x"
    unfolding s by (auto simp: takeWhile_append dropWhile_append)
  moreover have "urldecode_str (str ''input'') = str ''input''"
    by (subst urldecode_str_decode) (simp_all add: str_def)
  moreover have "urldecode_str (percent_encode x) = x"
    using percent_encode_chars[of 0 x] by (subst urldecode_str_decode) (auto simp: decode_percent_encode)
  moreover have "0x3D \<in> set ?s" unfolding s by simp
  moreover have "cstr (str ''input'') = str ''input''" "str ''input'' \<noteq> str ''output''"
    by (simp_all add: str_def)
  ultimately show ?thesis by (simp add: parse_field_def Let_def)
qed

lemma choose_md5:
  "hash_name h = str ''md5'' \<Longrightarrow> op_format h = Some (str ''hex'') \<Longrightarrow>
     set_hash_and_printer addr h = set_print_func (h\<lparr>which_hash := Some MD5\<rparr>) (addr (PrintHex MD5))"
proof -
  have "str ''hex'' \<noteq> str ''base64''" "str ''hex'' \<noteq> str ''b64''" by (simp_all add: str_def)
  then show "hash_name h = str ''md5'' \<Longrightarrow> op_format h = Some (str ''hex'') \<Longrightarrow> ?thesis"
    by (simp add: set_hash_and_printer_def choose_hash_def is_b64_format_def)
qed

lemma md5_printed:
  assumes "24 \<le> length (area h)" "input h = Some x" "input_len h = length x"
    and "length (dig MD5 x) = 16" "at (print_func h) = Some (PrintHex MD5)"
  shows "\<exists>h'. exec_hashing dig MD5 h = Some h'
    \<and> print_hash at flag h' = Some (print_header @ hex_bytes (dig MD5 x) @ [0x0A])"
proof -
  let ?h' = "h\<lparr>area := dig MD5 x @ drop 16 (area h)\<rparr>"
  have "exec_hashing dig MD5 h = Some ?h'" using assms by (simp add: exec_hashing_def)
  moreover have "print_func ?h' = print_func h" using assms by (simp add: print_func_def)
  ultimately show ?thesis
    using assms by (intro exI[of _ ?h']) (simp add: print_hash_def call_def)
qed

lemma rstrip_ok:
  assumes "terminated b"
  shows "\<exists>b'. rstrip b = Some b' \<and> length b' = length b
    \<and> cstr b' = takeWhile (\<lambda>c. c \<noteq> 0x0D \<and> c \<noteq> 0x0A) (cstr b)"
proof -
  let ?f = "\<lambda>c :: u8. if c = 0x0D \<or> c = 0x0A then 0 else c"
  let ?n = "strlen b + 1"
  have n: "?n \<le> length b" using strlen_less[OF assms] by simp
  have t: "take ?n b = cstr b @ [0]"
    using nth_strlen[OF assms] strlen_less[OF assms] by (simp add: take_Suc_conv_app_nth cstr_take)
  then have "cstr (map ?f (take ?n b) @ drop ?n b) = cstr (map ?f (take ?n b))"
    by (simp add: cstr_append)
  also have "\<dots> = takeWhile (\<lambda>c. c \<noteq> 0x0D \<and> c \<noteq> 0x0A) (cstr b)"
    by (simp only: cstr_map_strip t) (simp add: cstr_append cstr_no_nul)
  finally show ?thesis
    using rstrip_loop_map[OF n] n by (intro exI[of _ "map ?f (take ?n b) @ drop ?n b"]) (simp add: rstrip_def)
qed

section \<open>Properties\<close>

text \<open>
  \<open>rstrip\<close> never leaves its buffer, and what it leaves as a string is the part before
  the first carriage return or line feed, wherever in the string that is.
\<close>

lemma rstrip_cuts_at_first_line_end:
  assumes "terminated b"
  shows "\<exists>b'. rstrip b = Some b' \<and> length b' = length b
    \<and> cstr b' = takeWhile (\<lambda>c. c \<noteq> 0x0D \<and> c \<noteq> 0x0A) (cstr b)"
  using assms by (rule rstrip_ok)

lemma rstrip_cuts_at_first_line_end_example:
  "\<exists>b'. rstrip (str ''a'' @ [0x0A] @ str ''b'' @ [0x0A, 0]) = Some b' \<and> cstr b' = str ''a''"
proof -
  have "terminated (str ''a'' @ [0x0A] @ str ''b'' @ [0x0A, 0])" by (simp add: terminated_def)
  from rstrip_cuts_at_first_line_end[OF this] show ?thesis by (auto simp: str_def)
qed

text \<open>
  \<open>parse_request\<close> fails on a request exactly when it has ten or more fields: the
  array of ten entries never takes more than nine.
\<close>

lemma parse_request_limit:
  "parse_request True h s = None \<longleftrightarrow> 10 \<le> length (strtok_amp s)"
proof (cases "strtok_amp s")
  case Nil
  then show ?thesis by (simp add: parse_request_def request_fields_def)
next
  case (Cons t ts)
  have "parse_request True h s = None \<longleftrightarrow> collect_fields 1 ts = None"
    by (simp add: parse_request_def request_fields_def Cons split: option.splits)
  then show ?thesis by (simp add: collect_fields_None MAX_FIELDS_def Cons)
qed


text \<open>
  C17: which digests reach the pointer the program calls next. Each digest is written whole, and only MD5 fits
  \<open>output\<close>: it leaves \<open>print_func\<close> alone. SHA-1 replaces its four low bytes by the last four bytes of the digest and keeps the
  other four; SHA-256 and SHA-512 replace all eight by the bytes 16 to 23 of the digest, and write the rest of it over the
  heap behind the record. So the pointer is the old one exactly for MD5, or when the bytes written happen to be its own.
\<close>

theorem exec_hashing_print_func:
  assumes "input h = Some s" "input_len h = length s" "length (dig a s) = alg_bits a div 8"
    and "24 \<le> length (area h)" "alg_bits a div 8 \<le> length (area h)"
  shows "\<exists>h'. exec_hashing dig a h = Some h' \<and> take (alg_bits a div 8) (area h') = dig a s \<and>
    (case a of
      MD5 \<Rightarrow> print_func h' = print_func h \<and> area h' = dig a s @ drop 16 (area h)
    | SHA1 \<Rightarrow> print_func h' = of_le (drop 16 (dig a s) @ take 4 (drop 20 (area h)))
    | _ \<Rightarrow> print_func h' = of_le (take 8 (drop 16 (dig a s)))
           \<and> take (alg_bits a div 8 - 24) (drop 24 (area h')) = drop 24 (dig a s)) \<and>
    (print_func h' = print_func h \<longleftrightarrow>
      a = MD5 \<or> take 8 (drop 16 (dig a s)) = take (length (take 8 (drop 16 (dig a s)))) (drop 16 (area h)))"
proof -
  let ?d = "dig a s"
  let ?h = "h\<lparr>area := ?d @ drop (length ?d) (area h)\<rparr>"
  have l: "length (take 8 (drop 16 (area ?h))) = 8" "length (take 8 (drop 16 (area h))) = 8" using assms(3-5) by auto
  have eq: "print_func ?h = print_func h \<longleftrightarrow> take 8 (drop 16 (area ?h)) = take 8 (drop 16 (area h))"
    unfolding print_func_def by (rule of_le_inject, simp only: l, simp only: l, simp)
  have s: "take 8 (drop 16 (area h)) = take 4 (drop 16 (area h)) @ take 4 (drop 20 (area h))"
    using take_add[of 4 4 "drop 16 (area h)"] by simp
  have e: "exec_hashing dig a h = Some ?h" using assms by (simp add: exec_hashing_def)
  have "print_func ?h = print_func h \<longleftrightarrow> a = MD5 \<or> take 8 (drop 16 ?d) = take (length (take 8 (drop 16 ?d))) (drop 16 (area h))"
    unfolding eq using assms(3-5) s by (cases a) (auto simp: append_eq_append_conv)
  then show ?thesis using e assms(3-5) by (cases a) (auto simp: print_func_def)
qed

definition runner0 :: hash_runner where
  "runner0 = \<lparr>input = Some [], input_len = 0, hash_name = [], op_format = None, which_hash = None,
     area = replicate 64 0\<rparr>"

theorem exec_hashing_print_func_witness:
  "\<exists>h'. exec_hashing (\<lambda>a s. replicate 16 0 @ replicate 16 7) SHA256 runner0 = Some h'
     \<and> print_func h' = of_le (replicate 8 7) \<and> print_func h' \<noteq> print_func runner0"
  using exec_hashing_print_func[of runner0 "[]" "\<lambda>a s. replicate 16 0 @ replicate 16 7" SHA256] by (auto simp: runner0_def)

text \<open>
  The whole program on a well-formed request. A request \<open>input=\<close> with the percent
  encoding of any bytes \<open>x\<close> is answered with the header and the MD5 digest of \<open>x\<close> in
  hexadecimal, whatever the heap held before.
\<close>

lemma hashpop_main_md5:
  assumes "stdin e = str ''input='' @ percent_encode x" and "3 * length x + 6 < BUF_SIZE"
    and "length (heap_buf e) = BUF_SIZE" and "24 \<le> length (area (heap_runner e))" and "calloc_ok e"
    and "length (digest e MD5 x) = 16"
    and "func_at e (func_addr e (PrintHex MD5)) = Some (PrintHex MD5)"
  shows "hashpop_main e = Some (Exit 0 (print_header @ hex_bytes (digest e MD5 x) @ [0x0A]))"
proof -
  let ?s = "str ''input='' @ percent_encode x"
  let ?b = "?s @ 0 # drop (Suc (length ?s)) (heap_buf e)"
  let ?h = "(heap_runner e)\<lparr>hash_name := str ''md5'', op_format := Some (str ''hex''),
      input := Some x, input_len := length x\<rparr>"
  have len: "length ?s = 3 * length x + 6"
    by (induction x) (auto simp: percent_encode_def str_def)
  have inp: "take BUF_SIZE (stdin e) = ?s" using assms(1,2) len by simp
  have ne: "?s \<noteq> []" by (simp add: str_def)
  have chars: "c \<in> set ?s \<Longrightarrow> c \<noteq> 0x26 \<and> c \<noteq> 0x0D \<and> c \<noteq> 0x0A \<and> c \<noteq> 0" for c
    using percent_encode_chars[of c x] by (auto simp: str_def)
  have nul: "0 \<notin> set ?s" using chars by metis
  have wr: "wr (?s @ drop (length ?s) (heap_buf e)) (length ?s) 0 = Some ?b"
  proof -
    have "length ?s < length (heap_buf e)" using assms(2,3) len by simp
    then have "drop (length ?s) (heap_buf e) = [heap_buf e ! length ?s] @ drop (Suc (length ?s)) (heap_buf e)"
      by (simp add: Cons_nth_drop_Suc)
    then show ?thesis using wr_front[of "[heap_buf e ! length ?s]" ?s "drop (Suc (length ?s)) (heap_buf e)" 0]
      by (simp only: append_Cons append_Nil list.sel not_Cons_self2 list.distinct simp_thms)
  qed
  have cb: "cstr ?b = ?s" using nul by (rule cstr_append_nul)
  have trm: "terminated ?b" by (simp add: terminated_def)
  have tw: "takeWhile (\<lambda>c. c \<noteq> 0x0D \<and> c \<noteq> 0x0A) ?s = ?s"
    unfolding takeWhile_eq_all_conv using chars by (intro ballI) metis
  obtain b' where "rstrip ?b = Some b'" "cstr b' = takeWhile (\<lambda>c. c \<noteq> 0x0D \<and> c \<noteq> 0x0A) (cstr ?b)"
    using rstrip_ok[OF trm] by (elim exE conjE)
  then have b': "rstrip ?b = Some b'" "cstr b' = ?s" using cb tw by simp_all
  have amp: "0x26 \<notin> set ?s" using chars by metis
  have "takeWhile (\<lambda>c. c = 0x26) ?s = []" by (simp add: str_def)
  then have fields: "request_fields ?s = Some [?s]"
    using strtok_amp_single[OF amp ne] by (simp add: request_fields_def MAX_FIELDS_def)
  let ?init = "(heap_runner e)\<lparr>hash_name := str ''md5'', op_format := Some (str ''hex'')\<rparr>"
  have parse: "parse_request (calloc_ok e) ?init ?s = Some (?h, [])"
    using fields assms(5) by (simp only: parse_request_def parse_input_field fold_simps option.case if_False not_True_eq_False)
  let ?g = "set_hash_and_printer (func_addr e) (?h\<lparr>which_hash := None\<rparr>)"
  have g: "?g = set_print_func (?h\<lparr>which_hash := Some MD5\<rparr>) (func_addr e (PrintHex MD5))"
    by (subst choose_md5) simp_all
  have gf: "24 \<le> length (area ?g)" "input ?g = Some x" "input_len ?g = length x"
    "which_hash ?g = Some MD5" "print_func ?g = func_addr e (PrintHex MD5)"
    using assms(4) by (simp_all add: g print_func_set) (simp_all add: set_print_func_def)
  obtain h' where
    "exec_hashing (digest e) MD5 ?g = Some h'"
    "print_hash (func_at e) (flag_file e) h' = Some (print_header @ hex_bytes (digest e MD5 x) @ [0x0A])"
    using md5_printed[of ?g x "digest e" "func_at e" "flag_file e"] gf assms(6,7) by auto
  then show ?thesis
    using inp ne wr b' parse gf(4) by (simp add: hashpop_main_def Let_def)
qed


definition env0 :: env where
  "env0 = \<lparr>stdin = str ''input=%41%26'', heap_buf = replicate BUF_SIZE 0xAA, heap_runner = runner0,
     calloc_ok = True, digest = (\<lambda>a s. replicate (alg_bits a div 8) (fold (\<lambda>a b. a XOR b) s 0)),
     func_addr = (\<lambda>_. 0x401000), func_at = (\<lambda>p. if p = 0x401000 then Some (PrintHex MD5) else None),
     flag_file = None\<rparr>"

lemma hashpop_main_md5_example:
  "hashpop_main env0 = Some (Exit 0 (print_header @ concat (replicate 16 (str ''67'')) @ [0x0A]))"
proof -
  have p: "percent_encode [0x41, 0x26] = str ''%41%26''"
    by (simp add: percent_encode_def hex_digit_def str_def)
  have "hashpop_main env0 = Some (Exit 0 (print_header @ hex_bytes (digest env0 MD5 [0x41, 0x26]) @ [0x0A]))"
  proof (rule hashpop_main_md5)
    show "stdin env0 = str ''input='' @ percent_encode [0x41, 0x26]"
      unfolding p by (simp add: env0_def str_def)
    show "3 * length [0x41, 0x26 :: u8] + 6 < BUF_SIZE" by (simp add: BUF_SIZE_def)
  qed (simp_all add: env0_def runner0_def)
  moreover have "hex_bytes (digest env0 MD5 [0x41, 0x26]) = concat (replicate 16 (str ''67''))"
    by (simp add: env0_def hex_bytes_def hex2_def hex_digit_def str_def)
  ultimately show ?thesis by simp
qed

end
