(* ===== verification/Ripc4.thy ===== *)
theory Ripc4
  imports Base64
begin

text \<open>
  \<open>ripc4/challenge/src/ripc4.c\<close>: an interactive encoder. A workspace has a type (plain,
  encoded, encrypted), an input buffer in guarded memory, and a union that is either the
  function printing an encoding or the state of RC4.
\<close>

section \<open>Data\<close>

datatype fault =
    OutOfBounds        \<comment> \<open>an access outside an object or into a guard page\<close>
  | NullDeref          \<comment> \<open>an access through a null pointer\<close>
  | BadFree            \<comment> \<open>\<open>secure_free\<close> of something \<open>secure_malloc\<close> did not return\<close>
  | CallsData bytes    \<comment> \<open>a call through a pointer to these bytes\<close>

text \<open>The union of \<open>workspace_t\<close>: one pointer-sized cell with two readings.\<close>

datatype cell = Null | PrintBase64 | PrintHex | EncState bytes

record workspace =
  wtype :: int
  input_buf :: "bytes option"
  buf_len :: nat
  cell :: cell

abbreviation (input) TYPE_PLAIN :: int where "TYPE_PLAIN \<equiv> 1"
abbreviation (input) TYPE_ENCODE :: int where "TYPE_ENCODE \<equiv> 2"
abbreviation (input) TYPE_ENCRYPT :: int where "TYPE_ENCRYPT \<equiv> 3"

definition CHECK_TYPE :: "workspace \<Rightarrow> int \<Rightarrow> bool" where
  "CHECK_TYPE ws t \<longleftrightarrow> wtype ws AND t = t"

section \<open>Guarded memory\<close>

datatype prot = PROT_NONE | PROT_READ | PROT_RWX

text \<open>
  One mapping: the lower guard page, whose first word holds the size, the usable bytes,
  the upper guard page.
\<close>

record region =
  low_page :: prot
  size_word :: u64
  body :: bytes
  high_page :: prot
  map_len :: u64

text \<open>The rounding of \<open>secure_malloc\<close>, in 64-bit arithmetic; \<open>pg\<close> is \<open>sysconf(_SC_PAGESIZE)\<close>.\<close>

definition round_up :: "u64 \<Rightarrow> u64 \<Rightarrow> u64" where
  "round_up pg sz = (sz + pg - 1) AND NOT (pg - 1)"

definition secure_malloc :: "u64 \<Rightarrow> u64 \<Rightarrow> region" where
  "secure_malloc pg sz =
     (let sz = round_up pg sz;
          sz = sz + push_bit 1 pg
      in \<lparr>low_page = PROT_NONE, size_word = sz,
          body = replicate (unat (sz - push_bit 1 pg)) 0,
          high_page = PROT_NONE, map_len = sz\<rparr>)"

text \<open>
  \<open>secure_free\<close>: the bytes wiped and the length unmapped; \<open>None\<close> if the wipe would run
  past the usable bytes.
\<close>

definition secure_free :: "u64 \<Rightarrow> region \<Rightarrow> (bytes \<times> u64) option" where
  "secure_free pg r =
     (let r = r\<lparr>low_page := PROT_READ\<rparr>;
          sz = size_word r;
          n = unat (sz - push_bit 1 pg)
      in if n \<le> length (body r) then Some (replicate n 0 @ drop n (body r), sz) else None)"

text \<open>
  \<open>secure_strdup(s)\<close>: \<open>s\<close> points to the start of \<open>src\<close>. It copies one byte more than the
  string and its NUL.
\<close>

definition secure_strdup :: "u64 \<Rightarrow> bytes \<Rightarrow> fault + bytes" where
  "secure_strdup pg src =
     (let len = strlen src + 1;
          buf = body (secure_malloc pg (of_nat len))
      in if len + 1 \<le> length src \<and> len + 1 \<le> length buf
         then Inr (take (len + 1) src @ drop (len + 1) buf)
         else Inl OutOfBounds)"

section \<open>Input\<close>

abbreviation (input) BUF_SIZE :: nat where "BUF_SIZE \<equiv> 4096"

record state =
  ws :: workspace
  pbuf :: bytes
  inp :: bytes
  out :: bytes

text \<open>
  \<open>prompt\<close>: whether a line was read; the line is the string of the static buffer. The
  test of the last byte reads before the buffer when the line starts with a NUL.
\<close>

definition prompt :: "state \<Rightarrow> bytes \<Rightarrow> fault + (bool \<times> state)" where
  "prompt s p =
     (let s = s\<lparr>out := out s @ p @ str ''> ''\<rparr> in
      case fgets BUF_SIZE (inp s) of
        None \<Rightarrow> Inr (False, s)
      | Some (line, rest) \<Rightarrow>
          let b = fill line (pbuf s); l = strlen b in
          if l = 0 then Inl OutOfBounds
          else Inr (True, s\<lparr>inp := rest, pbuf := (if b ! (l - 1) = 0x0A then b[l - 1 := 0] else b)\<rparr>))"

section \<open>RC4\<close>

definition char_at :: "bytes \<Rightarrow> nat \<Rightarrow> int" where
  "char_at b i = sint (b ! i)"

text \<open>\<open>char\<close> is signed: the sums are over signed values and masked to the low byte.\<close>

fun ksa_loop :: "bytes \<Rightarrow> nat list \<Rightarrow> int \<Rightarrow> bytes \<Rightarrow> bytes" where
  "ksa_loop key [] j S = S"
| "ksa_loop key (i # is) j S =
     (let j = (j + char_at S i + char_at key (i mod length key)) AND 0xFF;
          tmp = S ! i;
          S = S[i := S ! nat j];
          S = S[nat j := tmp]
      in ksa_loop key is j S)"

definition rc4_init :: "bytes \<Rightarrow> bytes" where
  "rc4_init key = ksa_loop key [0..<256] 0 (map of_nat [0..<256])"

fun prga :: "int \<Rightarrow> int \<Rightarrow> bytes \<Rightarrow> bytes \<Rightarrow> bytes \<times> bytes" where
  "prga i j S [] = (S, [])"
| "prga i j S (b # buf) =
     (let i = (i + 1) AND 0xFF;
          j = (j + char_at S (nat i)) AND 0xFF;
          tmp = S ! nat i;
          S = S[nat i := S ! nat j];
          S = S[nat j := tmp];
          tmp = S ! nat ((char_at S (nat i) + char_at S (nat j)) AND 0xFF);
          (S', rest) = prga i j S buf
      in (S', (b XOR tmp) # rest))"

section \<open>Commands\<close>

definition say :: "string \<Rightarrow> state \<Rightarrow> state" where
  "say m s = s\<lparr>out := out s @ str m @ [0x0A]\<rparr>"

definition set_ws :: "workspace \<Rightarrow> state \<Rightarrow> state" where
  "set_ws w s = s\<lparr>ws := w\<rparr>"

text \<open>
  \<open>sscanf(s, "%02x", &byte)\<close>: white space is skipped and does not count; then at most two
  characters of an optional sign and digits (\<open>0x\<close> with no digit behind it in the field
  is a matching failure). \<open>None\<close> when nothing is converted.
\<close>

definition sscanf_02x :: "bytes \<Rightarrow> int option" where
  "sscanf_02x s =
     (case dropWhile isspace s of
        [] \<Rightarrow> None
      | c # r \<Rightarrow>
          if c = 0x2B \<or> c = 0x2D then
            (case r of
               d # _ \<Rightarrow> map_option (\<lambda>v. if c = 0x2D then - v else v) (hex_value d)
             | [] \<Rightarrow> None)
          else
            (case hex_value c of
               None \<Rightarrow> None
             | Some v \<Rightarrow>
                 (case r of
                    [] \<Rightarrow> Some v
                  | d # _ \<Rightarrow>
                      if c = 0x30 \<and> (d = 0x78 \<or> d = 0x58) then None
                      else (case hex_value d of None \<Rightarrow> Some v | Some w \<Rightarrow> Some (16 * v + w)))))"

text \<open>The conversion loop of \<open>set_key\<close>, in place: the buffer, and whether every pair scanned.\<close>

fun decode_key :: "bytes \<Rightarrow> nat list \<Rightarrow> bytes \<times> bool" where
  "decode_key b [] = (b, True)"
| "decode_key b (i # is) =
     (case sscanf_02x (cstr (drop i b)) of
        None \<Rightarrow> (b, False)
      | Some byte \<Rightarrow> decode_key (b[i div 2 := word_of_int (byte AND 0xFF)]) is)"

abbreviation (input) KEY_LEN_MIN :: nat where "KEY_LEN_MIN \<equiv> 1"
abbreviation (input) KEY_LEN_MAX :: nat where "KEY_LEN_MAX \<equiv> 256"
abbreviation (input) RC4_SZ :: nat where "RC4_SZ \<equiv> 256"

definition set_key :: "u64 \<Rightarrow> state \<Rightarrow> fault + state" where
  "set_key pg s =
     (case prompt s (str ''key (hex)'') of
        Inl f \<Rightarrow> Inl f
      | Inr (False, s) \<Rightarrow> Inr (say ''No key!'' s)
      | Inr (True, s) \<Rightarrow>
          let key_len = strlen (pbuf s) in
          if key_len > KEY_LEN_MAX * 2 \<or> key_len < KEY_LEN_MIN * 2 \<or> key_len mod 2 \<noteq> 0
          then Inr (say ''Invalid key length!'' s)
          else
            let (b, ok) = decode_key (pbuf s) (map ((*) 2) [0..<key_len div 2]);
                s = s\<lparr>pbuf := b\<rparr>
            in if \<not> ok then Inr (say ''Invalid key data!'' s)
               else
                 let key_len = key_len div 2 in
                 case cell (ws s) of
                   PrintBase64 \<Rightarrow> Inl BadFree
                 | PrintHex \<Rightarrow> Inl BadFree
                 | _ \<Rightarrow>
                     Inr (say ''Key has been set.''
                       (set_ws ((ws s)\<lparr>cell := EncState (rc4_init (take key_len b))\<rparr>)
                         (s\<lparr>pbuf := replicate (key_len * 2) 0 @ drop (key_len * 2) b\<rparr>))))"

definition set_input :: "u64 \<Rightarrow> state \<Rightarrow> fault + state" where
  "set_input pg s =
     (let w = ws s;
          w = (case input_buf w of Some _ \<Rightarrow> w\<lparr>input_buf := None, buf_len := 0\<rparr> | None \<Rightarrow> w);
          s = set_ws w s
      in case prompt s (str ''input'') of
           Inl f \<Rightarrow> Inl f
         | Inr (False, s) \<Rightarrow> Inr (s\<lparr>out := out s @ str ''No input!''\<rparr>)
         | Inr (True, s) \<Rightarrow>
             (case secure_strdup pg (pbuf s) of
                Inl f \<Rightarrow> Inl f
              | Inr b \<Rightarrow>
               Inr (set_ws ((ws s)\<lparr>input_buf := Some b, buf_len := strlen b\<rparr>)
                 (s\<lparr>out := out s @ str ''Input is '' @ decimal (strlen b) @ str '' bytes long.'' @ [0x0A]\<rparr>))))"

text \<open>\<open>strcasecmp(lit, s) = 0\<close> for a lower-case literal of letters and digits.\<close>

definition tolower :: "u8 \<Rightarrow> u8" where
  "tolower c = (if 0x41 \<le> c \<and> c \<le> 0x5A then c + 0x20 else c)"

definition set_encoding :: "state \<Rightarrow> fault + state" where
  "set_encoding s =
     (case prompt s (str ''encoding (base64, hex)'') of
        Inl f \<Rightarrow> Inl f
      | Inr (False, s) \<Rightarrow> Inl NullDeref
      | Inr (True, s) \<Rightarrow>
          let enc = map tolower (cstr (pbuf s)) in
          if enc = str ''base64'' then Inr (set_ws ((ws s)\<lparr>cell := PrintBase64\<rparr>) s)
          else if enc = str ''hex'' then Inr (set_ws ((ws s)\<lparr>cell := PrintHex\<rparr>) s)
          else Inr (say ''Invalid encoding!'' s))"

definition print_hex :: "bytes \<Rightarrow> bytes" where
  "print_hex buf = hex_bytes buf @ [0x0A]"

definition print_base64 :: "bytes \<Rightarrow> bytes" where
  "print_base64 buf =
     (case base64_encode (\<lambda>_. True) buf of None \<Rightarrow> [] | Some e \<Rightarrow> e @ [0x0A])"

text \<open>The bytes \<open>(input_buf, buf_len)\<close> a printing function or the cipher reads.\<close>

definition input_bytes :: "workspace \<Rightarrow> fault + bytes" where
  "input_bytes w =
     (case input_buf w of
        None \<Rightarrow> if buf_len w = 0 then Inr [] else Inl NullDeref
      | Some b \<Rightarrow> if buf_len w \<le> length b then Inr (take (buf_len w) b) else Inl OutOfBounds)"

definition print_workspace :: "state \<Rightarrow> fault + state" where
  "print_workspace s =
     (if CHECK_TYPE (ws s) TYPE_ENCODE then
        (case cell (ws s) of
           Null \<Rightarrow> Inr (say ''Must use set_encoding first.'' s)
         | EncState S \<Rightarrow> Inl (CallsData S)
         | PrintBase64 \<Rightarrow>
             (case input_bytes (ws s) of Inl f \<Rightarrow> Inl f | Inr b \<Rightarrow> Inr (s\<lparr>out := out s @ print_base64 b\<rparr>))
         | PrintHex \<Rightarrow>
             (case input_bytes (ws s) of Inl f \<Rightarrow> Inl f | Inr b \<Rightarrow> Inr (s\<lparr>out := out s @ print_hex b\<rparr>)))
      else if CHECK_TYPE (ws s) TYPE_PLAIN then
        (case input_buf (ws s) of
           None \<Rightarrow> Inl NullDeref
         | Some b \<Rightarrow> Inr (s\<lparr>out := out s @ cstr b @ [0x0A]\<rparr>))
      else Inr (say ''Printing not supported for encrypted data.'' s))"

definition do_encrypt :: "state \<Rightarrow> fault + state" where
  "do_encrypt s =
     (if buf_len (ws s) = 0 then Inr (say ''Buffer encrypted!'' s)
      else case cell (ws s) of
        Null \<Rightarrow> Inl NullDeref
      | EncState S \<Rightarrow>
          (case input_bytes (ws s) of
             Inl f \<Rightarrow> Inl f
           | Inr b \<Rightarrow>
               let (S', c) = prga 0 0 S b in
               Inr (say ''Buffer encrypted!''
                 (set_ws ((ws s)\<lparr>input_buf := map_option (\<lambda>old. c @ drop (length c) old) (input_buf (ws s)),
                                  cell := EncState S'\<rparr>) s)))
      | _ \<Rightarrow> Inl OutOfBounds)"


text \<open>What \<open>print_menu\<close> prints for a type.\<close>

definition print_menu_line :: "string \<Rightarrow> string \<Rightarrow> bytes" where
  "print_menu_line cmd desc =
     str cmd @ replicate (12 - length cmd) 0x20 @ str '': '' @ str desc @ [0x0A]"

definition print_menu :: "int \<Rightarrow> bytes" where
  "print_menu t =
     [0x0A] @ print_menu_line ''set_input'' ''Set the input value'' @
     (if t = TYPE_PLAIN then print_menu_line ''print'' ''Print the output value''
      else if t = TYPE_ENCODE then
        print_menu_line ''print'' ''Print the output value'' @
        print_menu_line ''set_encoding'' ''Set the encoding scheme.''
      else if t = TYPE_ENCRYPT then
        print_menu_line ''set_key'' ''Set the RC4 key.'' @
        print_menu_line ''encrypt'' ''Perform encryption.''
      else []) @
     print_menu_line ''quit'' ''Quit the Program'' @ [0x0A]"

text \<open>
  One round of the loop of \<open>main\<close> ends in the next state, in an exit with a code, or in
  a fault.
\<close>

datatype step = Next state | Exit int state | Fault fault

definition goes :: "fault + state \<Rightarrow> step" where
  "goes r = (case r of Inl f \<Rightarrow> Fault f | Inr s \<Rightarrow> Next s)"

definition command :: "u64 \<Rightarrow> state \<Rightarrow> bytes \<Rightarrow> step" where
  "command pg s cmd =
     (if cmd = str ''quit'' \<or> cmd = str ''exit'' then Exit 0 s
      else if cmd = str ''set_input'' then goes (set_input pg s)
      else if cmd = str ''set_encoding'' then
        (if CHECK_TYPE (ws s) TYPE_ENCRYPT then Next (say ''No encoding for encrypted type!'' s)
         else goes (set_encoding s))
      else if cmd = str ''print'' then goes (print_workspace s)
      else if cmd = str ''set_key'' then
        (if \<not> CHECK_TYPE (ws s) TYPE_ENCRYPT then Next (say ''Can only set key for encrypted type.'' s)
         else goes (set_key pg s))
      else if cmd = str ''encrypt'' then
        (if \<not> CHECK_TYPE (ws s) TYPE_ENCRYPT then Next (say ''Can only encrypt for encrypted type.'' s)
         else goes (do_encrypt s))
      else Next s)"

definition round :: "u64 \<Rightarrow> state \<Rightarrow> step" where
  "round pg s =
     (let s = s\<lparr>out := out s @ print_menu (wtype (ws s))\<rparr> in
      case prompt s (str ''command'') of
        Inl f \<Rightarrow> Fault f
      | Inr (False, s) \<Rightarrow> Exit 0 (say ''Exiting!'' s)
      | Inr (True, s) \<Rightarrow> command pg s (cstr (pbuf s)))"

text \<open>The start of \<open>main\<close>, up to the loop.\<close>

definition start :: "bytes \<Rightarrow> step" where
  "start inp0 =
     (let s = \<lparr>ws = \<lparr>wtype = 0, input_buf = None, buf_len = 0, cell = Null\<rparr>,
               pbuf = replicate BUF_SIZE 0, inp = inp0, out = []\<rparr>
      in case prompt s (str ''type (plain, encoded, encrypted)'') of
           Inl f \<Rightarrow> Fault f
         | Inr (False, s) \<Rightarrow> Fault NullDeref
         | Inr (True, s) \<Rightarrow>
             let t = cstr (pbuf s) in
             if t = str ''plain'' then Next (set_ws ((ws s)\<lparr>wtype := TYPE_PLAIN\<rparr>) s)
             else if t = str ''encoded'' then Next (set_ws ((ws s)\<lparr>wtype := TYPE_ENCODE\<rparr>) s)
             else if t = str ''encrypted'' then Next (set_ws ((ws s)\<lparr>wtype := TYPE_ENCRYPT\<rparr>) s)
             else Exit 1 (say ''Invalid type!'' s))"

text \<open>The states at the head of the loop.\<close>

inductive reached :: "u64 \<Rightarrow> state \<Rightarrow> bool" for pg where
  reached_start: "start inp0 = Next s \<Longrightarrow> reached pg s"
| reached_round: "reached pg s \<Longrightarrow> round pg s = Next s' \<Longrightarrow> reached pg s'"

text \<open>Textbook RC4 on numbers below 256, the state as a function.\<close>

definition swap_at :: "nat \<Rightarrow> nat \<Rightarrow> (nat \<Rightarrow> nat) \<Rightarrow> nat \<Rightarrow> nat" where
  "swap_at i j S = S(i := S j, j := S i)"

fun ksa_spec :: "nat list \<Rightarrow> nat list \<Rightarrow> nat \<Rightarrow> (nat \<Rightarrow> nat) \<Rightarrow> nat \<Rightarrow> nat" where
  "ksa_spec key [] j S = S"
| "ksa_spec key (i # is) j S =
     (let j = (j + S i + key ! (i mod length key)) mod 256 in ksa_spec key is j (swap_at i j S))"

fun prga_spec :: "nat \<Rightarrow> nat \<Rightarrow> nat \<Rightarrow> (nat \<Rightarrow> nat) \<Rightarrow> nat list" where
  "prga_spec 0 i j S = []"
| "prga_spec (Suc n) i j S =
     (let i = (i + 1) mod 256; j = (j + S i) mod 256; S = swap_at i j S
      in S ((S i + S j) mod 256) # prga_spec n i j S)"

definition rc4_spec :: "nat list \<Rightarrow> nat \<Rightarrow> nat list" where
  "rc4_spec key n = prga_spec n 0 0 (ksa_spec key [0..<256] 0 id)"

section \<open>Guarded memory: lemmas\<close>

lemma and_not_mask: "x AND NOT (2 ^ k - 1) = push_bit k (drop_bit k (x :: u64))"
proof -
  have "(2 ^ k - 1 :: u64) = mask k" by (simp add: mask_eq_exp_minus_1)
  then show ?thesis by (simp only:) (rule bit_word_eqI, auto simp: bit_simps)
qed

lemma unat_push_drop: "unat (push_bit k (drop_bit k (x :: u64))) = unat x div 2 ^ k * 2 ^ k"
proof -
  have "unat x div 2 ^ k * 2 ^ k < 2 ^ LENGTH(64)"
    using le_less_trans[OF div_times_less_eq_dividend u64_less, of x "2 ^ k"] by simp
  then have "take_bit LENGTH(64) (push_bit k (drop_bit k (unat x))) = unat x div 2 ^ k * 2 ^ k"
    unfolding push_bit_eq_mult drop_bit_eq_div by (rule take_bit_nat_eq_self)
  moreover have "take_bit LENGTH(64) (unat x) = unat x"
    by (rule take_bit_nat_eq_self) (use u64_less[of x] in simp)
  ultimately show ?thesis by (simp only: unsigned_push_bit_eq unsigned_drop_bit_eq)
qed

lemma unat_round_up:
  assumes "k < 32" and "n < 2 ^ 32"
  shows "unat (round_up (2 ^ k) (of_nat n)) = (n + 2 ^ k - 1) div 2 ^ k * 2 ^ k"
proof -
  have k: "(2 ^ k :: nat) < 2 ^ 32" by (rule power_strict_increasing) (use assms in auto)
  have "n + 2 ^ k - 1 + 1 = n + (2 ^ k :: nat)" by simp
  then have "(of_nat (n + 2 ^ k - 1) :: u64) + 1 = of_nat n + 2 ^ k"
    by (metis of_nat_1 of_nat_add of_nat_numeral of_nat_power)
  then have "of_nat n + 2 ^ k - 1 = (of_nat (n + 2 ^ k - 1) :: u64)" by (metis add_diff_cancel)
  moreover have "unat (of_nat (n + 2 ^ k - 1) :: u64) = n + 2 ^ k - 1"
    unfolding unat_of_nat by (rule mod_less) (use k assms(2) in simp)
  ultimately show ?thesis by (simp only: round_up_def and_not_mask unat_push_drop)
qed

text \<open>The usable bytes: whole pages, enough for the request, and less than a page more.\<close>

lemma ceil_pages:
  fixes p :: nat
  assumes "0 < p" and "0 < n"
  shows "(n + p - 1) div p * p < n \<longleftrightarrow> False" and "(n + p - 1) div p * p = n \<longleftrightarrow> p dvd n"
proof -
  have "(n + p - 1) div p * p + (n + p - 1) mod p = n + p - 1" by simp
  moreover have "(n + p - 1) mod p < p" using assms(1) by simp
  ultimately have *: "n \<le> (n + p - 1) div p * p" by linarith
  then show "(n + p - 1) div p * p < n \<longleftrightarrow> False" by simp
  show "(n + p - 1) div p * p = n \<longleftrightarrow> p dvd n"
  proof
    assume "(n + p - 1) div p * p = n"
    then show "p dvd n" by (metis dvd_triv_right)
  next
    assume "p dvd n"
    then obtain q where n: "n = p * q" ..
    have "(n + p - 1) div p = q"
      using assms by (intro div_nat_eqI) (auto simp: n algebra_simps)
    then show "(n + p - 1) div p * p = n" by (simp add: n)
  qed
qed

lemma length_secure_malloc:
  assumes "k < 32" and "n < 2 ^ 32"
  shows "length (body (secure_malloc (2 ^ k) (of_nat n))) = (n + 2 ^ k - 1) div 2 ^ k * 2 ^ k"
  using unat_round_up[OF assms] by (simp add: secure_malloc_def Let_def)

lemma secure_strdup_result:
  assumes k: "k < 32" and small: "strlen src + 1 < 2 ^ 32"
  shows "secure_strdup (2 ^ k) src =
    (if strlen src + 2 \<le> length src \<and> \<not> 2 ^ k dvd strlen src + 1
     then Inr (take (strlen src + 2) src @
            replicate ((strlen src + 2 ^ k) div 2 ^ k * 2 ^ k - (strlen src + 2)) 0)
     else Inl OutOfBounds)"
proof -
  let ?n = "strlen src + 1" and ?L = "(strlen src + 2 ^ k) div 2 ^ k * 2 ^ k"
  have L: "?L < ?n \<longleftrightarrow> False" "?L = ?n \<longleftrightarrow> 2 ^ k dvd ?n"
    using ceil_pages[of "2 ^ k" ?n] by simp_all
  have b: "body (secure_malloc (2 ^ k) (of_nat ?n)) = replicate ?L 0"
    using unat_round_up[OF k small] by (simp add: secure_malloc_def Let_def)
  have "secure_strdup (2 ^ k) src =
    (if ?n + 1 \<le> length src \<and> ?n + 1 \<le> ?L
     then Inr (take (?n + 1) src @ drop (?n + 1) (replicate ?L 0)) else Inl OutOfBounds)"
    unfolding secure_strdup_def Let_def b length_replicate ..
  moreover have "?n + 1 \<le> ?L \<longleftrightarrow> \<not> 2 ^ k dvd ?n"
  proof -
    have "?n + 1 \<le> ?L \<longleftrightarrow> \<not> ?L < ?n \<and> ?L \<noteq> ?n" by (simp only: not_less) linarith
    then show ?thesis unfolding L by simp
  qed
  ultimately show ?thesis by (simp only: drop_replicate) (simp add: numeral_2_eq_2)
qed

section \<open>RC4: lemmas\<close>

lemma and_FF: "(x :: int) AND 0xFF = x mod 256"
  using take_bit_eq_mask[of 8 x] by (simp add: mask_eq_exp_minus_1 take_bit_eq_mod)

lemma sint_u8_mod: "sint (a :: u8) mod 256 = int (unat a)"
  using uint_sint[of a] by (simp add: take_bit_eq_mod)

text \<open>A masked sum of signed bytes is the sum of the unsigned bytes modulo 256.\<close>

lemma signed_sum2: "nat ((int j + sint (a :: u8)) mod 256) = (j + unat a) mod 256"
  by (metis (no_types, lifting) mod_add_right_eq nat_int of_nat_add of_nat_mod of_nat_numeral sint_u8_mod)

lemma signed_sum3: "nat ((int j + sint (a :: u8) + sint (b :: u8)) mod 256) = (j + unat a + unat b) mod 256"
proof -
  have "(int j + sint a + sint b) mod 256 = (int j + int (unat a) + int (unat b)) mod 256"
    by (metis mod_add_eq mod_mod_trivial sint_u8_mod)
  then show ?thesis by (metis nat_int of_nat_add of_nat_mod of_nat_numeral)
qed

lemma signed_sum_bytes: "nat ((sint (a :: u8) + sint (b :: u8)) mod 256) = (unat a + unat b) mod 256"
  using signed_sum3[of 0 a b] by simp

definition rc4_rel :: "bytes \<Rightarrow> (nat \<Rightarrow> nat) \<Rightarrow> bool" where
  "rc4_rel S f \<longleftrightarrow> length S = 256 \<and> (\<forall>n < 256. f n = unat (S ! n))"

lemma rc4_rel_nth: "rc4_rel S f \<Longrightarrow> n < 256 \<Longrightarrow> f n = unat (S ! n)"
  by (simp add: rc4_rel_def)

lemma rc4_rel_swap: "rc4_rel S f \<Longrightarrow> i < 256 \<Longrightarrow> j < 256 \<Longrightarrow> rc4_rel (S[i := S ! j, j := S ! i]) (swap_at i j f)"
  by (auto simp: rc4_rel_def swap_at_def nth_list_update)

lemma ksa_loop_spec:
  assumes "rc4_rel S f" and "key \<noteq> []" and "\<forall>i \<in> set is. i < 256"
  shows "rc4_rel (ksa_loop key is (int j) S) (ksa_spec (map unat key) is j f)"
  using assms(1,3)
proof (induction "is" arbitrary: j S f)
  case (Cons i "is")
  have "i mod length key < length key" using assms(2) by simp
  moreover define j' where "j' = (j + f i + unat (key ! (i mod length key))) mod 256"
  ultimately have "nat ((int j + char_at S i + char_at key (i mod length key)) AND 0xFF) = j'"
    using Cons.prems by (simp add: and_FF char_at_def signed_sum3 rc4_rel_nth)
  moreover have "(int j + char_at S i + char_at key (i mod length key)) AND 0xFF = int j'"
    using calculation by (simp add: and_FF nat_eq_iff)
  moreover have "j' < 256" by (simp add: j'_def)
  moreover have "rc4_rel (ksa_loop key is (int j') (S[i := S ! j', j' := S ! i]))
      (ksa_spec (map unat key) is j' (swap_at i j' f))"
    using Cons.prems \<open>j' < 256\<close> by (intro Cons.IH rc4_rel_swap) auto
  ultimately show ?case
    using \<open>i mod length key < length key\<close> by (simp add: Let_def j'_def)
qed simp

lemma rc4_init_rel: "key \<noteq> [] \<Longrightarrow> rc4_rel (rc4_init key) (ksa_spec (map unat key) [0..<256] 0 id)"
  using ksa_loop_spec[of "map of_nat [0..<256]" id key "[0..<256]" 0]
  by (simp add: rc4_init_def rc4_rel_def unat_of_nat)

lemma prga_stream:
  assumes "rc4_rel S f"
  shows "snd (prga (int i) (int j) S buf) = map2 (\<lambda>x y. x XOR y) buf (map of_nat (prga_spec (length buf) i j f))"
  using assms
proof (induction buf arbitrary: i j S f)
  case (Cons b buf)
  define i' where "i' = (i + 1) mod 256"
  define j' where "j' = (j + f i') mod 256"
  define S' where "S' = S[i' := S ! j', j' := S ! i']"
  have b: "i' < 256" "j' < 256" by (simp_all add: i'_def j'_def)
  have i: "(int i + 1) AND 0xFF = int i'" by (simp add: and_FF i'_def zmod_int add.commute)
  have "nat ((int j + char_at S i') AND 0xFF) = j'"
    using Cons.prems b(1) by (simp add: and_FF char_at_def signed_sum2 rc4_rel_nth j'_def)
  then have j: "(int j + char_at S i') AND 0xFF = int j'" by (simp add: and_FF nat_eq_iff)
  have rel: "rc4_rel S' (swap_at i' j' f)"
    unfolding S'_def using Cons.prems b by (rule rc4_rel_swap)
  have k: "nat ((char_at S' i' + char_at S' j') AND 0xFF) = (swap_at i' j' f i' + swap_at i' j' f j') mod 256"
    using b by (simp add: and_FF char_at_def signed_sum_bytes rc4_rel_nth[OF rel])
  have out: "of_nat (swap_at i' j' f ((swap_at i' j' f i' + swap_at i' j' f j') mod 256))
      = S' ! ((swap_at i' j' f i' + swap_at i' j' f j') mod 256)"
    by (simp add: rc4_rel_nth[OF rel])
  have "snd (prga (int i) (int j) S (b # buf)) =
      (b XOR S' ! ((swap_at i' j' f i' + swap_at i' j' f j') mod 256)) # snd (prga (int i') (int j') S' buf)"
    by (simp add: Let_def i j k flip: S'_def split: prod.split)
  also have "\<dots> = map2 (\<lambda>x y. x XOR y) (b # buf) (map of_nat (prga_spec (length (b # buf)) i j f))"
    using Cons.IH[OF rel, of i' j'] out i'_def j'_def by (simp add: Let_def)
  finally show ?case .
qed simp

lemma rc4_spec_stream:
  "key \<noteq> [] \<Longrightarrow> snd (prga 0 0 (rc4_init key) buf) =
     map2 (\<lambda>x y. x XOR y) buf (map of_nat (rc4_spec (map unat key) (length buf)))"
  using prga_stream[OF rc4_init_rel, of key 0 0 buf] by (simp add: rc4_spec_def)

lemma length_prga [simp]: "length (snd (prga i j S buf)) = length buf"
  by (induction i j S buf rule: prga.induct) (auto simp: Let_def split: prod.splits)

text \<open>The state stays a permutation of the 256 bytes.\<close>

definition is_perm :: "bytes \<Rightarrow> bool" where
  "is_perm S \<longleftrightarrow> length S = 256 \<and> distinct S"

lemma masked: "nat (x AND 0xFF) < 256"
  by (simp add: and_FF)

lemma is_perm_swap: "is_perm S \<Longrightarrow> i < 256 \<Longrightarrow> j < 256 \<Longrightarrow> is_perm (S[i := S ! j, j := S ! i])"
  using distinct_swap[of i S j] by (simp add: is_perm_def)

lemma ksa_loop_perm: "is_perm S \<Longrightarrow> \<forall>i \<in> set is. i < 256 \<Longrightarrow> is_perm (ksa_loop key is j S)"
  by (induction "is" arbitrary: j S) (auto simp: Let_def intro!: is_perm_swap masked)

lemma rc4_init_perm: "is_perm (rc4_init key)"
proof -
  have "is_perm (map of_nat [0..<256])"
    by (auto simp: is_perm_def distinct_map inj_on_def word_of_nat_eq_iff take_bit_eq_mod)
  then show ?thesis unfolding rc4_init_def by (rule ksa_loop_perm) simp
qed

lemma prga_perm: "is_perm S \<Longrightarrow> is_perm (fst (prga i j S buf))"
proof (induction i j S buf rule: prga.induct)
  case (2 i j S b buf)
  show ?case
    using "2.IH"[OF refl refl refl refl refl refl] "2.prems"
    by (simp add: Let_def is_perm_swap masked case_prod_unfold)
qed simp

lemma perm_onto: "is_perm S \<Longrightarrow> set S = UNIV"
proof -
  assume "is_perm S"
  then have "card (set S) = CARD(u8)" by (simp add: is_perm_def distinct_card card_word)
  then show ?thesis by (intro card_subset_eq) auto
qed

section \<open>The key as hexadecimal digits\<close>

lemma sscanf_hex2: "sscanf_02x (hex2 x @ r) = Some (uint x)"
proof -
  have "16 * uint (drop_bit 4 x) + uint (x AND 15) = uint x"
  proof -
    have "uint (drop_bit 4 x) = uint x div 16"
      using unsigned_less[of x, where ?'a = int]
      by (simp only: unsigned_drop_bit_eq) (simp add: drop_bit_eq_div take_bit_eq_mod)
    moreover have "uint (x AND 15) = uint x mod 16"
      by (simp only: and_15 unsigned_take_bit_eq) (simp add: take_bit_eq_mod)
    ultimately show ?thesis by simp
  qed
  then show ?thesis
    using hex_digit_graphic[OF nibble_less_16(1)[of x]] hex_digit_graphic[OF nibble_less_16(2)[of x]]
    by (simp add: sscanf_02x_def hex2_def hex_value_digit nibble_less_16)
qed

lemma hex_bytes_clean: "0 \<notin> set (hex_bytes xs)" "0x0A \<notin> set (hex_bytes xs)"
  using hex_digit_graphic[OF nibble_less_16(1)] hex_digit_graphic[OF nibble_less_16(2)]
  by (induction xs) (auto simp: hex2_def)

lemma byte_of_scan: "word_of_int (uint x AND 0xFF) = (x :: u8)"
  using unsigned_less[of x, where ?'a = int] by (simp add: and_FF)

lemma decode_key_hex:
  assumes "length ks = k" and "length junk = k"
  shows "\<exists>junk'. length junk' = k + length key \<and>
    decode_key (ks @ junk @ hex_bytes key @ 0 # r) (map ((*) 2) [k ..< k + length key]) =
      (ks @ key @ junk' @ 0 # r, True)"
  using assms
proof (induction key arbitrary: ks junk k)
  case (Cons x key)
  let ?j = "tl (junk @ hex2 x)"
  have l: "length (ks @ [x]) = Suc k" "length ?j = Suc k" using Cons.prems by auto
  have d: "drop (2 * k) (ks @ junk @ hex2 x @ hex_bytes key @ 0 # r) = hex2 x @ hex_bytes key @ 0 # r"
    using Cons.prems by simp
  have c: "cstr (hex2 x @ hex_bytes key @ 0 # r) = hex2 x @ hex_bytes key"
    using cstr_append_nul[of "hex_bytes (x # key)" r] hex_bytes_clean(1)[of "x # key"] by simp
  have w: "(ks @ junk @ hex2 x @ hex_bytes key @ 0 # r)[k := x] = (ks @ [x]) @ ?j @ hex_bytes key @ 0 # r"
    using Cons.prems by (cases junk) (auto simp: list_update_append hex2_def)
  have dv: "2 * k div 2 = k" by simp
  have r: "[k ..< k + length (x # key)] = k # [Suc k ..< Suc k + length key]"
    using upt_conv_Cons[of k "k + length (x # key)"] by simp
  obtain junk' where "length junk' = Suc k + length key"
      "decode_key ((ks @ [x]) @ ?j @ hex_bytes key @ 0 # r) (map ((*) 2) [Suc k ..< Suc k + length key])
        = ((ks @ [x]) @ key @ junk' @ 0 # r, True)"
    using Cons.IH[OF l] by blast
  moreover have "decode_key (ks @ junk @ hex_bytes (x # key) @ 0 # r) (map ((*) 2) [k ..< k + length (x # key)])
      = decode_key ((ks @ [x]) @ ?j @ hex_bytes key @ 0 # r) (map ((*) 2) [Suc k ..< Suc k + length key])"
    by (simp only: r list.map decode_key.simps hex_bytes_Cons append_assoc d c sscanf_hex2 option.case
        byte_of_scan dv w[unfolded append_assoc])
  ultimately show ?case by auto
qed auto

text \<open>Reading a line at a prompt.\<close>

lemma prompt_line:
  assumes "0x0A \<notin> set l" "0 \<notin> set l" "length l < 4095" "length (pbuf s) = 4096" "inp s = l @ 0x0A # rest"
  shows "prompt s p = Inr (True, s\<lparr>out := out s @ p @ str ''> '', inp := rest,
    pbuf := l @ 0 # 0 # drop (length l + 2) (pbuf s)\<rparr>)"
proof -
  have f: "fgets 4096 (l @ 0x0A # rest) = Some (l @ [0x0A], rest)"
    by (rule fgets_line) (use assms in auto)
  have c: "strlen (fill (l @ [0x0A]) (pbuf s)) = Suc (length l)"
    using cstr_fill[of "l @ [0x0A]" "pbuf s"] assms(2) by (simp add: strlen_def)
  have "(fill (l @ [0x0A]) (pbuf s))[length l := 0] = l @ 0 # 0 # drop (length l + 2) (pbuf s)"
    by (simp add: fill_def)
  moreover have "fill (l @ [0x0A]) (pbuf s) ! length l = 0x0A" by (simp add: fill_def nth_append)
  ultimately show ?thesis by (simp add: prompt_def Let_def assms(5) f c)
qed

lemma set_key_ok:
  assumes "key \<noteq> []" "length key \<le> 256" "length (pbuf s) = 4096"
    and "inp s = hex_bytes key @ 0x0A # rest" "cell (ws s) \<notin> {PrintBase64, PrintHex}"
  shows "\<exists>s'. set_key pg s = Inr s' \<and> inp s' = rest \<and>
    ws s' = (ws s)\<lparr>cell := EncState (rc4_init key)\<rparr> \<and>
    take (2 * length key) (pbuf s') = replicate (2 * length key) 0"
proof -
  define n where "n = length key"
  have n: "0 < n" "n \<le> 256" using assms by (auto simp: n_def)
  define r where "r = 0 # drop (2 * n + 2) (pbuf s)"
  have p: "prompt s (str ''key (hex)'') =
      Inr (True, s\<lparr>out := out s @ str ''key (hex)'' @ str ''> '', inp := rest, pbuf := hex_bytes key @ 0 # r\<rparr>)"
    using prompt_line[of "hex_bytes key" s rest] assms hex_bytes_clean by (simp add: r_def n_def)
  have l: "strlen (hex_bytes key @ 0 # r) = 2 * n"
    using hex_bytes_clean(1)[of key] by (simp add: strlen_def n_def)
  obtain junk where j: "length junk = n"
      "decode_key (hex_bytes key @ 0 # r) (map ((*) 2) [0..<n]) = (key @ junk @ 0 # r, True)"
    using decode_key_hex[of "[]" 0 "[]" key r] by (auto simp: n_def)
  have t: "take n (key @ junk @ 0 # r) = key" by (simp add: n_def)
  show ?thesis
    using n assms(5) unfolding set_key_def p
    by (cases "cell (ws s)") (auto simp: Let_def l j t say_def set_ws_def simp flip: n_def)
qed

section \<open>The invariant\<close>

text \<open>
  What the type says about the union and the buffer: an encoder never holds a cipher
  state, a cipher never holds a printing function, and the buffer has \<open>buf_len\<close> bytes.
\<close>

fun cell_ok :: "int \<Rightarrow> cell \<Rightarrow> bool" where
  "cell_ok t Null = True"
| "cell_ok t (EncState S) = (t = TYPE_ENCRYPT \<and> is_perm S)"
| "cell_ok t PrintBase64 = (t \<noteq> TYPE_ENCRYPT)"
| "cell_ok t PrintHex = (t \<noteq> TYPE_ENCRYPT)"

fun input_ok :: "nat \<Rightarrow> bytes option \<Rightarrow> bool" where
  "input_ok n None = (n = 0)"
| "input_ok n (Some b) = (n \<le> length b)"

definition ws_ok :: "workspace \<Rightarrow> bool" where
  "ws_ok w \<longleftrightarrow> wtype w \<in> {1, 2, 3} \<and> cell_ok (wtype w) (cell w) \<and> input_ok (buf_len w) (input_buf w)"

definition state_ok :: "state \<Rightarrow> bool" where
  "state_ok s \<longleftrightarrow> ws_ok (ws s) \<and> length (pbuf s) = BUF_SIZE"

lemma check_type [simp]:
  "wtype w \<in> {1, 2, 3} \<Longrightarrow> CHECK_TYPE w TYPE_ENCRYPT \<longleftrightarrow> wtype w = TYPE_ENCRYPT"
  "wtype w \<in> {1, 2, 3} \<Longrightarrow> CHECK_TYPE w TYPE_ENCODE \<longleftrightarrow> wtype w \<noteq> TYPE_PLAIN"
  by (auto simp: CHECK_TYPE_def)

lemma ws_say [simp]: "ws (say m s) = ws s" "pbuf (say m s) = pbuf s" "inp (say m s) = inp s"
  by (simp_all add: say_def)

lemma ws_set_ws [simp]: "ws (set_ws w s) = w" "pbuf (set_ws w s) = pbuf s" "inp (set_ws w s) = inp s"
  by (simp_all add: set_ws_def)

lemma prompt_keeps:
  "prompt s p = Inr (b, s') \<Longrightarrow> length (pbuf s) = BUF_SIZE \<Longrightarrow> ws s' = ws s \<and> length (pbuf s') = BUF_SIZE"
proof -
  assume p: "prompt s p = Inr (b, s')" and l: "length (pbuf s) = BUF_SIZE"
  show ?thesis
  proof (cases "fgets BUF_SIZE (inp s)")
    case None
    then show ?thesis using p l by (auto simp: prompt_def Let_def)
  next
    case (Some lr)
    have "length (fst lr) < BUF_SIZE"
      using Some length_line_of[of 4095 "inp s"] by (auto simp: fgets_def Let_def split: if_splits)
    then show ?thesis using p l Some by (auto simp: prompt_def Let_def split: if_splits prod.splits)
  qed
qed

lemma prompt_fault: "prompt s p = Inl f \<Longrightarrow> f = OutOfBounds"
  by (auto simp: prompt_def Let_def split: option.splits prod.splits if_splits)

lemma decode_key_length: "length (fst (decode_key b is)) = length b"
  by (induction b "is" rule: decode_key.induct) (auto split: option.splits)

lemma set_input_ok: "set_input pg s = Inr s' \<Longrightarrow> state_ok s \<Longrightarrow> state_ok s'"
proof -
  assume r: "set_input pg s = Inr s'" and ok: "state_ok s"
  define w where "w = (case input_buf (ws s) of Some _ \<Rightarrow> (ws s)\<lparr>input_buf := None, buf_len := 0\<rparr> | None \<Rightarrow> ws s)"
  have w: "ws_ok w" "input_buf w = None" "length (pbuf (set_ws w s)) = BUF_SIZE"
    using ok by (auto simp: w_def state_ok_def ws_ok_def split: option.splits)
  have r: "(case prompt (set_ws w s) (str ''input'') of
           Inl f \<Rightarrow> Inl f
         | Inr (False, s) \<Rightarrow> Inr (s\<lparr>out := out s @ str ''No input!''\<rparr>)
         | Inr (True, s) \<Rightarrow>
             (case secure_strdup pg (pbuf s) of
                Inl f \<Rightarrow> Inl f
              | Inr b \<Rightarrow>
                 Inr (set_ws ((ws s)\<lparr>input_buf := Some b, buf_len := strlen b\<rparr>)
                 (s\<lparr>out := out s @ str ''Input is '' @ decimal (strlen b) @ str '' bytes long.'' @ [0x0A]\<rparr>)))) = Inr s'"
    using r by (simp add: set_input_def Let_def w_def)
  show ?thesis
    using r w strlen_le
    by (auto simp: state_ok_def ws_ok_def split: sum.splits prod.splits bool.splits dest!: prompt_keeps)
qed

lemma set_encoding_ok:
  "set_encoding s = Inr s' \<Longrightarrow> state_ok s \<Longrightarrow> wtype (ws s) \<noteq> TYPE_ENCRYPT \<Longrightarrow> state_ok s'"
  by (auto simp: set_encoding_def state_ok_def ws_ok_def Let_def split: sum.splits prod.splits bool.splits if_splits
      dest!: prompt_keeps)

lemma set_key_cases:
  assumes "set_key pg s = Inr s'" "length (pbuf s) = BUF_SIZE"
  shows "length (pbuf s') = BUF_SIZE \<and>
     (ws s' = ws s \<or> (\<exists>key. ws s' = (ws s)\<lparr>cell := EncState (rc4_init key)\<rparr>))"
proof -
  obtain b s1 where p: "prompt s (str ''key (hex)'') = Inr (b, s1)"
    using assms by (auto simp: set_key_def split: sum.splits)
  have k: "ws s1 = ws s" "length (pbuf s1) = BUF_SIZE" using prompt_keeps[OF p assms(2)] by auto
  have d: "length (fst (decode_key (pbuf s1) is)) = BUF_SIZE" for "is"
    using k decode_key_length by simp
  show ?thesis
    using assms(1) k d unfolding set_key_def p
    by (auto simp: Let_def case_prod_unfold split: bool.splits if_splits cell.splits)
qed

lemma set_key_keeps: "set_key pg s = Inr s' \<Longrightarrow> state_ok s \<Longrightarrow> wtype (ws s) = TYPE_ENCRYPT \<Longrightarrow> state_ok s'"
  using set_key_cases[of pg s s'] by (auto simp: state_ok_def ws_ok_def rc4_init_perm)

lemma print_workspace_ok: "print_workspace s = Inr s' \<Longrightarrow> state_ok s \<Longrightarrow> state_ok s'"
  by (auto simp: print_workspace_def state_ok_def split: cell.splits sum.splits option.splits if_splits)

lemma do_encrypt_ok: "do_encrypt s = Inr s' \<Longrightarrow> state_ok s \<Longrightarrow> state_ok s'"
proof (cases "buf_len (ws s) = 0")
  case True
  then show "do_encrypt s = Inr s' \<Longrightarrow> state_ok s \<Longrightarrow> state_ok s'"
    by (auto simp: do_encrypt_def state_ok_def)
next
  case False
  assume "do_encrypt s = Inr s'" "state_ok s"
  moreover from this False obtain S b where c: "cell (ws s) = EncState S" "input_buf (ws s) = Some b"
    by (cases "input_buf (ws s)") (auto simp: do_encrypt_def state_ok_def ws_ok_def split: cell.splits)
  ultimately show "state_ok s'"
    using False prga_perm[of S 0 0 "take (buf_len (ws s)) b"]
      length_prga[of 0 0 S "take (buf_len (ws s)) b"]
    by (auto simp: do_encrypt_def state_ok_def ws_ok_def input_bytes_def case_prod_unfold Let_def)
qed

lemma goes_Next [simp]: "goes r = Next s \<longleftrightarrow> r = Inr s"
  by (cases r) (auto simp: goes_def)

lemma goes_Fault [simp]: "goes r = Fault f \<longleftrightarrow> r = Inl f"
  by (cases r) (auto simp: goes_def)

lemma command_ok: "command pg s cmd = Next s' \<Longrightarrow> state_ok s \<Longrightarrow> state_ok s'"
  using set_input_ok[of pg s s'] set_encoding_ok[of s s'] set_key_keeps[of pg s s'] do_encrypt_ok[of s s']
    print_workspace_ok[of s s']
  by (auto simp: command_def state_ok_def ws_ok_def split: if_splits)

lemma round_ok: "round pg s = Next s' \<Longrightarrow> state_ok s \<Longrightarrow> state_ok s'"
  unfolding round_def Let_def
  by (auto simp: state_ok_def split: sum.splits prod.splits bool.splits dest!: prompt_keeps
      dest!: command_ok simp: state_ok_def)

lemma start_ok: "start i = Next s \<Longrightarrow> state_ok s"
proof -
  assume s: "start i = Next s"
  define s0 where "s0 = \<lparr>ws = \<lparr>wtype = 0, input_buf = None, buf_len = 0, cell = Null\<rparr>,
               pbuf = replicate BUF_SIZE 0, inp = i, out = []\<rparr>"
  then obtain s1 where p: "prompt s0 (str ''type (plain, encoded, encrypted)'') = Inr (True, s1)"
    using s unfolding start_def Let_def s0_def[symmetric]
    by (auto split: sum.splits prod.splits bool.splits)
  then have "ws s1 = ws s0" "length (pbuf s1) = BUF_SIZE"
    using prompt_keeps[OF p] by (auto simp: s0_def simp del: replicate.simps)
  then show ?thesis
    using s p unfolding start_def Let_def s0_def[symmetric]
    by (auto simp: state_ok_def ws_ok_def s0_def split: if_splits)
qed

lemma reached_ok: "reached pg s \<Longrightarrow> state_ok s"
  by (induction rule: reached.induct) (auto intro: start_ok round_ok)

section \<open>Which faults a session can meet\<close>

lemma prompt_not: "prompt s p = Inl f \<Longrightarrow> f \<noteq> BadFree \<and> f \<noteq> CallsData S"
  by (drule prompt_fault) simp

lemma set_input_fault: "set_input pg s = Inl f \<Longrightarrow> f = OutOfBounds"
  by (auto simp: set_input_def Let_def secure_strdup_def dest: prompt_fault
      split: sum.splits prod.splits bool.splits if_splits)

lemma set_encoding_fault: "set_encoding s = Inl f \<Longrightarrow> f = OutOfBounds \<or> f = NullDeref"
  by (auto simp: set_encoding_def Let_def dest: prompt_fault split: sum.splits prod.splits bool.splits if_splits)

lemma set_key_fault:
  assumes "set_key pg s = Inl f" "state_ok s" "wtype (ws s) = TYPE_ENCRYPT"
  shows "f = OutOfBounds"
proof (cases "prompt s (str ''key (hex)'')")
  case (Inl g)
  then show ?thesis using assms(1) by (auto simp: set_key_def dest: prompt_fault)
next
  case (Inr bs)
  then obtain b s1 where p: "prompt s (str ''key (hex)'') = Inr (b, s1)" by (cases bs) simp
  have "cell (ws s1) \<noteq> PrintBase64" "cell (ws s1) \<noteq> PrintHex"
    using prompt_keeps[OF p] assms(2,3) by (auto simp: state_ok_def ws_ok_def)
  then show ?thesis
    using assms(1) unfolding set_key_def p
    by (auto simp: Let_def case_prod_unfold split: bool.splits if_splits cell.splits)
qed

lemma input_bytes_fault: "input_bytes w = Inl f \<Longrightarrow> f = OutOfBounds \<or> f = NullDeref"
  by (auto simp: input_bytes_def split: option.splits if_splits)

lemma print_workspace_fault:
  "print_workspace s = Inl f \<Longrightarrow> f = OutOfBounds \<or> f = NullDeref \<or> (\<exists>S. f = CallsData S \<and> cell (ws s) = EncState S)"
  using input_bytes_fault
  by (auto simp: print_workspace_def split: cell.splits sum.splits option.splits if_splits)

lemma do_encrypt_fault: "do_encrypt s = Inl f \<Longrightarrow> f = OutOfBounds \<or> f = NullDeref"
  using input_bytes_fault
  by (auto simp: do_encrypt_def case_prod_unfold Let_def split: cell.splits sum.splits if_splits)

lemma command_fault:
  assumes "command pg s cmd = Fault f" "state_ok s"
  shows "f = OutOfBounds \<or> f = NullDeref \<or> (\<exists>S. f = CallsData S \<and> cell (ws s) = EncState S)"
  using assms set_input_fault[of pg s f] set_encoding_fault[of s f] set_key_fault[of pg s f]
    print_workspace_fault[of s f] do_encrypt_fault[of s f]
  by (auto simp: command_def state_ok_def ws_ok_def split: if_splits)

lemma round_fault:
  assumes "round pg s = Fault f" "state_ok s"
  shows "f = OutOfBounds \<or> f = NullDeref \<or> (\<exists>S. f = CallsData S \<and> cell (ws s) = EncState S)"
proof -
  define s0 where "s0 = s\<lparr>out := out s @ print_menu (wtype (ws s))\<rparr>"
  have s0: "ws s0 = ws s" "length (pbuf s0) = BUF_SIZE" using assms(2) by (simp_all add: s0_def state_ok_def)
  show ?thesis
  proof (cases "prompt s0 (str ''command'')")
    case (Inl g)
    then show ?thesis
      using assms(1) prompt_fault[OF Inl] unfolding round_def Let_def s0_def[symmetric] by simp
  next
    case (Inr bs)
    then obtain b s1 where p: "prompt s0 (str ''command'') = Inr (b, s1)" by (cases bs) simp
    have "ws s1 = ws s" "state_ok s1" using prompt_keeps[OF p] s0 assms(2) by (simp_all add: state_ok_def)
    then show ?thesis
      using assms(1) command_fault[of pg s1 _ f] unfolding round_def Let_def s0_def[symmetric] p
      by (auto split: bool.splits)
  qed
qed

lemma round_line:
  assumes "state_ok s" "inp s = l @ 0x0A # rest" "0x0A \<notin> set l" "0 \<notin> set l" "length l < 4095"
  shows "\<exists>s1. ws s1 = ws s \<and> inp s1 = rest \<and> length (pbuf s1) = BUF_SIZE \<and> round pg s = command pg s1 l"
proof -
  let ?s = "s\<lparr>out := out s @ print_menu (wtype (ws s))\<rparr>"
  have "length (pbuf ?s) = 4096" "inp ?s = l @ 0x0A # rest" using assms by (simp_all add: state_ok_def)
  then show ?thesis
    using prompt_line[OF assms(3-5), of ?s rest "str ''command''"] assms
    by (intro exI conjI) (auto simp: round_def Let_def)
qed

lemma print_round:
  assumes "reached pg s" "inp s = str ''print'' @ 0x0A # rest"
  shows "round pg s = Fault (CallsData S) \<longleftrightarrow> cell (ws s) = EncState S"
proof -
  have ok: "state_ok s" using assms(1) by (rule reached_ok)
  obtain s1 where s1: "ws s1 = ws s" "round pg s = command pg s1 (str ''print'')"
    using round_line[OF ok assms(2), of pg] by (auto simp: str_def)
  have "command pg s1 (str ''print'') = goes (print_workspace s1)" by (simp add: command_def str_def)
  then show ?thesis
    using s1 ok input_bytes_fault[of "ws s" "CallsData S"]
    by (auto simp: print_workspace_def state_ok_def ws_ok_def split: cell.splits sum.splits option.splits)
qed

text \<open>A session that chooses \<open>encrypted\<close>, sets the key 0x41 and prints.\<close>

lemma start_encrypted:
  "\<exists>s. start (str ''encrypted'' @ 0x0A # rest) = Next s \<and> wtype (ws s) = 3 \<and> cell (ws s) = Null \<and> inp s = rest"
proof -
  define s0 where "s0 = \<lparr>ws = \<lparr>wtype = 0, input_buf = None, buf_len = 0, cell = Null\<rparr>,
               pbuf = replicate BUF_SIZE 0, inp = str ''encrypted'' @ 0x0A # rest, out = []\<rparr>"
  obtain s1 where p: "prompt s0 (str ''type (plain, encoded, encrypted)'') = Inr (True, s1)"
      "ws s1 = ws s0" "inp s1 = rest" "cstr (pbuf s1) = str ''encrypted''"
    using prompt_line[of "str ''encrypted''" s0 rest "str ''type (plain, encoded, encrypted)''"]
    by (auto simp: s0_def str_def)
  have "start (str ''encrypted'' @ 0x0A # rest) = Next (set_ws ((ws s1)\<lparr>wtype := TYPE_ENCRYPT\<rparr>) s1)"
    unfolding start_def Let_def s0_def[symmetric] by (simp add: p(1) p(4)) (simp add: str_def)
  then show ?thesis using p by (auto simp: s0_def)
qed

lemma set_key_round:
  assumes "state_ok s" "wtype (ws s) = TYPE_ENCRYPT" "key \<noteq> []" "length key \<le> 256"
    and "inp s = str ''set_key'' @ 0x0A # hex_bytes key @ 0x0A # rest"
  shows "\<exists>s'. round pg s = Next s' \<and> ws s' = (ws s)\<lparr>cell := EncState (rc4_init key)\<rparr> \<and> inp s' = rest"
proof -
  obtain s1 where s1: "ws s1 = ws s" "inp s1 = hex_bytes key @ 0x0A # rest" "length (pbuf s1) = 4096"
      "round pg s = command pg s1 (str ''set_key'')"
    using round_line[OF assms(1,5), of pg] by (auto simp: str_def)
  have c: "cell (ws s1) \<notin> {PrintBase64, PrintHex}" using assms(1,2) s1 by (auto simp: state_ok_def ws_ok_def)
  obtain s' where s': "set_key pg s1 = Inr s'" "inp s' = rest" "ws s' = (ws s1)\<lparr>cell := EncState (rc4_init key)\<rparr>"
    using set_key_ok[OF assms(3,4) s1(3,2) c] by blast
  have "command pg s1 (str ''set_key'') = Next s'"
    using s1 assms(2) s'(1) by (simp add: command_def str_def CHECK_TYPE_def)
  then show ?thesis using s1 s' by auto
qed

lemma keyed_session:
  assumes "key \<noteq> []" "length key \<le> 256"
  shows "\<exists>s. reached pg s \<and> inp s = rest \<and> cell (ws s) = EncState (rc4_init key) \<and> wtype (ws s) = 3"
proof -
  obtain s where s: "start (str ''encrypted'' @ 0x0A # str ''set_key'' @ 0x0A # hex_bytes key @ 0x0A # rest) = Next s"
      "wtype (ws s) = 3" "inp s = str ''set_key'' @ 0x0A # hex_bytes key @ 0x0A # rest"
    using start_encrypted by blast
  have r: "reached pg s" using s(1) by (rule reached_start)
  obtain s' where "round pg s = Next s'" "ws s' = (ws s)\<lparr>cell := EncState (rc4_init key)\<rparr>" "inp s' = rest"
    using set_key_round[OF reached_ok[OF r] s(2) assms s(3), of pg] by blast
  then show ?thesis using reached_round[OF r] s(2) by auto
qed

section \<open>Encryption\<close>

lemma do_encrypt_result:
  assumes "state_ok s" "cell (ws s) = EncState (rc4_init key)" "key \<noteq> []" "input_buf (ws s) = Some b"
  shows "\<exists>s'. do_encrypt s = Inr s' \<and> buf_len (ws s') = buf_len (ws s) \<and> input_buf (ws s') = Some
      (map2 (\<lambda>x y. x XOR y) (take (buf_len (ws s)) b) (map of_nat (rc4_spec (map unat key) (buf_len (ws s))))
        @ drop (buf_len (ws s)) b)"
proof (cases "buf_len (ws s) = 0")
  case True
  then show ?thesis using assms by (simp add: do_encrypt_def)
next
  case False
  let ?n = "buf_len (ws s)"
  have n: "?n \<le> length b" using assms by (simp add: state_ok_def ws_ok_def)
  have "snd (prga 0 0 (rc4_init key) (take ?n b)) =
      map2 (\<lambda>x y. x XOR y) (take ?n b) (map of_nat (rc4_spec (map unat key) ?n))"
    using rc4_spec_stream[OF assms(3), of "take ?n b"] n by (simp add: min_absorb2)
  then show ?thesis
    using False n assms length_prga[of 0 0 "rc4_init key" "take ?n b"]
    by (simp add: do_encrypt_def input_bytes_def case_prod_unfold Let_def min_absorb2)
qed

lemma xor_stream_twice:
  "length ks = length xs \<Longrightarrow> map2 (\<lambda>x y. x XOR y) (map2 (\<lambda>x y. x XOR y) xs ks) ks = (xs :: bytes)"
  by (induction xs ks rule: list_induct2') (auto simp: xor.assoc)

lemma length_prga_spec [simp]: "length (prga_spec n i j f) = n"
  by (induction n arbitrary: i j f) (auto simp: Let_def)

text \<open>RC4 with a fixed key is its own inverse, as the contract of the prelude asks.\<close>

definition rc4_crypt :: "bytes \<Rightarrow> bytes \<Rightarrow> bytes" where
  "rc4_crypt key xs = snd (prga 0 0 (rc4_init key) xs)"

interpretation rc4: self_inverse rc4_crypt "\<lambda>key. key \<noteq> []"
proof unfold_locales
  show "rc4_crypt k (rc4_crypt k xs) = xs" if "k \<noteq> []" for k xs
    using that xor_stream_twice
    by (simp add: rc4_crypt_def rc4_spec_stream rc4_spec_def)
  show "length (rc4_crypt k xs) = length xs" for k xs
    by (simp add: rc4_crypt_def)
qed

section \<open>Properties\<close>

text \<open>
  C11: the session keeps its types apart. In every state the loop of \<open>main\<close> reaches, the
  union of a cipher workspace holds no printing function, that of an encoder holds no
  cipher state, a cipher state is a permutation of the 256 bytes, and \<open>buf_len\<close> bytes of
  the input buffer exist.
\<close>

theorem session_keeps_types: "reached pg s \<Longrightarrow> ws_ok (ws s) \<and> length (pbuf s) = BUF_SIZE"
  using reached_ok by (auto simp: state_ok_def)

theorem session_keeps_types_witness:
  "\<exists>s. reached 4096 s \<and> cell (ws s) = EncState (rc4_init [0x41]) \<and> ws_ok (ws s)"
proof -
  obtain s where "reached 4096 s" "cell (ws s) = EncState (rc4_init [0x41])"
    using keyed_session[of "[0x41]" 4096] by auto
  then show ?thesis using session_keeps_types by auto
qed

text \<open>
  C2: the type test of \<open>print\<close> is wrong for ciphers. The flag test \<open>(3 & 2) == 2\<close> holds, so
  \<open>print\<close> calls the union as a function: a session jumps into the bytes of the RC4 state
  exactly when a key has been set, and those 256 bytes are a permutation the user chose
  through the key.
\<close>

theorem print_jumps_into_cipher_state:
  assumes "reached pg s" "inp s = str ''print'' @ 0x0A # rest"
  shows "round pg s = Fault (CallsData S) \<longleftrightarrow> cell (ws s) = EncState S \<and> wtype (ws s) = TYPE_ENCRYPT \<and> set S = UNIV"
proof -
  have "cell (ws s) = EncState S \<Longrightarrow> wtype (ws s) = 3 \<and> set S = UNIV"
    using reached_ok[OF assms(1)] perm_onto by (auto simp: state_ok_def ws_ok_def)
  then show ?thesis using print_round[OF assms] by auto
qed

theorem print_jumps_into_cipher_state_witness:
  "\<exists>s. reached 4096 s \<and> round 4096 s = Fault (CallsData (rc4_init [0x41]))"
proof -
  obtain s where s: "reached 4096 s" "inp s = str ''print'' @ [0x0A]" "cell (ws s) = EncState (rc4_init [0x41])"
      "wtype (ws s) = 3"
    using keyed_session[of "[0x41]" 4096] by auto
  show ?thesis
    using print_jumps_into_cipher_state[OF s(1,2)] s perm_onto[OF rc4_init_perm, of "[0x41]"] by auto
qed

text \<open>
  C7: the cipher is RC4, and re-keying decrypts. The signed-character arithmetic of \<open>set_key\<close>
  and \<open>do_encrypt\<close> xors the input with the key stream of textbook RC4, and encrypting again
  from the same key restores the buffer.
\<close>

theorem do_encrypt_is_rc4:
  assumes "state_ok s" "cell (ws s) = EncState (rc4_init key)" "key \<noteq> []" "input_buf (ws s) = Some b"
  shows "\<exists>s1 s2. do_encrypt s = Inr s1 \<and>
    input_buf (ws s1) = Some (map2 (\<lambda>x y. x XOR y) (take (buf_len (ws s)) b)
      (map of_nat (rc4_spec (map unat key) (buf_len (ws s)))) @ drop (buf_len (ws s)) b) \<and>
    do_encrypt (set_ws ((ws s1)\<lparr>cell := EncState (rc4_init key)\<rparr>) s1) = Inr s2 \<and>
    input_buf (ws s2) = Some b"
proof -
  let ?n = "buf_len (ws s)"
  let ?c = "map2 (\<lambda>x y. x XOR y) (take ?n b) (map of_nat (rc4_spec (map unat key) ?n))"
  have n: "?n \<le> length b" using assms by (simp add: state_ok_def ws_ok_def)
  obtain s1 where s1: "do_encrypt s = Inr s1" "buf_len (ws s1) = ?n" "input_buf (ws s1) = Some (?c @ drop ?n b)"
    using do_encrypt_result[OF assms] by auto
  let ?s = "set_ws ((ws s1)\<lparr>cell := EncState (rc4_init key)\<rparr>) s1"
  have w: "wtype (ws s) = 3" using assms(1,2) by (simp add: state_ok_def ws_ok_def)
  have "wtype (ws s1) = 3"
    using s1(1) assms w
    by (auto simp: do_encrypt_def case_prod_unfold Let_def input_bytes_def split: if_splits)
  then have "state_ok ?s"
    using do_encrypt_ok[OF s1(1) assms(1)] by (auto simp: state_ok_def ws_ok_def rc4_init_perm)
  moreover have "length ?c = ?n" using n by (simp add: rc4_spec_def)
  ultimately show ?thesis
    using do_encrypt_result[of ?s key "?c @ drop ?n b"] s1 assms(3) n
    by (auto simp: xor_stream_twice rc4_spec_def min_absorb2)
qed

theorem do_encrypt_is_rc4_witness:
  "\<exists>s1. do_encrypt \<lparr>ws = \<lparr>wtype = 3, input_buf = Some [0x41, 0x42, 0], buf_len = 2,
       cell = EncState (rc4_init [0x4B])\<rparr>, pbuf = replicate BUF_SIZE 0, inp = [], out = []\<rparr> = Inr s1 \<and>
     input_buf (ws s1) = Some (map2 (\<lambda>x y. x XOR y) [0x41, 0x42] (map of_nat (rc4_spec [75] 2)) @ [0])"
  using do_encrypt_is_rc4[of "\<lparr>ws = \<lparr>wtype = 3, input_buf = Some [0x41, 0x42, 0], buf_len = 2,
       cell = EncState (rc4_init [0x4B])\<rparr>, pbuf = replicate BUF_SIZE 0, inp = [], out = []\<rparr>" "[0x4B]"
      "[0x41, 0x42, 0]"]
  by (auto simp: state_ok_def ws_ok_def rc4_init_perm)

text \<open>
  When \<open>set_input\<close> faults. \<open>secure_strdup\<close> rounds the length with its NUL up to whole
  pages and copies one byte more than that length, so the copy runs into the guard page
  exactly when the page size divides the length with its NUL (or when no byte follows the
  NUL in the source); otherwise the copy holds the string.
\<close>

lemma secure_strdup_faults:
  assumes "k < 32" "strlen src + 1 < 2 ^ 32" "terminated src"
  shows "case secure_strdup (2 ^ k) src of
      Inl f \<Rightarrow> f = OutOfBounds \<and> (2 ^ k dvd strlen src + 1 \<or> length src = strlen src + 1)
    | Inr b \<Rightarrow> cstr b = cstr src \<and> \<not> 2 ^ k dvd strlen src + 1"
proof -
  have "strlen src + 1 \<le> length src" using strlen_less[OF assms(3)] by simp
  moreover have "cstr (take (strlen src + 2) src @ r) = cstr src" if "strlen src + 2 \<le> length src" for r
  proof -
    have "take (strlen src + 2) src = cstr src @ 0 # take 1 (drop (Suc (strlen src)) src)"
      by (subst split_cstr[OF assms(3)]) (simp add: strlen_def)
    then show ?thesis using cstr_no_nul by simp
  qed
  ultimately show ?thesis by (auto simp: secure_strdup_result[OF assms(1,2)])
qed

lemma secure_strdup_faults_example:
  "secure_strdup (2 ^ 2) (str ''abc'' @ [0, 0]) = Inl OutOfBounds"
proof -
  have "(4 :: nat) dvd Suc (Suc (Suc (Suc 0)))" by (simp add: eval_nat_numeral)
  then show ?thesis
  using secure_strdup_faults[of 2 "str ''abc'' @ [0, 0]"]
  by (simp add: str_def terminated_def strlen_def split: sum.splits)
qed

end
