(* ===== verification/GmanBoard.thy ===== *)
theory GmanBoard
  imports Prelude
begin

text \<open>
  \<open>gman/challenge/src/gman.c\<close>, first part: the boards, the bit grids that hold walls and
  pellets, and movement on a board. A grid is the byte array of the code; reads and writes
  of it are checked.
\<close>

section \<open>Bit grids\<close>

abbreviation (input) ROWS :: nat where "ROWS \<equiv> 21"
abbreviation (input) COLS :: nat where "COLS \<equiv> 27"
abbreviation (input) GRID_BYTES :: nat where "GRID_BYTES \<equiv> 71"

definition set_bit :: "bytes \<Rightarrow> nat \<Rightarrow> nat \<Rightarrow> bool \<Rightarrow> bytes option" where
  "set_bit array x y value =
     (let byte = (y * COLS + x) div 8;
          b = (y * COLS + x) mod 8;
          b = 7 - b
      in do {
        old \<leftarrow> rd array byte;
        wr array byte (if value then old OR push_bit b 1 else old AND NOT (push_bit b 1))
      })"

definition get_bit :: "bytes \<Rightarrow> nat \<Rightarrow> nat \<Rightarrow> bool option" where
  "get_bit array x y =
     (let byte = (y * COLS + x) div 8;
          b = (y * COLS + x) mod 8;
          b = 7 - b
      in map_option (\<lambda>old. old AND push_bit b 1 \<noteq> 0) (rd array byte))"

section \<open>The boards\<close>

definition BOARDS :: "string list list" where
  "BOARDS =
  [[''1111111111111 1111111111111'',
   ''11          1 1          11'',
   ''11 1111 111 1 1 111 1111 11'',
   ''11                       11'',
   ''11 1111 11111 11111 1111 11'',
   ''11         11 11         11'',
   ''1111111 11       11 1111111'',
   ''1111111 11111 11111 1111111'',
   ''1111111 11111 11111 1111111'',
   ''                           '',
   ''1111111 1111   1111 1111111'',
   ''1111111 11111 11111 1111111'',
   ''1111111 111     111 1111111'',
   ''11          111          11'',
   ''11 11 111 1111111 111 11 11'',
   ''11    11           11    11'',
   ''11111 11 111111111 11 11111'',
   ''                           '',
   ''11 111 11111 1 11111 111 11'',
   ''11                       11'',
   ''1111111111111 1111111111111''],
  [''111111111111111111111111111'',
   ''11                       11'',
   ''11 11111111 111 11111111 11'',
   ''                           '',
   ''11 1111 11111111111 1111 11'',
   ''11         11111         11'',
   ''1111111 11       11 1111111'',
   ''1111111 11111 11111 1111111'',
   ''1111111 11111 11111 1111111'',
   ''11                       11'',
   ''11 1111 1111   1111 1111 11'',
   ''11 1111 11111 11111 1111 11'',
   ''11 1111 111     111 1111 11'',
   ''11          111          11'',
   ''11 11 111 1111111 111 11 11'',
   ''      11           11      '',
   ''11111 11 111111111 11 11111'',
   ''11                       11'',
   ''11 111 11111 1 11111 111 11'',
   ''11                       11'',
   ''111111111111111111111111111''],
  [''111111111111111111111111111'',
   ''                           '',
   ''111111111 1 111 1 111111111'',
   ''11                       11'',
   ''11 1111 11111111111 1111 11'',
   ''11         11111         11'',
   ''11 1111 11       11 1111 11'',
   ''11 1111 11111 11111 1111 11'',
   ''11 1111 11111 11111 1111 11'',
   ''11                       11'',
   ''11 1111 1111   1111 1111 11'',
   ''11 1111 11111 11111 1111 11'',
   ''11 1111 111     111 1111 11'',
   ''11          111          11'',
   ''11 11 111 1111111 111 11 11'',
   ''11    11           11    11'',
   ''11111 11 111111111 11 11111'',
   ''                           '',
   ''111111111111 1 111111111111'',
   ''                           '',
   ''111111111111111111111111111''],
  [''111111111111111111111111111'',
   ''1                         1'',
   ''1 1 1 111 1 1 1 1 111 1 1 1'',
   ''1 1 1 111 1 1 1 1 111 1 1 1'',
   ''1 1 1 111 1 1 1 1 111 1 1 1'',
   ''1 1 1 111  11 11  111 1 1 1'',
   ''1   1   11       11   1   1'',
   ''1 11111 11111 11111 11111 1'',
   ''1 11111 11111 11111 11111 1'',
   ''1                         1'',
   ''1 1 111 1111   1111 111 1 1'',
   ''1 1 111 11111 11111 111 1 1'',
   ''1 1 111 111     111 111 1 1'',
   ''1 1         111         1 1'',
   ''1 111 111 1111111 111 111 1'',
   ''1 1                     1 1'',
   ''1 11111111111111111111111 1'',
   ''1                         1'',
   ''1 1111 11111 1 11111 1111 1'',
   ''1                         1'',
   ''111111111111111111111111111'']]"

record board =
  pellets :: bytes
  walls :: bytes

abbreviation (input) MAX_LEVELS :: nat where "MAX_LEVELS \<equiv> 100"
abbreviation (input) BOARD_COUNT :: nat where "BOARD_COUNT \<equiv> 4"

definition cells :: "(nat \<times> nat) list" where
  "cells = concat (map (\<lambda>x. map (\<lambda>y. (x, y)) [0..<ROWS]) [0..<COLS])"

text \<open>The two inner loops of \<open>initialize_boards\<close> on the board of one level.\<close>

fun init_cells :: "string list \<Rightarrow> (nat \<times> nat) list \<Rightarrow> board \<Rightarrow> board option" where
  "init_cells art [] bd = Some bd"
| "init_cells art ((x, y) # ps) bd = do {
     w \<leftarrow> set_bit (walls bd) x y (art ! y ! x = CHR ''1'');
     p \<leftarrow> set_bit (pellets bd) x y (art ! y ! x = CHR '' '');
     init_cells art ps (bd\<lparr>walls := w, pellets := p\<rparr>)
   }"

fun init_levels :: "nat list \<Rightarrow> board list \<Rightarrow> board list option" where
  "init_levels [] bds = Some bds"
| "init_levels (b # bs) bds = do {
     bd \<leftarrow> rd bds b;
     bd \<leftarrow> init_cells (BOARDS ! (b mod BOARD_COUNT)) cells bd;
     bds \<leftarrow> wr bds b bd;
     init_levels bs bds
   }"

text \<open>The argument is the memory of the array, which holds anything.\<close>

definition initialize_boards :: "board list \<Rightarrow> board list option" where
  "initialize_boards bds = init_levels [0..<MAX_LEVELS] bds"

section \<open>Movement\<close>

text \<open>
  \<open>direction_t\<close> has no negative constant, so its representation is unsigned: \<open>-1\<close> is a
  fifth value and \<open>d < 0\<close> never holds.
\<close>

type_synonym direction = u32

abbreviation (input) LEFT :: direction where "LEFT \<equiv> 0"
abbreviation (input) RIGHT :: direction where "RIGHT \<equiv> 1"
abbreviation (input) UP :: direction where "UP \<equiv> 2"
abbreviation (input) DOWN :: direction where "DOWN \<equiv> 3"

definition can_move :: "board \<Rightarrow> direction \<Rightarrow> u8 \<Rightarrow> u8 \<Rightarrow> bool option" where
  "can_move bd d x y =
     (if d = UP then if y = 0 then Some True else map_option Not (get_bit (walls bd) (unat x) (unat y - 1))
      else if d = DOWN then if unat y = ROWS - 1 then Some True else map_option Not (get_bit (walls bd) (unat x) (unat y + 1))
      else if d = LEFT then if x = 0 then Some True else map_option Not (get_bit (walls bd) (unat x - 1) (unat y))
      else if d = RIGHT then if unat x = COLS - 1 then Some True else map_option Not (get_bit (walls bd) (unat x + 1) (unat y))
      else Some False)"

definition can_turn :: "board \<Rightarrow> direction \<Rightarrow> u8 \<Rightarrow> u8 \<Rightarrow> bool option" where
  "can_turn bd d x y =
     (if d = UP \<or> d = DOWN then do {
        l \<leftarrow> can_move bd LEFT x y;
        if l then Some True else can_move bd RIGHT x y
      }
      else if d = LEFT \<or> d = RIGHT then do {
        u \<leftarrow> can_move bd UP x y;
        if u then Some True else can_move bd DOWN x y
      }
      else Some False)"

definition do_move :: "board \<Rightarrow> direction \<Rightarrow> u8 \<Rightarrow> u8 \<Rightarrow> (u8 \<times> u8) option" where
  "do_move bd d x y = do {
     can \<leftarrow> can_move bd d x y;
     Some (if \<not> can then (x, y)
       else if d = LEFT \<and> x = 0 then (of_nat (COLS - 1), y)
       else if d = RIGHT \<and> x = of_nat (COLS - 1) then (0, y)
       else if d = UP \<and> y = 0 then (x, of_nat (ROWS - 1))
       else if d = DOWN \<and> y = of_nat (ROWS - 1) then (x, 0)
       else if d = UP then (x, y - 1)
       else if d = DOWN then (x, y + 1)
       else if d = LEFT then (x - 1, y)
       else if d = RIGHT then (x + 1, y)
       else (x, y))
   }"

definition pellets_remaining :: "board \<Rightarrow> bool option" where
  "pellets_remaining bd =
     fold (\<lambda>(x, y) found. do { f \<leftarrow> found; if f then Some True else get_bit (pellets bd) x y }) cells (Some False)"

section \<open>Laws of a grid\<close>

text \<open>
  A grid of cells: what a cell holds after a write, and that a write keeps the grid well
  formed.
\<close>

locale grid =
  fixes ok :: "'g \<Rightarrow> bool"
    and valid :: "'p \<Rightarrow> bool"
    and look :: "'g \<Rightarrow> 'p \<Rightarrow> bool"
    and put :: "'g \<Rightarrow> 'p \<Rightarrow> bool \<Rightarrow> 'g"
  assumes ok_put: "ok g \<Longrightarrow> valid p \<Longrightarrow> ok (put g p v)"
    and look_put: "ok g \<Longrightarrow> valid p \<Longrightarrow> valid q \<Longrightarrow> look (put g p v) q = (if q = p then v else look g q)"
begin

definition paint :: "('p \<Rightarrow> bool) \<Rightarrow> 'p list \<Rightarrow> 'g \<Rightarrow> 'g" where
  "paint f ps g = fold (\<lambda>p g. put g p (f p)) ps g"

lemma paint_simps [simp]: "paint f [] g = g" "paint f (p # ps) g = paint f ps (put g p (f p))"
  by (simp_all add: paint_def)

lemma ok_paint: "ok g \<Longrightarrow> \<forall>p \<in> set ps. valid p \<Longrightarrow> ok (paint f ps g)"
  by (induction ps arbitrary: g) (auto simp: ok_put)

lemma look_paint:
  "ok g \<Longrightarrow> \<forall>p \<in> set ps. valid p \<Longrightarrow> valid q \<Longrightarrow> look (paint f ps g) q = (if q \<in> set ps then f q else look g q)"
  by (induction ps arbitrary: g) (auto simp: ok_put look_put)

text \<open>The number of cells of a list that are set, and how clearing one changes it.\<close>

definition count :: "'p list \<Rightarrow> 'g \<Rightarrow> nat" where
  "count ps g = length (filter (look g) ps)"

lemma count_clear:
  assumes "ok g" "distinct ps" "\<forall>p \<in> set ps. valid p" "p \<in> set ps" "look g p"
  shows "count ps g = Suc (count ps (put g p False))"
  using assms(2-5)
proof (induction ps)
  case (Cons q ps)
  show ?case
  proof (cases "q = p")
    case True
    have "filter (look (put g p False)) ps = filter (look g) ps"
      using Cons.prems True assms(1) by (intro filter_cong refl) (auto simp: look_put)
    then show ?thesis using Cons.prems True assms(1) by (simp add: count_def look_put)
  next
    case False
    then show ?thesis using Cons assms(1) by (simp add: count_def look_put)
  qed
qed simp

lemma count_0: "count ps g = 0 \<longleftrightarrow> (\<forall>p \<in> set ps. \<not> look g p)"
  by (auto simp: count_def filter_empty_conv)

end

definition cell_valid :: "nat \<times> nat \<Rightarrow> bool" where
  "cell_valid p \<longleftrightarrow> fst p < COLS \<and> snd p < ROWS"

definition grid_ok :: "bytes \<Rightarrow> bool" where
  "grid_ok a \<longleftrightarrow> length a = GRID_BYTES"

definition cell_index :: "nat \<times> nat \<Rightarrow> nat" where
  "cell_index p = snd p * COLS + fst p"

definition look_cell :: "bytes \<Rightarrow> nat \<times> nat \<Rightarrow> bool" where
  "look_cell a p = bit (a ! (cell_index p div 8)) (7 - cell_index p mod 8)"

definition put_cell :: "bytes \<Rightarrow> nat \<times> nat \<Rightarrow> bool \<Rightarrow> bytes" where
  "put_cell a p v =
     a[cell_index p div 8 := (if v then a ! (cell_index p div 8) OR push_bit (7 - cell_index p mod 8) 1
        else a ! (cell_index p div 8) AND NOT (push_bit (7 - cell_index p mod 8) 1))]"

lemma cell_index_less: "cell_valid p \<Longrightarrow> cell_index p div 8 < GRID_BYTES"
  by (auto simp: cell_valid_def cell_index_def)

lemma cell_index_inj: "cell_valid p \<Longrightarrow> cell_valid q \<Longrightarrow> cell_index p = cell_index q \<Longrightarrow> p = q"
proof -
  assume v: "cell_valid p" "cell_valid q" and e: "cell_index p = cell_index q"
  have "cell_index r mod 27 = fst r" "cell_index r div 27 = snd r" if "cell_valid r" for r
    using that by (simp_all add: cell_valid_def cell_index_def)
  then have "fst p = fst q" "snd p = snd q" using v e by metis+
  then show "p = q" by (rule prod_eqI)
qed

lemma bit_place: "bit (push_bit (7 - k) 1 :: u8) n \<longleftrightarrow> n = 7 - k"
  by (auto simp: bit_simps)

interpretation bits: grid grid_ok cell_valid look_cell put_cell
proof unfold_locales
  show "grid_ok (put_cell g p v)" if "grid_ok g" for g p v
    using that by (simp add: grid_ok_def put_cell_def)
next
  fix g p q v
  assume ok: "grid_ok g" "cell_valid p" "cell_valid q"
  have l: "cell_index p div 8 < length g" using ok cell_index_less by (simp add: grid_ok_def)
  show "look_cell (put_cell g p v) q = (if q = p then v else look_cell g q)"
  proof (cases "q = p")
    case True
    moreover have "7 - cell_index p mod 8 < 8" by simp
    ultimately show ?thesis using l by (auto simp: look_cell_def put_cell_def bit_simps)
  next
    case False
    then have "cell_index q \<noteq> cell_index p" using ok cell_index_inj by blast
    then have "cell_index q div 8 \<noteq> cell_index p div 8 \<or> cell_index q mod 8 \<noteq> cell_index p mod 8"
      by (metis div_mult_mod_eq)
    moreover have "cell_index q mod 8 < 8" "cell_index p mod 8 < 8" by simp_all
    ultimately have "cell_index q div 8 \<noteq> cell_index p div 8 \<or> 7 - cell_index q mod 8 \<noteq> 7 - cell_index p mod 8"
      by linarith
    then show ?thesis
      using l False by (cases "cell_index q div 8 = cell_index p div 8")
        (auto simp: look_cell_def put_cell_def bit_place bit_or_iff bit_and_iff bit_not_iff bit_exp_iff)
  qed
qed

lemma get_bit_cell: "grid_ok a \<Longrightarrow> cell_valid (x, y) \<Longrightarrow> get_bit a x y = Some (look_cell a (x, y))"
proof -
  assume a: "grid_ok a" "cell_valid (x, y)"
  then have "(y * 27 + x) div 8 < length a" using cell_index_less[of "(x, y)"] by (simp add: grid_ok_def cell_index_def)
  moreover have "w AND push_bit n 1 \<noteq> 0 \<longleftrightarrow> bit w n" for w :: u8 and n
    by (simp add: bit_iff_and_push_bit_not_eq_0)
  ultimately show ?thesis by (simp add: get_bit_def Let_def rd_in look_cell_def cell_index_def)
qed

lemma set_bit_cell: "grid_ok a \<Longrightarrow> cell_valid (x, y) \<Longrightarrow> set_bit a x y v = Some (put_cell a (x, y) v)"
  using cell_index_less[of "(x, y)"]
  by (simp add: set_bit_def Let_def rd_in wr_in put_cell_def cell_index_def grid_ok_def)

section \<open>What the boards look like\<close>

definition wall_at :: "nat \<Rightarrow> nat \<times> nat \<Rightarrow> bool" where
  "wall_at b p \<longleftrightarrow> BOARDS ! (b mod BOARD_COUNT) ! snd p ! fst p = CHR ''1''"

definition pellet_at :: "nat \<Rightarrow> nat \<times> nat \<Rightarrow> bool" where
  "pellet_at b p \<longleftrightarrow> BOARDS ! (b mod BOARD_COUNT) ! snd p ! fst p = CHR '' ''"

definition board_ok :: "board \<Rightarrow> bool" where
  "board_ok bd \<longleftrightarrow> grid_ok (pellets bd) \<and> grid_ok (walls bd)"

lemma set_cells: "set cells = Collect cell_valid"
  by (auto simp: cells_def cell_valid_def)

lemma distinct_cells: "distinct cells"
proof -
  have "distinct (concat (map (\<lambda>x. map (\<lambda>y. (x, y)) ys) xs))" if "distinct xs" "distinct ys"
    for xs ys :: "nat list"
    using that by (induction xs) (auto simp: distinct_map inj_on_def)
  then show ?thesis by (simp only: cells_def distinct_upt)
qed

lemma init_cells_paint:
  "board_ok bd \<Longrightarrow> \<forall>p \<in> set ps. cell_valid p \<Longrightarrow>
   init_cells (BOARDS ! (b mod BOARD_COUNT)) ps bd =
     Some \<lparr>pellets = bits.paint (pellet_at b) ps (pellets bd), walls = bits.paint (wall_at b) ps (walls bd)\<rparr>"
proof (induction ps arbitrary: bd)
  case (Cons p ps)
  obtain x y where p: "p = (x, y)" by (cases p)
  have ok: "grid_ok (pellets bd)" "grid_ok (walls bd)" "cell_valid (x, y)"
    using Cons.prems by (auto simp: board_ok_def p)
  let ?bd = "bd\<lparr>walls := put_cell (walls bd) p (wall_at b p), pellets := put_cell (pellets bd) p (pellet_at b p)\<rparr>"
  have "board_ok ?bd" using ok by (simp add: board_ok_def bits.ok_put p)
  with Cons show ?case
    using ok by (simp add: p set_bit_cell wall_at_def pellet_at_def)
qed simp

lemma board_eqI: "pellets a = p \<Longrightarrow> walls a = w \<Longrightarrow> a = \<lparr>pellets = p, walls = w\<rparr>"
  by simp

text \<open>A board holds the drawing of its level.\<close>

definition shows_level :: "nat \<Rightarrow> board \<Rightarrow> bool" where
  "shows_level b bd \<longleftrightarrow> board_ok bd \<and>
     (\<forall>p. cell_valid p \<longrightarrow> look_cell (walls bd) p = wall_at b p \<and> look_cell (pellets bd) p = pellet_at b p)"

lemma init_cells_shows:
  assumes "board_ok bd"
  shows "\<exists>bd'. init_cells (BOARDS ! (b mod BOARD_COUNT)) cells bd = Some bd' \<and> shows_level b bd'"
proof -
  have v: "\<forall>p \<in> set cells. cell_valid p" by (simp add: set_cells)
  have ok: "grid_ok (pellets bd)" "grid_ok (walls bd)" using assms by (auto simp: board_ok_def)
  show ?thesis
    unfolding init_cells_paint[OF assms v] shows_level_def board_ok_def
    using bits.ok_paint[OF ok(1) v] bits.ok_paint[OF ok(2) v] bits.look_paint[OF ok(1) v] bits.look_paint[OF ok(2) v]
    by (simp add: set_cells)
qed

lemma init_levels_shows:
  assumes "\<forall>bd \<in> set bds. board_ok bd" "\<forall>b \<in> set bs. b < length bds" "distinct bs"
  shows "\<exists>bds'. init_levels bs bds = Some bds' \<and> length bds' = length bds \<and>
    (\<forall>b < length bds. if b \<in> set bs then shows_level b (bds' ! b) else bds' ! b = bds ! b)"
  using assms
proof (induction bs arbitrary: bds)
  case (Cons b bs)
  have b: "b < length bds" "board_ok (bds ! b)" using Cons.prems by auto
  obtain bd where bd: "init_cells (BOARDS ! (b mod BOARD_COUNT)) cells (bds ! b) = Some bd" "shows_level b bd"
    using init_cells_shows[OF b(2)] by blast
  have "\<forall>x \<in> set (bds[b := bd]). board_ok x"
    using Cons.prems(1) bd(2) by (auto simp: shows_level_def dest!: subsetD[OF set_update_subset_insert])
  then obtain bds' where *: "init_levels bs (bds[b := bd]) = Some bds'" "length bds' = length bds"
      "\<forall>c < length bds. if c \<in> set bs then shows_level c (bds' ! c) else bds' ! c = bds[b := bd] ! c"
    using Cons.IH[of "bds[b := bd]"] Cons.prems by auto
  have "\<forall>c < length bds. if c \<in> set (b # bs) then shows_level c (bds' ! c) else bds' ! c = bds ! c"
  proof (intro allI impI)
    fix c assume "c < length bds"
    then show "if c \<in> set (b # bs) then shows_level c (bds' ! c) else bds' ! c = bds ! c"
      using *(3)[rule_format, of c] Cons.prems(3) bd(2) b by (cases "c = b") (auto split: if_splits)
  qed
  then show ?case using * b bd(1) by (simp add: rd_in wr_in)
qed simp

lemma initialize_boards_shows:
  assumes "length bds = MAX_LEVELS" "\<forall>bd \<in> set bds. board_ok bd"
  shows "\<exists>bds'. initialize_boards bds = Some bds' \<and> length bds' = MAX_LEVELS \<and>
    (\<forall>b < MAX_LEVELS. shows_level b (bds' ! b))"
  using init_levels_shows[of bds "[0..<MAX_LEVELS]"] assms by (auto simp: initialize_boards_def)

text \<open>The tunnels lead to tunnels: opposite edges of every drawing agree.\<close>

definition tunnels :: "string list \<Rightarrow> bool" where
  "tunnels art \<longleftrightarrow> list_all (\<lambda>row. row ! 0 = row ! (COLS - 1)) art \<and> art ! 0 = art ! (ROWS - 1) \<and> length art = ROWS"

lemma BOARDS_tunnels: "list_all tunnels BOARDS"
  by (simp add: BOARDS_def tunnels_def)

lemma level_art: "BOARDS ! (b mod BOARD_COUNT) \<in> set BOARDS"
  by (rule nth_mem) (simp add: BOARDS_def)

lemma wall_edges:
  "y < ROWS \<Longrightarrow> wall_at b (0, y) = wall_at b (COLS - 1, y)"
  "wall_at b (x, 0) = wall_at b (x, ROWS - 1)"
proof -
  have t: "tunnels (BOARDS ! (b mod BOARD_COUNT))"
    using BOARDS_tunnels level_art[of b] by (auto simp: list_all_iff)
  then show "wall_at b (x, 0) = wall_at b (x, ROWS - 1)" by (simp add: tunnels_def wall_at_def)
  show "wall_at b (0, y) = wall_at b (COLS - 1, y)" if "y < ROWS"
    using t that nth_mem[of y "BOARDS ! (b mod BOARD_COUNT)"] by (auto simp: tunnels_def wall_at_def list_all_iff)
qed

lemma start_cells: "\<not> wall_at b (11, 15)" "\<not> wall_at b (12, 9)" "\<not> wall_at b (13, 9)"
  "\<not> wall_at b (12, 10)" "\<not> wall_at b (13, 10)"
proof -
  have "list_all (\<lambda>art. list_all (\<lambda>(x, y). art ! y ! x \<noteq> CHR ''1'')
      [(11, 15), (12, 9), (13, 9), (12, 10), (13, 10)]) BOARDS"
    by (simp add: BOARDS_def)
  then have "list_all (\<lambda>(x, y). BOARDS ! (b mod BOARD_COUNT) ! y ! x \<noteq> CHR ''1'')
      [(11, 15), (12, 9), (13, 9), (12, 10), (13, 10)]"
    using level_art[of b] by (simp add: list_all_iff)
  then show "\<not> wall_at b (11, 15)" "\<not> wall_at b (12, 9)" "\<not> wall_at b (13, 9)"
    "\<not> wall_at b (12, 10)" "\<not> wall_at b (13, 10)"
    by (simp_all add: wall_at_def)
qed

section \<open>Movement stays on free cells\<close>

text \<open>The walls of a board are those of its level; the pellets may have been eaten.\<close>

definition walled :: "nat \<Rightarrow> board \<Rightarrow> bool" where
  "walled b bd \<longleftrightarrow> board_ok bd \<and> (\<forall>p. cell_valid p \<longrightarrow> look_cell (walls bd) p = wall_at b p)"

definition free :: "nat \<Rightarrow> u8 \<times> u8 \<Rightarrow> bool" where
  "free b p \<longleftrightarrow> cell_valid (unat (fst p), unat (snd p)) \<and> \<not> wall_at b (unat (fst p), unat (snd p))"

lemma walled_get: "walled b bd \<Longrightarrow> cell_valid (x, y) \<Longrightarrow> get_bit (walls bd) x y = Some (wall_at b (x, y))"
  by (simp add: walled_def board_ok_def get_bit_cell)

text \<open>Where a step in a direction leads, the tunnels included.\<close>

definition ahead :: "direction \<Rightarrow> nat \<times> nat \<Rightarrow> nat \<times> nat" where
  "ahead d p = (let (x, y) = p in
     if d = UP then (x, (y + (ROWS - 1)) mod ROWS)
     else if d = DOWN then (x, (y + 1) mod ROWS)
     else if d = LEFT then ((x + (COLS - 1)) mod COLS, y)
     else ((x + 1) mod COLS, y))"

lemma ahead_valid: "cell_valid p \<Longrightarrow> cell_valid (ahead d p)"
  by (cases p) (auto simp: ahead_def cell_valid_def)

lemma can_move_iff:
  assumes w: "walled b bd" and f: "free b (x, y)" and d: "d \<in> {LEFT, RIGHT, UP, DOWN}"
  shows "can_move bd d x y = Some (\<not> wall_at b (ahead d (unat x, unat y)))"
proof -
  have v: "unat x < 27" "unat y < 21" and n: "\<not> wall_at b (unat x, unat y)"
    using f by (simp_all add: free_def cell_valid_def)
  have z: "x = 0 \<longleftrightarrow> unat x = 0" "y = 0 \<longleftrightarrow> unat y = 0" by (simp_all add: unat_eq_0)
  have e: "\<not> wall_at b (0, unat y) \<longleftrightarrow> \<not> wall_at b (26, unat y)" "\<not> wall_at b (unat x, 0) \<longleftrightarrow> \<not> wall_at b (unat x, 20)"
    using wall_edges v by simp_all
  show ?thesis
    using d v n e walled_get[OF w]
    by (auto simp: can_move_def ahead_def z cell_valid_def mod_if le_mod_geq split: if_splits)
qed

lemma do_move_known:
  assumes w: "walled b bd" and f: "free b (x, y)" and d: "d \<in> {LEFT, RIGHT, UP, DOWN}"
  shows "\<exists>x' y'. do_move bd d x y = Some (x', y') \<and>
    (unat x', unat y') = (if wall_at b (ahead d (unat x, unat y)) then (unat x, unat y) else ahead d (unat x, unat y))"
proof (cases "wall_at b (ahead d (unat x, unat y))")
  case True
  then show ?thesis by (simp add: do_move_def can_move_iff[OF assms])
next
  case False
  have v: "unat x < 27" "unat y < 21" using f by (simp_all add: free_def cell_valid_def)
  have z: "x = 0 \<longleftrightarrow> unat x = 0" "y = 0 \<longleftrightarrow> unat y = 0" "x = 26 \<longleftrightarrow> unat x = 26" "y = 20 \<longleftrightarrow> unat y = 20"
    by (simp_all add: word_unat_eq_iff)
  have i: "unat (x + 1) = unat x + 1" "unat (y + 1) = unat y + 1"
    using v by (simp_all add: unat_word_ariths)
  have m: "unat x \<noteq> 0 \<Longrightarrow> unat (x - 1) = unat x - 1" "unat y \<noteq> 0 \<Longrightarrow> unat (y - 1) = unat y - 1"
    using v by (simp_all add: unat_minus_one z)
  show ?thesis
    using d False v i m
    by (auto simp: do_move_def can_move_iff[OF assms] ahead_def z mod_if le_mod_geq split: if_splits)
qed

lemma do_move_unknown: "d \<notin> {LEFT, RIGHT, UP, DOWN} \<Longrightarrow> do_move bd d x y = Some (x, y)"
  by (simp add: do_move_def can_move_def)

lemma do_move_ok:
  assumes "walled b bd" "free b (x, y)"
  shows "\<exists>x' y'. do_move bd d x y = Some (x', y') \<and> free b (x', y')"
proof (cases "d \<in> {LEFT, RIGHT, UP, DOWN}")
  case True
  obtain x' y' where "do_move bd d x y = Some (x', y')"
    "(unat x', unat y') = (if wall_at b (ahead d (unat x, unat y)) then (unat x, unat y) else ahead d (unat x, unat y))"
    using do_move_known[OF assms True] by blast
  moreover have "cell_valid (ahead d (unat x, unat y))" using assms(2) ahead_valid by (simp add: free_def)
  ultimately show ?thesis using assms(2) by (auto simp: free_def split: if_splits)
next
  case False
  then show ?thesis using do_move_unknown assms(2) by auto
qed

lemma can_move_total: "walled b bd \<Longrightarrow> free b (x, y) \<Longrightarrow> \<exists>c. can_move bd d x y = Some c"
  using can_move_iff[of b bd x y d] by (cases "d \<in> {LEFT, RIGHT, UP, DOWN}") (auto simp: can_move_def)

section \<open>Pellets\<close>

lemma remaining_fold:
  assumes "grid_ok (pellets bd)" "\<forall>p \<in> set ps. cell_valid p"
  shows "fold (\<lambda>(x, y) found. do { f \<leftarrow> found; if f then Some True else get_bit (pellets bd) x y }) ps (Some r)
    = Some (r \<or> (\<exists>p \<in> set ps. look_cell (pellets bd) p))"
  using assms(2)
  by (induction ps arbitrary: r) (auto simp: get_bit_cell[OF assms(1)] split: if_splits)

lemma pellets_remaining_iff:
  assumes "board_ok bd"
  shows "pellets_remaining bd = Some (0 < bits.count cells (pellets bd))"
proof -
  have "0 < bits.count cells (pellets bd) \<longleftrightarrow> (\<exists>p \<in> set cells. look_cell (pellets bd) p)"
    using bits.count_0[of cells "pellets bd"] by auto
  then show ?thesis
    using remaining_fold[of bd cells False] assms
    by (simp add: pellets_remaining_def board_ok_def set_cells)
qed

section \<open>Properties\<close>

text \<open>
  The boards hold the drawings. Whatever memory the array occupies, \<open>initialize_boards\<close>
  stays within the 71 bytes of each grid and leaves in level \<open>b\<close> the walls and pellets
  of drawing \<open>b mod 4\<close>.
\<close>

lemma initialize_boards_draws:
  assumes "length bds = MAX_LEVELS" "\<forall>bd \<in> set bds. length (pellets bd) = GRID_BYTES \<and> length (walls bd) = GRID_BYTES"
  shows "\<exists>bds'. initialize_boards bds = Some bds' \<and> length bds' = MAX_LEVELS \<and>
    (\<forall>b x y. b < MAX_LEVELS \<and> x < COLS \<and> y < ROWS \<longrightarrow>
      get_bit (walls (bds' ! b)) x y = Some (BOARDS ! (b mod BOARD_COUNT) ! y ! x = CHR ''1'') \<and>
      get_bit (pellets (bds' ! b)) x y = Some (BOARDS ! (b mod BOARD_COUNT) ! y ! x = CHR '' ''))"
proof -
  have "\<forall>bd \<in> set bds. board_ok bd" using assms(2) by (auto simp: board_ok_def grid_ok_def)
  then obtain bds' where "initialize_boards bds = Some bds'" "length bds' = MAX_LEVELS"
      "\<forall>b < MAX_LEVELS. shows_level b (bds' ! b)"
    using initialize_boards_shows[OF assms(1)] by blast
  then show ?thesis
    by (intro exI[of _ bds'])
      (auto simp: shows_level_def board_ok_def get_bit_cell cell_valid_def wall_at_def pellet_at_def)
qed

definition blank_boards :: "board list" where
  "blank_boards = replicate MAX_LEVELS \<lparr>pellets = replicate GRID_BYTES 0, walls = replicate GRID_BYTES 0\<rparr>"

lemma blank_boards_ok: "length blank_boards = MAX_LEVELS" "\<forall>bd \<in> set blank_boards. board_ok bd"
  by (auto simp only: blank_boards_def length_replicate in_set_replicate board_ok_def grid_ok_def board.simps)

lemma initialize_boards_draws_example:
  "\<exists>bds'. initialize_boards blank_boards = Some bds' \<and> get_bit (walls (bds' ! 99)) 0 0 = Some True"
proof -
  obtain bds' where "initialize_boards blank_boards = Some bds'"
      "\<forall>b x y. b < MAX_LEVELS \<and> x < COLS \<and> y < ROWS \<longrightarrow>
        get_bit (walls (bds' ! b)) x y = Some (BOARDS ! (b mod BOARD_COUNT) ! y ! x = CHR ''1'')"
    using initialize_boards_draws[of blank_boards] blank_boards_ok by (auto simp: board_ok_def grid_ok_def)
  then show ?thesis by (intro exI[of _ bds']) (simp add: BOARDS_def)
qed

text \<open>
  C14: movement is safe. On a board of any level, from a free cell, \<open>do_move\<close> reads only
  inside the walls array and leads to the next cell in its direction (around the edge at a
  tunnel) when that cell is free, and nowhere otherwise; the code does not test the cell
  behind a tunnel, and the drawings make the test unnecessary.
\<close>

theorem do_move_free:
  assumes "walled b bd" "free b (x, y)"
  shows "\<exists>x' y'. do_move bd d x y = Some (x', y') \<and> free b (x', y') \<and>
    (unat x', unat y') =
      (if d \<in> {LEFT, RIGHT, UP, DOWN} \<and> \<not> wall_at b (ahead d (unat x, unat y)) then ahead d (unat x, unat y)
       else (unat x, unat y))"
proof (cases "d \<in> {LEFT, RIGHT, UP, DOWN}")
  case True
  then show ?thesis using do_move_known[OF assms True] do_move_ok[OF assms, of d] by (auto split: if_splits)
next
  case False
  then show ?thesis using do_move_unknown assms(2) by auto
qed

theorem do_move_free_witness:
  "\<exists>bds'. initialize_boards blank_boards = Some bds' \<and> do_move (bds' ! 0) LEFT 0 9 = Some (26, 9)"
proof -
  obtain bds' where b: "initialize_boards blank_boards = Some bds'" "shows_level 0 (bds' ! 0)"
    using initialize_boards_shows[OF blank_boards_ok] by auto
  have "walled 0 (bds' ! 0)" using b(2) by (auto simp: shows_level_def walled_def)
  moreover have "free 0 (0, 9)" by (simp add: free_def cell_valid_def wall_at_def BOARDS_def)
  moreover have "\<not> wall_at 0 (26, 9)" by (simp add: wall_at_def BOARDS_def)
  ultimately obtain x' y' where "do_move (bds' ! 0) LEFT 0 9 = Some (x', y')" "unat x' = 26" "unat y' = 9"
    using do_move_free[of 0 "bds' ! 0" 0 9 LEFT] by (auto simp: ahead_def)
  then show ?thesis using b(1) by (auto simp: word_unat_eq_iff)
qed

end
