(* ===== verification/GmanPassword.thy ===== *)
theory GmanPassword
  imports Prelude
begin

text \<open>
  \<open>gman/challenge/src/password.c\<close>: a password is a 7 by 7 grid of diamonds, symmetric under
  half a turn, that holds 24 bits and a parity bit in its centre. The curses calls are the
  list of characters they put on the screen and the list of keys they read.
\<close>

section \<open>The screen\<close>

datatype glyph = Ch char | ULCORNER | URCORNER | LLCORNER | LRCORNER | HLINE | VLINE
  | LTEE | RTEE | TTEE | BTEE | PLUS | DIAMOND | BULLET

text \<open>\<open>mvaddch\<close>: row, column, character.\<close>

type_synonym put = "nat \<times> nat \<times> glyph"

abbreviation (input) OFFSET_TOP :: nat where "OFFSET_TOP \<equiv> 5"
abbreviation (input) OFFSET_LEFT :: nat where "OFFSET_LEFT \<equiv> 4"

definition print_row :: "nat \<Rightarrow> glyph \<Rightarrow> glyph \<Rightarrow> glyph \<Rightarrow> glyph \<Rightarrow> glyph \<Rightarrow> put list" where
  "print_row row index left cell between_cell right =
     map2 (\<lambda>spot g. (OFFSET_TOP + row, OFFSET_LEFT + spot, g)) [0..<31]
       ([index, Ch CHR '' '', left,
         cell, cell, cell, between_cell, cell, cell, cell, between_cell,
         cell, cell, cell, between_cell, cell, cell, cell, between_cell,
         cell, cell, cell, between_cell, cell, cell, cell, between_cell,
         cell, cell, cell, right])"

definition print_table :: "put list" where
  "print_table =
     map2 (\<lambda>k c. (OFFSET_TOP - 1, OFFSET_LEFT + k, Ch c)) [0..<29] ''    A   B   C   D   E   F   G'' @
     print_row 0 (Ch CHR '' '') ULCORNER HLINE TTEE URCORNER @
     print_row 1 (Ch CHR ''1'') VLINE (Ch CHR '' '') VLINE VLINE @
     print_row 2 (Ch CHR '' '') LTEE HLINE PLUS RTEE @
     print_row 3 (Ch CHR ''2'') VLINE (Ch CHR '' '') VLINE VLINE @
     print_row 4 (Ch CHR '' '') LTEE HLINE PLUS RTEE @
     print_row 5 (Ch CHR ''3'') VLINE (Ch CHR '' '') VLINE VLINE @
     print_row 6 (Ch CHR '' '') LTEE HLINE PLUS RTEE @
     print_row 7 (Ch CHR ''4'') VLINE (Ch CHR '' '') VLINE VLINE @
     print_row 8 (Ch CHR '' '') LTEE HLINE PLUS RTEE @
     print_row 9 (Ch CHR ''5'') VLINE (Ch CHR '' '') VLINE VLINE @
     print_row 10 (Ch CHR '' '') LTEE HLINE PLUS RTEE @
     print_row 11 (Ch CHR ''6'') VLINE (Ch CHR '' '') VLINE VLINE @
     print_row 12 (Ch CHR '' '') LTEE HLINE PLUS RTEE @
     print_row 13 (Ch CHR ''7'') VLINE (Ch CHR '' '') VLINE VLINE @
     print_row 14 (Ch CHR '' '') LLCORNER HLINE BTEE LRCORNER"

definition print_to_grid :: "nat \<Rightarrow> nat \<Rightarrow> glyph \<Rightarrow> put" where
  "print_to_grid x y c = (OFFSET_TOP + y * 2 + 1, OFFSET_LEFT + x * 4 + 4, c)"

section \<open>Printing a password\<close>

text \<open>The cells the two nested loops visit, as (row, column).\<close>

definition half_cells :: "(nat \<times> nat) list" where
  "half_cells = concat (map (\<lambda>i. map (\<lambda>j. (i, j)) [0 ..< (if i > 2 then 6 - i else 7 - i)]) [0..<7])"

text \<open>The marks a password puts on the grid, as (x, y, diamond), and the final checksum.\<close>

fun print_bits :: "u32 \<Rightarrow> nat \<Rightarrow> u8 \<Rightarrow> (nat \<times> nat) list \<Rightarrow> (nat \<times> nat \<times> bool) list \<times> u8" where
  "print_bits passcode b checksum [] = ([], checksum)"
| "print_bits passcode b checksum ((i, j) # ps) =
     (let thischar = (if drop_bit b passcode AND 1 \<noteq> 0 then 1 else 0 :: u8);
          (ms, checksum) = print_bits passcode (b - 1) (checksum XOR thischar) ps
      in ((j, i, thischar \<noteq> 0) # (6 - j, 6 - i, thischar \<noteq> 0) # ms, checksum))"

definition passcode :: "u8 \<Rightarrow> u8 \<Rightarrow> u8 \<Rightarrow> u32" where
  "passcode a b c = (push_bit 16 (ucast a) OR push_bit 8 (ucast b) OR ucast c) XOR 0x555555"

definition marks :: "u8 \<Rightarrow> u8 \<Rightarrow> u8 \<Rightarrow> (nat \<times> nat \<times> bool) list" where
  "marks a b c =
     (let (ms, checksum) = print_bits (passcode a b c) 23 1 half_cells in ms @ [(3, 3, checksum \<noteq> 0)])"

definition print_password :: "u8 \<Rightarrow> u8 \<Rightarrow> u8 \<Rightarrow> put list" where
  "print_password a b c =
     map2 (\<lambda>k ch. (17, OFFSET_LEFT + k, Ch ch)) [0..<28] ''   Press any key to continue'' @
     print_table @
     map (\<lambda>(x, y, d). print_to_grid x y (if d then DIAMOND else Ch CHR '' '')) (marks a b c)"

section \<open>Checking a password\<close>

type_synonym grid7 = "u8 list list"

fun validate_loop :: "grid7 \<Rightarrow> (nat \<times> nat) list \<Rightarrow> u32 \<Rightarrow> u32 \<Rightarrow> (u32 \<times> u32) option" where
  "validate_loop state [] checksum result = Some (checksum, result)"
| "validate_loop state ((i, j) # ps) checksum result =
     (if state ! i ! j \<noteq> state ! (6 - i) ! (6 - j) then None
      else validate_loop state ps (checksum XOR ucast (state ! i ! j)) (push_bit 1 result OR ucast (state ! i ! j)))"

definition validate_password :: "grid7 \<Rightarrow> (u8 \<times> u8 \<times> u8) option" where
  "validate_password state =
     (case validate_loop state half_cells 1 0 of
        None \<Rightarrow> None
      | Some (checksum, result) \<Rightarrow>
          if checksum \<noteq> ucast (state ! 3 ! 3) then None
          else
            let result = result XOR 0x555555
            in Some (ucast (drop_bit 16 result AND 0xFF), ucast (drop_bit 8 result AND 0xFF),
                     ucast (drop_bit 0 result AND 0xFF)))"

section \<open>Reading a password\<close>

datatype key = Key char | KEY_UP | KEY_DOWN | KEY_LEFT | KEY_RIGHT

text \<open>
  What \<open>read_password\<close> returns: \<open>Rejected\<close> is 0, \<open>Accepted\<close> is 1 with the three bytes; both with
  the keys not read yet. \<open>Waiting\<close>: \<open>getch\<close> blocks.
\<close>

datatype answer = Accepted u8 u8 u8 "key list" | Rejected "key list" | Waiting

fun read_keys :: "nat \<Rightarrow> nat \<Rightarrow> grid7 \<Rightarrow> key list \<Rightarrow> answer" where
  "read_keys x y state [] = Waiting"
| "read_keys x y state (k # ks) =
     (if k = Key CHR ''w'' \<or> k = KEY_UP then read_keys x (if y = 0 then 6 else y - 1) state ks
      else if k = Key CHR ''a'' \<or> k = KEY_LEFT then read_keys (if x = 0 then 6 else x - 1) y state ks
      else if k = Key CHR ''s'' \<or> k = KEY_DOWN then read_keys x ((y + 1) mod 7) state ks
      else if k = Key CHR ''d'' \<or> k = KEY_RIGHT then read_keys ((x + 1) mod 7) y state ks
      else if k = Key CHR '' '' then read_keys x y (state[y := (state ! y)[x := state ! y ! x XOR 1]]) ks
      else if k = Key (CHR 0x0A) then
        (case validate_password state of
           Some (a, b, c) \<Rightarrow> Accepted a b c ks
         | None \<Rightarrow> (case ks of [] \<Rightarrow> Waiting | _ # ks \<Rightarrow> read_keys x y state ks))
      else Rejected ks)"

definition blank_grid :: grid7 where
  "blank_grid = replicate 7 (replicate 7 0)"

definition read_password :: "key list \<Rightarrow> answer" where
  "read_password ks = read_keys 0 0 blank_grid ks"

text \<open>What the loop of \<open>read_password\<close> draws before it waits for a key.\<close>

definition draw_grid :: "grid7 \<Rightarrow> put list" where
  "draw_grid state =
     concat (map (\<lambda>i. concat (map (\<lambda>j. if state ! i ! j \<noteq> 0 then [print_to_grid j i DIAMOND] else []) [0..<7])) [0..<7])"

definition draw_cursor :: "grid7 \<Rightarrow> nat \<Rightarrow> nat \<Rightarrow> put" where
  "draw_cursor state x y =
     (if state ! y ! x \<noteq> 0 then print_to_grid x y DIAMOND else print_to_grid x y BULLET)"

section \<open>The grid a password shows\<close>

text \<open>The grid of diamonds on the screen: the marks in order, on an empty grid.\<close>

definition mark :: "nat \<times> nat \<times> bool \<Rightarrow> grid7 \<Rightarrow> grid7" where
  "mark m g = (let (x, y, d) = m in g[y := (g ! y)[x := of_bool d]])"

definition shown :: "u8 \<Rightarrow> u8 \<Rightarrow> u8 \<Rightarrow> grid7" where
  "shown a b c = fold mark (marks a b c) blank_grid"

text \<open>The grids \<open>read_password\<close> can hold: seven rows of seven zeros and ones.\<close>

definition grid7_ok :: "grid7 \<Rightarrow> bool" where
  "grid7_ok g \<longleftrightarrow> length g = 7 \<and> (\<forall>r \<in> set g. length r = 7 \<and> set r \<subseteq> {0, 1})"

lemma half_cells_eq: "half_cells =
  [(0,0),(0,1),(0,2),(0,3),(0,4),(0,5),(0,6),(1,0),(1,1),(1,2),(1,3),(1,4),(1,5),
   (2,0),(2,1),(2,2),(2,3),(2,4),(3,0),(3,1),(3,2),(4,0),(4,1),(5,0)]"
  by (simp add: half_cells_def upt_rec)

text \<open>Bits of a word, most significant first, and back.\<close>

fun of_bits :: "bool list \<Rightarrow> u32 \<Rightarrow> u32" where
  "of_bits [] r = r"
| "of_bits (b # bs) r = of_bits bs (push_bit 1 r OR of_bool b)"

lemma bit_shift_or: "bit (push_bit 1 r OR of_bool b :: u32) n \<longleftrightarrow> n < 32 \<and> (if n = 0 then b else bit r (n - 1))"
  by (simp only: bit_or_iff bit_push_bit_iff bit_of_bool_iff possible_bit_word) (auto dest: bit_imp_le_length)

lemma bit_of_bits:
  "bit (of_bits bs r) n \<longleftrightarrow>
     n < 32 \<and> (if n < length bs then bs ! (length bs - 1 - n) else bit r (n - length bs))"
proof (induction bs arbitrary: r)
  case Nil
  then show ?case using bit_imp_le_length[of r n] by auto
next
  case (Cons b bs)
  have "(b # bs) ! (length (b # bs) - 1 - n) = (if n < length bs then bs ! (length bs - 1 - n) else b)"
    if "n \<le> length bs"
  proof (cases "n < length bs")
    case True
    then obtain m where "length bs = Suc (n + m)" by (auto dest: less_imp_Suc_add)
    then show ?thesis by simp
  qed (use that in simp)
  then show ?case
    unfolding of_bits.simps Cons.IH bit_shift_or by (auto simp: diff_diff_left)
qed

text \<open>One list of the 24 bits of a grid, and the loops over it.\<close>

definition bits_of_grid :: "grid7 \<Rightarrow> bool list" where
  "bits_of_grid g = map (\<lambda>(i, j). g ! i ! j \<noteq> 0) half_cells"

definition symmetric7 :: "grid7 \<Rightarrow> bool" where
  "symmetric7 g \<longleftrightarrow> (\<forall>(i, j) \<in> set half_cells. g ! i ! j = g ! (6 - i) ! (6 - j))"

definition parity :: "bool list \<Rightarrow> bool" where
  "parity bs = fold (\<lambda>b p. b \<noteq> p) bs True"

lemma zero_or_one: "v \<in> {0, 1} \<Longrightarrow> (v :: u8) = of_bool (v \<noteq> 0)"
  by auto

lemma validate_loop_bits:
  assumes "\<forall>(i, j) \<in> set ps. g ! i ! j \<in> {0, 1}"
  shows "validate_loop g ps (of_bool p) r =
    (if \<forall>(i, j) \<in> set ps. g ! i ! j = g ! (6 - i) ! (6 - j)
     then Some (of_bool (fold (\<lambda>b p. b \<noteq> p) (map (\<lambda>(i, j). g ! i ! j \<noteq> 0) ps) p),
                of_bits (map (\<lambda>(i, j). g ! i ! j \<noteq> 0) ps) r)
     else None)"
  using assms
proof (induction ps arbitrary: p r)
  case (Cons q ps)
  obtain i j where q: "q = (i, j)" by (cases q)
  have v: "g ! i ! j \<in> {0, 1}" using Cons.prems q by auto
  then have u: "ucast (g ! i ! j) = (of_bool (g ! i ! j \<noteq> 0) :: u32)" by auto
  have x: "of_bool p XOR of_bool b = (of_bool (b \<noteq> p) :: u32)" for b by auto
  have sw: "(if \<not> P then y else z) = (if P then z else y)" for P and y z :: "'x option" by simp
  have "validate_loop g (q # ps) (of_bool p) r =
      (if g ! i ! j = g ! (6 - i) ! (6 - j)
       then validate_loop g ps (of_bool ((g ! i ! j \<noteq> 0) \<noteq> p)) (push_bit 1 r OR of_bool (g ! i ! j \<noteq> 0)) else None)"
    unfolding q validate_loop.simps u x sw ..
  moreover have "\<forall>(i, j) \<in> set ps. g ! i ! j \<in> {0, 1}" using Cons.prems by simp
  ultimately show ?case using Cons.IH by (simp add: q)
qed simp

definition high_bits :: "u32 \<Rightarrow> nat \<Rightarrow> nat \<Rightarrow> bool list" where
  "high_bits w b n = map (\<lambda>k. bit w (b - k)) [0..<n]"

lemma high_bits_Suc: "high_bits w b (Suc n) = bit w b # high_bits w (b - 1) n"
  by (simp add: high_bits_def map_upt_Suc del: upt_Suc)

lemma print_bits_marks:
  "print_bits w b (of_bool p) ps =
    (concat (map2 (\<lambda>(i, j) v. [(j, i, v), (6 - j, 6 - i, v)]) ps (high_bits w b (length ps))),
     of_bool (fold (\<lambda>b p. b \<noteq> p) (high_bits w b (length ps)) p))"
proof (induction ps arbitrary: b p)
  case (Cons q ps)
  obtain i j where q: "q = (i, j)" by (cases q)
  have d: "(if drop_bit b w AND 1 \<noteq> 0 then 1 else 0 :: u8) = of_bool (bit w b)"
    by (simp add: and_one_eq bit_iff_odd_drop_bit mod_2_eq_odd)
  have x: "of_bool p XOR of_bool (bit w b) = (of_bool (bit w b \<noteq> p) :: u8)" by auto
  show ?case
    unfolding q print_bits.simps Let_def d x Cons.IH by (simp add: high_bits_Suc)
qed (simp add: high_bits_def)

lemma length_half_cells [simp]: "length half_cells = 24"
  by (simp add: half_cells_eq)

lemma passcode_marks:
  "marks a b c =
     concat (map2 (\<lambda>(i, j) v. [(j, i, v), (6 - j, 6 - i, v)]) half_cells (high_bits (passcode a b c) 23 24))
     @ [(3, 3, parity (high_bits (passcode a b c) 23 24))]"
  using print_bits_marks[of "passcode a b c" 23 True half_cells]
  by (simp add: marks_def parity_def)

text \<open>The grid of 24 bits.\<close>

definition grid_of_bits :: "bool list \<Rightarrow> grid7" where
  "grid_of_bits bs = fold mark (concat (map2 (\<lambda>(i, j) v. [(j, i, v), (6 - j, 6 - i, v)]) half_cells bs)
     @ [(3, 3, parity bs)]) blank_grid"

lemma shown_bits: "shown a b c = grid_of_bits (high_bits (passcode a b c) 23 24)"
  by (simp add: shown_def passcode_marks grid_of_bits_def)

lemma length_24_eq: "length bs = 24 \<Longrightarrow> bs =
   [bs!0, bs!1, bs!2, bs!3, bs!4, bs!5, bs!6, bs!7, bs!8, bs!9, bs!10, bs!11,
    bs!12, bs!13, bs!14, bs!15, bs!16, bs!17, bs!18, bs!19, bs!20, bs!21, bs!22, bs!23]"
proof -
  assume l: "length bs = 24"
  have "bs = map ((!) bs) [0..<24]" using map_nth[of bs] l by simp
  moreover have "[0..<24] = [0, 1, 2, 3, 4, 5, 6, 7, 8, 9, 10, 11, 12, 13, 14, 15, 16, 17, 18, 19, 20, 21, 22, 23 :: nat]"
    by code_simp
  ultimately show ?thesis by simp
qed

lemma grid_of_bits_eq:
  "grid_of_bits [b0, b1, b2, b3, b4, b5, b6, b7, b8, b9, b10, b11, b12, b13, b14, b15, b16, b17, b18, b19, b20, b21, b22, b23] =
   map (map of_bool)
    [[b0, b1, b2, b3, b4, b5, b6],
     [b7, b8, b9, b10, b11, b12, b23],
     [b13, b14, b15, b16, b17, b22, b21],
     [b18, b19, b20, parity [b0, b1, b2, b3, b4, b5, b6, b7, b8, b9, b10, b11, b12, b13, b14, b15, b16, b17, b18, b19, b20, b21, b22, b23], b20, b19, b18],
     [b21, b22, b17, b16, b15, b14, b13],
     [b23, b12, b11, b10, b9, b8, b7],
     [b6, b5, b4, b3, b2, b1, b0]]"
  by (simp add: grid_of_bits_def half_cells_eq mark_def blank_grid_def eval_nat_numeral del: fold_simps) 

section \<open>The two directions\<close>

lemma grid7_entry: "grid7_ok g \<Longrightarrow> i < 7 \<Longrightarrow> j < 7 \<Longrightarrow> g ! i ! j \<in> {0, 1}"
proof -
  assume g: "grid7_ok g" "i < 7" "j < 7"
  then have "g ! i \<in> set g" by (auto simp: grid7_ok_def)
  then have r: "length (g ! i) = 7" "set (g ! i) \<subseteq> {0, 1}" using g(1) unfolding grid7_ok_def by blast+
  then have "g ! i ! j \<in> set (g ! i)" using g(3) by simp
  then show ?thesis using r(2) by (rule rev_subsetD)
qed

lemma half_cells_small: "(i, j) \<in> set half_cells \<Longrightarrow> i < 7 \<and> j < 7"
  by (auto simp: half_cells_eq)

definition bytes_of :: "u32 \<Rightarrow> u8 \<times> u8 \<times> u8" where
  "bytes_of r = (ucast (drop_bit 16 r AND 0xFF), ucast (drop_bit 8 r AND 0xFF), ucast (drop_bit 0 r AND 0xFF))"

lemma validate_password_bits:
  assumes "grid7_ok g"
  shows "validate_password g =
    (if symmetric7 g \<and> parity (bits_of_grid g) = (g ! 3 ! 3 \<noteq> 0)
     then Some (bytes_of (of_bits (bits_of_grid g) 0 XOR 0x555555)) else None)"
proof -
  have l: "\<forall>(i, j) \<in> set half_cells. g ! i ! j \<in> {0, 1}"
    using grid7_entry[OF assms] half_cells_small by blast
  have "g ! 3 ! 3 \<in> {0, 1}" using grid7_entry[OF assms, of 3 3] by simp
  then have c: "ucast (g ! 3 ! 3) = (of_bool (g ! 3 ! 3 \<noteq> 0) :: u32)" by auto
  have v: "validate_loop g half_cells 1 0 =
      (if symmetric7 g then Some (of_bool (parity (bits_of_grid g)), of_bits (bits_of_grid g) 0) else None)"
    using validate_loop_bits[OF l, of True 0]
    by (simp only: of_bool_eq symmetric7_def parity_def bits_of_grid_def)
  have ne: "(of_bool p \<noteq> (of_bool q :: u32)) \<longleftrightarrow> p \<noteq> q" for p q by simp
  show ?thesis
    unfolding validate_password_def v c bytes_of_def Let_def
    by (cases "symmetric7 g") (auto simp only: if_True if_False option.case prod.case ne simp_thms split: if_split)
qed

lemma bit_ucast_byte: "bit (ucast (x :: u8) :: u32) n \<longleftrightarrow> n < 8 \<and> bit x n"
  using bit_imp_le_length[of x n] by (auto simp: bit_simps)

lemma bit_passcode: "n < 24 \<Longrightarrow> bit (passcode a b c XOR 0x555555) n \<longleftrightarrow>
    (if n < 8 then bit c n else if n < 16 then bit b (n - 8) else bit a (n - 16))"
proof -
  have "passcode a b c XOR 0x555555 = push_bit 16 (ucast a) OR push_bit 8 (ucast b) OR ucast c"
    by (simp add: passcode_def xor.assoc)
  then show "n < 24 \<Longrightarrow> ?thesis"
    by (simp only: bit_or_iff bit_push_bit_iff bit_ucast_byte possible_bit_word) auto
qed

lemma u8_eqI: "(\<And>n. n < 8 \<Longrightarrow> bit x n = bit y n) \<Longrightarrow> (x :: u8) = y"
  by (rule bit_word_eqI) simp

lemma bit_ucast_FF: "bit (ucast (drop_bit k (r :: u32) AND 0xFF) :: u8) n \<longleftrightarrow> n < 8 \<and> bit r (k + n)"
  by (simp only: bit_unsigned_iff bit_and_iff bit_drop_bit_eq bit_FF possible_bit_word o_def) auto

lemma bytes_of_passcode:
  assumes "\<And>n. n < 24 \<Longrightarrow> bit r n = bit (passcode a b c XOR 0x555555) n"
  shows "bytes_of r = (a, b, c)"
proof -
  have *: "bit (ucast (drop_bit k r AND 0xFF) :: u8) n \<longleftrightarrow> bit r (k + n)" if "n < 8" for k n
    using that bit_ucast_FF by simp
  then show ?thesis
    using assms bit_passcode[of _ a b c] unfolding bytes_of_def prod.inject
    by (intro conjI u8_eqI) (subst *, assumption, simp)+
qed

lemma passcode_bytes_of:
  assumes "bytes_of r = (a, b, c)" "n < 24"
  shows "bit (passcode a b c XOR 0x555555) n = bit r n"
proof -
  have "a = ucast (drop_bit 16 r AND 0xFF)" "b = ucast (drop_bit 8 r AND 0xFF)" "c = ucast (drop_bit 0 r AND 0xFF)"
    using assms(1) by (simp_all add: bytes_of_def)
  then show ?thesis using assms(2) by (simp only: bit_passcode bit_ucast_FF) auto
qed

lemma list24_cases:
  assumes "length bs = 24"
    and "\<And>b0 b1 b2 b3 b4 b5 b6 b7 b8 b9 b10 b11 b12 b13 b14 b15 b16 b17 b18 b19 b20 b21 b22 b23.
      P [b0, b1, b2, b3, b4, b5, b6, b7, b8, b9, b10, b11, b12, b13, b14, b15, b16, b17, b18, b19, b20, b21, b22, b23]"
  shows "P bs"
  by (subst length_24_eq[OF assms(1)]) (rule assms(2))

text \<open>The grid of 24 bits is well formed, symmetric, and holds the bits and their parity.\<close>

lemma grid_of_bits_ok: "length bs = 24 \<Longrightarrow> grid7_ok (grid_of_bits bs)"
  by (erule list24_cases[where P = "\<lambda>bs. grid7_ok (grid_of_bits bs)"])
    (simp only: grid_of_bits_eq, simp add: grid7_ok_def)

lemma grid_of_bits_symmetric: "length bs = 24 \<Longrightarrow> symmetric7 (grid_of_bits bs)"
  by (erule list24_cases[where P = "\<lambda>bs. symmetric7 (grid_of_bits bs)"])
    (simp only: grid_of_bits_eq, simp add: symmetric7_def half_cells_eq)

lemma grid_of_bits_bits: "length bs = 24 \<Longrightarrow> bits_of_grid (grid_of_bits bs) = bs"
  by (erule list24_cases[where P = "\<lambda>bs. bits_of_grid (grid_of_bits bs) = bs"])
    (simp only: grid_of_bits_eq, simp add: bits_of_grid_def half_cells_eq)

lemma grid_of_bits_centre: "length bs = 24 \<Longrightarrow> grid_of_bits bs ! 3 ! 3 = of_bool (parity bs)"
  by (erule list24_cases[where P = "\<lambda>bs. grid_of_bits bs ! 3 ! 3 = of_bool (parity bs)"])
    (simp only: grid_of_bits_eq, simp)

lemma length_bits_of_grid [simp]: "length (bits_of_grid g) = 24"
  by (simp add: bits_of_grid_def)

lemma length_high_bits [simp]: "length (high_bits w b n) = n"
  by (simp add: high_bits_def)

lemma rows7: "length (r :: 'x list) = 7 \<Longrightarrow> r = [r!0, r!1, r!2, r!3, r!4, r!5, r!6]"
proof -
  assume l: "length r = 7"
  have "r = map ((!) r) [0..<7]" using map_nth[of r] l by simp
  moreover have "[0..<7] = [0, 1, 2, 3, 4, 5, 6 :: nat]" by code_simp
  ultimately show ?thesis by simp
qed

lemma bits_of_grid_eq: "bits_of_grid g = map (\<lambda>v. v \<noteq> 0)
  [g!0!0, g!0!1, g!0!2, g!0!3, g!0!4, g!0!5, g!0!6, g!1!0, g!1!1, g!1!2, g!1!3, g!1!4, g!1!5,
   g!2!0, g!2!1, g!2!2, g!2!3, g!2!4, g!3!0, g!3!1, g!3!2, g!4!0, g!4!1, g!5!0]"
  by (simp add: bits_of_grid_def half_cells_eq)

lemma symmetric7_eqs:
  assumes "symmetric7 g"
  shows "g!6!6 = g!0!0" "g!6!5 = g!0!1" "g!6!4 = g!0!2" "g!6!3 = g!0!3" "g!6!2 = g!0!4" "g!6!1 = g!0!5" "g!6!0 = g!0!6"
    "g!5!6 = g!1!0" "g!5!5 = g!1!1" "g!5!4 = g!1!2" "g!5!3 = g!1!3" "g!5!2 = g!1!4" "g!5!1 = g!1!5"
    "g!4!6 = g!2!0" "g!4!5 = g!2!1" "g!4!4 = g!2!2" "g!4!3 = g!2!3" "g!4!2 = g!2!4"
    "g!3!6 = g!3!0" "g!3!5 = g!3!1" "g!3!4 = g!3!2" "g!2!6 = g!4!0" "g!2!5 = g!4!1" "g!1!6 = g!5!0"
  using assms unfolding symmetric7_def half_cells_eq by simp_all

lemma grid_determined:
  assumes ok: "grid7_ok g" and sym: "symmetric7 g" and par: "parity (bits_of_grid g) = (g ! 3 ! 3 \<noteq> 0)"
  shows "g = grid_of_bits (bits_of_grid g)"
proof -
  have z: "of_bool (g ! i ! j \<noteq> 0) = g ! i ! j" if "i < 7" "j < 7" for i j
    using grid7_entry[OF ok that] by auto
  have c: "of_bool (parity (bits_of_grid g)) = g ! 3 ! 3"
    unfolding par by (rule z) simp_all
  have l: "length g = 7" "\<And>i. i < 7 \<Longrightarrow> length (g ! i) = 7" using ok by (auto simp: grid7_ok_def)
  have "g = [g!0, g!1, g!2, g!3, g!4, g!5, g!6]" by (rule rows7[OF l(1)])
  also have "\<dots> = map (map (\<lambda>v. v))
    [[g!0!0, g!0!1, g!0!2, g!0!3, g!0!4, g!0!5, g!0!6],
     [g!1!0, g!1!1, g!1!2, g!1!3, g!1!4, g!1!5, g!1!6],
     [g!2!0, g!2!1, g!2!2, g!2!3, g!2!4, g!2!5, g!2!6],
     [g!3!0, g!3!1, g!3!2, g!3!3, g!3!4, g!3!5, g!3!6],
     [g!4!0, g!4!1, g!4!2, g!4!3, g!4!4, g!4!5, g!4!6],
     [g!5!0, g!5!1, g!5!2, g!5!3, g!5!4, g!5!5, g!5!6],
     [g!6!0, g!6!1, g!6!2, g!6!3, g!6!4, g!6!5, g!6!6]]"
    using rows7[OF l(2)] by simp
  also have "\<dots> = grid_of_bits (bits_of_grid g)"
    unfolding bits_of_grid_eq list.map grid_of_bits_eq symmetric7_eqs[OF sym]
    unfolding c[unfolded bits_of_grid_eq list.map] by (simp add: z)
  finally show ?thesis .
qed

lemma of_bits_high_bits: "n < 24 \<Longrightarrow> bit (of_bits (high_bits w 23 24) r) n = bit w n"
  using nth_upt[of 0 "23 - n" 24] by (simp add: bit_of_bits high_bits_def)

lemma high_bits_eq: "(\<And>n. n < 24 \<Longrightarrow> bit v n = bit w n) \<Longrightarrow> high_bits v 23 24 = high_bits w 23 24"
  by (simp add: high_bits_def)

lemma high_of_bits: "length bs = 24 \<Longrightarrow> high_bits (of_bits bs r) 23 24 = bs"
  by (rule nth_equalityI) (auto simp: high_bits_def bit_of_bits)

lemma validate_shown: "validate_password (shown a b c) = Some (a, b, c)"
proof -
  let ?bs = "high_bits (passcode a b c) 23 24"
  have l: "length ?bs = 24" by simp
  have "bytes_of (of_bits ?bs 0 XOR 0x555555) = (a, b, c)"
    by (rule bytes_of_passcode) (simp add: of_bits_high_bits bit_xor_iff)
  then show ?thesis
    by (simp add: shown_bits validate_password_bits[OF grid_of_bits_ok[OF l]] grid_of_bits_symmetric[OF l]
        grid_of_bits_bits[OF l] grid_of_bits_centre[OF l])
qed

lemma validate_only_shown:
  assumes ok: "grid7_ok g" and v: "validate_password g = Some (a, b, c)"
  shows "g = shown a b c"
proof -
  let ?r = "of_bits (bits_of_grid g) 0"
  have g: "symmetric7 g" "parity (bits_of_grid g) = (g ! 3 ! 3 \<noteq> 0)" "bytes_of (?r XOR 0x555555) = (a, b, c)"
    using v unfolding validate_password_bits[OF ok] by (auto split: if_splits)
  have "bit (passcode a b c) n = bit ?r n" if "n < 24" for n
    using passcode_bytes_of[OF g(3) that] by (auto simp: bit_xor_iff)
  then have "high_bits (passcode a b c) 23 24 = bits_of_grid g"
    using high_bits_eq[of "passcode a b c" ?r] high_of_bits[of "bits_of_grid g" 0] by simp
  then show ?thesis using grid_determined[OF ok g(1,2)] by (simp add: shown_bits)
qed

text \<open>Passwords and accepted grids are an exact codec.\<close>

interpretation password: exact_codec "\<lambda>_. True" "\<lambda>(a, b, c). shown a b c"
  "\<lambda>g. if grid7_ok g then validate_password g else None"
proof unfold_locales
  have l: "grid7_ok (shown a b c)" for a b c
    by (simp add: shown_bits grid_of_bits_ok)
  show "(if grid7_ok (case x of (a, b, c) \<Rightarrow> shown a b c) then validate_password (case x of (a, b, c) \<Rightarrow> shown a b c)
      else None) = Some x" for x
    by (cases x) (simp add: l validate_shown)
  show "True \<and> (case x of (a, b, c) \<Rightarrow> shown a b c) = y"
    if "(if grid7_ok y then validate_password y else None) = Some x" for x y
    using that validate_only_shown by (cases x) (auto split: if_splits)
qed

section \<open>Typing a grid\<close>

definition type_row :: "u8 list \<Rightarrow> key list" where
  "type_row r = concat (map (\<lambda>v. (if v \<noteq> 0 then [Key CHR '' ''] else []) @ [Key CHR ''d'']) r)"

definition type_grid :: "grid7 \<Rightarrow> key list" where
  "type_grid g = concat (map (\<lambda>r. type_row r @ [Key CHR ''s'']) g)"

lemma read_row:
  assumes "st ! y = done @ replicate (length vs) 0" "y < length st" "length done + length vs = 7" "set vs \<subseteq> {0, 1}"
  shows "read_keys (length done mod 7) y st (type_row vs @ ks) = read_keys 0 y (st[y := done @ vs]) ks"
  using assms
proof (induction vs arbitrary: "done" st)
  case Nil
  then have "st[y := done] = st" by (metis append.right_neutral list.size(3) list_update_id replicate_0)
  then show ?case using Nil by (simp add: type_row_def)
next
  case (Cons v vs)
  have x: "length done < 7" "length done mod 7 = length done" "(length done + 1) mod 7 = length (done @ [v]) mod 7"
    using Cons.prems by simp_all
  have "st ! y ! length done = 0" using Cons.prems by (simp add: nth_append)
  then have u: "(st ! y)[length done := st ! y ! length done XOR 1] = done @ 1 # replicate (length vs) 0"
    using Cons.prems by simp
  have step: "read_keys (length done mod 7) y st (type_row (v # vs) @ ks) =
      read_keys (length (done @ [v]) mod 7) y (st[y := (done @ [v]) @ replicate (length vs) 0]) (type_row vs @ ks)"
    using Cons.prems x u list_update_id[of st y] by (cases "v = 0") (simp_all add: type_row_def)
  show ?case
    unfolding step using Cons.prems by (subst Cons.IH) simp_all
qed

lemma read_rows:
  assumes "length done = y" "y + length rs = 7" "\<forall>r \<in> set rs. length r = 7 \<and> set r \<subseteq> {0, 1}"
  shows "read_keys 0 (y mod 7) (done @ replicate (length rs) (replicate 7 0)) (type_grid rs @ ks) =
    read_keys 0 0 (done @ rs) ks"
  using assms
proof (induction rs arbitrary: "done" y)
  case (Cons r rs)
  have y: "y < 7" "y mod 7 = y" using Cons.prems by simp_all
  let ?st = "done @ replicate (length (r # rs)) (replicate 7 0)"
  have st: "?st ! y = [] @ replicate (length r) 0" "?st[y := r] = (done @ [r]) @ replicate (length rs) (replicate 7 0)"
    using Cons.prems by (auto simp: nth_append list_update_append)
  have "read_keys 0 y ?st (type_row r @ Key CHR ''s'' # type_grid rs @ ks) =
      read_keys 0 y (?st[y := r]) (Key CHR ''s'' # type_grid rs @ ks)"
    using read_row[OF st(1)] Cons.prems by simp
  also have "\<dots> = read_keys 0 (Suc y mod 7) ((done @ [r]) @ replicate (length rs) (replicate 7 0)) (type_grid rs @ ks)"
    unfolding st(2) by simp
  also have "\<dots> = read_keys 0 0 ((done @ [r]) @ rs) ks"
    using Cons.prems by (intro Cons.IH) auto
  finally show ?case by (simp add: type_grid_def y(2))
qed (simp add: type_grid_def)

lemma read_grid:
  assumes "grid7_ok g"
  shows "read_password (type_grid g @ ks) = read_keys 0 0 g ks"
  using read_rows[of "[]" 0 g ks] assms by (auto simp: read_password_def blank_grid_def grid7_ok_def)

lemma grid7_ok_shown: "grid7_ok (shown a b c)"
  by (simp add: shown_bits grid_of_bits_ok)

lemma grid7_ok_blank: "grid7_ok blank_grid"
  by (simp add: grid7_ok_def blank_grid_def)

lemma blank_refused: "validate_password blank_grid = None"
  unfolding validate_password_bits[OF grid7_ok_blank]
  by (simp add: bits_of_grid_def parity_def half_cells_eq blank_grid_def)

section \<open>Properties\<close>

text \<open>
  C5: passwords are exact. A grid of zeros and ones is accepted with the bytes
  \<open>a\<close>, \<open>b\<close>, \<open>c\<close> exactly when it is the grid of diamonds that \<open>print_password a b c\<close> draws,
  and the blank grid is refused.
\<close>

theorem validate_password_exact:
  assumes "grid7_ok g"
  shows "(validate_password g = Some (a, b, c) \<longleftrightarrow> g = shown a b c) \<and> validate_password blank_grid = None"
  using password.dec_iff[of g "(a, b, c)"] assms blank_refused by simp

theorem validate_password_exact_witness: "validate_password (shown 1 2 3) = Some (1, 2, 3)"
  using validate_password_exact[OF grid7_ok_shown[of 1 2 3], of 1 2 3] by simp

text \<open>
  What the game prints, the player can type. Typing the diamonds of a printed password
  row by row and pressing enter makes \<open>read_password\<close> return the three bytes it was printed
  for, without reading a further key.
\<close>

lemma read_printed_password:
  "read_password (type_grid (shown a b c) @ Key (CHR 0x0A) # ks) = Accepted a b c ks"
  using grid7_ok_shown by (simp add: read_grid validate_shown)

end
