(* ===== verification/Gman.thy ===== *)
theory Gman
  imports GmanBoard GmanPassword
begin

text \<open>
  \<open>gman/challenge/src/gman.c\<close>, second part: the state of a game, one tick of it, the main
  loop and the menu. \<open>None\<close> is an access outside the boards or the conversion of a
  quotient 0/0. The generator behind \<open>rand\<close> and \<open>srand\<close> is a parameter, and so are the
  keys; the texts \<open>mvprintw\<close> writes are left out.
\<close>

section \<open>State\<close>

record ghost =
  gx :: u8
  gy :: u8
  gdir :: direction

record state =
  score :: u32
  lives :: u8          \<comment> \<open>\<open>int8_t\<close>: read with \<open>sint\<close>\<close>
  level :: u8
  sx :: u8
  sy :: u8
  dir :: direction
  next_dir :: direction
  ghosts :: "ghost list"
  boards :: "board list"

datatype round_result = RESULT_NONE | RESULT_DIE | RESULT_WIN

abbreviation (input) GHOST_COUNT :: nat where "GHOST_COUNT \<equiv> 4"
abbreviation (input) GHOST_START_X :: nat where "GHOST_START_X \<equiv> 12"
abbreviation (input) GHOST_START_Y :: nat where "GHOST_START_Y \<equiv> 9"
abbreviation (input) GHOST_RANDOM_TURN_ODDS :: nat where "GHOST_RANDOM_TURN_ODDS \<equiv> 80"
abbreviation (input) GHOST_TURN_TOWARDS_ODDS :: nat where "GHOST_TURN_TOWARDS_ODDS \<equiv> 75"
abbreviation (input) PELLET_VALUE :: u32 where "PELLET_VALUE \<equiv> 100"

definition reset_ghosts :: "state \<Rightarrow> state" where
  "reset_ghosts s = s\<lparr>ghosts :=
     map (\<lambda>i. \<lparr>gx = of_nat (GHOST_START_X + i mod 2), gy = of_nat (GHOST_START_Y + i div 2), gdir = - 1\<rparr>) [0..<GHOST_COUNT]\<rparr>"

definition reset_gman :: "state \<Rightarrow> state" where
  "reset_gman s = s\<lparr>sx := 11, sy := 15, dir := RIGHT, next_dir := - 1\<rparr>"

definition reset :: "state \<Rightarrow> state" where
  "reset s = reset_gman (reset_ghosts s)"

definition current_board :: "state \<Rightarrow> board option" where
  "current_board s = rd (boards s) (unat (level s))"

section \<open>Drawing\<close>

datatype tile = DrawGman | DrawWall | DrawPellet | DrawFloor | DrawGhost nat

definition draw_cell :: "state \<Rightarrow> board \<Rightarrow> nat \<Rightarrow> nat \<Rightarrow> (nat \<times> nat \<times> tile) list option" where
  "draw_cell s bd x y =
     (if x = unat (sx s) \<and> y = unat (sy s) then Some [(y + 3, x + 2, DrawGman)]
      else do {
        w \<leftarrow> get_bit (walls bd) x y;
        if w then Some [(y + 3, x + 2, DrawWall)]
        else do {
          p \<leftarrow> get_bit (pellets bd) x y;
          Some ((y + 3, x + 2, if p then DrawPellet else DrawFloor) #
            concat (map (\<lambda>i. if unat (gx (ghosts s ! i)) = x \<and> unat (gy (ghosts s ! i)) = y
                             then [(y + 3, x + 2, DrawGhost i)] else []) [0..<GHOST_COUNT]))
        }
      })"

fun draw_cells :: "state \<Rightarrow> board \<Rightarrow> (nat \<times> nat) list \<Rightarrow> (nat \<times> nat \<times> tile) list option" where
  "draw_cells s bd [] = Some []"
| "draw_cells s bd ((x, y) # ps) = do {
     a \<leftarrow> draw_cell s bd x y;
     b \<leftarrow> draw_cells s bd ps;
     Some (a @ b)
   }"

definition draw_board :: "state \<Rightarrow> (nat \<times> nat \<times> tile) list option" where
  "draw_board s = do { bd \<leftarrow> current_board s; draw_cells s bd cells }"

section \<open>The player\<close>

definition change_direction_if_possible :: "state \<Rightarrow> state option" where
  "change_direction_if_possible s =
     (if next_dir s < 0 then Some s
      else do {
        bd \<leftarrow> current_board s;
        can \<leftarrow> can_move bd (next_dir s) (sx s) (sy s);
        Some (if can then s\<lparr>dir := next_dir s, next_dir := - 1\<rparr> else s)
      })"

text \<open>
  The keys pending at a frame: what the first \<open>getch\<close> returns (\<open>None\<close> is \<open>ERR\<close>) and those
  the loop reads before it gets \<open>ERR\<close>.
\<close>

definition last_key :: "key option \<Rightarrow> key list \<Rightarrow> key option" where
  "last_key c ks = fold (\<lambda>k c. if k = Key (CHR 0x0A) \<or> k = Key (CHR 0x0D) then c else Some k) ks c"

definition handle_input :: "key option \<Rightarrow> key list \<Rightarrow> state \<Rightarrow> (bool \<times> state) option" where
  "handle_input c ks s =
     (let c = last_key c ks in
      if c = Some (Key CHR ''q'') then Some (True, s)
      else
        let s = (if c = Some (Key CHR ''w'') \<or> c = Some KEY_UP then s\<lparr>next_dir := UP\<rparr>
                 else if c = Some (Key CHR ''a'') \<or> c = Some KEY_LEFT then s\<lparr>next_dir := LEFT\<rparr>
                 else if c = Some (Key CHR ''s'') \<or> c = Some KEY_DOWN then s\<lparr>next_dir := DOWN\<rparr>
                 else if c = Some (Key CHR ''d'') \<or> c = Some KEY_RIGHT then s\<lparr>next_dir := RIGHT\<rparr>
                 else s)
        in map_option (\<lambda>s. (False, s)) (change_direction_if_possible s))"

definition tick_gman :: "state \<Rightarrow> (round_result \<times> state) option" where
  "tick_gman s = do {
     bd \<leftarrow> current_board s;
     (x, y) \<leftarrow> do_move bd (dir s) (sx s) (sy s);
     s \<leftarrow> change_direction_if_possible (s\<lparr>sx := x, sy := y\<rparr>);
     p \<leftarrow> get_bit (pellets bd) (unat (sx s)) (unat (sy s));
     if p then do {
       ps \<leftarrow> set_bit (pellets bd) (unat (sx s)) (unat (sy s)) False;
       bds \<leftarrow> wr (boards s) (unat (level s)) (bd\<lparr>pellets := ps\<rparr>);
       let s = s\<lparr>boards := bds, score := score s + PELLET_VALUE\<rparr>;
       more \<leftarrow> pellets_remaining (bd\<lparr>pellets := ps\<rparr>);
       Some (if more then RESULT_NONE else RESULT_WIN, s)
     }
     else Some (RESULT_NONE, s)
   }"

section \<open>The ghosts\<close>

text \<open>
  \<open>100.0 * dx / (dx + dy)\<close> truncated: the operands are small integers, so the rounded
  quotient has the integer part of the exact one. \<open>None\<close>: 0/0 has no integer part.
\<close>

definition left_right_odds :: "u8 \<Rightarrow> u8 \<Rightarrow> u8 \<Rightarrow> u8 \<Rightarrow> int option" where
  "left_right_odds px py x y =
     (let dx = \<bar>uint px - uint x\<bar>; dy = \<bar>uint py - uint y\<bar> in
      if dx + dy = 0 then None
      else
        let odds = (100 * dx) div (dx + dy)
        in Some (if odds \<le> 5 then 5 else if odds \<ge> 95 then 95 else odds))"

definition opposite :: "direction \<Rightarrow> direction" where
  "opposite d = (if d = UP then DOWN else if d = DOWN then UP else if d = LEFT then RIGHT
                 else if d = RIGHT then LEFT else d)"

text \<open>The direction towards the player; \<open>k\<close> is the number drawn.\<close>

definition towards :: "u8 \<Rightarrow> u8 \<Rightarrow> u8 \<Rightarrow> u8 \<Rightarrow> int \<Rightarrow> nat \<Rightarrow> direction" where
  "towards px py x y odds k =
     (if px \<le> x \<and> py \<le> y then (if int (k mod 100) < odds then LEFT else UP)
      else if px \<le> x \<and> py \<ge> y then (if int (k mod 100) < odds then LEFT else DOWN)
      else if px \<ge> x \<and> py \<le> y then (if int (k mod 100) < odds then RIGHT else UP)
      else (if int (k mod 100) < odds then RIGHT else DOWN))"

fun ghost_loop :: "('r \<Rightarrow> nat \<times> 'r) \<Rightarrow> board \<Rightarrow> u8 \<Rightarrow> u8 \<Rightarrow> direction \<Rightarrow> u8 \<Rightarrow> u8 \<Rightarrow> nat \<Rightarrow> 'r
    \<Rightarrow> (direction \<times> 'r) option" where
  "ghost_loop rnd bd px py d x y 0 r = Some (d, r)"
| "ghost_loop rnd bd px py d x y (Suc i) r = do {
     odds \<leftarrow> left_right_odds px py x y;
     let (k, r) = rnd r;
     let nd = towards px py x y odds k;
     let (k, r) = rnd r;
     let nd = (if k mod 100 > GHOST_TURN_TOWARDS_ODDS then opposite nd else nd);
     if d \<in> {UP, DOWN, LEFT, RIGHT} \<and> nd = opposite d then ghost_loop rnd bd px py d x y i r
     else do {
       can \<leftarrow> can_move bd nd x y;
       if can then Some (nd, r) else ghost_loop rnd bd px py d x y i r
     }
   }"

definition choose_ghost_direction :: "('r \<Rightarrow> nat \<times> 'r) \<Rightarrow> board \<Rightarrow> u8 \<Rightarrow> u8 \<Rightarrow> direction \<Rightarrow> u8 \<Rightarrow> u8 \<Rightarrow> 'r
    \<Rightarrow> (direction \<times> 'r) option" where
  "choose_ghost_direction rnd bd px py d x y r = do {
     l \<leftarrow> can_move bd LEFT x y;
     rt \<leftarrow> can_move bd RIGHT x y;
     u \<leftarrow> can_move bd UP x y;
     dn \<leftarrow> can_move bd DOWN x y;
     if \<not> l \<and> \<not> rt \<and> \<not> u \<and> \<not> dn then Some (d, r)
     else if d = UP \<and> \<not> l \<and> \<not> rt then Some (d, r)
     else if d = DOWN \<and> \<not> l \<and> \<not> rt then Some (d, r)
     else if d = LEFT \<and> \<not> u \<and> \<not> dn then Some (d, r)
     else if d = UP \<and> \<not> u \<and> \<not> dn then Some (d, r)
     else
       let (k, r) = rnd r
       in if k mod 100 > GHOST_RANDOM_TURN_ODDS then Some (d, r)
          else ghost_loop rnd bd px py d x y 100 r
   }"

fun move_ghosts :: "('r \<Rightarrow> nat \<times> 'r) \<Rightarrow> board \<Rightarrow> u8 \<Rightarrow> u8 \<Rightarrow> ghost list \<Rightarrow> 'r \<Rightarrow> (ghost list \<times> 'r) option" where
  "move_ghosts rnd bd px py [] r = Some ([], r)"
| "move_ghosts rnd bd px py (g # gs) r = do {
     (d, r) \<leftarrow> choose_ghost_direction rnd bd px py (gdir g) (gx g) (gy g) r;
     (x, y) \<leftarrow> do_move bd d (gx g) (gy g);
     (gs, r) \<leftarrow> move_ghosts rnd bd px py gs r;
     Some (\<lparr>gx = x, gy = y, gdir = d\<rparr> # gs, r)
   }"

definition tick_ghosts :: "('r \<Rightarrow> nat \<times> 'r) \<Rightarrow> state \<Rightarrow> 'r \<Rightarrow> (state \<times> 'r) option" where
  "tick_ghosts rnd s r = do {
     bd \<leftarrow> current_board s;
     (gs, r) \<leftarrow> move_ghosts rnd bd (sx s) (sy s) (ghosts s) r;
     Some (s\<lparr>ghosts := gs\<rparr>, r)
   }"

definition check_death :: "state \<Rightarrow> round_result" where
  "check_death s =
     (if \<exists>g \<in> set (ghosts s). sx s = gx g \<and> sy s = gy g then RESULT_DIE else RESULT_NONE)"

definition tick :: "('r \<Rightarrow> nat \<times> 'r) \<Rightarrow> state \<Rightarrow> 'r \<Rightarrow> (round_result \<times> state \<times> 'r) option" where
  "tick rnd s r = do {
     (result, s) \<leftarrow> tick_gman s;
     if result \<noteq> RESULT_NONE then Some (result, s, r)
     else if check_death s \<noteq> RESULT_NONE then Some (check_death s, s, r)
     else do {
       (s, r) \<leftarrow> tick_ghosts rnd s r;
       Some (check_death s, s, r)
     }
   }"

section \<open>The main loop\<close>

text \<open>The password shown, and the generator after \<open>srand\<close>.\<close>

definition show_password :: "('r \<Rightarrow> nat \<times> 'r) \<Rightarrow> (u8 \<Rightarrow> 'r) \<Rightarrow> state \<Rightarrow> 'r \<Rightarrow> put list \<times> 'r" where
  "show_password rnd srand s r =
     (let (k, r) = rnd r; seed = of_nat k :: u8
      in (print_password (level s) (lives s) seed, srand seed))"

definition do_win :: "('r \<Rightarrow> nat \<times> 'r) \<Rightarrow> (u8 \<Rightarrow> 'r) \<Rightarrow> state \<Rightarrow> 'r \<Rightarrow> put list \<times> state \<times> 'r" where
  "do_win rnd srand s r =
     (let s = s\<lparr>score := score s + (ucast (level s) + 1) * 10000\<rparr>;
          s = s\<lparr>level := level s + 1\<rparr>;
          (ps, r) = show_password rnd srand s r
      in (ps, reset s, r))"

datatype 'r frame =
    Over state                                  \<comment> \<open>the loop ends\<close>
  | Shown "put list" state 'r                   \<comment> \<open>a password screen, then the next frame\<close>
  | Drawn "(nat \<times> nat \<times> tile) list" state 'r   \<comment> \<open>the board, then the next frame\<close>

definition frame :: "('r \<Rightarrow> nat \<times> 'r) \<Rightarrow> (u8 \<Rightarrow> 'r) \<Rightarrow> key option \<Rightarrow> key list \<Rightarrow> state \<Rightarrow> 'r \<Rightarrow> 'r frame option" where
  "frame rnd srand c ks s r = do {
     (quit, s) \<leftarrow> handle_input c ks s;
     if quit then Some (Over s)
     else do {
       (result, s, r) \<leftarrow> tick rnd s r;
       case result of
         RESULT_WIN \<Rightarrow> let (ps, s, r) = do_win rnd srand s r in Some (Shown ps s r)
       | RESULT_DIE \<Rightarrow>
           let s = s\<lparr>lives := lives s - 1\<rparr> in
           if sint (lives s) < 0 then Some (Over s)
           else let (ps, r) = show_password rnd srand s r in Some (Shown ps (reset s) r)
       | RESULT_NONE \<Rightarrow> do {
           ts \<leftarrow> draw_board s;
           Some (Drawn ts s r)
         }
     }
   }"

section \<open>The menu and the start of a game\<close>

text \<open>\<open>get_password\<close>: \<open>Inl\<close> is a return of 0; \<open>None\<close> waits for a key.\<close>

definition get_password :: "(u8 \<Rightarrow> 'r) \<Rightarrow> key list \<Rightarrow> state \<Rightarrow> (key list + (state \<times> 'r \<times> key list)) option" where
  "get_password srand ks s =
     (case read_password ks of
        Waiting \<Rightarrow> None
      | Rejected ks \<Rightarrow> Some (Inl ks)
      | Accepted l v seed ks \<Rightarrow>
          let s = s\<lparr>level := l, lives := v\<rparr>;
              s = s\<lparr>score := if level s > 0 then 10000 * (ucast (level s) * (ucast (level s) + 1)) div 2 else 0\<rparr>
          in Some (Inr (reset s, srand seed, ks)))"

lemma read_keys_shorter:
  "(\<exists>a b c. read_keys x y g ks = Accepted a b c ks') \<or> read_keys x y g ks = Rejected ks' \<Longrightarrow> length ks' < length ks"
  by (induction x y g ks rule: read_keys.induct) (auto split: if_splits option.splits list.splits)

function main_menu :: "(u8 \<Rightarrow> 'r) \<Rightarrow> key list \<Rightarrow> state \<Rightarrow> 'r \<Rightarrow> (state \<times> 'r \<times> key list) option" where
  "main_menu srand [] s r = None"
| "main_menu srand (k # ks) s r =
     (if k = Key CHR ''1'' then Some (s, r, ks)
      else if k = Key CHR ''2'' then
        (case get_password srand ks s of
           None \<Rightarrow> None
         | Some (Inl ks) \<Rightarrow> main_menu srand ks s r
         | Some (Inr res) \<Rightarrow> Some res)
      else main_menu srand ks s r)"
  by pat_completeness auto

termination
proof (relation "measure (\<lambda>(_, ks, _, _). length ks)", goal_cases)
  case (2 srand k ks s r a ks')
  then show ?case
    using read_keys_shorter[of 0 0 blank_grid ks ks']
    by (auto simp: get_password_def read_password_def Let_def split: answer.splits)
qed auto

text \<open>The state \<open>go\<close> sets up, from whatever the stack holds.\<close>

definition go_init :: "state \<Rightarrow> state option" where
  "go_init s = do {
     bds \<leftarrow> initialize_boards (boards s);
     Some (reset (s\<lparr>boards := bds, score := 0, lives := 3, level := 0\<rparr>))
   }"

text \<open>The main loop on a list of key events; it ends when they are used up or the game is over.\<close>

fun play :: "('r \<Rightarrow> nat \<times> 'r) \<Rightarrow> (u8 \<Rightarrow> 'r) \<Rightarrow> (key option \<times> key list) list \<Rightarrow> state \<Rightarrow> 'r \<Rightarrow> 'r frame option" where
  "play rnd srand [] s r = Some (Drawn [] s r)"
| "play rnd srand ((c, ks) # evs) s r = do {
     f \<leftarrow> frame rnd srand c ks s r;
     case f of
       Over s \<Rightarrow> Some (Over s)
     | Shown _ s r \<Rightarrow> play rnd srand evs s r
     | Drawn _ s r \<Rightarrow> play rnd srand evs s r
   }"

section \<open>The invariant\<close>

definition boards_ok :: "board list \<Rightarrow> bool" where
  "boards_ok bds \<longleftrightarrow> length bds = MAX_LEVELS \<and> (\<forall>b < MAX_LEVELS. walled b (bds ! b))"

definition ghost_ok :: "nat \<Rightarrow> ghost \<Rightarrow> bool" where
  "ghost_ok b g \<longleftrightarrow> free b (gx g, gy g)"

definition game_ok :: "state \<Rightarrow> bool" where
  "game_ok s \<longleftrightarrow> boards_ok (boards s) \<and> unat (level s) < MAX_LEVELS \<and>
     free (unat (level s)) (sx s, sy s) \<and> length (ghosts s) = GHOST_COUNT \<and>
     (\<forall>g \<in> set (ghosts s). ghost_ok (unat (level s)) g)"

named_theorems game_simps \<open>unfolding of the invariant\<close>

lemmas [game_simps] = game_ok_def boards_ok_def ghost_ok_def

lemma current_board_ok:
  "game_ok s \<Longrightarrow> \<exists>bd. current_board s = Some bd \<and> bd = boards s ! unat (level s) \<and> walled (unat (level s)) bd"
  by (auto simp: game_simps current_board_def rd_def)

lemma change_direction_ok:
  assumes "game_ok s"
  shows "\<exists>s'. change_direction_if_possible s = Some s' \<and> game_ok s' \<and>
    (\<exists>d nd. s' = s\<lparr>dir := d, next_dir := nd\<rparr>)"
proof -
  obtain bd where bd: "current_board s = Some bd" "walled (unat (level s)) bd"
    using current_board_ok[OF assms] by auto
  have "free (unat (level s)) (sx s, sy s)" using assms by (simp add: game_ok_def)
  then obtain c where c: "can_move bd (next_dir s) (sx s) (sy s) = Some c"
    using can_move_total[OF bd(2)] by blast
  have "s = s\<lparr>dir := dir s, next_dir := next_dir s\<rparr>" by simp
  then have e: "\<exists>d nd. s = s\<lparr>dir := d, next_dir := nd\<rparr>" by blast
  have "game_ok (s\<lparr>dir := d, next_dir := nd\<rparr>)" for d nd
    using assms by (simp add: game_ok_def)
  moreover have "change_direction_if_possible s = Some (if c then s\<lparr>dir := next_dir s, next_dir := - 1\<rparr> else s)"
    by (simp add: change_direction_if_possible_def bd(1) c)
  ultimately show ?thesis using e assms by (cases c) auto
qed

lemma handle_input_ok:
  assumes "game_ok s"
  shows "\<exists>q s'. handle_input c ks s = Some (q, s') \<and> game_ok s' \<and>
    (\<exists>d nd. s' = s\<lparr>dir := d, next_dir := nd\<rparr>)"
proof (cases "last_key c ks = Some (Key CHR ''q'')")
  case True
  moreover have "s = s\<lparr>dir := dir s, next_dir := next_dir s\<rparr>" by simp
  ultimately show ?thesis using assms unfolding handle_input_def Let_def by (simp, blast)
next
  case False
  have "\<exists>nd. handle_input c ks s = map_option (\<lambda>s. (False, s)) (change_direction_if_possible (s\<lparr>next_dir := nd\<rparr>))"
  proof -
    have "s = s\<lparr>next_dir := next_dir s\<rparr>" by simp
    then show ?thesis unfolding handle_input_def Let_def using False by (simp, metis)
  qed
  then obtain nd where nd: "handle_input c ks s = map_option (\<lambda>s. (False, s)) (change_direction_if_possible (s\<lparr>next_dir := nd\<rparr>))"
    by blast
  have "game_ok (s\<lparr>next_dir := nd\<rparr>)" using assms by (simp add: game_ok_def)
  then obtain s' d nd' where "change_direction_if_possible (s\<lparr>next_dir := nd\<rparr>) = Some s'" "game_ok s'"
      "s' = s\<lparr>next_dir := nd\<rparr>\<lparr>dir := d, next_dir := nd'\<rparr>"
    using change_direction_ok by blast
  then show ?thesis unfolding nd by auto
qed

lemma pellet_cells: "cell_valid (unat x, unat y) \<Longrightarrow> (unat x, unat y) \<in> set cells"
  by (simp add: set_cells)

definition pellet_count :: "state \<Rightarrow> nat" where
  "pellet_count s = bits.count cells (pellets (boards s ! unat (level s)))"

lemma pellet_count_ghosts [simp]: "pellet_count (s\<lparr>ghosts := gs\<rparr>) = pellet_count s"
  by (simp add: pellet_count_def)

lemma tick_gman_ok:
  assumes "game_ok s"
  shows "\<exists>res s'. tick_gman s = Some (res, s') \<and> game_ok s' \<and> level s' = level s \<and> lives s' = lives s \<and>
    score s' + PELLET_VALUE * of_nat (pellet_count s') = score s + PELLET_VALUE * of_nat (pellet_count s) \<and>
    pellet_count s' \<le> pellet_count s \<and>
    (\<forall>b. b \<noteq> unat (level s) \<longrightarrow> boards s' ! b = boards s ! b) \<and>
    res = (if pellet_count s' = 0 \<and> pellet_count s \<noteq> 0 then RESULT_WIN else RESULT_NONE)"
proof -
  let ?b = "unat (level s)"
  obtain bd where bd: "current_board s = Some bd" "bd = boards s ! ?b" "walled ?b bd"
    using current_board_ok[OF assms] by auto
  have l: "?b < length (boards s)" using assms by (simp add: game_simps)
  have f: "free ?b (sx s, sy s)" using assms by (simp add: game_ok_def)
  obtain x y where m: "do_move bd (dir s) (sx s) (sy s) = Some (x, y)" "free ?b (x, y)"
    using do_move_ok[OF bd(3) f] by blast
  have "game_ok (s\<lparr>sx := x, sy := y\<rparr>)" using assms m(2) by (simp add: game_ok_def)
  then obtain d nd where c: "change_direction_if_possible (s\<lparr>sx := x, sy := y\<rparr>) =
        Some (s\<lparr>sx := x, sy := y\<rparr>\<lparr>dir := d, next_dir := nd\<rparr>)"
    using change_direction_ok by blast
  let ?s = "s\<lparr>sx := x, sy := y\<rparr>\<lparr>dir := d, next_dir := nd\<rparr>"
  let ?p = "(unat x, unat y)"
  have ok: "game_ok ?s" using assms m(2) by (simp add: game_ok_def)
  have v: "cell_valid ?p" using m(2) by (simp add: free_def)
  have g: "grid_ok (pellets bd)" using bd(3) by (simp add: walled_def board_ok_def)
  show ?thesis
  proof (cases "look_cell (pellets bd) ?p")
    case False
    then have "tick_gman s = Some (RESULT_NONE, ?s)"
      by (simp add: tick_gman_def bd(1) m(1) c get_bit_cell[OF g v])
    then show ?thesis using ok by (auto simp: pellet_count_def)
  next
    case True
    let ?bd = "bd\<lparr>pellets := put_cell (pellets bd) ?p False\<rparr>"
    let ?t = "?s\<lparr>boards := (boards s)[?b := ?bd], score := score s + PELLET_VALUE\<rparr>"
    have "board_ok ?bd" using bd(3) bits.ok_put[OF g v] by (simp add: walled_def board_ok_def)
    then have w: "walled ?b ?bd" using bd(3) by (simp add: walled_def)
    have n: "pellet_count s = Suc (pellet_count ?t)"
      using bits.count_clear[OF g distinct_cells _ pellet_cells[OF v] True] l bd(2)
      by (simp add: pellet_count_def set_cells)
    have t: "tick_gman s = Some (if 0 < pellet_count ?t then RESULT_NONE else RESULT_WIN, ?t)"
      using True l by (simp add: tick_gman_def bd(1) m(1) c get_bit_cell[OF g v] set_bit_cell[OF g v] wr_in
          pellets_remaining_iff[OF \<open>board_ok ?bd\<close>] pellet_count_def)
    have "game_ok ?t" using ok w by (auto simp: game_simps nth_list_update)
    then show ?thesis using n unfolding t by (auto simp: algebra_simps)
  qed
qed

section \<open>The ghosts keep to the corridors\<close>

abbreviation (input) directions :: "direction set" where
  "directions \<equiv> {UP, DOWN, LEFT, RIGHT}"

lemma odds_defined: "(px, py) \<noteq> (x, y) \<Longrightarrow> \<exists>odds. left_right_odds px py x y = Some odds"
proof -
  assume "(px, py) \<noteq> (x, y)"
  then have "uint px \<noteq> uint x \<or> uint py \<noteq> uint y" by (auto simp: word_uint_eq_iff)
  then have "\<bar>uint px - uint x\<bar> + \<bar>uint py - uint y\<bar> \<noteq> 0" by linarith
  then show ?thesis unfolding left_right_odds_def Let_def by (simp only: if_False) blast
qed

lemma towards_dir: "towards px py x y odds k \<in> directions"
  by (simp add: towards_def)

lemma opposite_dir: "d \<in> directions \<Longrightarrow> opposite d \<in> directions"
  by (auto simp: opposite_def)

text \<open>What a ghost may choose: to keep its direction, or to turn, not around, towards a free cell.\<close>

definition choice_ok :: "board \<Rightarrow> direction \<Rightarrow> u8 \<Rightarrow> u8 \<Rightarrow> direction \<Rightarrow> bool" where
  "choice_ok bd d x y d' \<longleftrightarrow>
     d' = d \<or> (d' \<in> directions \<and> can_move bd d' x y = Some True \<and> (d \<in> directions \<longrightarrow> d' \<noteq> opposite d))"

lemma ghost_loop_ok:
  assumes w: "walled b bd" and f: "free b (x, y)" and away: "(px, py) \<noteq> (x, y)"
  shows "\<exists>d' r'. ghost_loop rnd bd px py d x y i r = Some (d', r') \<and> choice_ok bd d x y d'"
proof (induction i arbitrary: r)
  case 0
  then show ?case by (simp add: choice_ok_def)
next
  case (Suc i)
  obtain odds where o: "left_right_odds px py x y = Some odds" using odds_defined[OF away] by blast
  obtain k1 r1 where k1: "rnd r = (k1, r1)" by (cases "rnd r")
  obtain k2 r2 where k2: "rnd r1 = (k2, r2)" by (cases "rnd r1")
  define t where "t = towards px py x y odds k1"
  define nd where "nd = (if k2 mod 100 > GHOST_TURN_TOWARDS_ODDS then opposite t else t)"
  have nd: "nd \<in> directions"
    using towards_dir[of px py x y odds k1] opposite_dir[of t] by (simp only: nd_def t_def split: if_split) blast
  obtain c where c: "can_move bd nd x y = Some c" using can_move_total[OF w f] by blast
  have step: "ghost_loop rnd bd px py d x y (Suc i) r =
      (if (d \<in> directions \<and> nd = opposite d) \<or> \<not> c then ghost_loop rnd bd px py d x y i r2 else Some (nd, r2))"
    unfolding ghost_loop.simps o Option.bind.simps Let_def k1 k2 prod.case t_def[symmetric] nd_def[symmetric] c
    by (cases "d \<in> directions \<and> nd = opposite d"; cases c) (simp_all only: if_True if_False simp_thms)
  show ?case
  proof (cases "(d \<in> directions \<and> nd = opposite d) \<or> \<not> c")
    case True
    then show ?thesis unfolding step using Suc.IH by (simp only: if_True)
  next
    case False
    then have "choice_ok bd d x y nd" using nd c by (auto simp: choice_ok_def)
    then show ?thesis unfolding step using False by (simp only: if_False) blast
  qed
qed

lemma choose_ok:
  assumes "walled b bd" and "free b (x, y)" and "(px, py) \<noteq> (x, y)"
  shows "\<exists>d' r'. choose_ghost_direction rnd bd px py d x y r = Some (d', r') \<and> choice_ok bd d x y d'"
proof -
  have c: "\<exists>c. can_move bd e x y = Some c" for e using can_move_total[OF assms(1,2)] .
  obtain l rt u dn where m: "can_move bd LEFT x y = Some l" "can_move bd RIGHT x y = Some rt"
      "can_move bd UP x y = Some u" "can_move bd DOWN x y = Some dn"
    using c[of LEFT] c[of RIGHT] c[of UP] c[of DOWN] by blast
  obtain k r1 where k: "rnd r = (k, r1)" by (cases "rnd r")
  have d: "choice_ok bd d x y d" by (simp add: choice_ok_def)
  show ?thesis
    unfolding choose_ghost_direction_def m k
    using d ghost_loop_ok[OF assms, of rnd d 100 r1] by (auto simp: Let_def)
qed

lemma move_ghosts_ok:
  assumes w: "walled b bd" and g: "\<forall>g \<in> set gs. ghost_ok b g \<and> (px, py) \<noteq> (gx g, gy g)"
  shows "\<exists>gs' r'. move_ghosts rnd bd px py gs r = Some (gs', r') \<and> length gs' = length gs \<and> (\<forall>g \<in> set gs'. ghost_ok b g)"
  using g
proof (induction gs arbitrary: r)
  case (Cons g gs)
  have f: "free b (gx g, gy g)" "(px, py) \<noteq> (gx g, gy g)" using Cons.prems by (auto simp: ghost_ok_def)
  obtain d r1 where d: "choose_ghost_direction rnd bd px py (gdir g) (gx g) (gy g) r = Some (d, r1)"
    using choose_ok[OF w f, of rnd "gdir g" r] by blast
  obtain x y where m: "do_move bd d (gx g) (gy g) = Some (x, y)" "free b (x, y)"
    using do_move_ok[OF w f(1)] by blast
  obtain gs' r2 where gs': "move_ghosts rnd bd px py gs r1 = Some (gs', r2)" "length gs' = length gs"
      "\<forall>g \<in> set gs'. ghost_ok b g"
    using Cons.IH[of r1] Cons.prems by auto
  then show ?case using m by (simp add: d ghost_ok_def)
qed simp

lemma check_death_none: "check_death s = RESULT_NONE \<longleftrightarrow> (\<forall>g \<in> set (ghosts s). (sx s, sy s) \<noteq> (gx g, gy g))"
  by (auto simp: check_death_def)

lemma tick_ghosts_ok:
  assumes "game_ok s" "check_death s = RESULT_NONE"
  shows "\<exists>gs r'. tick_ghosts rnd s r = Some (s\<lparr>ghosts := gs\<rparr>, r') \<and> game_ok (s\<lparr>ghosts := gs\<rparr>)"
proof -
  obtain bd where bd: "current_board s = Some bd" "walled (unat (level s)) bd"
    using current_board_ok[OF assms(1)] by auto
  have g: "\<forall>g \<in> set (ghosts s). ghost_ok (unat (level s)) g \<and> (sx s, sy s) \<noteq> (gx g, gy g)"
    using assms check_death_none by (auto simp: game_ok_def)
  obtain gs r' where m: "move_ghosts rnd bd (sx s) (sy s) (ghosts s) r = Some (gs, r')" "length gs = length (ghosts s)"
      "\<forall>g \<in> set gs. ghost_ok (unat (level s)) g"
    using move_ghosts_ok[OF bd(2) g, of rnd r] by blast
  have "tick_ghosts rnd s r = Some (s\<lparr>ghosts := gs\<rparr>, r')" by (simp add: tick_ghosts_def bd(1) m(1))
  moreover have "game_ok (s\<lparr>ghosts := gs\<rparr>)" using assms(1) m(2,3) by (simp add: game_ok_def)
  ultimately show ?thesis by blast
qed

text \<open>A tick: defined, and what it changes besides positions and directions.\<close>

definition tick_effect :: "state \<Rightarrow> round_result \<Rightarrow> state \<Rightarrow> bool" where
  "tick_effect s res s' \<longleftrightarrow> level s' = level s \<and> lives s' = lives s \<and>
    score s' + PELLET_VALUE * of_nat (pellet_count s') = score s + PELLET_VALUE * of_nat (pellet_count s) \<and>
    pellet_count s' \<le> pellet_count s \<and>
    (\<forall>b. b \<noteq> unat (level s) \<longrightarrow> boards s' ! b = boards s ! b) \<and>
    (res = RESULT_WIN \<longleftrightarrow> pellet_count s' = 0 \<and> pellet_count s \<noteq> 0)"

lemma tick_ok:
  assumes "game_ok s"
  shows "\<exists>res s' r'. tick rnd s r = Some (res, s', r') \<and> game_ok s' \<and> tick_effect s res s'"
proof -
  obtain res s1 where r: "tick_gman s = Some (res, s1)" "game_ok s1" and e: "level s1 = level s \<and> lives s1 = lives s \<and>
    score s1 + PELLET_VALUE * of_nat (pellet_count s1) = score s + PELLET_VALUE * of_nat (pellet_count s) \<and>
    pellet_count s1 \<le> pellet_count s \<and> (\<forall>b. b \<noteq> unat (level s) \<longrightarrow> boards s1 ! b = boards s ! b)"
    and res: "res = (if pellet_count s1 = 0 \<and> pellet_count s \<noteq> 0 then RESULT_WIN else RESULT_NONE)"
    using tick_gman_ok[OF assms] by blast
  then have g: "tick_gman s = Some (res, s1)" "game_ok s1" "tick_effect s res s1"
    by (simp_all add: tick_effect_def)
  show ?thesis
  proof (cases "res = RESULT_NONE \<and> check_death s1 = RESULT_NONE")
    case False
    have "check_death s1 \<noteq> RESULT_WIN" by (simp add: check_death_def)
    then show ?thesis using False g by (auto simp: tick_def tick_effect_def split: if_splits)
  next
    case True
    obtain gs r' where t: "tick_ghosts rnd s1 r = Some (s1\<lparr>ghosts := gs\<rparr>, r')" "game_ok (s1\<lparr>ghosts := gs\<rparr>)"
      using tick_ghosts_ok[OF g(2), of rnd r] True by blast
    have "tick rnd s r = Some (check_death (s1\<lparr>ghosts := gs\<rparr>), s1\<lparr>ghosts := gs\<rparr>, r')"
      using True by (simp add: tick_def g(1) t(1))
    moreover have "check_death (s1\<lparr>ghosts := gs\<rparr>) \<noteq> RESULT_WIN" by (simp add: check_death_def)
    then have "tick_effect s (check_death (s1\<lparr>ghosts := gs\<rparr>)) (s1\<lparr>ghosts := gs\<rparr>)"
      using g(3) True by (simp add: tick_effect_def)
    ultimately show ?thesis using t(2) by auto
  qed
qed

lemma draw_cells_ok:
  assumes "board_ok bd" "\<forall>p \<in> set ps. cell_valid p"
  shows "\<exists>ts. draw_cells s bd ps = Some ts"
  using assms(2)
proof (induction ps)
  case (Cons p ps)
  obtain x y where p: "p = (x, y)" by (cases p)
  have "cell_valid (x, y)" "grid_ok (walls bd)" "grid_ok (pellets bd)"
    using Cons.prems assms(1) by (simp_all add: p board_ok_def)
  then have "\<exists>a. draw_cell s bd x y = Some a" by (simp add: draw_cell_def get_bit_cell)
  then show ?case using Cons by (auto simp: p)
qed simp

lemma draw_board_ok: "game_ok s \<Longrightarrow> \<exists>ts. draw_board s = Some ts"
  using current_board_ok[of s] draw_cells_ok[of _ cells s]
  by (auto simp: draw_board_def walled_def set_cells)

lemma start_ghosts:
  assumes "b < MAX_LEVELS"
  shows "\<forall>g \<in> set (ghosts (reset s)). ghost_ok b g" "free b (sx (reset s), sy (reset s))"
    "length (ghosts (reset s)) = GHOST_COUNT" "boards (reset s) = boards s" "level (reset s) = level s"
    "lives (reset s) = lives s" "score (reset s) = score s"
proof -
  have i: "[0..<4] = [0, 1, 2, 3 :: nat]" by code_simp
  show "\<forall>g \<in> set (ghosts (reset s)). ghost_ok b g"
    using start_cells[of b] by (simp add: reset_def reset_gman_def reset_ghosts_def i ghost_ok_def free_def cell_valid_def)
  show "free b (sx (reset s), sy (reset s))"
    using start_cells[of b] by (simp add: reset_def reset_gman_def free_def cell_valid_def)
qed (simp_all add: reset_def reset_gman_def reset_ghosts_def)

lemma reset_ok: "boards_ok (boards s) \<Longrightarrow> unat (level s) < MAX_LEVELS \<Longrightarrow> game_ok (reset s)"
  using start_ghosts[of "unat (level s)" s] by (simp add: game_ok_def)

lemma go_init_ok:
  assumes "length (boards s) = MAX_LEVELS" "\<forall>bd \<in> set (boards s). board_ok bd"
  shows "\<exists>s'. go_init s = Some s' \<and> game_ok s' \<and> level s' = 0 \<and> lives s' = 3 \<and> score s' = 0"
proof -
  obtain bds where b: "initialize_boards (boards s) = Some bds" "length bds = MAX_LEVELS"
      "\<forall>b < MAX_LEVELS. shows_level b (bds ! b)"
    using initialize_boards_shows[OF assms] by blast
  have "boards_ok bds" using b(2,3) by (auto simp: boards_ok_def walled_def shows_level_def)
  then show ?thesis
    using b(1) reset_ok[of "s\<lparr>boards := bds, score := 0, lives := 3, level := 0\<rparr>"]
      start_ghosts(5-7)[of 0 "s\<lparr>boards := bds, score := 0, lives := 3, level := 0\<rparr>"]
    by (simp add: go_init_def)
qed

text \<open>The game a frame leaves.\<close>

definition after :: "'r frame \<Rightarrow> state" where
  "after f = (case f of Over s \<Rightarrow> s | Shown _ s _ \<Rightarrow> s | Drawn _ s _ \<Rightarrow> s)"

lemma frame_ok:
  assumes "game_ok s"
  shows "\<exists>f. frame rnd srand c ks s r = Some f \<and> (game_ok (after f) \<or> unat (level s) = 99 \<and> level (after f) = 100)"
proof -
  obtain q s1 where h: "handle_input c ks s = Some (q, s1)" "game_ok s1" "level s1 = level s"
    using handle_input_ok[OF assms, of c ks] by auto
  obtain res s2 r2 where t: "tick rnd s1 r = Some (res, s2, r2)" "game_ok s2" "level s2 = level s"
    using tick_ok[OF h(2), of rnd r] h(3) by (auto simp: tick_effect_def)
  show ?thesis
  proof (cases "q")
    case True
    then show ?thesis using h by (simp add: frame_def after_def)
  next
    case False
    show ?thesis
    proof (cases res)
      case RESULT_NONE
      then show ?thesis using False h(1) t draw_board_ok[OF t(2)] by (auto simp: frame_def after_def)
    next
      case RESULT_DIE
      have "game_ok (s2\<lparr>lives := v\<rparr>)" "game_ok (reset (s2\<lparr>lives := v\<rparr>))" for v
        using t(2) reset_ok[of "s2\<lparr>lives := v\<rparr>"] by (simp_all add: game_ok_def)
      then show ?thesis
        using RESULT_DIE False h(1) t(1) by (auto simp: frame_def after_def Let_def split: prod.splits)
    next
      case RESULT_WIN
      let ?s = "s2\<lparr>score := score s2 + (ucast (level s2) + 1) * 10000, level := level s2 + 1\<rparr>"
      have u: "unat (level s2 + 1) = unat (level s2) + 1"
        using t(2) by (simp add: game_ok_def unat_word_ariths)
      have a: "\<exists>ps r. frame rnd srand c ks s r' = Some (Shown ps (reset ?s) r)" if "r' = r" for r'
        using RESULT_WIN False h(1) t(1) that
        by (auto simp: frame_def do_win_def Let_def split: prod.splits)
      show ?thesis
      proof (cases "unat (level s) = 99")
        case True
        then have "unat (level s2) = 99" using t(3) by simp
        then have "unat (level s2 + 1) = 100" using u by linarith
        then have "level s2 + 1 = 100" by (simp only: word_unat_eq_iff) simp
        then show ?thesis using a[OF refl] True start_ghosts(5)[of 0 ?s] by (auto simp: after_def)
      next
        case nine: False
        have "game_ok (reset ?s)" using reset_ok[of ?s] t(2,3) u nine by (simp add: game_ok_def)
        then show ?thesis using a[OF refl] by (auto simp: after_def)
      qed
    qed
  qed
qed

section \<open>Lives\<close>

lemma negative_byte: "sint (v :: u8) < 0 \<longleftrightarrow> 128 \<le> unat v"
proof -
  have "sint v < 0 \<longleftrightarrow> bit v 7" by (simp flip: bit_last_iff)
  also have "\<dots> \<longleftrightarrow> bit (unat v) 7" by (simp add: bit_unsigned_iff)
  also have "\<dots> \<longleftrightarrow> odd (unat v div 128)" by (simp add: bit_iff_odd)
  also have "\<dots> \<longleftrightarrow> 128 \<le> unat v"
  proof (cases "unat v < 128")
    case False
    then have "unat v div 128 = 1" using u8_less[of v] by (intro div_nat_eqI) simp_all
    then show ?thesis using False by simp
  qed simp
  finally show ?thesis .
qed

lemma last_life: "sint (v - 1 :: u8) < 0 \<longleftrightarrow> v = 0 \<or> 128 < v"
proof (cases "v = 0")
  case False
  then have "unat (v - 1) = unat v - 1" "unat v \<noteq> 0" by (simp_all add: unat_minus_one unat_eq_0)
  then show ?thesis using False by (auto simp: negative_byte word_less_nat_alt)
qed (simp add: negative_byte)

section \<open>Properties\<close>

text \<open>
  C1: a frame of the game is memory safe and keeps the invariant. From any state the
  invariant describes, whatever keys are pending and whatever numbers the generator gives,
  one pass of the main loop reads and writes only inside the boards, never divides 0 by 0
  in a ghost, and leaves the player and the ghosts on free cells of a board; the one way
  out of the invariant is to win level 99 (the last one), which enters level 100.
\<close>

theorem frame_safe:
  assumes "game_ok s"
  shows "\<exists>f. frame rnd srand c ks s r = Some f \<and>
    (game_ok (after f) \<or> unat (level s) = MAX_LEVELS - 1 \<and> unat (level (after f)) = MAX_LEVELS)"
  using frame_ok[OF assms, of rnd srand c ks r] by auto

definition state0 :: state where
  "state0 = \<lparr>score = 0, lives = 0, level = 0, sx = 0, sy = 0, dir = 0, next_dir = 0, ghosts = [], boards = blank_boards\<rparr>"

theorem frame_safe_witness:
  "\<exists>s f. go_init state0 = Some s \<and> frame (\<lambda>n. (n, n + 1)) unat (Some (Key CHR ''w'')) [] s 7 = Some f \<and> game_ok (after f)"
proof -
  obtain s where s: "go_init state0 = Some s" "game_ok s" "level s = 0"
    using go_init_ok[of state0] blank_boards_ok by (auto simp: state0_def)
  then show ?thesis
    using frame_safe[OF s(2), of "\<lambda>n. (n, n + 1)" unat "Some (Key CHR ''w'')" "[]" 7] by auto
qed

text \<open>
  C20: the kill screen. A password of any level and lives is accepted from the menu; up to
  level 99 the game starts in a state of the invariant, and from level 100 on the first
  tick reads outside the array of boards, whatever the player does.
\<close>

theorem password_reaches_kill_screen:
  assumes "boards_ok (boards s)"
  shows "\<exists>s'. main_menu srand (Key CHR ''2'' # type_grid (shown l v seed) @ Key (CHR 0x0A) # ks) s r = Some (s', srand seed, ks)
    \<and> level s' = l \<and> lives s' = v \<and>
    (if unat l < MAX_LEVELS then game_ok s' else tick rnd s' r' = None)"
proof -
  have a: "read_password (type_grid (shown l v seed) @ Key (CHR 0x0A) # ks) = Accepted l v seed ks"
    using grid7_ok_shown by (simp add: read_grid validate_shown)
  define t where "t = s\<lparr>level := l, lives := v,
      score := if l > 0 then 10000 * (ucast l * (ucast l + 1)) div 2 else 0\<rparr>"
  have m: "main_menu srand (Key CHR ''2'' # type_grid (shown l v seed) @ Key (CHR 0x0A) # ks) s r = Some (reset t, srand seed, ks)"
    by (simp add: get_password_def a Let_def t_def)
  have t: "level (reset t) = l" "lives (reset t) = v" "boards (reset t) = boards s"
    using start_ghosts[of 0 t] by (simp_all add: t_def)
  have "tick rnd (reset t) r' = None" if "\<not> unat l < 100"
  proof -
    have "length (boards s) \<le> unat l" using that assms by (simp add: boards_ok_def)
    then have "current_board (reset t) = None" by (simp add: current_board_def t rd_out)
    then show ?thesis by (simp add: tick_def tick_gman_def)
  qed
  moreover have "game_ok (reset t)" if "unat l < 100"
    using reset_ok[of t] assms that by (simp add: t_def)
  ultimately show ?thesis using m t by auto
qed

theorem password_reaches_kill_screen_witness:
  "\<exists>s s'. go_init state0 = Some s \<and>
    main_menu unat (Key CHR ''2'' # type_grid (shown 255 3 42) @ [Key (CHR 0x0A)]) s 0 = Some (s', 42, []) \<and>
    tick (\<lambda>n. (n, n + 1)) s' (42 :: nat) = None"
proof -
  obtain s where s: "go_init state0 = Some s" "boards_ok (boards s)"
    using go_init_ok[of state0] blank_boards_ok by (auto simp: state0_def game_ok_def)
  then show ?thesis
    using password_reaches_kill_screen[OF s(2), of unat 255 3 42 "[]" 0 "\<lambda>n. (n, n + 1)" 42] by auto
qed

text \<open>
  Scoring. In one tick the score grows by 100 for each pellet that disappears (modulo
  \<open>2 ^ 32\<close>), no pellet appears, the boards of the other levels do not change, and the round
  is won exactly when the last pellet of the level is eaten.
\<close>

lemma tick_scores:
  assumes "game_ok s" "tick rnd s r = Some (res, s', r')"
  shows "score s' + PELLET_VALUE * of_nat (pellet_count s') = score s + PELLET_VALUE * of_nat (pellet_count s) \<and>
    pellet_count s' \<le> pellet_count s \<and>
    (\<forall>b. b = unat (level s) \<or> boards s' ! b = boards s ! b) \<and>
    (res = RESULT_WIN \<longleftrightarrow> pellet_count s' = 0 \<and> pellet_count s \<noteq> 0)"
  using tick_ok[OF assms(1), of rnd r] assms(2) by (auto simp: tick_effect_def)

lemma tick_scores_example:
  "\<exists>s res s' r'. go_init state0 = Some s \<and> tick (\<lambda>n. (n, n + 1)) s (7 :: nat) = Some (res, s', r') \<and>
     score s' + 100 * of_nat (pellet_count s') = 100 * of_nat (pellet_count s)"
proof -
  obtain s where s: "go_init state0 = Some s" "game_ok s" "score s = 0"
    using go_init_ok[of state0] blank_boards_ok by (auto simp: state0_def)
  obtain res s' r' where t: "tick (\<lambda>n. (n, n + 1)) s (7 :: nat) = Some (res, s', r')"
    using tick_ok[OF s(2), of "\<lambda>n. (n, n + 1)" "7 :: nat"] by auto
  show ?thesis using tick_scores[OF s(2) t] s t by auto
qed

text \<open>
  Ghosts do not turn around. The direction chosen for a ghost on a free cell away from
  the player is its old one or a direction in which it can move, and then not the
  opposite of the old one.
\<close>

lemma ghost_never_reverses:
  assumes "walled b bd" "free b (x, y)" "(px, py) \<noteq> (x, y)"
  shows "\<exists>d' r'. choose_ghost_direction rnd bd px py d x y r = Some (d', r') \<and>
    (d' = d \<or> can_move bd d' x y = Some True \<and>
      \<not> (d = UP \<and> d' = DOWN \<or> d = DOWN \<and> d' = UP \<or> d = LEFT \<and> d' = RIGHT \<or> d = RIGHT \<and> d' = LEFT))"
  using choose_ok[OF assms, of rnd d r] by (auto simp: choice_ok_def opposite_def)

lemma ghost_never_reverses_example:
  "\<exists>bds d' r'. initialize_boards blank_boards = Some bds \<and>
    choose_ghost_direction (\<lambda>n. (n, n + 1)) (bds ! 0) 11 15 LEFT 12 9 (5 :: nat) = Some (d', r') \<and> d' \<noteq> RIGHT"
proof -
  obtain bds where b: "initialize_boards blank_boards = Some bds" "shows_level 0 (bds ! 0)"
    using initialize_boards_shows[OF blank_boards_ok] by auto
  have "walled 0 (bds ! 0)" "free 0 (12, 9)"
    using b(2) start_cells[of 0] by (auto simp: shows_level_def walled_def free_def cell_valid_def)
  then show ?thesis
    using ghost_never_reverses[of 0 "bds ! 0" 12 9 11 15 "\<lambda>n. (n, n + 1)" LEFT 5] b(1) by auto
qed

text \<open>
  When a death ends the game. Lives are decremented as a signed byte and then compared
  with 0: the game is over after a death with no life left, and with the negative counts a
  password can set, except with -128, which the decrement turns into 127 lives.
\<close>

lemma death_ends_game:
  assumes "handle_input c ks s = Some (False, s1)" "tick rnd s1 r = Some (RESULT_DIE, s2, r2)"
  shows "if sint (lives s2) = 0 \<or> - 128 < sint (lives s2) \<and> sint (lives s2) < 0
    then frame rnd srand c ks s r = Some (Over (s2\<lparr>lives := lives s2 - 1\<rparr>))
    else \<exists>ps r'. frame rnd srand c ks s r = Some (Shown ps (reset (s2\<lparr>lives := lives s2 - 1\<rparr>)) r')"
proof -
  have "sint (lives s2) = 0 \<or> - 128 < sint (lives s2) \<and> sint (lives s2) < 0 \<longleftrightarrow> sint (lives s2 - 1) < 0"
  proof -
    have "sint (lives s2) = - 128 \<longleftrightarrow> lives s2 = 128"
    proof
      assume "sint (lives s2) = - 128"
      moreover have "word_of_int (sint (lives s2)) = lives s2" by simp
      ultimately have "lives s2 = word_of_int (- 128)" by (simp only:)
      then show "lives s2 = 128" by simp
    qed simp
    moreover have "- 128 \<le> sint (lives s2)" using sint_greater_eq[of "lives s2"] by simp
    moreover have "sint (lives s2) = 0 \<longleftrightarrow> lives s2 = 0"
    proof
      assume "sint (lives s2) = 0"
      moreover have "word_of_int (sint (lives s2)) = lives s2" by simp
      ultimately show "lives s2 = 0" by simp
    qed simp
    moreover have "lives s2 = 128 \<longleftrightarrow> unat (lives s2) = 128" by (simp add: word_unat_eq_iff)
    ultimately show ?thesis
      unfolding last_life by (auto simp: negative_byte word_less_nat_alt)
  qed
  then show ?thesis using assms by (auto simp: frame_def Let_def split: prod.splits)
qed

definition doomed :: "u8 \<Rightarrow> state" where
  "doomed v = state0\<lparr>lives := v, sx := 5, sy := 5, dir := - 1, next_dir := - 1,
     ghosts := replicate GHOST_COUNT \<lparr>gx = 5, gy = 5, gdir = - 1\<rparr>\<rparr>"

lemma death_ends_game_example:
  "\<exists>ps s' r'. frame (\<lambda>n. (n, n + 1)) unat None [] (doomed 128) (7 :: nat) = Some (Shown ps s' r') \<and> lives s' = 127"
proof -
  have b: "current_board (doomed v) = Some \<lparr>pellets = replicate GRID_BYTES 0, walls = replicate GRID_BYTES 0\<rparr>" for v
    by (simp add: current_board_def doomed_def state0_def blank_boards_def rd_def)
  have m: "can_move bd (- 1) x y = Some False" "do_move bd (- 1) x y = Some (x, y)" for bd x y
    by (simp_all add: can_move_def do_move_def)
  have d: "next_dir (doomed v) = - 1" "dir (doomed v) = - 1" "sx (doomed v) = 5" "sy (doomed v) = 5"
      "(doomed v)\<lparr>sx := 5, sy := 5\<rparr> = doomed v" for v
    by (simp_all add: doomed_def)
  have c: "change_direction_if_possible (doomed v) = Some (doomed v)" for v
    by (simp add: change_direction_if_possible_def b m d)
  have h: "handle_input None [] (doomed 128) = Some (False, doomed 128)"
    by (simp add: handle_input_def last_key_def c Let_def)
  have "tick_gman (doomed 128) = Some (RESULT_NONE, doomed 128)"
    by (simp add: tick_gman_def b m d c get_bit_def rd_def)
  then have t: "tick (\<lambda>n. (n, n + 1)) (doomed 128) (7 :: nat) = Some (RESULT_DIE, doomed 128, 7)"
    by (simp add: tick_def check_death_def doomed_def)
  show ?thesis
    using death_ends_game[OF h t, of unat] start_ghosts(6)[of 0] by (auto simp: doomed_def)
qed

end
