(* ===== verification/Ruler.thy ===== *)
theory Ruler
  imports Prelude
begin

text \<open>
  \<open>ruler/challenge/src/ruler.c\<close>: reads its input, run-length encodes it, and hashes the
  result through a callback stored behind the block buffer. The digest is a parameter, and
  so are the successes of the allocations, the address of the callback and the bytes a
  fresh allocation holds.
\<close>

section \<open>Reading the input\<close>

abbreviation (input) BLOCK_SIZE :: nat where "BLOCK_SIZE \<equiv> 256"
abbreviation (input) READ_LIMIT :: nat where "READ_LIMIT \<equiv> 0x54321"

text \<open>
  \<open>fread\<close> returns all the bytes asked for, or all that are left. The arguments: whether an
  allocation of a size succeeds, the buffer read so far, its capacity, the bytes left.
\<close>

function readall_loop :: "(nat \<Rightarrow> bool) \<Rightarrow> bytes \<Rightarrow> nat \<Rightarrow> bytes \<Rightarrow> bytes option" where
  "readall_loop alloc got buf_size inp =
     (let buf_size' = (if length got = buf_size then buf_size + BLOCK_SIZE else buf_size) in
      if length got = buf_size \<and> \<not> alloc buf_size' then None
      else
        let r = min (buf_size' - length got) (length inp);
            got' = got @ take r inp
        in if r = 1337 \<or> length got' > READ_LIMIT then Some got'
           else if r > 0 then readall_loop alloc got' buf_size' (drop r inp)
           else Some got')"
  by pat_completeness auto
termination
  by (relation "measure (\<lambda>(_, _, _, inp). length inp)") auto

declare readall_loop.simps [simp del]

text \<open>\<open>None\<close>: an allocation failed, the buffer is NULL and the length 0.\<close>

definition readall :: "(nat \<Rightarrow> bool) \<Rightarrow> bytes \<Rightarrow> bytes option" where
  "readall alloc inp = (if alloc BLOCK_SIZE then readall_loop alloc [] BLOCK_SIZE inp else None)"

section \<open>Run-length encoding\<close>

text \<open>The inner loop: how far a run of \<open>c\<close> goes, counted in 16 bits, and what is left.\<close>

fun run :: "u8 \<Rightarrow> u16 \<Rightarrow> bytes \<Rightarrow> u16 \<times> bytes" where
  "run c i [] = (i, [])"
| "run c i (b # p) =
     (if b \<noteq> c then (i, b # p)
      else
        let i = i + 1 in
        if p = [] then (i, p)
        else if i \<ge> 0x100 then (i, p)
        else run c i p)"

lemma run_length: "length (snd (run c i p)) \<le> length p"
  by (induction c i p rule: run.induct) (auto simp: Let_def)

function rle_loop :: "bytes \<Rightarrow> bytes \<Rightarrow> nat \<Rightarrow> bytes option" where
  "rle_loop out [] n = Some (take n out)"
| "rle_loop out (c # p) n =
     (case run c 0 (c # p) of (i, rest) \<Rightarrow> do {
        out \<leftarrow> wr out n (ucast i AND 0xFF);
        out \<leftarrow> wr out (n + 1) c;
        rle_loop out rest (n + 2)
      })"
  by pat_completeness auto
termination
proof (relation "measure (\<lambda>(_, p, _). length p)", goal_cases)
  case (2 out c p n i rest)
  have "length (snd (run c 0 (c # p))) < length (c # p)"
    using run_length[of c 1 p] by (auto simp: Let_def)
  moreover have "rest = snd (run c 0 (c # p))" using 2(1) by (metis snd_conv)
  ultimately show ?case by simp
qed auto

declare rle_loop.simps(2) [simp del]

text \<open>
  \<open>rle_encode\<close> into a block of twice the length: \<open>None\<close> if a write were outside it. The
  argument is what the block holds before.
\<close>

definition rle_encode :: "bytes \<Rightarrow> bytes \<Rightarrow> bytes option" where
  "rle_encode block buf = rle_loop block buf 0"

section \<open>Hashing\<close>

text \<open>\<open>struct hash_info\<close> as bytes: 256 of \<open>tmpbuf\<close>, 32 of \<open>hashbuf\<close>, 8 of \<open>cb\<close>, 32 of \<open>hout\<close>.\<close>

abbreviation (input) HASHBUF :: nat where "HASHBUF \<equiv> 256"
abbreviation (input) CB :: nat where "CB \<equiv> 288"
abbreviation (input) SIZEOF_HASH_INFO :: nat where "SIZEOF_HASH_INFO \<equiv> 328"

text \<open>\<open>memcpy\<close> and \<open>memset\<close> to an offset; \<open>None\<close> outside the block.\<close>

definition copy_to :: "nat \<Rightarrow> bytes \<Rightarrow> bytes \<Rightarrow> bytes option" where
  "copy_to off src dst =
     (if off + length src \<le> length dst then Some (take off dst @ src @ drop (off + length src) dst) else None)"

definition copy_from :: "bytes \<Rightarrow> nat \<Rightarrow> nat \<Rightarrow> bytes option" where
  "copy_from src off n = (if off + n \<le> length src then Some (take n (drop off src)) else None)"

text \<open>
  The loop: the memory from \<open>rawbuf\<close> to the end of its block, the position of \<open>buf\<close>, what is
  left, the struct, and the bytes given to the digest.
\<close>

function hash_loop :: "bytes \<Rightarrow> nat \<Rightarrow> nat \<Rightarrow> bytes \<Rightarrow> bytes \<Rightarrow> (bytes \<times> bytes) option" where
  "hash_loop mem buf left info hashed =
     (let chunk = (if left < SIZEOF_HASH_INFO then left else BLOCK_SIZE);
          left' = left - chunk
      in do {
        info \<leftarrow> copy_to 0 (replicate BLOCK_SIZE 0) info;
        src \<leftarrow> copy_from mem buf chunk;
        info \<leftarrow> copy_to 0 src info;
        let buf = buf + chunk;
        d \<leftarrow> copy_from mem buf chunk;
        if left' = 0 then Some (info, hashed @ d) else hash_loop mem buf left' info (hashed @ d)
      })"
  by pat_completeness auto
termination
  by (relation "measure (\<lambda>(_, _, left, _, _). left)") (auto split: if_splits)

declare hash_loop.simps [simp del]

definition callback :: "bytes \<Rightarrow> u64" where
  "callback info = of_le (take 8 (drop CB info))"

text \<open>
  \<open>hash_data\<close>: the struct the callback gets, and the address called. \<open>info0\<close> is the memory of
  the two structs allocated.
\<close>

definition hash_data :: "(bytes \<Rightarrow> bytes) \<Rightarrow> bytes \<Rightarrow> bytes \<Rightarrow> nat \<Rightarrow> u64 \<Rightarrow> (bytes \<times> u64) option" where
  "hash_data H info0 mem len cb = do {
     info \<leftarrow> copy_to CB (le_bytes 8 cb) info0;
     (info, hashed) \<leftarrow> hash_loop mem 0 len info [];
     info \<leftarrow> copy_to HASHBUF (H hashed) info;
     Some (info, callback info)
   }"

definition cb_fprintf :: "bytes \<Rightarrow> bytes" where
  "cb_fprintf info = hex_bytes (take 32 (drop HASHBUF info)) @ [0x0A]"

section \<open>The program\<close>

text \<open>What the program writes to its two outputs, or where it jumps.\<close>

datatype outcome = Done bytes bytes | Jump u64

definition ruler_main :: "(nat \<Rightarrow> bool) \<Rightarrow> (nat \<Rightarrow> bytes) \<Rightarrow> (bytes \<Rightarrow> bytes) \<Rightarrow> u64 \<Rightarrow> bytes \<Rightarrow> outcome option" where
  "ruler_main alloc fresh H cb inp =
     (let input = (case readall alloc inp of None \<Rightarrow> [] | Some b \<Rightarrow> b) in do {
        let block = (if alloc (length input * 2) then fresh (length input * 2) else []);
        output \<leftarrow> (if alloc (length input * 2) then rle_encode block input else Some []);
        let mem = output @ drop (length output) block;
        (info, addr) \<leftarrow> hash_data H (fresh (2 * SIZEOF_HASH_INFO)) mem (length output) cb;
        Some (if addr = cb then Done output (cb_fprintf info) else Jump addr)
      })"

section \<open>Run lengths: lemmas\<close>

text \<open>The decoder: a count of 0 stands for 256.\<close>

fun rle_decode :: "bytes \<Rightarrow> bytes" where
  "rle_decode (n # c # out) = replicate (if n = 0 then 256 else unat n) c @ rle_decode out"
| "rle_decode _ = []"

text \<open>The encoder as a function on lists.\<close>

lemma run_spec:
  assumes "unat i < 256" "p \<noteq> []"
  shows "\<exists>k. run c i p = (i + of_nat k, drop k p) \<and> k \<le> length p \<and> take k p = replicate k c \<and> unat i + k \<le> 256 \<and>
    (hd p = c \<longrightarrow> 0 < k)"
  using assms
proof (induction c i p rule: run.induct)
  case (2 c i b p)
  have u: "unat (i + 1) = unat i + 1" using 2 by (simp add: unat_word_ariths)
  show ?case
  proof (cases "b = c \<and> p \<noteq> [] \<and> i + 1 < 0x100")
    case True
    then have "unat (i + 1) < 256" by (simp add: word_less_nat_alt)
    then obtain k where k: "run c (i + 1) p = (i + 1 + of_nat k, drop k p)" "k \<le> length p" "take k p = replicate k c"
        "unat (i + 1) + k \<le> 256"
      using 2 True by (auto simp: not_le)
    then show ?thesis using True u by (intro exI[of _ "Suc k"]) (auto simp: Let_def not_le algebra_simps)
  next
    case False
    then show ?thesis
    proof (cases "b = c")
      case True
      then show ?thesis using False u 2 by (intro exI[of _ 1]) (auto simp: Let_def)
    next
      case no: False
      then show ?thesis using 2 by (intro exI[of _ 0]) auto
    qed
  qed
qed simp

lemma count_byte: "0 < k \<Longrightarrow> k \<le> 256 \<Longrightarrow>
    (if (ucast (of_nat k :: u16) AND 0xFF :: u8) = 0 then 256 else unat (ucast (of_nat k :: u16) AND 0xFF :: u8)) = k"
proof -
  assume k: "0 < k" "k \<le> 256"
  have "(ucast (of_nat k :: u16) AND 0xFF :: u8) = of_nat k"
  proof -
    have "x AND 0xFF = x" for x :: u8
      by (rule bit_word_eqI) (simp only: bit_and_iff bit_FF8, auto)
    moreover have "ucast (of_nat k :: u16) = (of_nat k :: u8)"
      by (simp add: word_unat_eq_iff unat_of_nat unsigned_ucast_eq take_bit_eq_mod mod_mod_cancel)
    ultimately show ?thesis by simp
  qed
  moreover have "unat (of_nat k :: u8) = k mod 256" by (simp add: unat_of_nat)
  moreover have "(of_nat k :: u8) = 0 \<longleftrightarrow> k mod 256 = 0" by (simp add: word_unat_eq_iff unat_of_nat)
  ultimately show ?thesis using k by (cases "k = 256") auto
qed

text \<open>Each pass of the outer loop writes one pair and consumes a run.\<close>

lemma rle_loop_ok:
  assumes "n + 2 * length p \<le> length out"
  shows "\<exists>e. rle_loop out p n = Some (take n out @ e) \<and> rle_decode e = p \<and> length e \<le> 2 * length p"
  using assms
proof (induction "length p" arbitrary: out p n rule: less_induct)
  case less
  show ?case
  proof (cases p)
    case Nil
    then show ?thesis by simp
  next
    case (Cons c q)
    obtain k where k: "run c 0 p = (of_nat k, drop k p)" "k \<le> length p" "take k p = replicate k c" "k \<le> 256" "0 < k"
      using run_spec[of 0 p c] Cons by auto
    define cnt where "cnt = (ucast (of_nat k :: u16) AND 0xFF :: u8)"
    let ?out = "out[n := cnt, Suc n := c]"
    have n: "n + 1 < length out" using less.prems Cons by simp
    have d: "length (drop k p) < length p" using k(2,5) by simp
    have "length (drop k p) + k = length p" using k(2) by simp
    then have b: "n + 2 + 2 * length (drop k p) \<le> length ?out" using less.prems k(5) by simp
    obtain e where e: "rle_loop ?out (drop k p) (n + 2) = Some (take (n + 2) ?out @ e)" "rle_decode e = drop k p"
        "length e \<le> 2 * length (drop k p)"
      using less.hyps[OF d, of "n + 2" ?out] b by auto
    have "take (n + 2) ?out = take n out @ [cnt, c]"
      using n by (intro nth_equalityI) (auto simp: nth_append nth_Cons nth_list_update split: nat.splits)
    moreover have "rle_loop out p n = rle_loop ?out (drop k p) (n + 2)"
      using n k(1) Cons by (simp add: rle_loop.simps(2) wr_in cnt_def)
    moreover have "rle_decode (cnt # c # e) = p"
      using count_byte[OF k(5,4)] k(3) e(2) append_take_drop_id[of k p] by (simp add: cnt_def)
    moreover have "length (cnt # c # e) \<le> 2 * length p" using e(3) k by simp
    ultimately show ?thesis using e(1) by (intro exI[of _ "cnt # c # e"]) simp
  qed
qed

lemma rle_encode_ok:
  assumes "length block = 2 * length buf"
  shows "\<exists>e. rle_encode block buf = Some e \<and> rle_decode e = buf \<and> length e \<le> 2 * length buf"
  using rle_loop_ok[of 0 buf block] assms by (simp add: rle_encode_def)

interpretation rle: codec "\<lambda>_. True" "\<lambda>buf. the (rle_encode (replicate (2 * length buf) 0) buf)" "\<lambda>e. Some (rle_decode e)"
proof unfold_locales
  fix buf :: bytes
  show "Some (rle_decode (the (rle_encode (replicate (2 * length buf) 0) buf))) = Some buf"
    using rle_encode_ok[of "replicate (2 * length buf) 0" buf] by auto
qed

section \<open>Hashing: lemmas\<close>

text \<open>The size of the last chunk.\<close>

function last_chunk :: "nat \<Rightarrow> nat" where
  "last_chunk len = (if len < SIZEOF_HASH_INFO then len else last_chunk (len - BLOCK_SIZE))"
  by pat_completeness auto
termination by (relation "measure id") auto

declare last_chunk.simps [simp del]

lemma last_chunk_bound: "last_chunk len < SIZEOF_HASH_INFO \<and> last_chunk len \<le> len"
  by (induction len rule: last_chunk.induct) (subst (1 2) last_chunk.simps, auto)

lemma last_chunk_eq: "SIZEOF_HASH_INFO \<le> len \<Longrightarrow> last_chunk len = 72 + (len - 72) mod 256"
proof (induction len rule: last_chunk.induct)
  case (1 len)
  have s: "last_chunk len = last_chunk (len - 256)" using 1(2) by (subst last_chunk.simps) simp
  show ?case
  proof (cases "len - 256 < 328")
    case True
    then have "last_chunk (len - 256) = len - 256" by (subst last_chunk.simps) simp
    moreover have "(len - 72) mod 256 = len - 328"
      using 1(2) True mod_add_self2[of "len - 328" 256] by simp
    ultimately show ?thesis using s 1(2) by simp
  next
    case False
    have "(len - 72) mod 256 = (len - 256 - 72) mod 256"
      using False mod_add_self2[of "len - 256 - 72" 256] by simp
    then show ?thesis using s 1 False by simp
  qed
qed

lemma copy_to_in: "off + length src \<le> length dst \<Longrightarrow> copy_to off src dst = Some (take off dst @ src @ drop (off + length src) dst)"
  by (simp add: copy_to_def)

lemma copy_from_in: "off + n \<le> length src \<Longrightarrow> copy_from src off n = Some (take n (drop off src))"
  by (simp add: copy_from_def)

text \<open>
  The struct after the loop: the last chunk lies at its start, and what is behind both the
  block buffer and the last chunk is unchanged.
\<close>

lemma hash_loop_result:
  assumes "SIZEOF_HASH_INFO \<le> length info" "buf + left + SIZEOF_HASH_INFO \<le> length mem"
  shows "\<exists>info' d. hash_loop mem buf left info hashed = Some (info', hashed @ d) \<and> length info' = length info \<and>
    take (last_chunk left) info' = take (last_chunk left) (drop (buf + left - last_chunk left) mem) \<and>
    drop (max BLOCK_SIZE (last_chunk left)) info' = drop (max BLOCK_SIZE (last_chunk left)) info \<and>
    d = take (left - last_chunk left) (drop (buf + BLOCK_SIZE) mem) @ take (last_chunk left) (drop (buf + left) mem)"
  using assms
proof (induction mem buf left info hashed rule: hash_loop.induct)
  case (1 mem buf left info hashed)
  show ?case
  proof (cases "left < 328")
    case True
    then have c: "last_chunk left = left" by (subst last_chunk.simps) simp
    have b: "buf + left + left \<le> length mem" using 1(3) True by simp
    let ?src = "take left (drop buf mem)"
    let ?z = "replicate 256 0 @ drop 256 info"
    let ?i = "?src @ drop left ?z"
    have l: "length ?src = left" using b by simp
    have h: "hash_loop mem buf left info hashed = Some (?i, hashed @ take left (drop (buf + left) mem))"
      using True b 1(2) l by (subst hash_loop.simps) (simp add: copy_to_in copy_from_in Let_def)
    have "drop (max 256 left) ?i = drop (max 256 left) info"
      using l by (auto simp: max_def)
    moreover have "length ?i = length info" using l 1(2) True by simp
    ultimately show ?thesis using h l b unfolding c by auto
  next
    case False
    have s: "last_chunk left = last_chunk (left - 256)" using False by (subst last_chunk.simps) simp
    have b: "buf + 256 + (left - 256) + 328 \<le> length mem" "buf + 256 + 256 \<le> length mem"
      using 1(3) False by auto
    let ?i = "take 256 (drop buf mem) @ drop 256 info"
    have i: "length ?i = length info" "drop n ?i = drop n info" if "256 \<le> n" for n
      using b 1(2) that by auto
    have r: "hash_loop mem buf left info hashed =
        hash_loop mem (buf + 256) (left - 256) ?i (hashed @ take 256 (drop (buf + 256) mem))"
      using False b 1(2) by (subst hash_loop.simps) (simp add: copy_to_in copy_from_in Let_def)
    have len: "328 \<le> length ?i" using i(1)[of 256] 1(2) by simp
    have z: "copy_to 0 (replicate 256 0) info = Some (replicate 256 0 @ drop 256 info)"
      "copy_from mem buf 256 = Some (take 256 (drop buf mem))"
      "copy_to 0 (take 256 (drop buf mem)) (replicate 256 0 @ drop 256 info) = Some ?i"
      "copy_from mem (buf + 256) 256 = Some (take 256 (drop (buf + 256) mem))"
      using b 1(2) by (simp_all add: copy_to_in copy_from_in)
    have x: "256 = (if left < 328 then left else 256)" "left - 256 \<noteq> 0" using False by simp_all
    have L: "last_chunk (left - 256) \<le> left - 256" using last_chunk_bound by blast
    have d: "take (left - last_chunk (left - 256)) (drop (buf + 256) mem) =
        take 256 (drop (buf + 256) mem) @ take (left - 256 - last_chunk (left - 256)) (drop (buf + 256 + 256) mem)"
      using take_add[of 256 "left - 256 - last_chunk (left - 256)" "drop (buf + 256) mem"] L False
      by (simp add: add.commute add.left_commute)
    obtain info' where "hash_loop mem (buf + 256) (left - 256) ?i (hashed @ take 256 (drop (buf + 256) mem)) =
        Some (info', (hashed @ take 256 (drop (buf + 256) mem)) @
          take (left - 256 - last_chunk (left - 256)) (drop (buf + 256 + 256) mem) @ take (last_chunk (left - 256)) (drop (buf + 256 + (left - 256)) mem))"
      "length info' = length ?i" "take (last_chunk (left - 256)) info' = take (last_chunk (left - 256)) (drop (buf + 256 + (left - 256) - last_chunk (left - 256)) mem)"
      "drop (max 256 (last_chunk (left - 256))) info' = drop (max 256 (last_chunk (left - 256))) ?i"
      using "1.IH"[OF x(1) refl z(1-3) refl z(4) x(2) len] b(1) by auto
    moreover have "buf + 256 + (left - 256) = buf + left" using False by simp
    ultimately show ?thesis
      using i(1)[of 256] i(2)[of "max 256 (last_chunk (left - 256))"]
      unfolding r s d by simp
  qed
qed

text \<open>Memory that ends with the data is too short: the digest reads behind each chunk.\<close>

lemma hash_loop_overread: "0 < left \<Longrightarrow> length mem = buf + left \<Longrightarrow> hash_loop mem buf left info hashed = None"
proof (induction mem buf left info hashed rule: hash_loop.induct)
  case (1 mem buf left info hashed)
  show ?case
  proof (cases "left < 328")
    case True
    then show ?thesis using 1(2,3) by (subst hash_loop.simps) (auto simp: Let_def copy_from_def split: bind_splits)
  next
    case False
    have x: "256 = (if left < 328 then left else 256)" "left - 256 \<noteq> 0" using False by simp_all
    show ?thesis
      using "1.IH"[OF x(1) refl _ _ _ refl _ x(2)] False 1(3)
      by (subst hash_loop.simps) (auto simp: Let_def split: bind_splits)
  qed
qed

lemma hash_data_result:
  assumes "length info0 = 2 * SIZEOF_HASH_INFO" "len + SIZEOF_HASH_INFO \<le> length mem" "\<And>d. length (H d) = 32"
  shows "\<exists>info. hash_data H info0 mem len cb = Some (info,
      of_le (map (\<lambda>k. if CB + k < last_chunk len then mem ! (len - last_chunk len + CB + k) else le_bytes 8 cb ! k) [0..<8])) \<and>
    take 32 (drop HASHBUF info) = H (take (len - last_chunk len) (drop BLOCK_SIZE mem) @ take (last_chunk len) (drop len mem))"
proof -
  let ?c = "last_chunk len"
  let ?init = "take 288 info0 @ le_bytes 8 cb @ drop 296 info0"
  have c0: "copy_to 288 (le_bytes 8 cb) info0 = Some ?init" using assms(1) by (simp add: copy_to_in)
  have l0: "328 \<le> length ?init" "length ?init = 656" using assms(1) by simp_all
  obtain info d where h: "hash_loop mem 0 len ?init [] = Some (info, d)" "length info = length ?init"
      "take ?c info = take ?c (drop (len - ?c) mem)" "drop (max 256 ?c) info = drop (max 256 ?c) ?init"
      "d = take (len - ?c) (drop 256 mem) @ take ?c (drop len mem)"
    using hash_loop_result[of ?init 0 len mem "[]"] l0 assms(2) by auto
  let ?i = "take 256 info @ H d @ drop 288 info"
  have c1: "copy_to 256 (H d) info = Some ?i" using h(2) l0 assms(3) by (simp add: copy_to_in)
  have cb: "take 8 (drop 288 ?i) = map (\<lambda>k. if 288 + k < ?c then mem ! (len - ?c + 288 + k) else le_bytes 8 cb ! k) [0..<8]"
  proof (rule nth_equalityI)
    show "length (take 8 (drop 288 ?i)) = length (map (\<lambda>k. if 288 + k < ?c then mem ! (len - ?c + 288 + k) else le_bytes 8 cb ! k) [0..<8])"
      using h(2) l0 assms(3) by simp
  next
    fix k assume "k < length (take 8 (drop 288 ?i))"
    moreover have "length (take 8 (drop 288 ?i)) = 8" using h(2) l0 assms(3) by simp
    ultimately have k: "k < 8" by (simp only:)
    have e: "take 8 (drop 288 ?i) ! k = info ! (288 + k)"
      using k h(2) l0 assms(3) by (simp add: nth_append)
    show "take 8 (drop 288 ?i) ! k =
        map (\<lambda>k. if 288 + k < ?c then mem ! (len - ?c + 288 + k) else le_bytes 8 cb ! k) [0..<8] ! k"
    proof (cases "288 + k < ?c")
      case True
      have "info ! (288 + k) = take ?c info ! (288 + k)" using True by simp
      also have "\<dots> = mem ! (len - ?c + 288 + k)"
        unfolding h(3) using True assms(2) last_chunk_bound[of len] by (simp add: add.assoc)
      finally show ?thesis using e True k by simp
    next
      case False
      then have m: "max 256 ?c \<le> 288 + k" by simp
      have "info ! (288 + k) = drop (max 256 ?c) info ! (288 + k - max 256 ?c)" using m h(2) l0 k by simp
      also have "\<dots> = ?init ! (288 + k)"
      proof -
        have "max 256 ?c \<le> length ?init" using m l0(2) k by linarith
        then show ?thesis unfolding h(4) using m by (subst nth_drop) (simp_all only: le_add_diff_inverse)
      qed
      also have "\<dots> = le_bytes 8 cb ! k" using k assms(1) by (simp add: nth_append)
      finally show ?thesis using e False k by simp
    qed
  qed
  have hb: "take 32 (drop 256 ?i) = H d" using h(2) l0 assms(3) by simp
  show ?thesis
  proof (intro exI conjI impI)
    show "hash_data H info0 mem len cb = Some (?i,
        of_le (map (\<lambda>k. if 288 + k < ?c then mem ! (len - ?c + 288 + k) else le_bytes 8 cb ! k) [0..<8]))"
      unfolding cb[symmetric] by (simp add: hash_data_def c0 h(1) c1 callback_def)
    show "take 32 (drop 256 ?i) = H (take (len - ?c) (drop 256 mem) @ take ?c (drop len mem))"
      using hb unfolding h(5) .
  qed
qed

section \<open>Reading: lemmas\<close>

lemma readall_loop_end: "(\<And>n. alloc n) \<Longrightarrow> readall_loop alloc got bs [] = Some got"
  by (subst readall_loop.simps) (simp add: Let_def)

lemma readall_loop_all:
  assumes "\<And>n. alloc n" "length got = 256 * m" "m \<le> 1347" "bs = 256 * max 1 m"
  shows "readall_loop alloc got bs inp = Some (got @ take (345088 - 256 * m) inp)"
  using assms(2-4)
proof (induction "length inp" arbitrary: got m bs inp rule: less_induct)
  case less
  let ?bs = "if length got = bs then bs + 256 else bs"
  let ?r = "min 256 (length inp)"
  have b: "?bs = 256 * (m + 1)" using less.prems by (auto simp: max_def)
  then have d: "?bs - length got = 256" using less.prems(1) by simp
  have step: "readall_loop alloc got bs inp =
      (if READ_LIMIT < length (got @ take ?r inp) then Some (got @ take ?r inp)
       else if 0 < ?r then readall_loop alloc (got @ take ?r inp) ?bs (drop ?r inp)
       else Some (got @ take ?r inp))"
  proof -
    have "?r \<noteq> 1337" using min.cobounded1[of 256 "length inp"] by linarith
    then show ?thesis by (subst readall_loop.simps, simp only: Let_def d) (simp only: assms(1) simp_thms if_False)
  qed
  show ?case
  proof (cases "256 \<le> length inp")
    case True
    then have r: "?r = 256" "length (got @ take ?r inp) = 256 * (m + 1)" using less.prems(1) by simp_all
    have t: "take 256 inp @ take n (drop 256 inp) = take (256 + n) inp" for n by (simp add: take_add)
    show ?thesis
    proof (cases "m = 1347")
      case True
      then show ?thesis unfolding step r(2) using r by simp
    next
      case False
      then have m: "m + 1 \<le> 1347" using less.prems(2) by simp
      have "readall_loop alloc (got @ take 256 inp) (256 * (m + 1)) (drop 256 inp) =
          Some ((got @ take 256 inp) @ take (345088 - 256 * (m + 1)) (drop 256 inp))"
        using True less.prems m by (intro less.hyps) auto
      moreover have "256 + (345088 - 256 * (m + 1)) = 345088 - 256 * m" using m by simp
      ultimately show ?thesis
        unfolding step r(2) b using r m t[of "345088 - 256 * (m + 1)"] by simp
    qed
  next
    case False
    then have "length inp \<le> 345088 - 256 * m" using less.prems(2) by simp
    moreover have "length got + length inp \<le> READ_LIMIT" if "m < 1347" using False that less.prems(1) by simp
    ultimately show ?thesis unfolding step using False by (auto simp: readall_loop_end[OF assms(1)])
  qed
qed

section \<open>Properties\<close>

text \<open>
  C23: run lengths can be undone. Into a block of twice the input \<open>rle_encode\<close> never writes
  out of bounds, whatever the block holds before; the output is at most as long as the
  block, and reading each pair as a run, with 0 for 256, gives the input back.
\<close>

theorem rle_encode_roundtrip:
  assumes "length block = 2 * length buf"
  shows "\<exists>e. rle_encode block buf = Some e \<and> rle_decode e = buf \<and> length e \<le> length block"
  using rle_encode_ok[OF assms] assms by auto

theorem rle_encode_roundtrip_witness:
  "\<exists>e. rle_encode (replicate 6 0) [7, 7, 9] = Some e \<and> rle_decode e = [7, 7, 9]"
  using rle_encode_roundtrip[of "replicate 6 0" "[7, 7, 9]"] by auto

text \<open>
  C12: what \<open>hash_data\<close> calls and hashes. Chunks are cut by the size of the struct (328) and
  not of its buffer (256), so a last chunk of more than 288 bytes runs over \<open>cb\<close>: the byte
  \<open>k\<close> of the address called is a byte of the data when the chunk reaches it, and the byte of
  the callback otherwise. The digest is given, for each chunk, the bytes behind it: all from 256 on for the
  whole chunks, and for the last chunk the bytes behind the data, so that it reads outside
  the memory when the data end with it.
\<close>

theorem hash_data_calls:
  assumes "length info0 = 2 * SIZEOF_HASH_INFO" "len + SIZEOF_HASH_INFO \<le> length mem" "\<And>d. length (H d) = 32"
  shows "\<exists>info. hash_data H info0 mem len cb = Some (info,
      of_le (map (\<lambda>k. if CB + k < last_chunk len then mem ! (len - last_chunk len + CB + k) else le_bytes 8 cb ! k) [0..<8])) \<and>
    take 32 (drop HASHBUF info) = H (take (len - last_chunk len) (drop BLOCK_SIZE mem) @ take (last_chunk len) (drop len mem)) \<and>
    (0 < len \<longrightarrow> hash_data H info0 (take len mem) len cb = None)"
proof -
  have "hash_data H info0 (take len mem) len cb = None" if "0 < len"
  proof -
    have "length (take len mem) = 0 + len" using assms(2) by simp
    then show ?thesis using hash_loop_overread[OF that] by (simp add: hash_data_def)
  qed
  then show ?thesis using hash_data_result[OF assms(1,2), of H cb] assms(3) by auto
qed

theorem hash_data_calls_witness:
  "\<exists>info. hash_data (\<lambda>_. replicate 32 0) (replicate 656 0) (replicate 400 0x41 @ replicate 328 0) 300 7 =
    Some (info, of_le [0x41, 0x41, 0x41, 0x41, 0x41, 0x41, 0x41, 0x41])"
proof -
  have "last_chunk 300 = 300" by (subst last_chunk.simps) simp
  moreover have "[0..<8] = [0, 1, 2, 3, 4, 5, 6, 7 :: nat]" by code_simp
  ultimately show ?thesis
    using hash_data_calls[of "replicate 656 0" 300 "replicate 400 0x41 @ replicate 328 0" "\<lambda>_. replicate 32 0" 7]
    by (auto simp: nth_append)
qed

text \<open>
  How much is read. With enough memory \<open>readall\<close> returns the input up to 345088 bytes,
  the first multiple of the block size above the limit.
\<close>

lemma readall_limit:
  assumes "\<And>n. alloc n"
  shows "readall alloc inp = Some (take 345088 inp)"
  using readall_loop_all[of alloc "[]" 0 256 inp] assms by (simp add: readall_def)

lemma readall_limit_example: "readall (\<lambda>_. True) [1, 2, 3] = Some [1, 2, 3]"
  using readall_limit[of "\<lambda>_. True" "[1, 2, 3]"] by simp

end
