(* ===== verification/Kvaas.thy ===== *)
theory Kvaas
  imports Prelude
begin

text \<open>
  \<open>kvaas/challenge/src/nodes.c\<close>, \<open>prompt.c\<close> and \<open>main.c\<close>: an interactive key/value store.
  Nodes, strings and secrets live in a heap of three maps from addresses; an address that is
  not in its map is not allocated (any more), and an access to it or a second \<open>free\<close> of it
  is a fault. Addresses are never reused, so every use after free is seen. The clock, the
  content of fresh memory, the format of a time stamp and the byte in front of the input buffers are parameters.
\<close>

section \<open>Data\<close>

datatype node_type = NODE_UINT | NODE_INT | NODE_STR | NODE_TIME | NODE_SECRET

text \<open>
  The part of a node that depends on its type. A number never written is whatever \<open>malloc\<close> left there, and is printed
  as such; \<open>None\<close> stands for a pointer or a time never written, which would be followed.
\<close>

datatype payload =
    VUint u64
  | VInt u64
  | VStr "nat option"      \<comment> \<open>the address of the string\<close>
  | VTime "int option"
  | VSecret nat            \<comment> \<open>the address of the secret\<close>

record node =
  name :: bytes
  payload :: payload
  nxt :: "nat option"

record secret =
  key :: bytes
  pt_len :: nat
  data :: "nat option"     \<comment> \<open>the address of the encrypted string\<close>

record heap =
  nodes :: "nat \<Rightarrow> node option"
  strs :: "nat \<Rightarrow> bytes option"
  secs :: "nat \<Rightarrow> secret option"
  brk :: nat
  head :: "nat option"

datatype fault = UseAfterFree | DoubleFree | NullDeref | DivByZero | OutOfBounds | Uninitialised

abbreviation (input) NODE_NAME_SZ :: nat where "NODE_NAME_SZ \<equiv> 31"
abbreviation (input) INP_BUF_SIZE :: nat where "INP_BUF_SIZE \<equiv> 4096"

fun type_of :: "payload \<Rightarrow> node_type" where
  "type_of (VUint _) = NODE_UINT"
| "type_of (VInt _) = NODE_INT"
| "type_of (VStr _) = NODE_STR"
| "type_of (VTime _) = NODE_TIME"
| "type_of (VSecret _) = NODE_SECRET"

definition node_type_names :: "(node_type \<times> bytes) list" where
  "node_type_names = [(NODE_UINT, str ''uint''), (NODE_INT, str ''int''), (NODE_STR, str ''str''),
     (NODE_TIME, str ''time''), (NODE_SECRET, str ''sec'')]"

definition node_type_descs :: "node_type \<Rightarrow> bytes" where
  "node_type_descs t = (case t of NODE_UINT \<Rightarrow> str ''Unsigned integer'' | NODE_INT \<Rightarrow> str ''Signed integer''
     | NODE_STR \<Rightarrow> str ''String'' | NODE_TIME \<Rightarrow> str ''Timestamp'' | NODE_SECRET \<Rightarrow> str ''Secret Value'')"

section \<open>The list of nodes (nodes.c)\<close>

text \<open>\<open>alloc_node\<close>: a fresh node, not yet named, not yet linked; a secret gets its record.\<close>

definition alloc_node :: "(nat \<Rightarrow> u64) \<Rightarrow> node_type \<Rightarrow> heap \<Rightarrow> nat \<times> heap" where
  "alloc_node junk t h =
     (let a = brk h in
      case t of
        NODE_UINT \<Rightarrow> (a, h\<lparr>nodes := (nodes h)(a \<mapsto> \<lparr>name = [], payload = VUint (junk a), nxt = None\<rparr>), brk := a + 1\<rparr>)
      | NODE_INT \<Rightarrow> (a, h\<lparr>nodes := (nodes h)(a \<mapsto> \<lparr>name = [], payload = VInt (junk a), nxt = None\<rparr>), brk := a + 1\<rparr>)
      | NODE_STR \<Rightarrow> (a, h\<lparr>nodes := (nodes h)(a \<mapsto> \<lparr>name = [], payload = VStr None, nxt = None\<rparr>), brk := a + 1\<rparr>)
      | NODE_TIME \<Rightarrow> (a, h\<lparr>nodes := (nodes h)(a \<mapsto> \<lparr>name = [], payload = VTime None, nxt = None\<rparr>), brk := a + 1\<rparr>)
      | NODE_SECRET \<Rightarrow> (a, h\<lparr>nodes := (nodes h)(a \<mapsto> \<lparr>name = [], payload = VSecret (a + 1), nxt = None\<rparr>),
                           secs := (secs h)(a + 1 \<mapsto> \<lparr>key = [], pt_len = 0, data = None\<rparr>), brk := a + 2\<rparr>))"

definition get_node :: "heap \<Rightarrow> nat \<Rightarrow> fault + node" where
  "get_node h a = (case nodes h a of None \<Rightarrow> Inl UseAfterFree | Some n \<Rightarrow> Inr n)"

definition set_node :: "nat \<Rightarrow> node \<Rightarrow> heap \<Rightarrow> heap" where
  "set_node a n h = h\<lparr>nodes := (nodes h)(a \<mapsto> n)\<rparr>"

definition bind_sum :: "fault + 'a \<Rightarrow> ('a \<Rightarrow> fault + 'b) \<Rightarrow> fault + 'b" where
  "bind_sum m f = (case m of Inl e \<Rightarrow> Inl e | Inr x \<Rightarrow> f x)"

definition insert_node :: "nat \<Rightarrow> heap \<Rightarrow> fault + heap" where
  "insert_node a h = bind_sum (get_node h a) (\<lambda>n. Inr ((set_node a (n\<lparr>nxt := head h\<rparr>) h)\<lparr>head := Some a\<rparr>))"

definition add_node :: "(nat \<Rightarrow> u64) \<Rightarrow> node_type \<Rightarrow> heap \<Rightarrow> fault + (nat \<times> heap)" where
  "add_node junk t h = (let (a, h) = alloc_node junk t h in bind_sum (insert_node a h) (\<lambda>h. Inr (a, h)))"

text \<open>\<open>free\<close> of a string; \<open>free_node\<close> frees what the node owns, then the node.\<close>

definition free_str :: "nat option \<Rightarrow> heap \<Rightarrow> fault + heap" where
  "free_str p h =
     (case p of
        None \<Rightarrow> Inl Uninitialised
      | Some a \<Rightarrow> if strs h a = None then Inl DoubleFree else Inr (h\<lparr>strs := (strs h)(a := None)\<rparr>))"

definition free_node :: "nat \<Rightarrow> heap \<Rightarrow> fault + heap" where
  "free_node a h =
     bind_sum (get_node h a) (\<lambda>n.
     bind_sum
       (case payload n of
          VStr p \<Rightarrow> free_str p h
        | VSecret s \<Rightarrow>
            (case secs h s of
               None \<Rightarrow> Inl UseAfterFree
             | Some sec \<Rightarrow> bind_sum (free_str (data sec) h) (\<lambda>h. Inr (h\<lparr>secs := (secs h)(s := None)\<rparr>)))
        | _ \<Rightarrow> Inr h)
       (\<lambda>h. Inr (h\<lparr>nodes := (nodes h)(a := None)\<rparr>)))"

text \<open>
  The loop of \<open>delete_node\<close>; the fuel is the number of nodes that can be visited, \<open>brk\<close>
  bounds it on a list without cycles.
\<close>

fun unlink :: "nat \<Rightarrow> nat option \<Rightarrow> nat \<Rightarrow> heap \<Rightarrow> fault + heap" where
  "unlink fuel None a h = Inr h"
| "unlink 0 (Some p) a h = Inr h"
| "unlink (Suc fuel) (Some p) a h =
     bind_sum (get_node h p) (\<lambda>n.
       if nxt n = Some a then
         bind_sum (get_node h a) (\<lambda>m.
           free_node a (set_node a (m\<lparr>nxt := None\<rparr>) (set_node p (n\<lparr>nxt := nxt m\<rparr>) h)))
       else unlink fuel (nxt n) a h)"

definition delete_node :: "nat \<Rightarrow> heap \<Rightarrow> fault + heap" where
  "delete_node a h =
     (if head h = Some a then
        bind_sum (get_node h a) (\<lambda>n. free_node a (set_node a (n\<lparr>nxt := None\<rparr>) (h\<lparr>head := nxt n\<rparr>)))
      else unlink (brk h) (head h) a h)"

text \<open>\<open>strncmp(name, p->name, 31) = 0\<close>.\<close>

definition same_name :: "bytes \<Rightarrow> bytes \<Rightarrow> bool" where
  "same_name a b \<longleftrightarrow> take NODE_NAME_SZ a = take NODE_NAME_SZ b"

fun find_node :: "nat \<Rightarrow> nat option \<Rightarrow> bytes \<Rightarrow> heap \<Rightarrow> fault + nat option" where
  "find_node fuel None nm h = Inr None"
| "find_node 0 (Some p) nm h = Inr None"
| "find_node (Suc fuel) (Some p) nm h =
     bind_sum (get_node h p) (\<lambda>n. if same_name nm (name n) then Inr (Some p) else find_node fuel (nxt n) nm h)"

definition get_node_by_name :: "bytes \<Rightarrow> heap \<Rightarrow> fault + nat option" where
  "get_node_by_name nm h = find_node (brk h) (head h) nm h"

definition set_node_name :: "nat \<Rightarrow> bytes \<Rightarrow> heap \<Rightarrow> fault + heap" where
  "set_node_name a nm h = bind_sum (get_node h a) (\<lambda>n. Inr (set_node a (n\<lparr>name := take NODE_NAME_SZ nm\<rparr>) h))"

section \<open>Secrets\<close>

text \<open>\<open>None\<close>: \<open>i % key_len\<close> with an empty key.\<close>

definition xor_key :: "bytes \<Rightarrow> nat \<Rightarrow> u8" where
  "xor_key k i = k ! (i mod length k)"

definition encrypt_secret_data :: "bytes \<Rightarrow> bytes \<Rightarrow> (bytes \<times> nat) option" where
  "encrypt_secret_data k value =
     (let len = length value in
      if k = [] \<and> 0 < len then None else Some (xor_with (xor_key k) value, len))"

definition decrypt_secret_data :: "bytes \<Rightarrow> bytes \<Rightarrow> nat \<Rightarrow> bytes option" where
  "decrypt_secret_data k value n =
     (if n > length value \<or> k = [] \<and> 0 < n then None
      else Some (xor_with (xor_key k) (take n value) @ drop n value))"

section \<open>Prompts (prompt.c)\<close>

text \<open>
  \<open>trim_inplace\<close> on the string of the buffer: the first loop walks back from the last
  character, in front of the buffer when all are white space. \<open>pre\<close> is the byte there;
  \<open>None\<close> if it is white space too, since the loop then runs on.
\<close>

fun walk_back :: "u8 \<Rightarrow> bytes \<Rightarrow> nat \<Rightarrow> nat option" where
  "walk_back pre s 0 = (if isspace pre then None else Some 0)"
| "walk_back pre s (Suc i) = (if isspace (s ! i) then walk_back pre s i else Some (Suc i))"

definition trim_inplace :: "u8 \<Rightarrow> bytes \<Rightarrow> bytes option" where
  "trim_inplace pre s =
     (case walk_back pre s (length s) of
        None \<Rightarrow> None
      | Some end' \<Rightarrow>
          let begin' = length (takeWhile isspace s) in
          Some (if end' \<le> begin' then [] else take (end' - begin') (drop begin' s)))"

record state =
  hp :: heap
  inp :: bytes
  out :: bytes
  erange :: bool          \<comment> \<open>\<open>errno == ERANGE\<close>; never reset\<close>

definition put :: "bytes \<Rightarrow> state \<Rightarrow> state" where
  "put b s = s\<lparr>out := out s @ b\<rparr>"

text \<open>A prompt with a buffer of \<open>n\<close> bytes: the trimmed line, or \<open>None\<close> at the end of the input.\<close>

definition prompt_with :: "nat \<Rightarrow> u8 \<Rightarrow> bytes \<Rightarrow> state \<Rightarrow> fault + (bytes option \<times> state)" where
  "prompt_with n pre p s =
     (let s = put (p @ str ''> '') s in
      case fgets n (inp s) of
        None \<Rightarrow> Inr (None, s)
      | Some (line, rest) \<Rightarrow>
          (case trim_inplace pre (cstr line) of
             None \<Rightarrow> Inl OutOfBounds
           | Some t \<Rightarrow> Inr (Some t, s\<lparr>inp := rest\<rparr>)))"

definition prompt_user :: "u8 \<Rightarrow> bytes \<Rightarrow> state \<Rightarrow> fault + (bytes option \<times> state)" where
  "prompt_user = prompt_with INP_BUF_SIZE"

definition prompt_user_key :: "u8 \<Rightarrow> bytes option \<Rightarrow> state \<Rightarrow> fault + (bytes option \<times> state)" where
  "prompt_user_key pre p = prompt_with (NODE_NAME_SZ + 1) pre (case p of None \<Rightarrow> str ''key name'' | Some p \<Rightarrow> p)"

section \<open>Numbers\<close>

definition digit_of :: "u8 \<Rightarrow> nat option" where
  "digit_of c =
     (if 0x30 \<le> c \<and> c \<le> 0x39 then Some (unat c - 0x30)
      else if 0x61 \<le> c \<and> c \<le> 0x7A then Some (unat c - 0x57)
      else if 0x41 \<le> c \<and> c \<le> 0x5A then Some (unat c - 0x37)
      else None)"

definition is_digit :: "nat \<Rightarrow> u8 \<Rightarrow> bool" where
  "is_digit base c \<longleftrightarrow> (case digit_of c of None \<Rightarrow> False | Some d \<Rightarrow> d < base)"

definition digits_value :: "nat \<Rightarrow> bytes \<Rightarrow> nat" where
  "digits_value base ds = fold (\<lambda>c v. v * base + (case digit_of c of None \<Rightarrow> 0 | Some d \<Rightarrow> d)) ds 0"

text \<open>What \<open>strtol\<close> and \<open>strtoul\<close> with base 0 scan: a minus sign, the magnitude, and where they stop.\<close>

definition scan_number :: "bytes \<Rightarrow> bool \<times> nat \<times> bytes" where
  "scan_number s =
     (let t = dropWhile isspace s;
          neg = (t \<noteq> [] \<and> hd t = 0x2D);
          t = (if t \<noteq> [] \<and> (hd t = 0x2D \<or> hd t = 0x2B) then tl t else t);
          hex = (3 \<le> length t \<and> t ! 0 = 0x30 \<and> (t ! 1 = 0x78 \<or> t ! 1 = 0x58) \<and> is_digit 16 (t ! 2));
          base = (if hex then 16 else if t \<noteq> [] \<and> hd t = 0x30 then 8 else 10);
          t = (if hex then drop 2 t else t);
          ds = takeWhile (is_digit base) t
      in if ds = [] then (False, 0, s) else (neg, digits_value base ds, dropWhile (is_digit base) t))"

text \<open>The value, where the scan stopped, and whether \<open>errno\<close> is set.\<close>

definition strtoul :: "bytes \<Rightarrow> u64 \<times> bytes \<times> bool" where
  "strtoul s =
     (let (neg, v, rest) = scan_number s in
      if v \<ge> 2 ^ 64 then (- 1, rest, True)
      else (if neg then - of_nat v else of_nat v, rest, False))"

definition strtol :: "bytes \<Rightarrow> u64 \<times> bytes \<times> bool" where
  "strtol s =
     (let (neg, v, rest) = scan_number s in
      if neg \<and> v > 2 ^ 63 then (2 ^ 63, rest, True)
      else if \<not> neg \<and> v \<ge> 2 ^ 63 then (2 ^ 63 - 1, rest, True)
      else (if neg then - of_nat v else of_nat v, rest, False))"

definition decimal_int :: "int \<Rightarrow> bytes" where
  "decimal_int i = (if i < 0 then 0x2D # decimal (nat (- i)) else decimal (nat i))"

section \<open>Setting and printing a node\<close>

definition set_payload :: "nat \<Rightarrow> payload \<Rightarrow> state \<Rightarrow> fault + state" where
  "set_payload a v s = bind_sum (get_node (hp s) a) (\<lambda>n. Inr (s\<lparr>hp := set_node a (n\<lparr>payload := v\<rparr>) (hp s)\<rparr>))"

definition set_node_uint :: "u8 \<Rightarrow> nat \<Rightarrow> state \<Rightarrow> fault + state" where
  "set_node_uint pre a s =
     bind_sum (prompt_user pre (str ''Num?'') s) (\<lambda>(buf, s).
       case buf of
         None \<Rightarrow> Inl NullDeref
       | Some buf \<Rightarrow>
           let (val, end', e) = strtoul buf; s = s\<lparr>erange := erange s \<or> e\<rparr> in
           if (buf \<noteq> [] \<and> hd buf = 0x2D) \<or> (val = - 1 \<and> erange s) \<or> end' \<noteq> []
           then Inr (put (str ''Error: out of range!'' @ [0x0A]) s)
           else set_payload a (VUint val) (put (buf @ [0x20] @ end' @ [0x20] @ decimal (unat val) @ [0x0A]) s))"

definition set_node_int :: "u8 \<Rightarrow> nat \<Rightarrow> state \<Rightarrow> fault + state" where
  "set_node_int pre a s =
     bind_sum (prompt_user pre (str ''Num?'') s) (\<lambda>(buf, s).
       case buf of
         None \<Rightarrow> Inl NullDeref
       | Some buf \<Rightarrow>
           let (val, end', e) = strtol buf; s = s\<lparr>erange := erange s \<or> e\<rparr> in
           if (val = 2 ^ 63 - 1 \<and> erange s) \<or> end' \<noteq> []
           then Inr (put (str ''Error: out of range!'') s)
           else set_payload a (VInt val) s)"

definition strdup :: "bytes \<Rightarrow> state \<Rightarrow> nat \<times> state" where
  "strdup b s = (let a = brk (hp s) in (a, s\<lparr>hp := (hp s)\<lparr>strs := (strs (hp s))(a \<mapsto> b), brk := a + 1\<rparr>\<rparr>))"

definition set_node_str :: "u8 \<Rightarrow> nat \<Rightarrow> state \<Rightarrow> fault + state" where
  "set_node_str pre a s =
     bind_sum (prompt_user pre (str ''value'') s) (\<lambda>(buf, s).
       case buf of
         None \<Rightarrow> Inr s
       | Some buf \<Rightarrow> let (p, s) = strdup buf s in set_payload a (VStr (Some p)) s)"

definition set_node_time :: "int \<Rightarrow> nat \<Rightarrow> state \<Rightarrow> fault + state" where
  "set_node_time now a s = set_payload a (VTime (Some now)) s"

definition set_secret :: "nat \<Rightarrow> secret \<Rightarrow> state \<Rightarrow> state" where
  "set_secret q sec s = s\<lparr>hp := (hp s)\<lparr>secs := (secs (hp s))(q \<mapsto> sec)\<rparr>\<rparr>"

text \<open>The terminator of the key goes to \<open>key[32]\<close>, the first byte of the padding behind it.\<close>

definition set_node_secret :: "u8 \<Rightarrow> nat \<Rightarrow> nat \<Rightarrow> state \<Rightarrow> fault + state" where
  "set_node_secret pre a q s =
     bind_sum (prompt_user pre (str ''key'') s) (\<lambda>(buf, s).
       case buf of
         None \<Rightarrow> Inr s
       | Some buf \<Rightarrow>
           (case secs (hp s) q of
              None \<Rightarrow> Inl UseAfterFree
            | Some sec \<Rightarrow>
                let sec = sec\<lparr>key := take 32 buf\<rparr>; s = set_secret q sec s in
                bind_sum (prompt_user pre (str ''value'') s) (\<lambda>(buf, s).
                  case buf of
                    None \<Rightarrow> Inr s
                  | Some buf \<Rightarrow>
                      (case encrypt_secret_data (key sec) buf of
                         None \<Rightarrow> Inl DivByZero
                       | Some (c, n) \<Rightarrow>
                           let (p, s) = strdup c s in
                           Inr (set_secret q (sec\<lparr>data := Some p, pt_len := n\<rparr>) s)))))"

definition set_func :: "u8 \<Rightarrow> int \<Rightarrow> nat \<Rightarrow> state \<Rightarrow> fault + state" where
  "set_func pre now a s =
     bind_sum (get_node (hp s) a) (\<lambda>n.
       case payload n of
         VUint _ \<Rightarrow> set_node_uint pre a s
       | VInt _ \<Rightarrow> set_node_int pre a s
       | VStr _ \<Rightarrow> set_node_str pre a s
       | VTime _ \<Rightarrow> set_node_time now a s
       | VSecret q \<Rightarrow> set_node_secret pre a q s)"

definition print_func :: "(int \<Rightarrow> bytes) \<Rightarrow> heap \<Rightarrow> node \<Rightarrow> fault + bytes" where
  "print_func fmt h n =
     (case payload n of
        VUint v \<Rightarrow> Inr (decimal (unat v))
      | VInt v \<Rightarrow> Inr (decimal_int (sint v))
      | VStr None \<Rightarrow> Inl Uninitialised
      | VStr (Some p) \<Rightarrow> (case strs h p of None \<Rightarrow> Inl UseAfterFree | Some b \<Rightarrow> Inr b)
      | VTime None \<Rightarrow> Inl Uninitialised
      | VTime (Some t) \<Rightarrow> Inr (fmt t)
      | VSecret _ \<Rightarrow> Inr (str ''[REDACTED]''))"

section \<open>Commands (main.c)\<close>

text \<open>The loop of \<open>cmd_add\<close> that asks for a type until it gets one.\<close>

lemma prompt_with_shorter: "prompt_with n pre p s = Inr (Some b, s') \<Longrightarrow> 1 < n \<Longrightarrow> length (inp s') < length (inp s)"
  by (auto simp: prompt_with_def put_def Let_def dest: fgets_decreases split: option.splits prod.splits)

function ask_type :: "u8 \<Rightarrow> state \<Rightarrow> fault + (node_type \<times> state)" where
  "ask_type pre s =
     (case prompt_user pre (str ''type'') s of
        Inl e \<Rightarrow> Inl e
      | Inr (None, s) \<Rightarrow> Inl NullDeref
      | Inr (Some buf, s) \<Rightarrow>
          (case find (\<lambda>(t, nm). nm = buf) node_type_names of
             Some (t, _) \<Rightarrow> Inr (t, s)
           | None \<Rightarrow> ask_type pre s))"
  by pat_completeness auto
termination
  by (relation "measure (\<lambda>(_, s). length (inp s))")
    (auto simp: prompt_user_def dest: prompt_with_shorter)

declare ask_type.simps [simp del]

definition pad_left :: "nat \<Rightarrow> bytes \<Rightarrow> bytes" where
  "pad_left n b = replicate (n - length b) 0x20 @ b"

definition pad_right :: "nat \<Rightarrow> bytes \<Rightarrow> bytes" where
  "pad_right n b = b @ replicate (n - length b) 0x20"

definition cmd_add :: "(nat \<Rightarrow> u64) \<Rightarrow> u8 \<Rightarrow> int \<Rightarrow> state \<Rightarrow> fault + state" where
  "cmd_add junk pre now s =
     bind_sum (prompt_user_key pre None s) (\<lambda>(nm, s).
     let s = put (str ''Node type?'' @ [0x0A] @
       concat (map (\<lambda>(t, n). [0x28] @ pad_left 4 n @ str '') '' @ node_type_descs t @ [0x0A]) node_type_names)) s in
     bind_sum (ask_type pre s) (\<lambda>(t, s).
     bind_sum (add_node junk t (hp s)) (\<lambda>(a, h).
     case nm of
       None \<Rightarrow> Inl NullDeref
     | Some nm \<Rightarrow>
         bind_sum (set_node_name a nm h) (\<lambda>h. set_func pre now a (s\<lparr>hp := h\<rparr>)))))"

text \<open>\<open>get_node_by_name\<close> on what a prompt returned; a NULL name is only followed if a node exists.\<close>

definition look_up :: "bytes option \<Rightarrow> heap \<Rightarrow> fault + nat option" where
  "look_up nm h =
     (case nm of
        None \<Rightarrow> if head h = None then Inr None else Inl NullDeref
      | Some nm \<Rightarrow> get_node_by_name nm h)"

definition cmd_edit :: "u8 \<Rightarrow> int \<Rightarrow> state \<Rightarrow> fault + state" where
  "cmd_edit pre now s =
     bind_sum (prompt_user_key pre None s) (\<lambda>(nm, s).
     bind_sum (look_up nm (hp s)) (\<lambda>n.
       case n of
         None \<Rightarrow> Inr (put (str ''node not found!'' @ [0x0A]) s)
       | Some a \<Rightarrow> set_func pre now a s))"

definition cmd_copy :: "u8 \<Rightarrow> state \<Rightarrow> fault + state" where
  "cmd_copy pre s =
     bind_sum (prompt_user_key pre (Some (str ''source key'')) s) (\<lambda>(nm, s).
     bind_sum (look_up nm (hp s)) (\<lambda>n.
       case n of
         None \<Rightarrow> Inr (put (str ''node not found!'' @ [0x0A]) s)
       | Some a \<Rightarrow>
           bind_sum (prompt_user_key pre (Some (str ''new key'')) s) (\<lambda>(nm, s).
           bind_sum (get_node (hp s) a) (\<lambda>n.
             let b = brk (hp s);
                 h = (set_node b n (hp s))\<lparr>brk := b + 1\<rparr>
             in case nm of
                  None \<Rightarrow> Inl NullDeref
                | Some nm \<Rightarrow>
                    bind_sum (set_node_name b nm h) (\<lambda>h.
                    bind_sum (insert_node b h) (\<lambda>h. Inr (s\<lparr>hp := h\<rparr>)))))))"

fun list_nodes :: "nat \<Rightarrow> (int \<Rightarrow> bytes) \<Rightarrow> nat option \<Rightarrow> heap \<Rightarrow> fault + bytes" where
  "list_nodes fuel fmt None h = Inr []"
| "list_nodes 0 fmt (Some p) h = Inr []"
| "list_nodes (Suc fuel) fmt (Some p) h =
     bind_sum (get_node h p) (\<lambda>n.
     bind_sum (print_func fmt h n) (\<lambda>b.
     bind_sum (list_nodes fuel fmt (nxt n) h) (\<lambda>r.
       Inr (pad_left 32 (name n) @ str '': '' @ b @ [0x0A] @ r))))"

definition cmd_list :: "(int \<Rightarrow> bytes) \<Rightarrow> state \<Rightarrow> fault + state" where
  "cmd_list fmt s = bind_sum (list_nodes (brk (hp s)) fmt (head (hp s)) (hp s)) (\<lambda>b. Inr (put b s))"

definition cmd_delete :: "u8 \<Rightarrow> state \<Rightarrow> fault + state" where
  "cmd_delete pre s =
     bind_sum (prompt_user_key pre None s) (\<lambda>(nm, s).
     bind_sum (look_up nm (hp s)) (\<lambda>n.
       case n of
         None \<Rightarrow> Inr (put (str ''Node not found!'' @ [0x0A]) s)
       | Some a \<Rightarrow> bind_sum (delete_node a (hp s)) (\<lambda>h. Inr (s\<lparr>hp := h\<rparr>))))"

definition commands :: "(bytes \<times> bytes) list" where
  "commands = [(str ''add'', str ''Add a key/value pair''), (str ''list'', str ''List the key/values''),
     (str ''edit'', str ''Edit value''), (str ''delete'', str ''Delete a key/value''),
     (str ''copy'', str ''Copy a key/value''), (str ''help'', str ''Help on Commands''), (str ''exit'', str ''Exit'')]"

definition cmd_help :: "state \<Rightarrow> state" where
  "cmd_help s = put (concat (map (\<lambda>(c, h). pad_right 12 c @ [0x20] @ h @ [0x0A]) commands) @ [0x0A]) s"

datatype step = Next state | Exit state | Fault fault

definition goes :: "fault + state \<Rightarrow> step" where
  "goes r = (case r of Inl e \<Rightarrow> Fault e | Inr s \<Rightarrow> Next s)"

definition command :: "(nat \<Rightarrow> u64) \<Rightarrow> u8 \<Rightarrow> int \<Rightarrow> (int \<Rightarrow> bytes) \<Rightarrow> bytes \<Rightarrow> state \<Rightarrow> step" where
  "command junk pre now fmt cmd s =
     (if cmd = [] then Next s
      else if cmd = str ''add'' then goes (cmd_add junk pre now s)
      else if cmd = str ''list'' then goes (cmd_list fmt s)
      else if cmd = str ''edit'' then goes (cmd_edit pre now s)
      else if cmd = str ''delete'' then goes (cmd_delete pre s)
      else if cmd = str ''copy'' then goes (cmd_copy pre s)
      else if cmd = str ''help'' then Next (cmd_help s)
      else if cmd = str ''exit'' then Exit s
      else Next (put (str ''Command '' @ cmd @ str '' not found!'' @ [0x0A]) s))"

text \<open>One pass of the loop of \<open>main\<close>; \<open>strcmp\<close> reads the line before the test for NULL.\<close>

definition step :: "(nat \<Rightarrow> u64) \<Rightarrow> u8 \<Rightarrow> int \<Rightarrow> (int \<Rightarrow> bytes) \<Rightarrow> state \<Rightarrow> step" where
  "step junk pre now fmt s =
     (case prompt_user pre (str ''command'') s of
        Inl e \<Rightarrow> Fault e
      | Inr (None, s) \<Rightarrow> Fault NullDeref
      | Inr (Some cmd, s) \<Rightarrow> command junk pre now fmt cmd s)"

section \<open>Well-formed heaps\<close>

text \<open>The addresses of the list that starts at a pointer.\<close>

fun path :: "(nat \<Rightarrow> node option) \<Rightarrow> nat option \<Rightarrow> nat list \<Rightarrow> bool" where
  "path ns p [] = (p = None)"
| "path ns p (a # as) = (p = Some a \<and> (\<exists>n. ns a = Some n \<and> path ns (nxt n) as))"

text \<open>The strings and the secrets a payload owns.\<close>

definition str_ptrs :: "(nat \<Rightarrow> secret option) \<Rightarrow> payload \<Rightarrow> nat list" where
  "str_ptrs ss v = (case v of
     VStr (Some p) \<Rightarrow> [p]
   | VSecret q \<Rightarrow> (case ss q of Some sec \<Rightarrow> (case data sec of Some d \<Rightarrow> [d] | None \<Rightarrow> []) | None \<Rightarrow> [])
   | _ \<Rightarrow> [])"

definition sec_ptrs :: "payload \<Rightarrow> nat list" where
  "sec_ptrs v = (case v of VSecret q \<Rightarrow> [q] | _ \<Rightarrow> [])"

definition payload_ok :: "heap \<Rightarrow> payload \<Rightarrow> bool" where
  "payload_ok h v \<longleftrightarrow> set (str_ptrs (secs h) v) \<subseteq> dom (strs h) \<and> set (sec_ptrs v) \<subseteq> dom (secs h)"

definition entries :: "(nat \<Rightarrow> node option) \<Rightarrow> nat list \<Rightarrow> payload list" where
  "entries ns as = map (\<lambda>a. payload (the (ns a))) as"

definition below_brk :: "heap \<Rightarrow> bool" where
  "below_brk h \<longleftrightarrow> dom (nodes h) \<subseteq> {..<brk h} \<and> dom (strs h) \<subseteq> {..<brk h} \<and> dom (secs h) \<subseteq> {..<brk h}"

text \<open>Nobody shares: every string and every secret has one owner.\<close>

definition unshared :: "(nat \<Rightarrow> secret option) \<Rightarrow> payload list \<Rightarrow> bool" where
  "unshared ss vs \<longleftrightarrow> distinct (concat (map (str_ptrs ss) vs)) \<and> distinct (concat (map sec_ptrs vs))"

definition heap_ok :: "heap \<Rightarrow> nat list \<Rightarrow> bool" where
  "heap_ok h as \<longleftrightarrow> path (nodes h) (head h) as \<and> distinct as \<and> below_brk h \<and>
     (\<forall>v \<in> set (entries (nodes h) as). payload_ok h v) \<and> unshared (secs h) (entries (nodes h) as)"

lemma entries_simps [simp]: "entries ns [] = []" "entries ns (a # as) = payload (the (ns a)) # entries ns as"
  "entries ns (as @ bs) = entries ns as @ entries ns bs"
  by (simp_all add: entries_def)

lemma path_dom: "path ns p as \<Longrightarrow> a \<in> set as \<Longrightarrow> \<exists>n. ns a = Some n"
  by (induction as arbitrary: p) auto

lemma path_frame: "a \<notin> set as \<Longrightarrow> path (ns(a := x)) p as = path ns p as"
  by (induction as arbitrary: p) auto

lemma entries_frame: "a \<notin> set as \<Longrightarrow> entries (ns(a := x)) as = entries ns as"
  by (auto simp: entries_def)

lemma length_below: "distinct as \<Longrightarrow> set as \<subseteq> {..<n} \<Longrightarrow> length as \<le> (n :: nat)"
proof -
  assume "distinct as" "set as \<subseteq> {..<n}"
  then have "card (set as) \<le> card {..<n}" by (intro card_mono) auto
  then show ?thesis using \<open>distinct as\<close> by (simp add: distinct_card)
qed

lemma heap_ok_length: "heap_ok h as \<Longrightarrow> length as \<le> brk h"
  using length_below[of as "brk h"] path_dom[of "nodes h" "head h" as]
  by (fastforce simp: heap_ok_def below_brk_def)

section \<open>Deleting\<close>

text \<open>The map of nodes after \<open>a\<close> is unlinked behind \<open>xs\<close>.\<close>

fun bypass :: "nat list \<Rightarrow> nat option \<Rightarrow> (nat \<Rightarrow> node option) \<Rightarrow> nat \<Rightarrow> node option" where
  "bypass [] q ns = ns"
| "bypass [x] q ns = ns(x := map_option (\<lambda>n. n\<lparr>nxt := q\<rparr>) (ns x))"
| "bypass (x # y # xs) q ns = bypass (y # xs) q ns"

lemma bypass_other: "b \<notin> set xs \<Longrightarrow> bypass xs q ns b = ns b"
  by (induction xs q ns rule: bypass.induct) auto

lemma bypass_payload: "map_option payload (bypass xs q ns b) = map_option payload (ns b)"
  by (induction xs q ns rule: bypass.induct) (auto simp: option.map_comp comp_def)

lemma bypass_None: "bypass xs q ns b = None \<longleftrightarrow> ns b = None"
  using bypass_payload[of xs q ns b] by (cases "bypass xs q ns b"; cases "ns b") auto

lemma dom_bypass: "dom (bypass xs q ns) = dom ns"
  by (simp add: dom_def bypass_None)

lemma path_bypass:
  assumes "path ns p (xs @ a # ys)" "distinct (xs @ a # ys)" "ns a = Some m"
  shows "path ((bypass xs (nxt m) ns)(a := None)) (if xs = [] then nxt m else p) (xs @ ys)"
  using assms
proof (induction xs arbitrary: p rule: induct_list012)
  case 1
  then have "path (ns(a := None)) (nxt m) ys" using path_frame[of a ys ns None] by auto
  then show ?case by (simp only: bypass.simps append_Nil simp_thms if_True)
next
  case (2 x)
  then have d: "x \<notin> set ys" "a \<notin> set ys" "x \<noteq> a" by auto
  from 2 obtain n where n: "p = Some x" "ns x = Some n" "path ns (nxt m) ys" by auto
  have b: "bypass [x] (nxt m) ns = ns(x \<mapsto> n\<lparr>nxt := nxt m\<rparr>)" using n(2) by simp
  let ?ns = "(ns(x \<mapsto> n\<lparr>nxt := nxt m\<rparr>))(a := None)"
  have "path ?ns (nxt m) ys" unfolding path_frame[OF d(2)] path_frame[OF d(1)] by (rule n(3))
  moreover have "?ns x = Some (n\<lparr>nxt := nxt m\<rparr>)" using d(3) by simp
  ultimately have "path ?ns (Some x) (x # ys)" unfolding path.simps by auto
  then show ?case unfolding b using n(1) by (simp only: list.distinct append.simps if_False)
next
  case (3 x y zs)
  have x: "bypass (y # zs) (nxt m) ns x = ns x" using 3(4) by (intro bypass_other) auto
  show ?case using 3 x by auto
qed

lemma entries_bypass: "a \<notin> set as \<Longrightarrow> \<forall>b \<in> set as. ns b \<noteq> None \<Longrightarrow>
    entries ((bypass xs q ns)(a := None)) as = entries ns as"
proof -
  assume a: "a \<notin> set as" "\<forall>b \<in> set as. ns b \<noteq> None"
  have "payload (the (bypass xs q ns b)) = payload (the (ns b))" if "b \<in> set as" for b
    using a(2) that bypass_payload[of xs q ns b] bypass_None[of xs q ns b]
    by (cases "bypass xs q ns b"; cases "ns b") auto
  then show ?thesis using a(1) by (auto simp: entries_def)
qed

text \<open>\<open>unlink\<close> finds the predecessor.\<close>

lemma unlink_found:
  assumes "path (nodes h) p (xs @ a # ys)" "distinct (xs @ a # ys)" "xs \<noteq> []" "length xs \<le> fuel" "nodes h a = Some m"
  shows "unlink fuel p a h =
    free_node a (set_node a (m\<lparr>nxt := None\<rparr>) (h\<lparr>nodes := bypass xs (nxt m) (nodes h)\<rparr>))"
  using assms
proof (induction xs arbitrary: p fuel rule: induct_list012)
  case (2 x)
  then obtain f where f: "fuel = Suc f" by (cases fuel) auto
  from 2 obtain n where n: "p = Some x" "nodes h x = Some n" "nxt n = Some a" by auto
  have x: "x \<noteq> a" using 2 by auto
  have b: "bypass [x] (nxt m) (nodes h) = (nodes h)(x \<mapsto> n\<lparr>nxt := nxt m\<rparr>)" using n by simp
  show ?case
    unfolding b using 2(5) n x by (simp only: f unlink.simps bind_sum_def get_node_def set_node_def) simp
next
  case (3 x y zs)
  then obtain f where f: "fuel = Suc f" by (cases fuel) auto
  from 3 obtain n where n: "p = Some x" "nodes h x = Some n" "nxt n = Some y" "path (nodes h) (Some y) ((y # zs) @ a # ys)"
    by auto
  have "y \<noteq> a" using 3 by auto
  then show ?case using 3(2)[of "Some y" f] 3 n by (simp add: f bind_sum_def get_node_def)
qed simp

lemma payload_ok_cong: "strs h' = strs h \<Longrightarrow> secs h' = secs h \<Longrightarrow> payload_ok h' v = payload_ok h v"
  by (simp only: payload_ok_def)

lemma free_node_owned:
  assumes "nodes h a = Some n" "payload_ok h (payload n)"
  shows "free_node a h = Inl Uninitialised \<or>
    (\<exists>h'. free_node a h = Inr h' \<and> nodes h' = (nodes h)(a := None) \<and> head h' = head h \<and> brk h' = brk h \<and>
      strs h' = (\<lambda>p. if p \<in> set (str_ptrs (secs h) (payload n)) then None else strs h p) \<and>
      secs h' = (\<lambda>q. if q \<in> set (sec_ptrs (payload n)) then None else secs h q))"
proof (cases "payload n")
  case (VStr p)
  then show ?thesis
    using assms
    by (cases p) (auto simp: free_node_def free_str_def bind_sum_def get_node_def str_ptrs_def sec_ptrs_def payload_ok_def)
next
  case (VSecret q)
  then obtain sec where s: "secs h q = Some sec"
    using assms(2) by (auto simp: payload_ok_def sec_ptrs_def)
  show ?thesis
  proof (cases "data sec")
    case None
    then show ?thesis using assms(1) VSecret s by (simp add: free_node_def free_str_def bind_sum_def get_node_def)
  next
    case (Some d)
    then obtain b where "strs h d = Some b"
      using assms(2) VSecret s by (auto simp: payload_ok_def str_ptrs_def)
    then show ?thesis
      using assms(1) VSecret s Some
      by (auto simp: free_node_def free_str_def bind_sum_def get_node_def str_ptrs_def sec_ptrs_def)
  qed
qed (use assms in \<open>auto simp: free_node_def bind_sum_def get_node_def str_ptrs_def sec_ptrs_def\<close>)

lemma unshared_remove:
  "unshared ss (vs @ v # ws) \<Longrightarrow> unshared ss (vs @ ws) \<and>
    (\<forall>w \<in> set (vs @ ws). set (str_ptrs ss w) \<inter> set (str_ptrs ss v) = {} \<and> set (sec_ptrs w) \<inter> set (sec_ptrs v) = {})"
  by (auto simp: unshared_def)

lemma str_ptrs_secs: "set (sec_ptrs w) \<inter> Q = {} \<Longrightarrow> str_ptrs (\<lambda>q. if q \<in> Q then None else ss q) w = str_ptrs ss w"
  by (auto simp: str_ptrs_def sec_ptrs_def split: payload.splits)

lemma payload_ok_remove:
  assumes "payload_ok h w" "set (str_ptrs (secs h) w) \<inter> P = {}" "set (sec_ptrs w) \<inter> Q = {}"
    "strs h' = (\<lambda>p. if p \<in> P then None else strs h p)" "secs h' = (\<lambda>q. if q \<in> Q then None else secs h q)"
  shows "payload_ok h' w"
proof -
  have e: "str_ptrs (secs h') w = str_ptrs (secs h) w" unfolding assms(5) by (rule str_ptrs_secs[OF assms(3)])
  show ?thesis
    using assms(1-3) unfolding payload_ok_def e unfolding assms(4,5) by auto
qed

lemma unshared_secs:
  "\<forall>w \<in> set vs. set (sec_ptrs w) \<inter> Q = {} \<Longrightarrow> unshared (\<lambda>q. if q \<in> Q then None else ss q) vs = unshared ss vs"
proof -
  assume "\<forall>w \<in> set vs. set (sec_ptrs w) \<inter> Q = {}"
  then have "map (str_ptrs (\<lambda>q. if q \<in> Q then None else ss q)) vs = map (str_ptrs ss) vs"
    using str_ptrs_secs by (intro map_cong refl) blast
  then show ?thesis by (simp only: unshared_def)
qed

text \<open>The node unlinked, before it is freed.\<close>

definition unlinked :: "heap \<Rightarrow> nat list \<Rightarrow> nat \<Rightarrow> node \<Rightarrow> heap" where
  "unlinked h xs a m = h\<lparr>head := if xs = [] then nxt m else head h,
     nodes := (bypass xs (nxt m) (nodes h))(a \<mapsto> m\<lparr>nxt := None\<rparr>)\<rparr>"

lemma delete_path:
  assumes p: "path (nodes h) (head h) (xs @ a # ys)" "distinct (xs @ a # ys)" "length xs \<le> brk h" and m: "nodes h a = Some m"
  shows "delete_node a h = free_node a (unlinked h xs a m)"
proof (cases xs)
  case Nil
  then show ?thesis
    using assms by (simp add: delete_node_def bind_sum_def get_node_def set_node_def unlinked_def)
next
  case (Cons x zs)
  have "head h \<noteq> Some a" using p Cons by auto
  then show ?thesis
    using unlink_found[OF p(1,2) _ p(3) m] Cons by (simp add: delete_node_def set_node_def unlinked_def)
qed

lemma delete_unlinked:
  assumes "heap_ok h (xs @ a # ys)" "nodes h a = Some m"
  shows "delete_node a h = free_node a (unlinked h xs a m)"
  using delete_path[OF _ _ _ assms(2), of xs ys] heap_ok_length[OF assms(1)] assms(1) by (simp add: heap_ok_def)

lemma delete_node_ok:
  assumes ok: "heap_ok h (xs @ a # ys)"
  shows "delete_node a h = Inl Uninitialised \<or>
    (\<exists>h'. delete_node a h = Inr h' \<and> heap_ok h' (xs @ ys) \<and> nodes h' a = None \<and> brk h' = brk h \<and>
      (\<forall>b \<in> set (xs @ ys). map_option name (nodes h' b) = map_option name (nodes h b) \<and>
         map_option payload (nodes h' b) = map_option payload (nodes h b)))"
proof -
  let ?as = "xs @ ys"
  have p: "path (nodes h) (head h) (xs @ a # ys)" "distinct (xs @ a # ys)" "below_brk h"
    "\<forall>v \<in> set (entries (nodes h) (xs @ a # ys)). payload_ok h v" "unshared (secs h) (entries (nodes h) (xs @ a # ys))"
    using ok by (simp_all add: heap_ok_def)
  obtain m where m: "nodes h a = Some m" using path_dom[OF p(1), of a] by auto
  let ?u = "unlinked h xs a m"
  have "payload_ok h (payload m)" using p(4) m by simp
  then have "payload_ok ?u (payload m)" by (subst payload_ok_cong) (simp_all add: unlinked_def)
  moreover have us: "strs ?u = strs h" "secs ?u = secs h" "brk ?u = brk h" "nodes ?u a = Some (m\<lparr>nxt := None\<rparr>)"
    by (simp_all add: unlinked_def)
  ultimately consider "free_node a ?u = Inl Uninitialised" | h' where "free_node a ?u = Inr h'" "nodes h' = (nodes ?u)(a := None)" "head h' = head ?u" "brk h' = brk h"
      "strs h' = (\<lambda>p. if p \<in> set (str_ptrs (secs h) (payload m)) then None else strs h p)"
      "secs h' = (\<lambda>q. if q \<in> set (sec_ptrs (payload m)) then None else secs h q)"
    using free_node_owned[OF us(4), unfolded us(1-3)] by auto
  then show ?thesis
  proof cases
    case 1
    then show ?thesis using delete_unlinked[OF ok m] by simp
  next
    case h': (2 h')
    have n: "nodes h' = (bypass xs (nxt m) (nodes h))(a := None)" unfolding h'(2) by (simp add: unlinked_def)
      have d: "a \<notin> set ?as" using p(2) by auto
      have live: "\<forall>b \<in> set ?as. nodes h b \<noteq> None" using path_dom[OF p(1)] by auto
      have e: "entries (nodes h') ?as = entries (nodes h) ?as" unfolding n by (rule entries_bypass[OF d live])
      have path: "path (nodes h') (head h') ?as"
      proof -
        have "head ?u = (if xs = [] then nxt m else head h)" by (simp add: unlinked_def)
        then show ?thesis unfolding n h'(3) using path_bypass[OF p(1,2) m] by (simp only:)
      qed
      have u: "unshared (secs h) (entries (nodes h) ?as)"
          "\<forall>w \<in> set (entries (nodes h) ?as). set (str_ptrs (secs h) w) \<inter> set (str_ptrs (secs h) (payload m)) = {} \<and>
            set (sec_ptrs w) \<inter> set (sec_ptrs (payload m)) = {}"
        using unshared_remove[of "secs h" "entries (nodes h) xs" "payload m" "entries (nodes h) ys"] p(5) m by simp_all
      have "\<forall>v \<in> set (entries (nodes h) ?as). payload_ok h' v"
        using u(2) p(4) payload_ok_remove[OF _ _ _ h'(5,6)] by auto
      moreover have "unshared (secs h') (entries (nodes h) ?as)"
        unfolding h'(6) using unshared_secs[of "entries (nodes h) ?as" "set (sec_ptrs (payload m))" "secs h"] u by auto
      moreover have "below_brk h'"
      proof -
        have "dom (nodes h') \<subseteq> dom (nodes h)" unfolding n using dom_bypass[of xs "nxt m" "nodes h"] by auto
        moreover have "dom (strs h') \<subseteq> dom (strs h)" "dom (secs h') \<subseteq> dom (secs h)"
          unfolding h'(5,6) by (auto split: if_splits)
        ultimately show ?thesis using p(3) unfolding below_brk_def h'(4) by (meson subset_trans)
      qed
      ultimately have "heap_ok h' ?as" using path p(2) unfolding heap_ok_def e by simp
      moreover have "map_option name (bypass xs q ns b) = map_option name (ns b)" for q ns b
        by (induction xs q ns rule: bypass.induct) (auto simp: option.map_comp comp_def)
      ultimately show ?thesis
        using h'(1,4) n d bypass_payload delete_unlinked[OF ok m] by auto
  qed
qed

section \<open>Adding, setting, copying numbers\<close>

lemma heap_ok_entries: "heap_ok h as \<Longrightarrow> a \<in> set as \<Longrightarrow> nodes h a = Some n \<Longrightarrow> payload_ok h (payload n)"
  by (fastforce simp: heap_ok_def entries_def)

text \<open>A new node, from fresh addresses, in front of the list.\<close>

lemma str_ptrs_fresh:
  "v \<in> set vs \<Longrightarrow> \<forall>v \<in> set vs. payload_ok h v \<Longrightarrow> \<forall>q. q \<in> dom (secs h) \<longrightarrow> ss q = secs h q \<Longrightarrow>
   str_ptrs ss v = str_ptrs (secs h) v"
  by (force simp: payload_ok_def str_ptrs_def sec_ptrs_def split: payload.splits)

lemma payload_ok_mono:
  assumes "payload_ok h v" "\<And>q. q \<in> dom (secs h) \<Longrightarrow> secs h' q = secs h q" "dom (strs h) \<subseteq> dom (strs h')"
  shows "payload_ok h' v \<and> str_ptrs (secs h') v = str_ptrs (secs h) v"
proof -
  have e: "str_ptrs (secs h') v = str_ptrs (secs h) v"
    by (rule str_ptrs_fresh[of v "[v]"]) (use assms in auto)
  moreover have "set (sec_ptrs v) \<subseteq> dom (secs h')" using assms(1,2) by (force simp: payload_ok_def dom_def)
  ultimately show ?thesis using assms(1,3) unfolding payload_ok_def by (metis order_trans)
qed

lemma unshared_cons:
  assumes "unshared ss vs" "\<forall>v \<in> set vs. str_ptrs ss' v = str_ptrs ss v"
    "distinct (str_ptrs ss' v)" "distinct (sec_ptrs v)"
    "\<forall>w \<in> set vs. set (str_ptrs ss' v) \<inter> set (str_ptrs ss w) = {} \<and> set (sec_ptrs v) \<inter> set (sec_ptrs w) = {}"
  shows "unshared ss' (v # vs)"
proof -
  have e: "map (str_ptrs ss') vs = map (str_ptrs ss) vs" using assms(2) by simp
  show ?thesis using assms unfolding unshared_def list.map e by auto
qed

lemma path_set_node:
  "path ns p as \<Longrightarrow> ns a = Some n \<Longrightarrow> nxt n' = nxt n \<Longrightarrow> path (ns(a \<mapsto> n')) p as"
  by (induction as arbitrary: p) auto

lemma push_ok:
  assumes ok: "heap_ok h as" and n: "nodes h' = (nodes h)(a \<mapsto> n)" "nxt n = head h" "head h' = Some a"
    and a: "brk h \<le> a" "a < brk h'" and b: "below_brk h'"
    and old: "\<And>q. q \<in> dom (secs h) \<Longrightarrow> secs h' q = secs h q" "dom (strs h) \<subseteq> dom (strs h')"
    and new: "payload_ok h' (payload n)" "\<forall>p \<in> set (str_ptrs (secs h') (payload n)). brk h \<le> p"
      "\<forall>q \<in> set (sec_ptrs (payload n)). brk h \<le> q"
  shows "heap_ok h' (a # as)"
proof -
  let ?vs = "entries (nodes h) as"
  have p: "path (nodes h) (head h) as" "distinct as" "below_brk h" "\<forall>v \<in> set ?vs. payload_ok h v" "unshared (secs h) ?vs"
    using ok by (simp_all add: heap_ok_def)
  have na: "a \<notin> set as" using path_dom[OF p(1), of a] p(3) a(1) by (auto simp: below_brk_def dom_def)
  have e: "entries (nodes h') (a # as) = payload n # ?vs" using na n(1) by (simp add: entries_frame)
  have path: "path (nodes h') (head h') (a # as)" using p(1) na n by (simp add: path_frame)
  have m: "\<forall>v \<in> set ?vs. payload_ok h' v \<and> str_ptrs (secs h') v = str_ptrs (secs h) v"
    using p(4) payload_ok_mono[OF _ old] by blast
  have lt: "\<forall>w \<in> set ?vs. (\<forall>x \<in> set (str_ptrs (secs h) w). x < brk h) \<and> (\<forall>x \<in> set (sec_ptrs w). x < brk h)"
    using p(3,4) unfolding payload_ok_def below_brk_def by blast
  have "unshared (secs h') (payload n # ?vs)"
  proof (rule unshared_cons[OF p(5)])
    show "\<forall>v \<in> set ?vs. str_ptrs (secs h') v = str_ptrs (secs h) v" using m by blast
    show "distinct (str_ptrs (secs h') (payload n))" "distinct (sec_ptrs (payload n))"
      by (auto simp: str_ptrs_def sec_ptrs_def split: payload.splits option.splits)
    show "\<forall>w \<in> set ?vs. set (str_ptrs (secs h') (payload n)) \<inter> set (str_ptrs (secs h) w) = {} \<and>
        set (sec_ptrs (payload n)) \<inter> set (sec_ptrs w) = {}"
      using lt new(2,3) by fastforce
  qed
  then show ?thesis unfolding heap_ok_def e using path p(2) na b m new(1) by simp
qed

text \<open>A new payload for a node of the list: what it owns is fresh, or was owned by the node.\<close>

lemma unshared_replace:
  assumes "unshared ss (vs @ v # ws)" "\<forall>w \<in> set (vs @ ws). str_ptrs ss' w = str_ptrs ss w"
    "distinct (str_ptrs ss' v')" "sec_ptrs v' = sec_ptrs v"
    "\<forall>w \<in> set (vs @ ws). set (str_ptrs ss' v') \<inter> set (str_ptrs ss w) = {}"
  shows "unshared ss' (vs @ v' # ws)"
proof -
  have e: "map (str_ptrs ss') vs = map (str_ptrs ss) vs" "map (str_ptrs ss') ws = map (str_ptrs ss) ws"
    using assms(2) by simp_all
  show ?thesis
    using assms(1,3,5) unfolding unshared_def list.map map_append e assms(4) by auto
qed

lemma replace_ok:
  assumes ok: "heap_ok h (xs @ a # ys)" and a: "nodes h a = Some n"
    and n: "nodes h' = (nodes h)(a \<mapsto> n')" "nxt n' = nxt n" "head h' = head h"
    and b: "below_brk h'"
    and m: "\<forall>v \<in> set (entries (nodes h) xs @ entries (nodes h) ys).
        payload_ok h' v \<and> str_ptrs (secs h') v = str_ptrs (secs h) v"
    and new: "payload_ok h' (payload n')"
      "\<forall>p \<in> set (str_ptrs (secs h') (payload n')). brk h \<le> p \<or> p \<in> set (str_ptrs (secs h) (payload n))"
      "sec_ptrs (payload n') = sec_ptrs (payload n)"
  shows "heap_ok h' (xs @ a # ys)"
proof -
  let ?vs = "entries (nodes h) xs" and ?ws = "entries (nodes h) ys"
  have p: "path (nodes h) (head h) (xs @ a # ys)" "distinct (xs @ a # ys)" "below_brk h"
      "\<forall>v \<in> set (?vs @ payload n # ?ws). payload_ok h v" "unshared (secs h) (?vs @ payload n # ?ws)"
    using ok a by (simp_all add: heap_ok_def)
  have e: "entries (nodes h') (xs @ a # ys) = ?vs @ payload n' # ?ws"
    using p(2) n(1) by (simp add: entries_frame)
  have path: "path (nodes h') (head h') (xs @ a # ys)" unfolding n(1,3) by (rule path_set_node[OF p(1) a n(2)])
  have "\<forall>w \<in> set (?vs @ ?ws). payload_ok h w" using p(4) by auto
  then have lt: "\<forall>w \<in> set (?vs @ ?ws). \<forall>x \<in> set (str_ptrs (secs h) w). x < brk h"
    using p(3) unfolding payload_ok_def below_brk_def by blast
  have "unshared (secs h') (?vs @ payload n' # ?ws)"
  proof (rule unshared_replace[OF p(5) _ _ new(3)])
    show "\<forall>w \<in> set (?vs @ ?ws). str_ptrs (secs h') w = str_ptrs (secs h) w" using m by blast
    show "distinct (str_ptrs (secs h') (payload n'))"
      by (auto simp: str_ptrs_def split: payload.splits option.splits)
    show "\<forall>w \<in> set (?vs @ ?ws). set (str_ptrs (secs h') (payload n')) \<inter> set (str_ptrs (secs h) w) = {}"
      using lt new(2) unshared_remove[OF p(5)] by fastforce
  qed
  then show ?thesis unfolding heap_ok_def e using path p(2) b m new(1) by auto
qed

section \<open>Every command but copy keeps the heap\<close>

text \<open>What a command may end in without a copy: a well-formed heap, or a fault that is not one of memory reuse.\<close>

definition safe :: "fault + state \<Rightarrow> bool" where
  "safe r \<longleftrightarrow> (case r of Inl f \<Rightarrow> f \<notin> {UseAfterFree, DoubleFree} | Inr s \<Rightarrow> \<exists>as. heap_ok (hp s) as)"

lemma safe_Inr: "heap_ok (hp s) as \<Longrightarrow> safe (Inr s)"
  by (auto simp: safe_def)

lemma safe_Inl [simp]: "safe (Inl NullDeref)" "safe (Inl DivByZero)" "safe (Inl OutOfBounds)" "safe (Inl Uninitialised)"
  by (simp_all add: safe_def)

lemma hp_put [simp]: "hp (put b s) = hp s"
  by (simp add: put_def)

lemma prompt_cases:
  obtains f where "prompt_with n pre p s = Inl f" "f = OutOfBounds"
  | b s' where "prompt_with n pre p s = Inr (b, s')" "hp s' = hp s"
  by (cases "prompt_with n pre p s") (auto simp: prompt_with_def Let_def split: option.splits prod.splits)

lemma safe_prompt:
  assumes "\<And>b s'. hp s' = hp s \<Longrightarrow> safe (f (b, s'))"
  shows "safe (bind_sum (prompt_with n pre p s) f)"
  by (rule prompt_cases[of n pre p s]) (use assms in \<open>auto simp: bind_sum_def\<close>)

lemma strdup_hp: "strdup b s = (p, s') \<Longrightarrow> p = brk (hp s) \<and>
    hp s' = (hp s)\<lparr>strs := (strs (hp s))(brk (hp s) \<mapsto> b), brk := brk (hp s) + 1\<rparr>"
  by (auto simp: strdup_def Let_def)

lemma below_brk_strdup: "below_brk h \<Longrightarrow> below_brk (h\<lparr>strs := (strs h)(brk h \<mapsto> b), brk := brk h + 1\<rparr>)"
  by (auto simp: below_brk_def dom_def intro: less_SucI)

lemma safe_set_payload:
  assumes ok: "heap_ok (hp s) as" and a: "a \<in> set as" "nodes (hp s) a = Some n"
    and v: "sec_ptrs v = []" "str_ptrs (secs (hp s)) v = []" "sec_ptrs (payload n) = []"
  shows "safe (set_payload a v s)"
proof -
  obtain xs ys where as: "as = xs @ a # ys" using split_list[OF a(1)] by blast
  have p: "below_brk (hp s)" using ok by (simp add: heap_ok_def)
  have "heap_ok (set_node a (n\<lparr>payload := v\<rparr>) (hp s)) (xs @ a # ys)"
  proof (rule replace_ok[OF ok[unfolded as] a(2), where n' = "n\<lparr>payload := v\<rparr>"])
    show "below_brk (set_node a (n\<lparr>payload := v\<rparr>) (hp s))"
      using p a(2) by (auto simp: below_brk_def set_node_def)
    show "\<forall>w \<in> set (entries (nodes (hp s)) xs @ entries (nodes (hp s)) ys).
        payload_ok (set_node a (n\<lparr>payload := v\<rparr>) (hp s)) w \<and>
        str_ptrs (secs (set_node a (n\<lparr>payload := v\<rparr>) (hp s))) w = str_ptrs (secs (hp s)) w"
      using ok by (auto simp: heap_ok_def as payload_ok_def set_node_def)
  qed (use v in \<open>auto simp: set_node_def payload_ok_def\<close>)
  then show ?thesis using a(2) by (auto simp: set_payload_def bind_sum_def get_node_def as intro!: safe_Inr)
qed

lemma safe_set_str:
  assumes ok: "heap_ok (hp s) as" and a: "a \<in> set as" "nodes (hp s) a = Some n" "payload n = VStr q"
  shows "safe (set_node_str pre a s)"
  unfolding set_node_str_def prompt_user_def
proof (rule safe_prompt, clarsimp split: option.splits, intro conjI allI impI)
  fix s' :: state
  assume hp: "hp s' = hp s"
  then show "safe (Inr s')" using ok by (auto intro: safe_Inr)
  fix b
  obtain p s2 where d: "strdup b s' = (p, s2)" by (cases "strdup b s'")
  let ?h = "(hp s)\<lparr>strs := (strs (hp s))(brk (hp s) \<mapsto> b), brk := brk (hp s) + 1\<rparr>"
  have s2: "p = brk (hp s)" "hp s2 = ?h" using strdup_hp[OF d] hp by simp_all
  obtain xs ys where as: "as = xs @ a # ys" using split_list[OF a(1)] by blast
  let ?h' = "set_node a (n\<lparr>payload := VStr (Some p)\<rparr>) ?h"
  have "heap_ok ?h' (xs @ a # ys)"
  proof (rule replace_ok[OF ok[unfolded as] a(2), where n' = "n\<lparr>payload := VStr (Some p)\<rparr>"])
    have "below_brk ?h" by (rule below_brk_strdup) (use ok in \<open>simp add: heap_ok_def\<close>)
    moreover have "a < brk ?h" using ok a(2) by (auto simp: heap_ok_def below_brk_def)
    ultimately show "below_brk ?h'" by (auto simp: below_brk_def set_node_def)
    show "\<forall>w \<in> set (entries (nodes (hp s)) xs @ entries (nodes (hp s)) ys).
        payload_ok ?h' w \<and> str_ptrs (secs ?h') w = str_ptrs (secs (hp s)) w"
      using ok by (auto simp: heap_ok_def as payload_ok_def set_node_def)
  qed (use a(3) s2(1) in \<open>auto simp: set_node_def payload_ok_def str_ptrs_def sec_ptrs_def\<close>)
  moreover have "set_payload a (VStr (Some p)) s2 = Inr (s2\<lparr>hp := ?h'\<rparr>)"
    using a(2) s2(2) by (simp add: set_payload_def bind_sum_def get_node_def)
  ultimately show "safe (case strdup b s' of (p, s) \<Rightarrow> set_payload a (VStr (Some p)) s)"
    unfolding d by (auto intro: safe_Inr)
qed

lemma heap_ok_secret:
  assumes ok: "heap_ok h (xs @ a # ys)" and a: "nodes h a = Some n" "payload n = VSecret q" "secs h q = Some sec"
    and h': "nodes h' = nodes h" "head h' = head h" "brk h \<le> brk h'" "dom (strs h) \<subseteq> dom (strs h')"
      "dom (strs h') \<subseteq> {..<brk h'}" "secs h' = (secs h)(q \<mapsto> sec')"
    and new: "\<forall>d. data sec' = Some d \<longrightarrow> d \<in> dom (strs h') \<and> (brk h \<le> d \<or> data sec = Some d)"
  shows "heap_ok h' (xs @ a # ys)"
proof (rule replace_ok[OF ok a(1), where n' = n])
  have b: "below_brk h" "\<forall>v \<in> set (entries (nodes h) xs @ entries (nodes h) ys). payload_ok h v"
    using ok by (auto simp: heap_ok_def)
  have lt: "x < brk h \<Longrightarrow> x < brk h'" for x using h'(3) by simp
  have "q < brk h" using b(1) a(3) by (auto simp: below_brk_def)
  then show "below_brk h'"
    using b(1) h'(5) lt unfolding below_brk_def h'(1,6) by (auto simp: subset_iff)
  have "unshared (secs h) (entries (nodes h) xs @ payload n # entries (nodes h) ys)"
    using ok a(1) by (simp add: heap_ok_def)
  from unshared_remove[OF this]
  have q: "\<forall>w \<in> set (entries (nodes h) xs @ entries (nodes h) ys). q \<notin> set (sec_ptrs w)"
    using a(2) by (auto simp: sec_ptrs_def)
  show "\<forall>w \<in> set (entries (nodes h) xs @ entries (nodes h) ys).
      payload_ok h' w \<and> str_ptrs (secs h') w = str_ptrs (secs h) w"
  proof
    fix w assume w: "w \<in> set (entries (nodes h) xs @ entries (nodes h) ys)"
    have nq: "q \<notin> set (sec_ptrs w)" using q w by blast
    have e: "str_ptrs (secs h') w = str_ptrs (secs h) w"
      unfolding h'(6) using nq by (auto simp: str_ptrs_def sec_ptrs_def split: payload.splits)
    have "payload_ok h w" using b(2) w by blast
    then show "payload_ok h' w \<and> str_ptrs (secs h') w = str_ptrs (secs h) w"
      unfolding payload_ok_def e using h'(4) unfolding h'(6)
      by (simp only: dom_fun_upd option.distinct if_False) blast
  qed
  show "nodes h' = (nodes h)(a \<mapsto> n)" using h'(1) a(1) by auto
  have sp: "str_ptrs (secs h') (payload n) = (case data sec' of None \<Rightarrow> [] | Some d \<Rightarrow> [d])"
    "str_ptrs (secs h) (payload n) = (case data sec of None \<Rightarrow> [] | Some d \<Rightarrow> [d])"
    by (simp_all add: str_ptrs_def a(2,3) h'(6))
  show "payload_ok h' (payload n)"
    unfolding payload_ok_def sp using new by (cases "data sec'") (simp_all add: a(2) sec_ptrs_def h'(6))
  show "\<forall>p \<in> set (str_ptrs (secs h') (payload n)). brk h \<le> p \<or> p \<in> set (str_ptrs (secs h) (payload n))"
    unfolding sp using new by (cases "data sec'") auto
qed (use h' in simp_all)

lemma safe_secret_value:
  assumes ok: "heap_ok (hp s) as" and a: "a \<in> set as" "nodes (hp s) a = Some n" "payload n = VSecret q"
    and sec: "secs (hp s) q = Some sec"
  shows "safe (bind_sum (prompt_with m pre p s) (\<lambda>(buf, s). case buf of None \<Rightarrow> Inr s
    | Some buf \<Rightarrow> (case encrypt_secret_data (key sec) buf of None \<Rightarrow> Inl DivByZero
        | Some (c, n) \<Rightarrow> let (p, s) = strdup c s in Inr (set_secret q (sec\<lparr>data := Some p, pt_len := n\<rparr>) s))))"
proof (rule safe_prompt)
  fix b and s1 :: state
  assume hp: "hp s1 = hp s"
  obtain xs ys where as: "as = xs @ a # ys" using split_list[OF a(1)] by blast
  have none: "safe (Inr s1)" using hp ok by (auto intro: safe_Inr)
  have some: "safe (let (p, s) = strdup c s1 in Inr (set_secret q (sec\<lparr>data := Some p, pt_len := n\<rparr>) s))" for c n
  proof -
    obtain p s2 where d: "strdup c s1 = (p, s2)" by (cases "strdup c s1")
    let ?h = "(hp s)\<lparr>strs := (strs (hp s))(brk (hp s) \<mapsto> c), brk := brk (hp s) + 1\<rparr>"
    have s2: "p = brk (hp s)" "hp s2 = ?h" using strdup_hp[OF d] hp by simp_all
    have b: "dom (strs (hp s)) \<subseteq> {..<brk (hp s)}" using ok by (simp add: heap_ok_def below_brk_def)
    have "heap_ok (hp (set_secret q (sec\<lparr>data := Some p, pt_len := n\<rparr>) s2)) (xs @ a # ys)"
      by (rule heap_ok_secret[OF ok[unfolded as] a(2,3) sec]) (use b s2 in \<open>auto simp: set_secret_def less_SucI\<close>)
    then show ?thesis unfolding d by (auto intro: safe_Inr)
  qed
  show "safe (case (b, s1) of (buf, s) \<Rightarrow> case buf of None \<Rightarrow> Inr s
    | Some buf \<Rightarrow> (case encrypt_secret_data (key sec) buf of None \<Rightarrow> Inl DivByZero
        | Some (c, n) \<Rightarrow> let (p, s) = strdup c s in Inr (set_secret q (sec\<lparr>data := Some p, pt_len := n\<rparr>) s)))"
  proof (cases b)
    case None
    then show ?thesis using none by simp
  next
    case (Some buf)
    then show ?thesis using some by (cases "encrypt_secret_data (key sec) buf") (auto simp del: Let_def)
  qed
qed

lemma safe_set_secret:
  assumes ok: "heap_ok (hp s) as" and a: "a \<in> set as" "nodes (hp s) a = Some n" "payload n = VSecret q"
  shows "safe (set_node_secret pre a q s)"
  unfolding set_node_secret_def prompt_user_def
proof (rule safe_prompt)
  fix b and s1 :: state
  assume hp: "hp s1 = hp s"
  obtain sec where sec: "secs (hp s1) q = Some sec"
    using heap_ok_entries[OF ok a(1,2)] a(3) hp by (auto simp: payload_ok_def sec_ptrs_def)
  obtain xs ys where as: "as = xs @ a # ys" using split_list[OF a(1)] by blast
  have p: "set (str_ptrs (secs (hp s)) (payload n)) \<subseteq> dom (strs (hp s))" "below_brk (hp s)"
    using heap_ok_entries[OF ok a(1,2)] ok by (auto simp: payload_ok_def heap_ok_def)
  then have live: "\<forall>d. data sec = Some d \<longrightarrow> d \<in> dom (strs (hp s))"
    using a(3) sec hp by (auto simp: str_ptrs_def)
  have none: "safe (Inr s1)" using hp ok by (auto intro: safe_Inr)
  have some: "safe (case secs (hp s1) q of None \<Rightarrow> Inl UseAfterFree
      | Some sec \<Rightarrow> let sec = sec\<lparr>key := take 32 k\<rparr>; s = set_secret q sec s1 in
          bind_sum (prompt_with INP_BUF_SIZE pre (str ''value'') s) (\<lambda>(buf, s). case buf of None \<Rightarrow> Inr s
            | Some buf \<Rightarrow> (case encrypt_secret_data (key sec) buf of None \<Rightarrow> Inl DivByZero
               | Some (c, n) \<Rightarrow> let (p, s) = strdup c s in Inr (set_secret q (sec\<lparr>data := Some p, pt_len := n\<rparr>) s))))" for k
  proof -
    let ?sec = "sec\<lparr>key := take 32 k\<rparr>"
    let ?s = "set_secret q ?sec s1"
    have ok1: "heap_ok (hp ?s) as"
      unfolding as
      by (rule heap_ok_secret[OF ok[unfolded as] a(2,3), of sec]) (use sec p live hp in \<open>auto simp: set_secret_def below_brk_def\<close>)
    have "nodes (hp ?s) a = Some n" "secs (hp ?s) q = Some ?sec" using a(2) hp by (simp_all add: set_secret_def)
    then show ?thesis
      using safe_secret_value[OF ok1 a(1) _ a(3)] unfolding sec option.case Let_def[of ?sec] Let_def[of ?s] by blast
  qed
  show "safe (case (b, s1) of (buf, s) \<Rightarrow> case buf of None \<Rightarrow> Inr s
      | Some buf \<Rightarrow> (case secs (hp s) q of None \<Rightarrow> Inl UseAfterFree
      | Some sec \<Rightarrow> let sec = sec\<lparr>key := take 32 buf\<rparr>; s = set_secret q sec s in
          bind_sum (prompt_with INP_BUF_SIZE pre (str ''value'') s) (\<lambda>(buf, s). case buf of None \<Rightarrow> Inr s
            | Some buf \<Rightarrow> (case encrypt_secret_data (key sec) buf of None \<Rightarrow> Inl DivByZero
               | Some (c, n) \<Rightarrow> let (p, s) = strdup c s in Inr (set_secret q (sec\<lparr>data := Some p, pt_len := n\<rparr>) s)))))"
    unfolding prod.case using none some by (cases b) (simp_all only: option.case)
qed

lemma safe_set_func:
  assumes ok: "heap_ok (hp s) as" and a: "a \<in> set as"
  shows "safe (set_func pre now a s)"
proof -
  obtain n where n: "nodes (hp s) a = Some n" using ok a path_dom by (fastforce simp: heap_ok_def)
  have num: "safe (set_payload a v s')" if "hp s' = hp s" "sec_ptrs v = []" "\<And>ss. str_ptrs ss v = []" "sec_ptrs (payload n) = []"
    for v and s' :: state
    by (rule safe_set_payload[where as = as]) (use that ok a n in simp_all)
  show ?thesis
  proof (cases "payload n")
    case (VUint x)
    have "safe (set_node_uint pre a s)"
      unfolding set_node_uint_def prompt_user_def
    proof (rule safe_prompt)
      fix b and s1 :: state
      assume hp: "hp s1 = hp s"
      have i: "safe (Inr (put t (s1\<lparr>erange := e\<rparr>)))" for t e using ok hp by (auto intro: safe_Inr)
      have v: "safe (set_payload a (VUint w) (put t (s1\<lparr>erange := e\<rparr>)))" for t e w
        by (rule num) (use hp VUint in \<open>simp_all add: sec_ptrs_def str_ptrs_def\<close>)
      show "safe (case (b, s1) of (buf, s) \<Rightarrow> case buf of None \<Rightarrow> Inl NullDeref | Some buf \<Rightarrow>
           let (val, end', e) = strtoul buf; s = s\<lparr>erange := erange s \<or> e\<rparr> in
           if (buf \<noteq> [] \<and> hd buf = 0x2D) \<or> (val = - 1 \<and> erange s) \<or> end' \<noteq> []
           then Inr (put (str ''Error: out of range!'' @ [0x0A]) s)
           else set_payload a (VUint val) (put (buf @ [0x20] @ end' @ [0x20] @ decimal (unat val) @ [0x0A]) s))"
        by (cases b) (simp_all add: Let_def i v split: prod.split)
    qed
    then show ?thesis using n VUint by (simp add: set_func_def bind_sum_def get_node_def)
  next
    case (VInt x)
    have "safe (set_node_int pre a s)"
      unfolding set_node_int_def prompt_user_def
    proof (rule safe_prompt)
      fix b and s1 :: state
      assume hp: "hp s1 = hp s"
      have i: "safe (Inr (put t (s1\<lparr>erange := e\<rparr>)))" for t e using ok hp by (auto intro: safe_Inr)
      have v: "safe (set_payload a (VInt w) (s1\<lparr>erange := e\<rparr>))" for e w
        by (rule num) (use hp VInt in \<open>simp_all add: sec_ptrs_def str_ptrs_def\<close>)
      show "safe (case (b, s1) of (buf, s) \<Rightarrow> case buf of None \<Rightarrow> Inl NullDeref | Some buf \<Rightarrow>
           let (val, end', e) = strtol buf; s = s\<lparr>erange := erange s \<or> e\<rparr> in
           if (val = 2 ^ 63 - 1 \<and> erange s) \<or> end' \<noteq> []
           then Inr (put (str ''Error: out of range!'') s)
           else set_payload a (VInt val) s)"
        by (cases b) (simp_all add: Let_def i v split: prod.split)
    qed
    then show ?thesis using n VInt by (simp add: set_func_def bind_sum_def get_node_def)
  next
    case (VStr x)
    then show ?thesis using n safe_set_str[OF ok a n] by (simp add: set_func_def bind_sum_def get_node_def)
  next
    case (VTime x)
    then show ?thesis
      using n num[of s "VTime (Some now)"]
      by (simp add: set_func_def bind_sum_def get_node_def set_node_time_def sec_ptrs_def str_ptrs_def)
  next
    case (VSecret x)
    then show ?thesis using n safe_set_secret[OF ok a n] by (simp add: set_func_def bind_sum_def get_node_def)
  qed
qed

lemma below_brk_more:
  assumes "below_brk h" "dom (nodes h') \<subseteq> insert a (dom (nodes h))" "dom (strs h') \<subseteq> dom (strs h)"
    "dom (secs h') \<subseteq> insert q (dom (secs h))" "a < brk h'" "q < brk h'" "brk h \<le> brk h'"
  shows "below_brk h'"
proof -
  have "{..<brk h} \<subseteq> {..<brk h'}" using assms(7) by auto
  moreover have "a \<in> {..<brk h'}" "q \<in> {..<brk h'}" using assms(5,6) by simp_all
  ultimately have "insert a (dom (nodes h)) \<subseteq> {..<brk h'}" "dom (strs h) \<subseteq> {..<brk h'}" "insert q (dom (secs h)) \<subseteq> {..<brk h'}"
    using assms(1) unfolding below_brk_def insert_subset by (meson subset_trans)+
  then show ?thesis unfolding below_brk_def using assms(2-4) by (meson subset_trans)
qed

lemma alloc_node_cases:
  obtains v q where "type_of v = t"
    "alloc_node junk t h = (brk h, h\<lparr>nodes := (nodes h)(brk h \<mapsto> \<lparr>name = [], payload = v, nxt = None\<rparr>),
      secs := q, brk := brk h + (if t = NODE_SECRET then 2 else 1)\<rparr>)"
    "t \<noteq> NODE_SECRET \<longrightarrow> q = secs h \<and> sec_ptrs v = []" "str_ptrs q v = []"
    "t = NODE_SECRET \<longrightarrow> v = VSecret (brk h + 1) \<and> q = (secs h)(brk h + 1 \<mapsto> \<lparr>key = [], pt_len = 0, data = None\<rparr>)"
proof (cases t)
  case NODE_UINT
  show ?thesis by (rule that[of "VUint (junk (brk h))" "secs h"]) (simp_all add: NODE_UINT alloc_node_def Let_def sec_ptrs_def str_ptrs_def)
next
  case NODE_INT
  show ?thesis by (rule that[of "VInt (junk (brk h))" "secs h"]) (simp_all add: NODE_INT alloc_node_def Let_def sec_ptrs_def str_ptrs_def)
next
  case NODE_STR
  show ?thesis by (rule that[of "VStr None" "secs h"]) (simp_all add: NODE_STR alloc_node_def Let_def sec_ptrs_def str_ptrs_def)
next
  case NODE_TIME
  show ?thesis by (rule that[of "VTime None" "secs h"]) (simp_all add: NODE_TIME alloc_node_def Let_def sec_ptrs_def str_ptrs_def)
next
  case NODE_SECRET
  show ?thesis
    by (rule that[of "VSecret (brk h + 1)" "(secs h)(brk h + 1 \<mapsto> \<lparr>key = [], pt_len = 0, data = None\<rparr>)"])
      (simp_all add: NODE_SECRET alloc_node_def Let_def sec_ptrs_def str_ptrs_def)
qed

lemma add_node_ok:
  assumes ok: "heap_ok h as"
  shows "\<exists>a h'. add_node junk t h = Inr (a, h') \<and> heap_ok h' (a # as)"
proof -
  obtain v q where f: "type_of v = t" "alloc_node junk t h = (brk h, h\<lparr>nodes := (nodes h)(brk h \<mapsto> \<lparr>name = [], payload = v, nxt = None\<rparr>),
      secs := q, brk := brk h + (if t = NODE_SECRET then 2 else 1)\<rparr>)"
      "t \<noteq> NODE_SECRET \<longrightarrow> q = secs h \<and> sec_ptrs v = []" "str_ptrs q v = []"
      "t = NODE_SECRET \<longrightarrow> v = VSecret (brk h + 1) \<and> q = (secs h)(brk h + 1 \<mapsto> \<lparr>key = [], pt_len = 0, data = None\<rparr>)"
    using alloc_node_cases[of t junk h] by blast
  let ?n = "\<lparr>name = [], payload = v, nxt = head h\<rparr>"
  let ?h = "h\<lparr>nodes := (nodes h)(brk h \<mapsto> ?n), secs := q, brk := brk h + (if t = NODE_SECRET then 2 else 1), head := Some (brk h)\<rparr>"
  have p: "below_brk h" using ok by (simp add: heap_ok_def)
  have old: "q x = secs h x" if "x \<in> dom (secs h)" for x
    using that p f(3,5) by (cases "t = NODE_SECRET") (auto simp: below_brk_def)
  have "heap_ok ?h (brk h # as)"
  proof (rule push_ok[OF ok, where n = ?n])
    show "below_brk ?h"
      by (rule below_brk_more[OF p, where a = "brk h" and q = "if t = NODE_SECRET then brk h + 1 else brk h"])
        (use f(3,5) in \<open>auto simp: dom_def\<close>)
    show "payload_ok ?h (payload ?n)"
      using f(3,4,5) by (cases "t = NODE_SECRET") (auto simp: payload_ok_def sec_ptrs_def)
    show "\<forall>q \<in> set (sec_ptrs (payload ?n)). brk h \<le> q"
      using f(3,5) by (cases "t = NODE_SECRET") (auto simp: sec_ptrs_def)
  qed (use f(4) old in auto)
  moreover have "add_node junk t h = Inr (brk h, ?h)"
    unfolding add_node_def f(2) Let_def prod.case by (simp add: insert_node_def bind_sum_def get_node_def set_node_def)
  ultimately show ?thesis by blast
qed

lemma set_node_name_ok:
  assumes ok: "heap_ok h as" and a: "a \<in> set as"
  shows "\<exists>h'. set_node_name a nm h = Inr h' \<and> heap_ok h' as"
proof -
  obtain n where n: "nodes h a = Some n" using ok a path_dom by (fastforce simp: heap_ok_def)
  obtain xs ys where as: "as = xs @ a # ys" using split_list[OF a(1)] by blast
  let ?h = "set_node a (n\<lparr>name := take NODE_NAME_SZ nm\<rparr>) h"
  have "heap_ok ?h (xs @ a # ys)"
  proof (rule replace_ok[OF ok[unfolded as] n, where n' = "n\<lparr>name := take NODE_NAME_SZ nm\<rparr>"])
    show "below_brk ?h" using ok n by (auto simp: heap_ok_def below_brk_def set_node_def)
    show "\<forall>v \<in> set (entries (nodes h) xs @ entries (nodes h) ys). payload_ok ?h v \<and> str_ptrs (secs ?h) v = str_ptrs (secs h) v"
      using ok by (auto simp: heap_ok_def as payload_ok_def set_node_def)
    show "payload_ok ?h (payload (n\<lparr>name := take NODE_NAME_SZ nm\<rparr>))"
      using heap_ok_entries[OF ok a n] by (simp add: payload_ok_def set_node_def)
  qed (simp_all add: set_node_def)
  then show ?thesis using n by (auto simp: set_node_name_def bind_sum_def get_node_def as)
qed

lemma find_node_ok:
  "path (nodes h) p as \<Longrightarrow> \<exists>r. find_node fuel p nm h = Inr r \<and> (\<forall>a. r = Some a \<longrightarrow> a \<in> set as)"
proof (induction as arbitrary: p fuel)
  case (Cons a as)
  then obtain n where n: "p = Some a" "nodes h a = Some n" "path (nodes h) (nxt n) as" by auto
  show ?case
  proof (cases fuel)
    case (Suc f)
    obtain r where "find_node f (nxt n) nm h = Inr r" "\<forall>a. r = Some a \<longrightarrow> a \<in> set as"
      using Cons.IH[OF n(3)] by blast
    then show ?thesis using n Suc by (auto simp: bind_sum_def get_node_def)
  qed (use n in simp)
qed simp

lemma look_up_ok:
  assumes "heap_ok h as"
  shows "look_up nm h = Inl NullDeref \<or> (\<exists>r. look_up nm h = Inr r \<and> (\<forall>a. r = Some a \<longrightarrow> a \<in> set as))"
  using assms find_node_ok[of h "head h" as "brk h"] by (cases nm) (auto simp: look_up_def get_node_by_name_def heap_ok_def)

lemma safe_bind:
  assumes "\<And>e. m = Inl e \<Longrightarrow> e \<notin> {UseAfterFree, DoubleFree}" "\<And>x. m = Inr x \<Longrightarrow> safe (f x)"
  shows "safe (bind_sum m f)"
  using assms by (cases m) (auto simp: bind_sum_def safe_def)

lemma ask_type_ok:
  "case ask_type pre s of Inl e \<Rightarrow> e = OutOfBounds \<or> e = NullDeref | Inr (t, s') \<Rightarrow> hp s' = hp s"
proof (induction pre s rule: ask_type.induct)
  case (1 pre s)
  show ?case
  proof (cases "prompt_user pre (str ''type'') s" rule: sum.exhaust)
    case (Inl e)
    then have "e = OutOfBounds" using prompt_cases[of INP_BUF_SIZE pre "str ''type''" s] by (auto simp: prompt_user_def)
    then show ?thesis using Inl by (subst ask_type.simps) simp
  next
    case (Inr x)
    obtain b s' where x: "x = (b, s')" by (cases x)
    have hp: "hp s' = hp s" using prompt_cases[of INP_BUF_SIZE pre "str ''type''" s] Inr x by (auto simp: prompt_user_def)
    show ?thesis
    proof (cases b)
      case None
      then show ?thesis using Inr x by (subst ask_type.simps) simp
    next
      case (Some buf)
      show ?thesis
        using 1[OF Inr, of b s' buf] Inr x Some hp
        by (subst ask_type.simps) (auto split: option.splits sum.splits)
    qed
  qed
qed

lemma safe_cmd_add:
  assumes ok: "heap_ok (hp s) as"
  shows "safe (cmd_add junk pre now s)"
  unfolding cmd_add_def prompt_user_key_def
proof (rule safe_prompt, unfold prod.case Let_def, rule safe_bind)
  fix nm :: "bytes option" and s1 :: state and e
  assume hp: "hp s1 = hp s"
  let ?s = "put (str ''Node type?'' @ [0x0A] @
       concat (map (\<lambda>(t, n). [0x28] @ pad_left 4 n @ str '') '' @ node_type_descs t @ [0x0A]) node_type_names)) s1"
  show "ask_type pre ?s = Inl e \<Longrightarrow> e \<notin> {UseAfterFree, DoubleFree}"
    using ask_type_ok[of ?s pre] by auto
  fix x
  assume x: "ask_type pre ?s = Inr x"
  obtain t s2 where t: "x = (t, s2)" by (cases x)
  have ok2: "heap_ok (hp s2) as" using ask_type_ok[of ?s pre] x t hp ok by simp
  obtain a h where a: "add_node junk t (hp s2) = Inr (a, h)" "heap_ok h (a # as)" using add_node_ok[OF ok2] by blast
  show "safe (case x of (t, s) \<Rightarrow> bind_sum (add_node junk t (hp s)) (\<lambda>(a, h).
     case nm of
       None \<Rightarrow> Inl NullDeref
     | Some nm \<Rightarrow> bind_sum (set_node_name a nm h) (\<lambda>h. set_func pre now a (s\<lparr>hp := h\<rparr>))))"
  proof (cases nm)
    case None
    then show ?thesis using t a by (simp add: bind_sum_def)
  next
    case (Some b)
    obtain h' where h': "set_node_name a b h = Inr h'" "heap_ok h' (a # as)" using set_node_name_ok[OF a(2)] by fastforce
    have "safe (set_func pre now a (s2\<lparr>hp := h'\<rparr>))" by (rule safe_set_func[where as = "a # as"]) (use h' in simp_all)
    then show ?thesis using t a(1) h'(1) Some by (simp add: bind_sum_def)
  qed
qed

text \<open>The common shape of edit and delete: ask for a name, look it up, do something to the node.\<close>

lemma safe_look_up:
  assumes ok: "heap_ok (hp s) as" and f: "\<And>a s'. hp s' = hp s \<Longrightarrow> a \<in> set as \<Longrightarrow> safe (f s' a)"
  shows "safe (bind_sum (prompt_user_key pre p s) (\<lambda>(nm, s). bind_sum (look_up nm (hp s)) (\<lambda>n.
     case n of None \<Rightarrow> Inr (put m s) | Some a \<Rightarrow> f s a)))"
  unfolding prompt_user_key_def
proof (rule safe_prompt, unfold prod.case)
  fix nm :: "bytes option" and s1 :: state
  assume hp: "hp s1 = hp s"
  consider "look_up nm (hp s1) = Inl NullDeref" | "look_up nm (hp s1) = Inr None"
    | a where "look_up nm (hp s1) = Inr (Some a)" "a \<in> set as"
    using look_up_ok[OF ok, of nm] hp by (metis not_Some_eq)
  then show "safe (bind_sum (look_up nm (hp s1)) (\<lambda>n. case n of None \<Rightarrow> Inr (put m s1) | Some a \<Rightarrow> f s1 a))"
    by cases (use hp ok f in \<open>auto simp: bind_sum_def intro: safe_Inr\<close>)
qed

lemma safe_cmd_edit:
  assumes ok: "heap_ok (hp s) as"
  shows "safe (cmd_edit pre now s)"
  unfolding cmd_edit_def by (rule safe_look_up[OF ok]) (use ok in \<open>auto intro: safe_set_func\<close>)

lemma safe_cmd_delete:
  assumes ok: "heap_ok (hp s) as"
  shows "safe (cmd_delete pre s)"
  unfolding cmd_delete_def
proof (rule safe_look_up[OF ok])
  fix a and s1 :: state
  assume hp: "hp s1 = hp s" and a: "a \<in> set as"
  obtain xs ys where "as = xs @ a # ys" using split_list[OF a] by blast
  then show "safe (bind_sum (delete_node a (hp s1)) (\<lambda>h. Inr (s1\<lparr>hp := h\<rparr>)))"
    using delete_node_ok[of "hp s" xs a ys] ok hp safe_Inr[of "s1\<lparr>hp := h\<rparr>" for h]
    by (auto simp: bind_sum_def)
qed

lemma list_nodes_ok:
  assumes "path (nodes h) p as" "\<forall>v \<in> set (entries (nodes h) as). payload_ok h v"
  shows "\<exists>r. list_nodes fuel fmt p h = r \<and> (\<forall>e. r = Inl e \<longrightarrow> e = Uninitialised)"
  using assms
proof (induction as arbitrary: p fuel)
  case (Cons a as)
  then obtain n where n: "p = Some a" "nodes h a = Some n" "path (nodes h) (nxt n) as" by auto
  have "print_func fmt h n = Inl e \<Longrightarrow> e = Uninitialised" for e
    using Cons.prems(2) n(2) by (auto simp: print_func_def payload_ok_def str_ptrs_def split: payload.splits option.splits)
  moreover have "list_nodes f fmt (nxt n) h = Inl e \<Longrightarrow> e = Uninitialised" for f e
    using Cons.IH[OF n(3)] Cons.prems(2) by auto
  ultimately show ?case using n by (cases fuel) (auto simp: bind_sum_def get_node_def split: sum.splits)
qed simp

lemma safe_cmd_list:
  assumes ok: "heap_ok (hp s) as"
  shows "safe (cmd_list fmt s)"
  unfolding cmd_list_def
proof (rule safe_bind)
  fix e assume "list_nodes (brk (hp s)) fmt (head (hp s)) (hp s) = Inl e"
  then show "e \<notin> {UseAfterFree, DoubleFree}"
    using list_nodes_ok[of "hp s" "head (hp s)" as] ok by (auto simp: heap_ok_def)
qed (use ok in \<open>auto intro: safe_Inr\<close>)

section \<open>Sessions\<close>

definition start :: "bytes \<Rightarrow> state" where
  "start i = \<lparr>hp = \<lparr>nodes = (\<lambda>_. None), strs = (\<lambda>_. None), secs = (\<lambda>_. None), brk = 0, head = None\<rparr>,
     inp = i, out = [], erange = False\<rparr>"

definition next_command :: "u8 \<Rightarrow> state \<Rightarrow> bytes option" where
  "next_command pre s = (case prompt_user pre (str ''command'') s of Inr (c, _) \<Rightarrow> c | Inl _ \<Rightarrow> None)"

text \<open>The states between two commands of a session that never says copy.\<close>

inductive session :: "(nat \<Rightarrow> u64) \<Rightarrow> u8 \<Rightarrow> (int \<Rightarrow> bytes) \<Rightarrow> state \<Rightarrow> bool" for junk pre fmt where
  begins: "session junk pre fmt (start i)"
| goes_on: "session junk pre fmt s \<Longrightarrow> next_command pre s \<noteq> Some (str ''copy'') \<Longrightarrow> step junk pre now fmt s = Next s' \<Longrightarrow>
    session junk pre fmt s'"

lemma step_safe:
  assumes ok: "heap_ok (hp s) as" and c: "next_command pre s \<noteq> Some (str ''copy'')"
  shows "case step junk pre now fmt s of Fault f \<Rightarrow> f \<notin> {UseAfterFree, DoubleFree} | Next s' \<Rightarrow> \<exists>bs. heap_ok (hp s') bs | Exit _ \<Rightarrow> True"
proof (rule prompt_cases[of INP_BUF_SIZE pre "str ''command''" s])
  fix f assume "prompt_with INP_BUF_SIZE pre (str ''command'') s = Inl f" "f = OutOfBounds"
  then show ?thesis by (simp add: step_def prompt_user_def)
next
  fix b s1 assume p: "prompt_with INP_BUF_SIZE pre (str ''command'') s = Inr (b, s1)" "hp s1 = hp s"
  have g: "safe r \<Longrightarrow> case goes r of Fault f \<Rightarrow> f \<notin> {UseAfterFree, DoubleFree} | Next s' \<Rightarrow> \<exists>bs. heap_ok (hp s') bs | Exit _ \<Rightarrow> True" for r
    by (cases r) (auto simp: goes_def safe_def)
  show ?thesis
  proof (cases b)
    case None
    then show ?thesis using p by (simp add: step_def prompt_user_def)
  next
    case (Some cmd)
    have ok1: "heap_ok (hp s1) as" using ok p(2) by simp
    have "cmd \<noteq> str ''copy''" using c p Some by (simp add: next_command_def prompt_user_def)
    moreover have "hp (cmd_help s1) = hp s1" by (simp add: cmd_help_def)
    ultimately have "case command junk pre now fmt cmd s1 of Fault f \<Rightarrow> f \<notin> {UseAfterFree, DoubleFree}
        | Next s' \<Rightarrow> \<exists>bs. heap_ok (hp s') bs | Exit _ \<Rightarrow> True"
      using ok1 g[OF safe_cmd_add[OF ok1]] g[OF safe_cmd_edit[OF ok1]] g[OF safe_cmd_delete[OF ok1]] g[OF safe_cmd_list[OF ok1]]
      unfolding command_def by (auto simp del: goes_def)
    then show ?thesis using p Some by (simp add: step_def prompt_user_def)
  qed
qed

lemma heap_ok_start: "heap_ok (hp (start i)) []"
  by (simp add: heap_ok_def start_def below_brk_def unshared_def)

lemma session_ok: "session junk pre fmt s \<Longrightarrow> \<exists>as. heap_ok (hp s) as"
proof (induction rule: session.induct)
  case (goes_on s now s')
  then show ?case using step_safe[of s _ pre junk now fmt] by fastforce
qed (use heap_ok_start in blast)

definition lines :: "string list \<Rightarrow> bytes" where
  "lines ls = concat (map (\<lambda>l. str l @ [0x0A]) ls)"

text \<open>Running steps, as long as none of them copies.\<close>

fun run_steps :: "nat \<Rightarrow> (nat \<Rightarrow> u64) \<Rightarrow> u8 \<Rightarrow> int \<Rightarrow> (int \<Rightarrow> bytes) \<Rightarrow> state \<Rightarrow> state option" where
  "run_steps 0 junk pre now fmt s = Some s"
| "run_steps (Suc k) junk pre now fmt s =
     (if next_command pre s = Some (str ''copy'') then None
      else case step junk pre now fmt s of Next s \<Rightarrow> run_steps k junk pre now fmt s | _ \<Rightarrow> None)"

lemma run_steps_session: "session junk pre fmt s \<Longrightarrow> run_steps k junk pre now fmt s = Some s' \<Longrightarrow> session junk pre fmt s'"
  by (induction k arbitrary: s) (auto intro: session.goes_on split: if_splits step.splits)

text \<open>An equation for the evaluation of prompts, which does not count to the size of the buffer.\<close>

lemma prompt_user_code [code]:
  "prompt_user pre p s =
     (let l = takeWhile (\<lambda>c. c \<noteq> 0x0A) (inp s) in
      if length l < 50 \<and> length l < length (inp s) then
        (case trim_inplace pre (cstr (l @ [0x0A])) of
           None \<Rightarrow> Inl OutOfBounds
         | Some t \<Rightarrow> Inr (Some t, (put (p @ str ''> '') s)\<lparr>inp := drop (Suc (length l)) (inp s)\<rparr>))
      else prompt_with INP_BUF_SIZE pre p s)"
proof -
  define l where "l = takeWhile (\<lambda>c. c \<noteq> 0x0A) (inp s)"
  show ?thesis
  proof (cases "length l < 50 \<and> length l < length (inp s)")
    case True
    have "inp s ! length l = 0x0A" using True nth_length_takeWhile[of "\<lambda>c. c \<noteq> 0x0A" "inp s"] by (simp add: l_def)
    moreover have "take (length l) (inp s) = l" by (simp add: l_def takeWhile_eq_take[symmetric])
    ultimately have i: "inp s = l @ 0x0A # drop (length l + 1) (inp s)" using True id_take_nth_drop[of "length l" "inp s"] by simp
    have "0x0A \<notin> set l" by (auto simp: l_def dest: set_takeWhileD)
    then have f: "fgets INP_BUF_SIZE (inp s) = Some (l @ [0x0A], drop (length l + 1) (inp s))" by (subst i, subst fgets_line) (use True in simp_all)
    have "inp (put b s) = inp s" for b by (simp add: put_def)
    then show ?thesis using True f unfolding l_def[symmetric] Let_def by (simp add: prompt_user_def prompt_with_def Let_def)
  next
    case False
    show ?thesis unfolding l_def[symmetric] Let_def prompt_user_def if_not_P[OF False] ..
  qed
qed

text \<open>A node is added, and edited, which gives it a second string; it is about to be deleted.\<close>

definition typed :: bytes where
  "typed = lines [''add'', ''b'', ''str'', ''hi'', ''edit'', ''b'', ''bye'', ''delete'', ''b'']"

lemma typed_runs: "case run_steps 2 (\<lambda>_. 77) 0 0 (\<lambda>_. []) (start typed) of None \<Rightarrow> False
  | Some s \<Rightarrow> next_command 0 s = Some (str ''delete'') \<and> strs (hp s) 2 = Some (str ''bye'')"
  by code_simp

lemma typed_session:
  "\<exists>s. session (\<lambda>_. 77) 0 (\<lambda>_. []) s \<and> next_command 0 s = Some (str ''delete'') \<and> strs (hp s) 2 = Some (str ''bye'')"
proof -
  obtain s where s: "run_steps 2 (\<lambda>_. 77) 0 0 (\<lambda>_. []) (start typed) = Some s" "next_command 0 s = Some (str ''delete'')" "strs (hp s) 2 = Some (str ''bye'')"
    using typed_runs by (auto split: option.splits)
  show ?thesis using run_steps_session[OF session.begins s(1)] s(2,3) by blast
qed

text \<open>What a copy does to the heap.\<close>

lemma cmd_copy_heap:
  assumes ok: "heap_ok (hp s) as" and c: "cmd_copy pre s = Inr s'"
  shows "hp s' = hp s \<or> (\<exists>a n nm. a \<in> set as \<and> nodes (hp s) a = Some n \<and>
    hp s' = (hp s)\<lparr>nodes := (nodes (hp s))(brk (hp s) \<mapsto> n\<lparr>name := take NODE_NAME_SZ nm, nxt := head (hp s)\<rparr>),
      brk := brk (hp s) + 1, head := Some (brk (hp s))\<rparr>)"
proof (rule prompt_cases[of "NODE_NAME_SZ + 1" pre "str ''source key''" s])
  fix f assume "prompt_with (NODE_NAME_SZ + 1) pre (str ''source key'') s = Inl f"
  then show ?thesis using c by (simp add: cmd_copy_def prompt_user_key_def bind_sum_def)
next
  fix b s1 assume p: "prompt_with (NODE_NAME_SZ + 1) pre (str ''source key'') s = Inr (b, s1)" "hp s1 = hp s"
  consider "look_up b (hp s1) = Inl NullDeref" | "look_up b (hp s1) = Inr None"
    | a where "look_up b (hp s1) = Inr (Some a)" "a \<in> set as"
    using look_up_ok[OF ok, of b] p(2) by (metis not_Some_eq)
  then show ?thesis
  proof cases
    case 3
    obtain n where n: "nodes (hp s) a = Some n" using 3(2) ok path_dom by (fastforce simp: heap_ok_def)
    show ?thesis
    proof (rule prompt_cases[of "NODE_NAME_SZ + 1" pre "str ''new key''" s1])
      fix f assume "prompt_with (NODE_NAME_SZ + 1) pre (str ''new key'') s1 = Inl f"
      then show ?thesis using c p 3 by (simp add: cmd_copy_def prompt_user_key_def bind_sum_def)
    next
      fix nm s2 assume q: "prompt_with (NODE_NAME_SZ + 1) pre (str ''new key'') s1 = Inr (nm, s2)" "hp s2 = hp s1"
      obtain k where k: "nm = Some k"
        using c p 3 q n by (cases nm) (simp_all add: cmd_copy_def prompt_user_key_def bind_sum_def get_node_def)
      have "hp s' = (hp s)\<lparr>nodes := (nodes (hp s))(brk (hp s) \<mapsto> n\<lparr>name := take NODE_NAME_SZ k, nxt := head (hp s)\<rparr>),
          brk := brk (hp s) + 1, head := Some (brk (hp s))\<rparr>"
        using c p 3 q n k
        by (intro heap.equality)
          (auto simp: cmd_copy_def prompt_user_key_def bind_sum_def get_node_def set_node_name_def insert_node_def set_node_def Let_def)
      then show ?thesis using 3(2) n by blast
    qed
  qed (use c p in \<open>auto simp: cmd_copy_def prompt_user_key_def bind_sum_def\<close>)
qed

text \<open>A state that holds one string, and asks for a copy of it.\<close>

definition one_string :: state where
  "one_string = (start (lines [''a'', ''b'']))\<lparr>hp := \<lparr>nodes = [0 \<mapsto> \<lparr>name = str ''a'', payload = VStr (Some 1), nxt = None\<rparr>],
     strs = [1 \<mapsto> str ''x''], secs = (\<lambda>_. None), brk = 2, head = Some 0\<rparr>\<rparr>"

lemma one_string_ok: "heap_ok (hp one_string) [0]"
  by (auto simp: heap_ok_def one_string_def below_brk_def unshared_def payload_ok_def str_ptrs_def sec_ptrs_def)

lemma one_string_copied: "case cmd_copy 0 one_string of Inl _ \<Rightarrow> False
  | Inr s' \<Rightarrow> head (hp s') = Some 2 \<and> map_option payload (nodes (hp s') 2) = Some (VStr (Some 1))"
  by code_simp

section \<open>The properties\<close>

text \<open>
  C8: a session that never copies never uses freed memory and never frees twice, whatever
  is typed: adding, editing, listing and deleting keep the heap well formed.
\<close>

theorem no_copy_memory_safe:
  assumes "session junk pre fmt s" "next_command pre s \<noteq> Some (str ''copy'')"
  shows "step junk pre now fmt s \<noteq> Fault UseAfterFree \<and> step junk pre now fmt s \<noteq> Fault DoubleFree"
proof -
  obtain as where "heap_ok (hp s) as" using session_ok[OF assms(1)] by blast
  from step_safe[OF this assms(2), of junk now fmt] show ?thesis by (auto split: step.splits)
qed

theorem no_copy_memory_safe_witness:
  "\<exists>s. session (\<lambda>_. 77) 0 (\<lambda>_. []) s \<and> next_command 0 s = Some (str ''delete'') \<and>
     (\<exists>t. strs (hp s) t = Some (str ''bye'')) \<and>
     step (\<lambda>_. 77) 0 0 (\<lambda>_. []) s \<noteq> Fault UseAfterFree \<and> step (\<lambda>_. 77) 0 0 (\<lambda>_. []) s \<noteq> Fault DoubleFree"
proof -
  obtain s where s: "session (\<lambda>_. 77) 0 (\<lambda>_. []) s" "next_command 0 s = Some (str ''delete'')" "strs (hp s) 2 = Some (str ''bye'')"
    using typed_session by blast
  have "next_command 0 s \<noteq> Some (str ''copy'')" using s(2) by (simp add: str_def)
  from no_copy_memory_safe[OF s(1) this] show ?thesis using s by blast
qed

text \<open>
  A copy of a string node shares the string. Deleting the copy frees it: listing the
  original then reads freed memory, and deleting the original frees the string again.
\<close>

lemma copy_shares_string:
  assumes "heap_ok (hp s) as" "cmd_copy pre s = Inr s'" "head (hp s') = Some b" "head (hp s') \<noteq> head (hp s)"
    "map_option payload (nodes (hp s') b) = Some (VStr (Some p))"
  shows "\<exists>h a m. delete_node b (hp s') = Inr h \<and> a \<in> set as \<and> nodes h a = Some m \<and>
    print_func fmt h m = Inl UseAfterFree \<and> delete_node a h = Inl DoubleFree"
proof -
  have ok: "path (nodes (hp s)) (head (hp s)) as" "distinct as" "below_brk (hp s)" using assms(1) by (simp_all add: heap_ok_def)
  obtain a n nm where c: "a \<in> set as" "nodes (hp s) a = Some n" "b = brk (hp s)"
      "hp s' = (hp s)\<lparr>nodes := (nodes (hp s))(b \<mapsto> n\<lparr>name := take NODE_NAME_SZ nm, nxt := head (hp s)\<rparr>),
      brk := brk (hp s) + 1, head := Some b\<rparr>"
    using cmd_copy_heap[OF assms(1,2)] assms(3,4) by auto
  have v: "payload n = VStr (Some p)" using assms(5) c(4) by simp
  obtain t where t: "strs (hp s) p = Some t"
    using heap_ok_entries[OF assms(1) c(1,2)] v by (auto simp: payload_ok_def str_ptrs_def)
  let ?h = "(hp s)\<lparr>nodes := (nodes (hp s))(b := None), strs := (strs (hp s))(p := None), brk := brk (hp s) + 1\<rparr>"
  have b: "b \<notin> set as" "b \<noteq> a" "nodes (hp s) b = None"
    using path_dom[OF ok(1), of b] ok(3) c(1-3) by (auto simp: below_brk_def)
  have d: "delete_node b (hp s') = Inr ?h"
  proof -
    have "delete_node b (hp s') = Inr (hp s'\<lparr>head := head (hp s), strs := (strs (hp s))(p := None), nodes := (nodes (hp s))(b := None)\<rparr>)"
      using v t unfolding c(4) by (simp add: delete_node_def bind_sum_def get_node_def set_node_def free_node_def free_str_def)
    also have "hp s'\<lparr>head := head (hp s), strs := (strs (hp s))(p := None), nodes := (nodes (hp s))(b := None)\<rparr> = ?h"
      unfolding c(4) by (rule heap.equality) simp_all
    finally show ?thesis .
  qed
  obtain xs ys where as: "as = xs @ a # ys" using split_list[OF c(1)] by blast
  have "path ((nodes (hp s))(b := None)) (head (hp s)) as" unfolding path_frame[OF b(1)] by (rule ok(1))
  then have "path (nodes ?h) (head ?h) (xs @ a # ys)" by (simp add: as)
  moreover have "length xs \<le> brk ?h" using heap_ok_length[OF assms(1)] as by simp
  moreover have n: "nodes ?h a = Some n" using b(2) c(2) by simp
  ultimately have "delete_node a ?h = free_node a (unlinked ?h xs a n)"
    using ok(2) unfolding as by (intro delete_path[where ys = ys])
  also have "\<dots> = Inl DoubleFree" using v by (simp add: unlinked_def free_node_def bind_sum_def get_node_def free_str_def)
  finally have "delete_node a ?h = Inl DoubleFree" .
  moreover have "print_func fmt ?h n = Inl UseAfterFree" using v by (simp add: print_func_def)
  ultimately show ?thesis using d c(1) n by blast
qed

lemma copy_shares_string_example:
  "\<exists>s' h a m. cmd_copy 0 one_string = Inr s' \<and> delete_node 2 (hp s') = Inr h \<and> nodes h a = Some m \<and>
    print_func (\<lambda>_. []) h m = Inl UseAfterFree \<and> delete_node a h = Inl DoubleFree"
proof -
  obtain s' where s': "cmd_copy 0 one_string = Inr s'" "head (hp s') = Some 2"
      "map_option payload (nodes (hp s') 2) = Some (VStr (Some 1))"
    using one_string_copied by (auto split: sum.splits)
  have "head (hp s') \<noteq> head (hp one_string)" using s'(2) by (simp add: one_string_def)
  from copy_shares_string[OF one_string_ok s'(1,2) this s'(3)] show ?thesis using s'(1) by blast
qed

text \<open>
  C26: deleting a node takes exactly that node out of the list: the other nodes keep
  their order, names and values, and what they own is still allocated. Freeing a value that was
  never written is the one fault left.
\<close>

theorem delete_node_removes:
  assumes "heap_ok h (xs @ a # ys)" "delete_node a h \<noteq> Inl Uninitialised"
  shows "\<exists>h'. delete_node a h = Inr h' \<and> heap_ok h' (xs @ ys) \<and> nodes h' a = None \<and>
    (\<forall>b \<in> set (xs @ ys). map_option name (nodes h' b) = map_option name (nodes h b) \<and>
      map_option payload (nodes h' b) = map_option payload (nodes h b))"
  using delete_node_ok[OF assms(1)] assms(2) by blast

theorem delete_node_removes_witness:
  "\<exists>h'. delete_node 0 (hp one_string) = Inr h' \<and> heap_ok h' [] \<and> nodes h' 0 = None"
proof -
  have "delete_node 0 (hp one_string) \<noteq> Inl Uninitialised"
    by (simp add: one_string_def delete_node_def bind_sum_def get_node_def set_node_def free_node_def free_str_def)
  then show ?thesis using delete_node_removes[of "hp one_string" "[]" 0 "[]"] one_string_ok by auto
qed

definition strip :: "bytes \<Rightarrow> bytes" where
  "strip s = rev (dropWhile isspace (rev (dropWhile isspace s)))"

lemma walk_back_value: "i \<le> length s \<Longrightarrow> \<not> isspace pre \<Longrightarrow>
    walk_back pre s i = Some (i - length (takeWhile isspace (rev (take i s))))"
  by (induction i) (auto simp: take_Suc_conv_app_nth)

lemma strip_take: "strip s = (let d = dropWhile isspace s in take (length d - length (takeWhile isspace (rev d))) d)"
  by (simp add: strip_def Let_def dropWhile_eq_drop[of isspace "rev (dropWhile isspace s)"] rev_drop)

lemma trim_bounds:
  assumes "d \<noteq> []" "\<not> isspace (hd d)" "\<forall>x \<in> set t. isspace x"
  shows "takeWhile isspace (rev (t @ d)) = takeWhile isspace (rev d)" "length (takeWhile isspace (rev d)) < length d"
proof -
  have h: "hd d \<in> set (rev d)" "\<not> isspace (hd d)" using assms by auto
  then show "takeWhile isspace (rev (t @ d)) = takeWhile isspace (rev d)" by (simp add: takeWhile_append1)
  have "takeWhile isspace (rev d) \<noteq> rev d" using h by (metis set_takeWhileD)
  then show "length (takeWhile isspace (rev d)) < length d"
    by (metis le_neq_implies_less length_rev length_takeWhile_le takeWhile_eq_take take_all order_refl)
qed

text \<open>
  \<open>trim_inplace\<close> strips white space at both ends, in bounds, unless the byte in front
  of the buffer is white space and the string has nothing else.
\<close>

lemma trim_inplace_strips:
  assumes "\<not> isspace pre"
  shows "trim_inplace pre s = Some (strip s)"
proof -
  let ?t = "takeWhile isspace s" and ?d = "dropWhile isspace s"
  have w: "walk_back pre s (length s) = Some (length s - length (takeWhile isspace (rev s)))"
    using walk_back_value[of "length s" s pre] assms by simp
  have d: "drop (length ?t) s = ?d" by (simp add: dropWhile_eq_drop)
  show ?thesis
  proof (cases "?d = []")
    case True
    then have tw: "takeWhile isspace (rev s) = rev s" by simp
    show ?thesis unfolding trim_inplace_def strip_def True w tw option.case Let_def by simp
  next
    case False
    have s: "rev (?t @ ?d) = rev s" by simp
    note b = trim_bounds[OF False hd_dropWhile[OF False], of ?t, unfolded s]
    have l: "length s = length ?t + length ?d" by (metis length_append takeWhile_dropWhile_id)
    have "\<forall>x \<in> set ?t. isspace x" by (auto dest: set_takeWhileD)
    note b = b[OF this]
    let ?k = "length (takeWhile isspace (rev ?d))"
    have "length s - length (takeWhile isspace (rev s)) = length ?t + length ?d - ?k" using b(1) l by argo
    moreover have "\<not> length ?t + length ?d - ?k \<le> length ?t" "length ?t + length ?d - ?k - length ?t = length ?d - ?k"
      using b(2) by linarith+
    ultimately show ?thesis unfolding trim_inplace_def w option.case Let_def d strip_take by (simp only: if_False)
  qed
qed

lemma trim_inplace_strips_example: "trim_inplace 0 [0x20, 0x61, 0x20, 0x62, 0x0A] = Some [0x61, 0x20, 0x62]"
proof -
  have "\<not> isspace 0" by (simp add: isspace_def)
  moreover have "strip [0x20, 0x61, 0x20, 0x62, 0x0A] = [0x61, 0x20, 0x62]" by (simp add: strip_def isspace_def)
  ultimately show ?thesis using trim_inplace_strips[of 0 "[0x20, 0x61, 0x20, 0x62, 0x0A]"] by simp
qed

text \<open>
  Decrypting with the same key undoes encrypting; with an empty key the code divides
  by zero on every value but the empty one.
\<close>

interpretation secret_xor: self_inverse "\<lambda>k v. xor_with (xor_key k) v" "\<lambda>k. k \<noteq> []"
  by unfold_locales auto

lemma secret_roundtrip:
  "(case encrypt_secret_data k v of
      None \<Rightarrow> k = [] \<and> v \<noteq> []
    | Some (c, n) \<Rightarrow> n = length v \<and> length c = length v \<and> decrypt_secret_data k c n = Some v)"
  using secret_xor.crypt_crypt[of k v] secret_xor.crypt_length[of k v]
  by (auto simp: encrypt_secret_data_def decrypt_secret_data_def Let_def)

end
