(* ===== verification/Wildcard.thy ===== *)
theory Wildcard
  imports Prelude
begin

text \<open>
  \<open>maltty/challenge/src/wildcard.c\<close>: the wildcard matcher of the file transfer programs.
  Patterns and targets are C strings; a target given by pointer and length is the memory
  from the pointer on, with the length, and a read behind that memory makes the matcher
  return \<open>None\<close>. The matcher is compared with the declarative meaning of a pattern.
\<close>

section \<open>The matcher\<close>

datatype wc_error = WC_TRAILINGBACKSLASH | WC_UNCLOSEDCLASS | WC_INVALIDRANGE

definition wc_code :: "wc_error \<Rightarrow> int" where
  "wc_code e = (case e of WC_TRAILINGBACKSLASH \<Rightarrow> 1 | WC_UNCLOSEDCLASS \<Rightarrow> 2 | WC_INVALIDRANGE \<Rightarrow> 3)"

text \<open>In C the first message loses its backslash, which escapes the quote behind it.\<close>

definition wc_error :: "int \<Rightarrow> bytes" where
  "wc_error value =
     (if \<bar>value\<bar> = wc_code WC_TRAILINGBACKSLASH then
        [0x27, 0x27] @ str '' occurred at end of string (expected another character)''
      else if \<bar>value\<bar> = wc_code WC_UNCLOSEDCLASS then
        str ''expected '' @ [0x27, 0x5D, 0x27] @ str '' to close character class''
      else if \<bar>value\<bar> = wc_code WC_INVALIDRANGE then
        str ''character range was not terminated ('' @ [0x27, 0x5D, 0x27] @ str '' just after '' @ [0x27, 0x2D, 0x27, 0x29]
      else str ''INTERNAL ERROR: unrecognised wildcard error number'')"

abbreviation (input) STAR :: u8 where "STAR \<equiv> 0x2A"
abbreviation (input) QUESTION :: u8 where "QUESTION \<equiv> 0x3F"
abbreviation (input) OPEN :: u8 where "OPEN \<equiv> 0x5B"
abbreviation (input) CLOSE :: u8 where "CLOSE \<equiv> 0x5D"
abbreviation (input) BACKSLASH :: u8 where "BACKSLASH \<equiv> 0x5C"
abbreviation (input) CARET :: u8 where "CARET \<equiv> 0x5E"
abbreviation (input) MINUS :: u8 where "MINUS \<equiv> 0x2D"

text \<open>The character a pointer into a C string reads, 0 at its end.\<close>

definition at :: "bytes \<Rightarrow> nat \<Rightarrow> u8" where
  "at f i = (if i < length f then f ! i else 0)"

definition skip_backslash :: "bytes \<Rightarrow> bytes" where
  "skip_backslash f = (if at f 0 = BACKSLASH then tl f else f)"

definition in_range :: "u8 \<Rightarrow> u8 \<Rightarrow> u8 \<Rightarrow> bool" where
  "in_range lower upper c \<longleftrightarrow> (if lower > upper then upper \<le> c \<and> c \<le> lower else lower \<le> c \<and> c \<le> upper)"

lemma skip_backslash_le: "length (skip_backslash f) \<le> length f"
  by (simp add: skip_backslash_def)

text \<open>The inside of a character class, from behind the bracket and the caret to behind the closing bracket.\<close>

function class_scan :: "u8 \<Rightarrow> bool \<Rightarrow> bytes \<Rightarrow> wc_error + (bool \<times> bytes)" where
  "class_scan c matched f =
     (if at f 0 = CLOSE then Inr (matched, tl f)
      else
        let f = skip_backslash f in
        if f = [] then Inl WC_UNCLOSEDCLASS
        else if at f 1 = MINUS then
          let lower = hd f; g = drop 2 f in
          if at g 0 = CLOSE then Inl WC_INVALIDRANGE
          else
            let g = skip_backslash g in
            if g = [] then Inl WC_UNCLOSEDCLASS
            else class_scan c (matched \<or> in_range lower (hd g) c) (tl g)
        else class_scan c (matched \<or> c = hd f) (tl f))"
  by pat_completeness auto
termination
proof (relation "measure (\<lambda>(_, _, f). length f)", goal_cases)
  case (2 c m f x xa xb xc)
  then show ?case
    using skip_backslash_le[of f] skip_backslash_le[of "drop 2 (skip_backslash f)"]
    by (cases "skip_backslash (drop 2 (skip_backslash f))") auto
next
  case (3 c m f x)
  then show ?case using skip_backslash_le[of f] by (cases "skip_backslash f") auto
qed simp

declare class_scan.simps [simp del]

text \<open>One step of the loop of \<open>wc_match_fragment\<close>: \<open>None\<close> if the character does not match.\<close>

definition match_one :: "bytes \<Rightarrow> u8 \<Rightarrow> wc_error + bytes option" where
  "match_one f c =
     (if at f 0 = BACKSLASH then
        if at f 1 = 0 then Inl WC_TRAILINGBACKSLASH
        else Inr (if at f 1 \<noteq> c then None else Some (drop 2 f))
      else if at f 0 = QUESTION then Inr (Some (tl f))
      else if at f 0 = OPEN then
        let f = tl f; invert = (at f 0 = CARET); f = (if invert then tl f else f) in
        (case class_scan c False f of
           Inl e \<Rightarrow> Inl e
         | Inr (matched, f) \<Rightarrow> Inr (if invert = matched then None else Some f))
      else Inr (if at f 0 \<noteq> c then None else Some (tl f)))"

datatype fragment = Error wc_error | Failed | Matched bytes bytes

fun wc_match_fragment :: "bytes \<Rightarrow> bytes \<Rightarrow> fragment" where
  "wc_match_fragment f [] = (if f = [] \<or> at f 0 = STAR then Matched f [] else Failed)"
| "wc_match_fragment f (c # t) =
     (if f = [] \<or> at f 0 = STAR then Matched f (c # t)
      else
        (case match_one f c of
           Inl e \<Rightarrow> Error e
         | Inr None \<Rightarrow> Failed
         | Inr (Some f) \<Rightarrow> wc_match_fragment f t))"

datatype verdict = Syntax wc_error | No | Yes

text \<open>
  The inner loop of \<open>wc_match_inner\<close>: look for the place where the fragment matches. The
  target is the memory \<open>mem\<close> with \<open>len\<close> characters, \<open>p\<close> is the position of the pointer.
\<close>

datatype found = Return verdict | Continue bytes nat

function search :: "bytes \<Rightarrow> bytes \<Rightarrow> nat \<Rightarrow> nat \<Rightarrow> found option" where
  "search w mem len p =
     (if length mem \<le> p then None
      else if mem ! p = 0 then Some (Return No)
      else
        (case wc_match_fragment w (drop p (take len mem)) of
           Error e \<Rightarrow> Some (Return (Syntax e))
         | Matched w' t \<Rightarrow>
             let q = len - length t in
             if w' = [] \<and> q \<noteq> len then
               Some (Return (case wc_match_fragment w (drop (len - (q - p)) (take len mem)) of
                 Error e \<Rightarrow> Syntax e | Failed \<Rightarrow> No | Matched _ _ \<Rightarrow> Yes))
             else Some (Continue w' q)
         | Failed \<Rightarrow> search w mem len (p + 1)))"
  by pat_completeness auto
termination by (relation "measure (\<lambda>(_, mem, _, p). length mem - p)") auto

declare search.simps [simp del]

text \<open>The outer loop. Every fragment found is shorter than the pattern, which ends it.\<close>

fun outer :: "nat \<Rightarrow> bytes \<Rightarrow> bytes \<Rightarrow> nat \<Rightarrow> nat \<Rightarrow> verdict option" where
  "outer 0 w mem len p = None"
| "outer (Suc fuel) w mem len p =
     (if w = [] then Some (if p = len then Yes else No)
      else
        let w = dropWhile (\<lambda>c. c = STAR) w in
        if w = [] then Some Yes
        else
          (case search w mem len p of
             None \<Rightarrow> None
           | Some (Return v) \<Rightarrow> Some v
           | Some (Continue w q) \<Rightarrow> outer fuel w mem len q))"

definition wc_match_inner :: "bytes \<Rightarrow> bytes \<Rightarrow> nat \<Rightarrow> verdict option" where
  "wc_match_inner w mem len =
     (if at w 0 \<noteq> STAR then
        (case wc_match_fragment w (take len mem) of
           Error e \<Rightarrow> Some (Syntax e)
         | Failed \<Rightarrow> Some No
         | Matched w t \<Rightarrow> outer (Suc (length w)) w mem len (len - length t))
      else outer (Suc (length w)) w mem len 0)"

definition wc_match :: "bytes \<Rightarrow> bytes \<Rightarrow> verdict option" where
  "wc_match wildcard target = wc_match_inner (cstr wildcard) target (strlen target)"

definition wc_match_pl :: "bytes \<Rightarrow> bytes \<Rightarrow> nat \<Rightarrow> verdict option" where
  "wc_match_pl wildcard target len = wc_match_inner (cstr wildcard) target len"

text \<open>\<open>None\<close>: the string has a wildcard character.\<close>

fun wc_unescape :: "bytes \<Rightarrow> bytes option" where
  "wc_unescape [] = Some []"
| "wc_unescape (c # w) =
     (if c = BACKSLASH then
        (case w of [] \<Rightarrow> Some [] | d # w \<Rightarrow> map_option ((#) d) (wc_unescape w))
      else if c = STAR \<or> c = QUESTION \<or> c = OPEN \<or> c = CLOSE then None
      else map_option ((#) c) (wc_unescape w))"

section \<open>The meaning of a pattern\<close>

datatype tok = Star | One "u8 \<Rightarrow> bool"

fun glob :: "tok list \<Rightarrow> bytes \<Rightarrow> bool" where
  "glob [] s \<longleftrightarrow> s = []"
| "glob (One P # ts) s \<longleftrightarrow> (case s of [] \<Rightarrow> False | c # r \<Rightarrow> P c \<and> glob ts r)"
| "glob (Star # ts) s \<longleftrightarrow> glob ts s \<or> (case s of [] \<Rightarrow> False | _ # r \<Rightarrow> glob (Star # ts) r)"

text \<open>The members of a class, and the pattern behind it.\<close>

function class_members :: "bytes \<Rightarrow> ((u8 \<Rightarrow> bool) \<times> bytes) option" where
  "class_members f =
     (if at f 0 = CLOSE then Some (\<lambda>_. False, tl f)
      else
        let f = skip_backslash f in
        if f = [] then None
        else if at f 1 = MINUS then
          let g = drop 2 f in
          if at g 0 = CLOSE then None
          else
            let g = skip_backslash g in
            if g = [] then None
            else map_option (\<lambda>(P, r). (\<lambda>c. in_range (hd f) (hd g) c \<or> P c, r)) (class_members (tl g))
        else map_option (\<lambda>(P, r). (\<lambda>c. c = hd f \<or> P c, r)) (class_members (tl f)))"
  by pat_completeness auto
termination
proof (relation "measure length", goal_cases)
  case (2 f x xa xb)
  then show ?case
    using skip_backslash_le[of f] skip_backslash_le[of "drop 2 (skip_backslash f)"]
    by (cases "skip_backslash (drop 2 (skip_backslash f))") auto
next
  case (3 f x)
  then show ?case using skip_backslash_le[of f] by (cases "skip_backslash f") auto
qed simp

declare class_members.simps [simp del]

definition element :: "bytes \<Rightarrow> ((u8 \<Rightarrow> bool) \<times> bytes) option" where
  "element f =
     (if at f 0 = BACKSLASH then if at f 1 = 0 then None else Some (\<lambda>c. c = at f 1, drop 2 f)
      else if at f 0 = QUESTION then Some (\<lambda>_. True, tl f)
      else if at f 0 = OPEN then
        if at (tl f) 0 = CARET then map_option (\<lambda>(P, r). (\<lambda>c. \<not> P c, r)) (class_members (tl (tl f)))
        else class_members (tl f)
      else Some (\<lambda>c. c = at f 0, tl f))"

lemma class_members_cases:
  assumes "class_members f = Some (P, r)"
  obtains (close) "at f 0 = CLOSE" "P = (\<lambda>_. False)" "r = tl f"
  | (range) g Q where "at f 0 \<noteq> CLOSE" "skip_backslash f \<noteq> []" "at (skip_backslash f) 1 = MINUS"
      "at (drop 2 (skip_backslash f)) 0 \<noteq> CLOSE" "g = skip_backslash (drop 2 (skip_backslash f))" "g \<noteq> []"
      "class_members (tl g) = Some (Q, r)" "P = (\<lambda>c. in_range (hd (skip_backslash f)) (hd g) c \<or> Q c)"
  | (single) Q where "at f 0 \<noteq> CLOSE" "skip_backslash f \<noteq> []" "at (skip_backslash f) 1 \<noteq> MINUS"
      "class_members (tl (skip_backslash f)) = Some (Q, r)" "P = (\<lambda>c. c = hd (skip_backslash f) \<or> Q c)"
proof (cases "at f 0 = CLOSE")
  case True
  then show ?thesis using assms close by (simp add: class_members.simps[of f])
next
  case c: False
  have n: "skip_backslash f \<noteq> []" using assms c by (auto simp: class_members.simps[of f])
  show ?thesis
  proof (cases "at (skip_backslash f) 1 = MINUS")
    case True
    let ?g = "skip_backslash (drop 2 (skip_backslash f))"
    have d: "at (drop 2 (skip_backslash f)) 0 \<noteq> CLOSE" "?g \<noteq> []"
      using assms c n True by (auto simp: class_members.simps[of f] Let_def split: if_splits)
    then obtain Q where "class_members (tl ?g) = Some (Q, r)" "P = (\<lambda>c. in_range (hd (skip_backslash f)) (hd ?g) c \<or> Q c)"
      using assms c n True by (auto simp: class_members.simps[of f] Let_def)
    then show ?thesis using range c n True d by blast
  next
    case False
    then obtain Q where "class_members (tl (skip_backslash f)) = Some (Q, r)" "P = (\<lambda>c. c = hd (skip_backslash f) \<or> Q c)"
      using assms c n by (auto simp: class_members.simps[of f] Let_def)
    then show ?thesis using single c n False by blast
  qed
qed

lemma class_members_shorter: "class_members f = Some (P, r) \<Longrightarrow> length r \<le> length f"
proof (induction "length f" arbitrary: f P r rule: less_induct)
  case less
  from less.prems show ?case
  proof (cases rule: class_members_cases)
    case (range g Q)
    have "length (tl g) < length f"
    proof -
      have "length g \<le> length f" "0 < length g"
        using range(5,6) skip_backslash_le[of f] skip_backslash_le[of "drop 2 (skip_backslash f)"] by auto
      then show ?thesis by (simp only: length_tl)
    qed
    then show ?thesis using less.hyps range(7) by fastforce
  next
    case (single Q)
    have "length (tl (skip_backslash f)) < length f"
      using single(2) skip_backslash_le[of f] by (cases "skip_backslash f") auto
    then show ?thesis using less.hyps single(4) by fastforce
  qed simp
qed

lemma element_shorter: "element f = Some (P, r) \<Longrightarrow> f \<noteq> [] \<Longrightarrow> length r < length f"
  by (cases f) (auto simp: element_def less_Suc_eq_le split: if_splits
    dest!: class_members_shorter intro: order_trans[OF diff_le_self] order_trans)

function parse :: "bytes \<Rightarrow> tok list option" where
  "parse f =
     (if f = [] then Some []
      else if at f 0 = STAR then map_option ((#) Star) (parse (tl f))
      else (case element f of None \<Rightarrow> None | Some (P, r) \<Rightarrow> map_option ((#) (One P)) (parse r)))"
  by pat_completeness auto
termination by (relation "measure length") (auto dest: element_shorter)

declare parse.simps [simp del]

section \<open>Elements and fragments\<close>

lemma class_scan_members: "class_members f = Some (P, r) \<Longrightarrow> class_scan c m f = Inr (m \<or> P c, r)"
proof (induction "length f" arbitrary: f P r m rule: less_induct)
  case less
  from less.prems show ?case
  proof (cases rule: class_members_cases)
    case (range g Q)
    have "length (tl g) < length f"
    proof -
      have "length g \<le> length f" "0 < length g"
        using range(5,6) skip_backslash_le[of f] skip_backslash_le[of "drop 2 (skip_backslash f)"] by auto
      then show ?thesis by (simp only: length_tl)
    qed
    from less.hyps[OF this range(7)] show ?thesis using range by (subst class_scan.simps) (simp add: Let_def)
  next
    case (single Q)
    have "length (tl (skip_backslash f)) < length f"
      using single(2) skip_backslash_le[of f] by (cases "skip_backslash f") auto
    from less.hyps[OF this single(4)] show ?thesis using single by (subst class_scan.simps) (simp add: Let_def)
  qed (subst class_scan.simps, simp)
qed

lemma match_one_element:
  assumes "element f = Some (P, r)" "f \<noteq> []" "at f 0 \<noteq> STAR"
  shows "match_one f c = Inr (if P c then Some r else None)"
proof -
  consider "at f 0 = BACKSLASH" | "at f 0 = QUESTION" | "at f 0 = OPEN" "at (tl f) 0 = CARET"
    | "at f 0 = OPEN" "at (tl f) 0 \<noteq> CARET" | "at f 0 \<notin> {BACKSLASH, QUESTION, OPEN}" by blast
  then show ?thesis
  proof cases
    case 1
    then show ?thesis using assms(1) by (auto simp: element_def match_one_def split: if_splits)
  next
    case 2
    then show ?thesis using assms(1) by (auto simp: element_def match_one_def)
  next
    case 3
    then obtain Q where "class_members (tl (tl f)) = Some (Q, r)" "P = (\<lambda>c. \<not> Q c)"
      using assms(1) by (auto simp: element_def)
    then show ?thesis using 3 class_scan_members[of "tl (tl f)" Q r c False] by (simp add: match_one_def Let_def)
  next
    case 4
    then have "class_members (tl f) = Some (P, r)" using assms(1) by (simp add: element_def)
    then show ?thesis using 4 class_scan_members[of "tl f" P r c False] by (simp add: match_one_def Let_def)
  next
    case 5
    then show ?thesis using assms(1) by (auto simp: element_def match_one_def)
  qed
qed

text \<open>The single characters a pattern starts with: how many, what follows, and whether a string starts with them.\<close>

fun width :: "tok list \<Rightarrow> nat" where
  "width (One _ # ts) = Suc (width ts)"
| "width _ = 0"

fun behind :: "tok list \<Rightarrow> tok list" where
  "behind (One _ # ts) = behind ts"
| "behind ts = ts"

fun front :: "tok list \<Rightarrow> bytes \<Rightarrow> bool" where
  "front (One P # ts) s = (case s of [] \<Rightarrow> False | c # r \<Rightarrow> P c \<and> front ts r)"
| "front _ s = True"

lemma front_width: "front ts s \<Longrightarrow> width ts \<le> length s"
  by (induction ts s rule: front.induct) (auto split: list.splits)

lemma glob_front: "glob ts s \<longleftrightarrow> front ts s \<and> glob (behind ts) (drop (width ts) s)"
  by (induction ts s rule: front.induct) (auto split: list.splits)

lemma behind_cases: "behind ts = [] \<or> (\<exists>rs. behind ts = Star # rs)"
  by (induction ts rule: behind.induct) auto

lemma fragment_front:
  assumes "parse f = Some ts"
  shows "case wc_match_fragment f t of
      Error e \<Rightarrow> False
    | Failed \<Rightarrow> \<not> front ts t
    | Matched f' t' \<Rightarrow> front ts t \<and> parse f' = Some (behind ts) \<and> t' = drop (width ts) t \<and>
        length f' \<le> length f \<and> (0 < width ts \<longrightarrow> length f' < length f) \<and> (f' = [] \<longleftrightarrow> behind ts = [])"
  using assms
proof (induction f t arbitrary: ts rule: wc_match_fragment.induct)
  case (1 f)
  then show ?case
    by (subst (asm) parse.simps) (auto simp: parse.simps[of f] split: if_splits option.splits)
next
  case (2 f c t)
  show ?case
  proof (cases "f = [] \<or> at f 0 = STAR")
    case True
    then show ?thesis using 2(2) by (subst (asm) parse.simps) (auto simp: parse.simps[of f] split: if_splits)
  next
    case False
    then obtain P r us where e: "element f = Some (P, r)" "parse r = Some us" "ts = One P # us"
      using 2(2) by (subst (asm) parse.simps) (auto split: option.splits)
    have m: "match_one f c = Inr (if P c then Some r else None)" using match_one_element[OF e(1)] False by blast
    have l: "length r < length f" using element_shorter[OF e(1)] False by blast
    show ?thesis
    proof (cases "P c")
      case True
      then have m': "match_one f c = Inr (Some r)" using m by simp
      show ?thesis using 2(1)[OF False m' refl e(2)] m' False True e(3) l by (auto split: fragment.splits)
    next
      case P: False
      then show ?thesis using m False e(3) by simp
    qed
  qed
qed

section \<open>Stars\<close>

lemma glob_star: "glob (Star # ts) s \<longleftrightarrow> (\<exists>k \<le> length s. glob ts (drop k s))"
proof (induction s)
  case (Cons c s)
  have "(\<exists>k \<le> length (c # s). glob ts (drop k (c # s))) \<longleftrightarrow> glob ts (c # s) \<or> (\<exists>k \<le> length s. glob ts (drop k s))"
    by (metis (no_types, lifting) Suc_le_mono bot_nat_0.extremum drop0 drop_Suc_Cons length_Cons not0_implies_Suc)
  then show ?case using Cons by simp
qed simp

lemma glob_star_earlier: "glob (Star # ts) (drop j s) \<Longrightarrow> i \<le> j \<Longrightarrow> glob (Star # ts) (drop i s)"
proof -
  assume g: "glob (Star # ts) (drop j s)" and i: "i \<le> j"
  then obtain k where k: "k \<le> length (drop j s)" "glob ts (drop k (drop j s))" unfolding glob_star by blast
  show ?thesis
  proof (cases "j \<le> length s")
    case True
    have "drop (k + (j - i)) (drop i s) = drop k (drop j s)" using i by (simp add: add.commute)
    then show ?thesis unfolding glob_star using k i True by (intro exI[of _ "k + (j - i)"]) auto
  next
    case False
    then have "glob ts (drop (length (drop i s)) (drop i s))" using k by simp
    then show ?thesis unfolding glob_star by blast
  qed
qed

lemma glob_star_star: "glob (Star # Star # ts) s = glob (Star # ts) s"
  using glob_star_earlier[of ts _ s 0] unfolding glob_star[of "Star # ts"] by (auto intro: exI[of _ 0])

lemma glob_star_last:
  assumes "behind ts = []" "width ts \<le> length s"
  shows "glob (Star # ts) s = front ts (drop (length s - width ts) s)"
proof -
  have "glob ts (drop k s) \<longleftrightarrow> front ts (drop k s) \<and> length s \<le> width ts + k" for k
    unfolding glob_front[of ts] assms(1) by (auto simp: add.commute)
  moreover have "front ts (drop k s) \<Longrightarrow> k \<le> length s \<Longrightarrow> width ts \<le> length s - k" for k
    using front_width[of ts "drop k s"] by simp
  ultimately have "(\<exists>k \<le> length s. glob ts (drop k s)) \<longleftrightarrow> front ts (drop (length s - width ts) s)"
    using assms(2) by (smt (verit) diff_diff_cancel diff_le_self le_add_diff_inverse2 le_antisym add.commute le_diff_conv)
  then show ?thesis by (simp only: glob_star)
qed

lemma glob_star_first:
  assumes "front ts s" "behind ts = Star # rs"
  shows "glob (Star # ts) s = glob (Star # rs) (drop (width ts) s)"
proof
  assume "glob (Star # ts) s"
  then obtain k where "glob ts (drop k s)" unfolding glob_star by blast
  then have "glob (Star # rs) (drop (width ts + k) s)" using glob_front[of ts] assms(2) by simp
  then show "glob (Star # rs) (drop (width ts) s)" by (rule glob_star_earlier) simp
next
  assume "glob (Star # rs) (drop (width ts) s)"
  then have "glob ts s" using glob_front[of ts s] assms by simp
  then show "glob (Star # ts) s" by simp
qed

lemma parse_stars:
  "parse w = Some ts \<Longrightarrow> at w 0 = STAR \<Longrightarrow>
   \<exists>us. parse (dropWhile (\<lambda>c. c = STAR) w) = Some us \<and> (\<forall>s. glob ts s = glob (Star # us) s)"
proof (induction w arbitrary: ts)
  case (Cons c w)
  then have c: "c = STAR" by (simp add: at_def)
  obtain us where us: "parse w = Some us" "ts = Star # us"
    using Cons.prems(1) c by (subst (asm) parse.simps) (auto simp: at_def)
  show ?case
  proof (cases "at w 0 = STAR")
    case True
    then obtain vs where vs: "parse (dropWhile (\<lambda>c. c = STAR) w) = Some vs" "\<forall>s. glob us s = glob (Star # vs) s"
      using Cons.IH[OF us(1)] by blast
    have "glob ts s = glob (Star # vs) s" for s
      unfolding us(2) using glob_star_star[of vs s] vs(2) by (simp only: glob_star[of us] glob_star[of "Star # vs"])
    then show ?thesis using c vs(1) by auto
  next
    case False
    then have "dropWhile (\<lambda>c. c = STAR) w = w" by (cases w) (simp_all add: at_def)
    then show ?thesis using c us by auto
  qed
qed (simp add: at_def)

section \<open>Searching for a fragment\<close>

lemma width_parse: "parse w = Some ts \<Longrightarrow> w \<noteq> [] \<Longrightarrow> at w 0 \<noteq> STAR \<Longrightarrow> 0 < width ts"
  by (subst (asm) parse.simps) (auto split: option.splits)

lemma search_sound:
  assumes t: "terminated mem" and w: "parse w = Some ts" "0 < width ts" and p: "p \<le> strlen mem"
  shows "case search w mem (strlen mem) p of
      None \<Rightarrow> False
    | Some (Return (Syntax e)) \<Rightarrow> False
    | Some (Return No) \<Rightarrow> \<not> glob (Star # ts) (drop p (cstr mem))
    | Some (Return Yes) \<Rightarrow> glob (Star # ts) (drop p (cstr mem))
    | Some (Continue w' q) \<Rightarrow> q \<le> strlen mem \<and> length w' < length w \<and> (w' = [] \<or> at w' 0 = STAR) \<and>
        (\<exists>us. parse w' = Some us \<and> glob (Star # ts) (drop p (cstr mem)) = glob us (drop q (cstr mem)))"
  using p
proof (induction "strlen mem - p" arbitrary: p)
  case 0
  then have p: "p = strlen mem" by simp
  have "search w mem (strlen mem) p = Some (Return No)"
    using strlen_less[OF t] nth_strlen[OF t] p by (subst search.simps) simp
  moreover have "\<not> glob (Star # ts) (drop p (cstr mem))"
    using w(2) front_width[of ts "[]"] glob_front[of ts "[]"] p by (auto simp: cstr_take strlen_le)
  ultimately show ?case by simp
next
  case (Suc d)
  let ?s = "cstr mem" and ?n = "strlen mem"
  have len: "length ?s = ?n" by (simp add: strlen_def)
  have p: "p < ?n" "\<not> length mem \<le> p" "mem ! p \<noteq> 0" using Suc(2) strlen_less[OF t] nth_less_strlen[of p mem] by auto
  have s: "take ?n mem = ?s" by (simp add: cstr_take)
  note f = fragment_front[OF w(1), of "drop p ?s"]
  show ?case
  proof (cases "wc_match_fragment w (drop p ?s)")
    case (Error e)
    then show ?thesis using f by simp
  next
    case Failed
    then have "\<not> front ts (drop p ?s)" using f by simp
    then have "\<not> glob ts (drop p ?s)" using glob_front by blast
    moreover have "drop p ?s = ?s ! p # drop (Suc p) ?s" using p len by (simp add: Cons_nth_drop_Suc)
    ultimately have g: "glob (Star # ts) (drop p ?s) = glob (Star # ts) (drop (Suc p) ?s)" by simp
    have e: "search w mem ?n p = search w mem ?n (Suc p)" using p s Failed by (subst search.simps) simp
    have "d = ?n - Suc p" "Suc p \<le> ?n" using Suc(2) by simp_all
    from Suc(1)[OF this] show ?thesis unfolding e g .
  next
    case (Matched w' t')
    have m: "front ts (drop p ?s)" "parse w' = Some (behind ts)" "t' = drop (width ts) (drop p ?s)"
        "length w' < length w" "w' = [] \<longleftrightarrow> behind ts = []"
      using f Matched w(2) by auto
    have wd: "width ts \<le> ?n - p" using front_width[OF m(1)] len by simp
    have q: "?n - length t' = p + width ts" using m(3) wd p len by simp
    show ?thesis
    proof (cases "w' = [] \<and> p + width ts \<noteq> ?n")
      case True
      have w2: "?n - (p + width ts - p) = ?n - width ts" by simp
      have e: "search w mem ?n p = Some (Return (case wc_match_fragment w (drop (?n - width ts) ?s) of
          Error e \<Rightarrow> Syntax e | Failed \<Rightarrow> No | Matched _ _ \<Rightarrow> Yes))"
        using p s Matched True by (subst search.simps) (simp add: Let_def q w2)
      have "length (drop p ?s) - width ts + p = ?n - width ts" using wd p len by simp
      then have "glob (Star # ts) (drop p ?s) = front ts (drop (?n - width ts) ?s)"
        using glob_star_last[of ts "drop p ?s"] True m(5) wd len by simp
      then show ?thesis
        unfolding e using fragment_front[OF w(1), of "drop (?n - width ts) ?s"] by (auto split: fragment.splits)
    next
      case False
      have e: "search w mem ?n p = Some (Continue w' (p + width ts))"
        using p s Matched False by (subst search.simps) (simp add: Let_def q)
      have g: "glob (Star # ts) (drop p ?s) = glob (behind ts) (drop (p + width ts) ?s)"
      proof (cases "w' = []")
        case True
        then have "p + width ts = ?n" "behind ts = []" using False m(5) by auto
        moreover have "glob ts (drop p ?s)" using glob_front[of ts "drop p ?s"] m(1) calculation len by simp
        ultimately show ?thesis using len by simp
      next
        case w': False
        then obtain rs where rs: "behind ts = Star # rs" using behind_cases[of ts] m(5) by auto
        show ?thesis using glob_star_first[OF m(1) rs] rs by (simp add: add.commute)
      qed
      have "w' = [] \<or> at w' 0 = STAR"
      proof (rule ccontr)
        assume n: "\<not> (w' = [] \<or> at w' 0 = STAR)"
        then have "0 < width (behind ts)" using width_parse[OF m(2)] by blast
        then show False using behind_cases[of ts] by auto
      qed
      then show ?thesis unfolding e using g m(2,4) wd p by auto
    qed
  qed
qed

lemma outer_sound:
  assumes t: "terminated mem"
  shows "parse w = Some ts \<Longrightarrow> w = [] \<or> at w 0 = STAR \<Longrightarrow> length w < fuel \<Longrightarrow> p \<le> strlen mem \<Longrightarrow>
    outer fuel w mem (strlen mem) p = Some (if glob ts (drop p (cstr mem)) then Yes else No)"
proof (induction fuel arbitrary: w ts p)
  case (Suc fuel)
  let ?s = "cstr mem" and ?v = "dropWhile (\<lambda>c. c = STAR) w"
  have len: "length ?s = strlen mem" by (simp add: strlen_def)
  show ?case
  proof (cases "w = []")
    case True
    then have "ts = []" using Suc.prems(1) by (subst (asm) parse.simps) simp
    then show ?thesis using True Suc.prems(4) len by auto
  next
    case False
    then obtain us where us: "parse ?v = Some us" "\<And>s. glob ts s = glob (Star # us) s"
      using parse_stars[OF Suc.prems(1)] Suc.prems(2) by blast
    have le: "length ?v \<le> length w" by (rule length_dropWhile_le)
    show ?thesis
    proof (cases "?v = []")
      case True
      then have "us = []" using us(1) by (subst (asm) parse.simps) simp
      then have "glob ts (drop p ?s)" unfolding us(2) glob_star by (intro exI[of _ "length (drop p ?s)"]) simp
      then show ?thesis using True False by simp
    next
      case v: False
      then have h: "at ?v 0 \<noteq> STAR" using hd_dropWhile[OF v] by (cases ?v) (simp_all add: at_def)
      then have "0 < width us" using width_parse[OF us(1) v] by blast
      note sound = search_sound[OF t us(1) this Suc.prems(4)]
      show ?thesis
      proof (cases "search ?v mem (strlen mem) p")
        case (Some r)
        show ?thesis
        proof (cases r)
          case (Return x)
          then show ?thesis using sound Some False v unfolding us(2) by (cases x) (auto simp: Let_def)
        next
          case (Continue w' q)
          then obtain vs where vs: "q \<le> strlen mem" "length w' < length ?v" "w' = [] \<or> at w' 0 = STAR" "parse w' = Some vs"
              "glob (Star # us) (drop p ?s) = glob vs (drop q ?s)"
            using sound Some by auto
          have "length w' < fuel" using vs(2) le Suc.prems(3) by linarith
          from Suc.IH[OF vs(4,3) this vs(1)] show ?thesis using Some Continue False v vs(5) us(2) by (simp add: Let_def)
        qed
      qed (use sound in simp)
    qed
  qed
qed simp

lemma wc_match_well_formed:
  assumes "terminated target" "parse (cstr wildcard) = Some ts"
  shows "wc_match wildcard target = Some (if glob ts (cstr target) then Yes else No)"
proof (cases "at (cstr wildcard) 0 = STAR")
  case True
  then show ?thesis
    using outer_sound[OF assms, of "Suc (length (cstr wildcard))" 0] by (simp add: wc_match_def wc_match_inner_def)
next
  case False
  let ?w = "cstr wildcard" and ?s = "cstr target"
  have len: "length ?s = strlen target" by (simp add: strlen_def)
  have s: "take (strlen target) target = ?s" by (simp add: cstr_take)
  note f = fragment_front[OF assms(2), of ?s]
  show ?thesis
  proof (cases "wc_match_fragment ?w ?s")
    case (Error e)
    then show ?thesis using f by simp
  next
    case Failed
    then show ?thesis using f False glob_front[of ts ?s] by (simp add: wc_match_def wc_match_inner_def s)
  next
    case (Matched w' t')
    then have m: "front ts ?s" "parse w' = Some (behind ts)" "t' = drop (width ts) ?s" "w' = [] \<longleftrightarrow> behind ts = []"
      using f by auto
    have w': "w' = [] \<or> at w' 0 = STAR"
      using m(2,4) behind_cases[of ts] by (subst (asm) parse.simps) (auto split: if_splits option.splits)
    have q: "strlen target - length t' = width ts" using m(3) front_width[OF m(1)] len by simp
    show ?thesis
      using outer_sound[OF assms(1) m(2) w' _ , of "Suc (length w')" "width ts"] front_width[OF m(1)] m(1) Matched False
        glob_front[of ts ?s] len by (simp add: wc_match_def wc_match_inner_def s q del: outer.simps)
  qed
qed

section \<open>Malformed patterns\<close>

lemma class_scan_parsed: "class_scan c m f = Inr (b, r) \<Longrightarrow> \<exists>P. class_members f = Some (P, r)"
proof (induction c m f arbitrary: b r rule: class_scan.induct)
  case (1 c m f)
  let ?f = "skip_backslash f" and ?g = "skip_backslash (drop 2 (skip_backslash f))"
  consider "at f 0 = CLOSE" "r = tl f" | "at f 0 \<noteq> CLOSE" "?f \<noteq> []" "at ?f 1 = MINUS" "at (drop 2 ?f) 0 \<noteq> CLOSE" "?g \<noteq> []"
      "class_scan c (m \<or> in_range (hd ?f) (hd ?g) c) (tl ?g) = Inr (b, r)"
    | "at f 0 \<noteq> CLOSE" "?f \<noteq> []" "at ?f 1 \<noteq> MINUS" "class_scan c (m \<or> c = hd ?f) (tl ?f) = Inr (b, r)"
    using 1(3) unfolding class_scan.simps[of c m f] Let_def by (auto split: if_splits)
  then show ?case
  proof cases
    case 1
    then show ?thesis by (simp add: class_members.simps[of f])
  next
    case 2
    then show ?thesis using "1"(1)[OF 2(1) refl 2(2,3) refl refl 2(4) refl 2(5,6)]
      by (auto simp: class_members.simps[of f] Let_def)
  next
    case 3
    then show ?thesis using "1"(2)[OF 3(1) refl 3(2,3,4)] by (auto simp: class_members.simps[of f] Let_def)
  qed
qed

lemma match_one_parsed: "match_one f c = Inr (Some r) \<Longrightarrow> \<exists>P. element f = Some (P, r)"
  by (auto simp: match_one_def element_def Let_def dest!: class_scan_parsed split: if_splits sum.splits)

lemma fragment_parsed:
  "wc_match_fragment f t = Matched f' t' \<Longrightarrow>
    (parse f' \<noteq> None \<longrightarrow> parse f \<noteq> None) \<and> (f' = [] \<or> at f' 0 = STAR) \<and> length f' \<le> length f \<and> length t' \<le> length t \<and>
    (f \<noteq> [] \<and> at f 0 \<noteq> STAR \<longrightarrow> length f' < length f)"
proof (induction f t rule: wc_match_fragment.induct)
  case (2 f c t)
  show ?case
  proof (cases "f = [] \<or> at f 0 = STAR")
    case False
    obtain r where r: "match_one f c = Inr (Some r)" "wc_match_fragment r t = Matched f' t'"
      using 2(2) False by (auto split: sum.splits option.splits)
    obtain P where P: "element f = Some (P, r)" using match_one_parsed[OF r(1)] by blast
    have "length r < length f" using element_shorter[OF P] False by blast
    then show ?thesis using 2(1)[OF False r(1) refl r(2)] False P by (auto simp: parse.simps[of f])
  qed (use 2(2) in auto)
qed (auto split: if_splits)

lemma parse_star_tl: "parse (dropWhile (\<lambda>c. c = STAR) w) \<noteq> None \<Longrightarrow> parse w \<noteq> None"
proof (induction w)
  case (Cons c w)
  show ?case
  proof (cases "c = STAR")
    case True
    then have "parse w \<noteq> None" using Cons by simp
    then show ?thesis unfolding True by (simp add: parse.simps[of "STAR # w"] at_def)
  qed (use Cons in simp)
qed simp

lemma search_malformed:
  assumes t: "terminated mem" and w: "w \<noteq> []" "at w 0 \<noteq> STAR" "parse w = None"
  shows "p \<le> strlen mem \<Longrightarrow> case search w mem (strlen mem) p of
      None \<Rightarrow> False
    | Some (Return v) \<Rightarrow> v \<noteq> Yes
    | Some (Continue w' q) \<Rightarrow> q \<le> strlen mem \<and> length w' < length w \<and> w' \<noteq> [] \<and> at w' 0 = STAR \<and> parse w' = None"
proof (induction "strlen mem - p" arbitrary: p)
  case 0
  then have "search w mem (strlen mem) p = Some (Return No)"
    using strlen_less[OF t] nth_strlen[OF t] by (subst search.simps) simp
  then show ?case by simp
next
  case (Suc d)
  have p: "p < strlen mem" "\<not> length mem \<le> p" "mem ! p \<noteq> 0" using Suc(2) strlen_less[OF t] nth_less_strlen[of p mem] by auto
  show ?case
  proof (cases "wc_match_fragment w (drop p (take (strlen mem) mem))")
    case (Error e)
    then show ?thesis using p by (subst search.simps) simp
  next
    case Failed
    then have "search w mem (strlen mem) p = search w mem (strlen mem) (Suc p)" using p by (subst search.simps) simp
    moreover have "d = strlen mem - Suc p" "Suc p \<le> strlen mem" using Suc(2) by simp_all
    ultimately show ?thesis using Suc(1)[of "Suc p"] by simp
  next
    case (Matched w' t')
    note m = fragment_parsed[OF Matched]
    have "w' \<noteq> []" using m w(3) by (auto simp: parse.simps[of "[]"])
    then show ?thesis using m w p Matched by (subst search.simps) (auto simp: Let_def)
  qed
qed

lemma outer_malformed:
  assumes t: "terminated mem"
  shows "parse w = None \<Longrightarrow> at w 0 = STAR \<Longrightarrow> length w < fuel \<Longrightarrow> p \<le> strlen mem \<Longrightarrow>
    \<exists>v. outer fuel w mem (strlen mem) p = Some v \<and> v \<noteq> Yes"
proof (induction fuel arbitrary: w p)
  case (Suc fuel)
  let ?v = "dropWhile (\<lambda>c. c = STAR) w"
  have v: "parse ?v = None" using parse_star_tl[of w] Suc.prems(1) by blast
  have e: "parse [] = Some []" by (simp add: parse.simps[of "[]"])
  have n: "?v \<noteq> []"
  proof
    assume "?v = []"
    then show False using v unfolding \<open>?v = []\<close> e by simp
  qed
  then have w: "w \<noteq> []" by auto
  have h: "at ?v 0 \<noteq> STAR" using hd_dropWhile[OF n] n by (cases ?v) (simp_all add: at_def)
  have le: "length ?v \<le> length w" by (rule length_dropWhile_le)
  show ?case
    using search_malformed[OF t n h v Suc.prems(4)] n w Suc.IH le Suc.prems(3)
    by (auto simp: Let_def split: option.splits found.splits)
qed simp

lemma wc_match_malformed:
  assumes t: "terminated target" and w: "parse (cstr wildcard) = None"
  shows "\<exists>v. wc_match wildcard target = Some v \<and> v \<noteq> Yes"
proof (cases "at (cstr wildcard) 0 = STAR")
  case True
  then show ?thesis
    using outer_malformed[OF t w, of "Suc (length (cstr wildcard))" 0] by (simp add: wc_match_def wc_match_inner_def del: outer.simps)
next
  case False
  show ?thesis
  proof (cases "wc_match_fragment (cstr wildcard) (take (strlen target) target)")
    case (Matched w' t')
    note m = fragment_parsed[OF Matched]
    have w': "parse w' = None" using m w by blast
    then have "at w' 0 = STAR" using m by (auto simp: parse.simps[of "[]"])
    from outer_malformed[OF t w' this, of "Suc (length w')" "strlen target - length t'"]
    show ?thesis using Matched False by (simp add: wc_match_def wc_match_inner_def del: outer.simps)
  qed (use False in \<open>simp_all add: wc_match_def wc_match_inner_def\<close>)
qed

section \<open>The properties\<close>

text \<open>
  C3: on every C string the matcher stays in bounds and decides the declarative meaning of
  the pattern: looking for the first place of each fragment never misses a match, and a
  malformed pattern never matches.
\<close>

theorem wc_match_is_glob:
  assumes "terminated target"
  shows "case parse (cstr wildcard) of
      Some ts \<Rightarrow> wc_match wildcard target = Some (if glob ts (cstr target) then Yes else No)
    | None \<Rightarrow> (\<exists>v. wc_match wildcard target = Some v \<and> v \<noteq> Yes)"
  using wc_match_well_formed[OF assms] wc_match_malformed[OF assms] by (simp split: option.split)

theorem wc_match_is_glob_witness:
  "case parse (cstr (str ''?b*[q-s]a'')) of
      Some ts \<Rightarrow> wc_match (str ''?b*[q-s]a'') (str ''abracadabra'' @ [0]) = Some (if glob ts (cstr (str ''abracadabra'' @ [0])) then Yes else No)
    | None \<Rightarrow> (\<exists>v. wc_match (str ''?b*[q-s]a'') (str ''abracadabra'' @ [0]) = Some v \<and> v \<noteq> Yes)"
  by (rule wc_match_is_glob) (simp add: terminated_def)

lemma wc_match_example: "wc_match (str ''?b*[q-s]a'') (str ''abracadabra'' @ [0]) = Some Yes"
  by code_simp

text \<open>
  A target without terminator is searched beyond its end: \<open>wc_match_pl\<close> of a pattern that
  starts with a star and does not match reads behind the memory.
\<close>

lemma wc_match_pl_overreads: "wc_match_pl (str ''*b'') (str ''a'') 1 = None"
  by code_simp

text \<open>
  When \<open>wc_unescape\<close> succeeds on a pattern without errors, its result is the one
  string the pattern matches.
\<close>

lemma wc_unescape_matches:
  assumes "parse w = Some ts" "wc_unescape w = Some u"
  shows "glob ts s \<longleftrightarrow> s = u"
  using assms
proof (induction w arbitrary: ts u s rule: wc_unescape.induct)
  case 1
  then show ?case by (simp add: parse.simps[of "[]"])
next
  case (2 c w)
  consider (esc) d w' us v where "c = BACKSLASH" "w = d # w'" "parse w' = Some us" "wc_unescape w' = Some v"
        "ts = One (\<lambda>x. x = d) # us" "u = d # v"
    | (chr) us v where "c \<notin> {BACKSLASH, STAR, QUESTION, OPEN, CLOSE}" "parse w = Some us" "wc_unescape w = Some v"
        "ts = One (\<lambda>x. x = c) # us" "u = c # v"
    using 2(3,4) by (auto simp: parse.simps[of "c # w"] element_def at_def split: if_splits list.splits option.splits)
  then show ?case
  proof cases
    case esc
    then show ?thesis using 2(1)[OF esc(1,2,3,4)] by (cases s) auto
  next
    case chr
    then have "c \<noteq> BACKSLASH" "\<not> (c = STAR \<or> c = QUESTION \<or> c = OPEN \<or> c = CLOSE)" by auto
    then show ?thesis using 2(2)[OF _ _ chr(2,3)] chr(4,5) by (cases s) auto
  qed
qed

lemma wc_unescape_matches_example: "\<exists>ts. parse [BACKSLASH, STAR, 0x61] = Some ts \<and> glob ts [STAR, 0x61] \<and> \<not> glob ts [0x62]"
proof -
  obtain ts where "parse [BACKSLASH, STAR, 0x61] = Some ts"
    by (simp add: parse.simps[of "[BACKSLASH, STAR, 0x61]"] parse.simps[of "[0x61]"] parse.simps[of "[]"] element_def at_def)
  moreover have "wc_unescape [BACKSLASH, STAR, 0x61] = Some [STAR, 0x61]" by simp
  ultimately show ?thesis using wc_unescape_matches by auto
qed

end
