(* ===== verification/Telnet.thy ===== *)
theory Telnet
  imports Prelude
begin

text \<open>
  \<open>maltty/challenge/src/telnet.c\<close>: the Telnet backend, from a received byte to the option
  negotiation and back. The bytes written to the socket are collected in the state, the
  bytes for the terminal are returned in the portions the code writes. The event log, the
  pinger and the queue lengths of socket and terminal are not part of the state.
\<close>

section \<open>Codes\<close>

abbreviation (input) IAC :: u8 where "IAC \<equiv> 255"
abbreviation (input) DONT :: u8 where "DONT \<equiv> 254"
abbreviation (input) DO :: u8 where "DO \<equiv> 253"
abbreviation (input) WONT :: u8 where "WONT \<equiv> 252"
abbreviation (input) WILL :: u8 where "WILL \<equiv> 251"
abbreviation (input) SB :: u8 where "SB \<equiv> 250"
abbreviation (input) SE :: u8 where "SE \<equiv> 240"
abbreviation (input) DM :: u8 where "DM \<equiv> 242"

abbreviation (input) TELOPT_BINARY :: u8 where "TELOPT_BINARY \<equiv> 0"
abbreviation (input) TELOPT_ECHO :: u8 where "TELOPT_ECHO \<equiv> 1"
abbreviation (input) TELOPT_SGA :: u8 where "TELOPT_SGA \<equiv> 3"
abbreviation (input) TELOPT_TTYPE :: u8 where "TELOPT_TTYPE \<equiv> 24"
abbreviation (input) TELOPT_NAWS :: u8 where "TELOPT_NAWS \<equiv> 31"
abbreviation (input) TELOPT_TSPEED :: u8 where "TELOPT_TSPEED \<equiv> 32"
abbreviation (input) TELOPT_OLD_ENVIRON :: u8 where "TELOPT_OLD_ENVIRON \<equiv> 36"
abbreviation (input) TELOPT_NEW_ENVIRON :: u8 where "TELOPT_NEW_ENVIRON \<equiv> 39"

abbreviation (input) TELQUAL_IS :: u8 where "TELQUAL_IS \<equiv> 0"
abbreviation (input) TELQUAL_SEND :: u8 where "TELQUAL_SEND \<equiv> 1"
abbreviation (input) BSD_VAR :: u8 where "BSD_VAR \<equiv> 1"
abbreviation (input) BSD_VALUE :: u8 where "BSD_VALUE \<equiv> 0"
abbreviation (input) RFC_VAR :: u8 where "RFC_VAR \<equiv> 0"
abbreviation (input) RFC_VALUE :: u8 where "RFC_VALUE \<equiv> 1"

abbreviation (input) CR :: u8 where "CR \<equiv> 13"
abbreviation (input) LF :: u8 where "LF \<equiv> 10"
abbreviation (input) NUL :: u8 where "NUL \<equiv> 0"

section \<open>Options and state\<close>

datatype opt_index = NAWS | TSPEED | TTYPE | OENV | NENV | ECHO | WE_SGA | THEY_SGA | WE_BIN | THEY_BIN

datatype opt_state = REQUESTED | ACTIVE | INACTIVE | REALLY_INACTIVE

record opt =
  send :: u8
  nsend :: u8
  ack :: u8
  nak :: u8
  code :: u8
  index :: opt_index
  initial :: opt_state

definition o_naws :: opt where "o_naws = \<lparr>send = WILL, nsend = WONT, ack = DO, nak = DONT, code = TELOPT_NAWS, index = NAWS, initial = REQUESTED\<rparr>"
definition o_tspeed :: opt where "o_tspeed = \<lparr>send = WILL, nsend = WONT, ack = DO, nak = DONT, code = TELOPT_TSPEED, index = TSPEED, initial = REQUESTED\<rparr>"
definition o_ttype :: opt where "o_ttype = \<lparr>send = WILL, nsend = WONT, ack = DO, nak = DONT, code = TELOPT_TTYPE, index = TTYPE, initial = REQUESTED\<rparr>"
definition o_oenv :: opt where "o_oenv = \<lparr>send = WILL, nsend = WONT, ack = DO, nak = DONT, code = TELOPT_OLD_ENVIRON, index = OENV, initial = INACTIVE\<rparr>"
definition o_nenv :: opt where "o_nenv = \<lparr>send = WILL, nsend = WONT, ack = DO, nak = DONT, code = TELOPT_NEW_ENVIRON, index = NENV, initial = REQUESTED\<rparr>"
definition o_echo :: opt where "o_echo = \<lparr>send = DO, nsend = DONT, ack = WILL, nak = WONT, code = TELOPT_ECHO, index = ECHO, initial = REQUESTED\<rparr>"
definition o_we_sga :: opt where "o_we_sga = \<lparr>send = WILL, nsend = WONT, ack = DO, nak = DONT, code = TELOPT_SGA, index = WE_SGA, initial = REQUESTED\<rparr>"
definition o_they_sga :: opt where "o_they_sga = \<lparr>send = DO, nsend = DONT, ack = WILL, nak = WONT, code = TELOPT_SGA, index = THEY_SGA, initial = REQUESTED\<rparr>"
definition o_we_bin :: opt where "o_we_bin = \<lparr>send = WILL, nsend = WONT, ack = DO, nak = DONT, code = TELOPT_BINARY, index = WE_BIN, initial = INACTIVE\<rparr>"
definition o_they_bin :: opt where "o_they_bin = \<lparr>send = DO, nsend = DONT, ack = WILL, nak = WONT, code = TELOPT_BINARY, index = THEY_BIN, initial = INACTIVE\<rparr>"

lemmas opt_defs = o_naws_def o_tspeed_def o_ttype_def o_oenv_def o_nenv_def o_echo_def o_we_sga_def o_they_sga_def
  o_we_bin_def o_they_bin_def

definition opts :: "opt list" where
  "opts = [o_naws, o_tspeed, o_ttype, o_oenv, o_nenv, o_echo, o_we_sga, o_they_sga, o_we_bin, o_they_bin]"

datatype mode = TOP_LEVEL | SEENIAC | SEENWILL | SEENWONT | SEENDO | SEENDONT | SEENSB | SUBNEGOT | SUBNEG_IAC | SEENCR

text \<open>What the backend reads of the configuration; \<open>user\<close> is the result of \<open>get_remote_username\<close>.\<close>

record conf =
  termspeed :: bytes
  termtype :: bytes
  rfc_environ :: bool
  environmt :: "(bytes \<times> bytes) list"
  user :: "bytes option"
  passive_telnet :: bool
  width :: int
  height :: int

record telnet =
  connected :: bool               \<comment> \<open>\<open>s\<close> is not NULL\<close>
  closed_on_socket_error :: bool
  term_width :: int
  term_height :: int
  opt_states :: "opt_index \<Rightarrow> opt_state"
  echoing :: bool
  editing :: bool
  activated :: bool
  in_synch :: bool
  sb_opt :: u8
  sb_buf :: bytes
  mode :: mode
  cfg :: conf
  sent :: bytes                   \<comment> \<open>everything written to the socket\<close>

definition sk_write :: "bytes \<Rightarrow> telnet \<Rightarrow> telnet" where
  "sk_write b t = t\<lparr>sent := sent t @ b\<rparr>"

definition set_opt :: "opt_index \<Rightarrow> opt_state \<Rightarrow> telnet \<Rightarrow> telnet" where
  "set_opt i s t = t\<lparr>opt_states := (opt_states t)(i := s)\<rparr>"

section \<open>Negotiation\<close>

definition send_opt :: "u8 \<Rightarrow> u8 \<Rightarrow> telnet \<Rightarrow> telnet" where
  "send_opt cmd option t = sk_write [IAC, cmd, option] t"

definition deactivate_option :: "opt \<Rightarrow> telnet \<Rightarrow> telnet" where
  "deactivate_option o' t =
     set_opt (index o') REALLY_INACTIVE
       (if opt_states t (index o') = REQUESTED \<or> opt_states t (index o') = ACTIVE
        then send_opt (nsend o') (code o') t else t)"

definition request_if_inactive :: "opt \<Rightarrow> telnet \<Rightarrow> telnet" where
  "request_if_inactive o' t =
     (if opt_states t (index o') = INACTIVE
      then send_opt (send o') (code o') (set_opt (index o') REQUESTED t) else t)"

definition option_side_effects :: "opt \<Rightarrow> bool \<Rightarrow> telnet \<Rightarrow> telnet" where
  "option_side_effects o' enabled t =
     (let t = (if code o' = TELOPT_ECHO \<and> send o' = DO then t\<lparr>echoing := \<not> enabled\<rparr>
               else if code o' = TELOPT_SGA \<and> send o' = DO then t\<lparr>editing := \<not> enabled\<rparr>
               else t)
      in if \<not> activated t
         then (request_if_inactive o_they_sga (request_if_inactive o_we_sga (request_if_inactive o_echo t)))\<lparr>activated := True\<rparr>
         else t)"

text \<open>A byte of the window size, doubled if it is an IAC.\<close>

definition naws_byte :: "int \<Rightarrow> bytes" where
  "naws_byte i = (let b = word_of_int i :: u8 in if b = IAC then [b, b] else [b])"

definition telnet_size :: "int \<Rightarrow> int \<Rightarrow> telnet \<Rightarrow> telnet" where
  "telnet_size w h t =
     (let t = t\<lparr>term_width := w, term_height := h\<rparr> in
      if \<not> connected t \<or> opt_states t NAWS \<noteq> ACTIVE then t
      else sk_write ([IAC, SB, TELOPT_NAWS] @ naws_byte (drop_bit 8 w) @ naws_byte (w mod 256) @
             naws_byte (drop_bit 8 h) @ naws_byte (h mod 256) @ [IAC, SE]) t)"

definition activate_option :: "opt \<Rightarrow> telnet \<Rightarrow> telnet" where
  "activate_option o' t =
     (let t = (if send o' = WILL \<and> code o' = TELOPT_NAWS then telnet_size (term_width t) (term_height t) t else t);
          t = (if send o' = WILL \<and> (code o' = TELOPT_NEW_ENVIRON \<or> code o' = TELOPT_OLD_ENVIRON)
               then deactivate_option (if code o' = TELOPT_NEW_ENVIRON then o_oenv else o_nenv) t else t)
      in option_side_effects o' True t)"

definition refused_option :: "opt \<Rightarrow> telnet \<Rightarrow> telnet" where
  "refused_option o' t =
     (let t = (if send o' = WILL \<and> code o' = TELOPT_NEW_ENVIRON \<and> opt_states t OENV = INACTIVE
               then set_opt OENV REQUESTED (send_opt WILL TELOPT_OLD_ENVIRON t) else t)
      in option_side_effects o' False t)"

definition acknowledged :: "opt \<Rightarrow> telnet \<Rightarrow> telnet" where
  "acknowledged o' t =
     (case opt_states t (index o') of
        REQUESTED \<Rightarrow> activate_option o' (set_opt (index o') ACTIVE t)
      | ACTIVE \<Rightarrow> t
      | INACTIVE \<Rightarrow> activate_option o' (send_opt (send o') (code o') (set_opt (index o') ACTIVE t))
      | REALLY_INACTIVE \<Rightarrow> send_opt (nsend o') (code o') t)"

definition refused :: "opt \<Rightarrow> telnet \<Rightarrow> telnet" where
  "refused o' t =
     (case opt_states t (index o') of
        REQUESTED \<Rightarrow> refused_option o' (set_opt (index o') INACTIVE t)
      | ACTIVE \<Rightarrow> option_side_effects o' False (send_opt (nsend o') (code o') (set_opt (index o') INACTIVE t))
      | _ \<Rightarrow> t)"

fun find_opt :: "opt list \<Rightarrow> u8 \<Rightarrow> u8 \<Rightarrow> (opt \<times> bool) option" where
  "find_opt [] cmd option = None"
| "find_opt (o' # os) cmd option =
     (if code o' = option \<and> ack o' = cmd then Some (o', True)
      else if code o' = option \<and> nak o' = cmd then Some (o', False)
      else find_opt os cmd option)"

definition proc_rec_opt :: "u8 \<Rightarrow> u8 \<Rightarrow> telnet \<Rightarrow> telnet" where
  "proc_rec_opt cmd option t =
     (case find_opt opts cmd option of
        Some (o', True) \<Rightarrow> acknowledged o' t
      | Some (o', False) \<Rightarrow> refused o' t
      | None \<Rightarrow> if cmd = WILL \<or> cmd = DO then send_opt (if cmd = WILL then DONT else WONT) option t else t)"

section \<open>Subnegotiation\<close>

definition to_upper :: "u8 \<Rightarrow> u8" where
  "to_upper c = (if 0x61 \<le> c \<and> c \<le> 0x7A then c + 0x41 - 0x61 else c)"

text \<open>With the old option, VAR and VALUE are guessed from the last of the two codes in the request.\<close>

fun guess :: "bytes \<Rightarrow> u8 \<times> u8 \<Rightarrow> u8 \<times> u8" where
  "guess [] vv = vv"
| "guess (p # ps) vv =
     guess ps (if p = RFC_VAR then (RFC_VAR, RFC_VALUE) else if p = BSD_VAR then (BSD_VAR, BSD_VALUE) else vv)"

definition var_value :: "conf \<Rightarrow> u8 \<Rightarrow> bytes \<Rightarrow> u8 \<times> u8" where
  "var_value c option ps =
     (if option = TELOPT_OLD_ENVIRON
      then guess ps (if rfc_environ c then (RFC_VAR, RFC_VALUE) else (BSD_VAR, BSD_VALUE))
      else (RFC_VAR, RFC_VALUE))"

text \<open>The size of the buffer for the answer, and the answer.\<close>

definition environ_bsize :: "conf \<Rightarrow> nat" where
  "environ_bsize c = 20 + sum_list (map (\<lambda>(k, v). length k + length v + 2) (environmt c)) +
     (case user c of None \<Rightarrow> 0 | Some u \<Rightarrow> 6 + length u)"

definition environ_reply :: "conf \<Rightarrow> u8 \<Rightarrow> u8 \<times> u8 \<Rightarrow> bytes" where
  "environ_reply c option vv =
     (let (var, val) = vv in
      [IAC, SB, option, TELQUAL_IS] @ concat (map (\<lambda>(k, v). var # k @ val # v) (environmt c)) @
      (case user c of None \<Rightarrow> [] | Some u \<Rightarrow> var # str ''USER'' @ val # u) @ [IAC, SE])"

definition process_subneg :: "telnet \<Rightarrow> telnet" where
  "process_subneg t =
     (let c = cfg t in
      if sb_opt t = TELOPT_TSPEED then
        if sb_buf t = [TELQUAL_SEND]
        then sk_write ([IAC, SB, TELOPT_TSPEED, TELQUAL_IS] @ termspeed c @ [IAC, SE]) t else t
      else if sb_opt t = TELOPT_TTYPE then
        if sb_buf t = [TELQUAL_SEND]
        then sk_write ([IAC, SB, TELOPT_TTYPE, TELQUAL_IS] @ map to_upper (termtype c) @ [IAC, SE]) t else t
      else if sb_opt t = TELOPT_OLD_ENVIRON \<or> sb_opt t = TELOPT_NEW_ENVIRON then
        (case sb_buf t of
           p # ps \<Rightarrow> if p = TELQUAL_SEND
             then sk_write (environ_reply c (sb_opt t) (var_value c (sb_opt t) ps)) t else t
         | [] \<Rightarrow> t)
      else t)"

section \<open>Receiving\<close>

text \<open>One byte: the new state and what goes to the terminal.\<close>

definition read_char :: "u8 \<Rightarrow> telnet \<Rightarrow> telnet \<times> bytes" where
  "read_char c t =
     (case mode t of
        SEENIAC \<Rightarrow>
          if c = DO then (t\<lparr>mode := SEENDO\<rparr>, [])
          else if c = DONT then (t\<lparr>mode := SEENDONT\<rparr>, [])
          else if c = WILL then (t\<lparr>mode := SEENWILL\<rparr>, [])
          else if c = WONT then (t\<lparr>mode := SEENWONT\<rparr>, [])
          else if c = SB then (t\<lparr>mode := SEENSB\<rparr>, [])
          else if c = DM then (t\<lparr>in_synch := False, mode := TOP_LEVEL\<rparr>, [])
          else (t\<lparr>mode := TOP_LEVEL\<rparr>, if c = IAC then [c] else [])
      | SEENWILL \<Rightarrow> ((proc_rec_opt WILL c t)\<lparr>mode := TOP_LEVEL\<rparr>, [])
      | SEENWONT \<Rightarrow> ((proc_rec_opt WONT c t)\<lparr>mode := TOP_LEVEL\<rparr>, [])
      | SEENDO \<Rightarrow> ((proc_rec_opt DO c t)\<lparr>mode := TOP_LEVEL\<rparr>, [])
      | SEENDONT \<Rightarrow> ((proc_rec_opt DONT c t)\<lparr>mode := TOP_LEVEL\<rparr>, [])
      | SEENSB \<Rightarrow> (t\<lparr>sb_opt := c, sb_buf := [], mode := SUBNEGOT\<rparr>, [])
      | SUBNEGOT \<Rightarrow>
          if c = IAC then (t\<lparr>mode := SUBNEG_IAC\<rparr>, [])
          else (t\<lparr>sb_buf := sb_buf t @ [c], mode := SUBNEGOT\<rparr>, [])
      | SUBNEG_IAC \<Rightarrow>
          if c \<noteq> SE then (t\<lparr>sb_buf := sb_buf t @ [c], mode := SUBNEGOT\<rparr>, [])
          else ((process_subneg t)\<lparr>mode := TOP_LEVEL\<rparr>, [])
      | _ \<Rightarrow>
          if c = NUL \<and> mode t = SEENCR then (t\<lparr>mode := TOP_LEVEL\<rparr>, [])
          else if c = IAC then (t\<lparr>mode := SEENIAC\<rparr>, [])
          else
            let out = (if \<not> in_synch t then [c] else []);
                t = (if in_synch t \<and> c = DM then t\<lparr>in_synch := False\<rparr> else t)
            in (t\<lparr>mode := (if c = CR \<and> opt_states t THEY_BIN \<noteq> ACTIVE then SEENCR else TOP_LEVEL)\<rparr>, out))"

text \<open>The loop of \<open>do_telnet_read\<close>: the state, what has been written to the terminal, and \<open>outbuf\<close>.\<close>

fun read_loop :: "bytes \<Rightarrow> telnet \<Rightarrow> bytes list \<Rightarrow> bytes \<Rightarrow> telnet \<times> bytes list" where
  "read_loop [] t shown outbuf = (t, if outbuf \<noteq> [] then shown @ [outbuf] else shown)"
| "read_loop (c # cs) t shown outbuf =
     (let (t, b) = read_char c t; outbuf = outbuf @ b in
      if 4096 \<le> length outbuf then read_loop cs t (shown @ [outbuf]) []
      else read_loop cs t shown outbuf)"

definition do_telnet_read :: "bytes \<Rightarrow> telnet \<Rightarrow> telnet \<times> bytes list" where
  "do_telnet_read buf t = read_loop buf t [] []"

definition telnet_receive :: "bool \<Rightarrow> bytes \<Rightarrow> telnet \<Rightarrow> telnet \<times> bytes list" where
  "telnet_receive urgent data t = do_telnet_read data (if urgent then t\<lparr>in_synch := True\<rparr> else t)"

section \<open>Sending\<close>

definition iswritable :: "telnet \<Rightarrow> u8 \<Rightarrow> bool" where
  "iswritable t x \<longleftrightarrow> x \<noteq> IAC \<and> (opt_states t WE_BIN = ACTIVE \<or> x \<noteq> CR)"

function send_loop :: "bytes \<Rightarrow> telnet \<Rightarrow> telnet" where
  "send_loop p t =
     (if p = [] then t
      else
        let q = takeWhile (iswritable t) p; r = dropWhile (iswritable t) p;
            bad = takeWhile (\<lambda>c. \<not> iswritable t c) r
        in send_loop (dropWhile (\<lambda>c. \<not> iswritable t c) r)
             (sk_write (concat (map (\<lambda>c. if c = IAC then [IAC, IAC] else [CR, NUL]) bad)) (sk_write q t)))"
  by pat_completeness auto
termination
proof (relation "measure (\<lambda>(p, _). length p)", goal_cases)
  case (2 p t q r bad)
  show ?case
  proof (cases "r = []")
    case True
    then have "dropWhile (\<lambda>c. \<not> iswritable t c) r = []" by simp
    then show ?thesis using 2(1) by (simp only: list.size) simp
  next
    case False
    then have "\<not> iswritable t (hd r)" using hd_dropWhile[of "iswritable t" p] 2 by simp
    then have "length (dropWhile (\<lambda>c. \<not> iswritable t c) r) < length r"
      using False by (cases r) (auto simp: less_Suc_eq_le length_dropWhile_le)
    also have "\<dots> \<le> length p" using 2 by (simp add: length_dropWhile_le)
    finally show ?thesis by simp
  qed
qed simp

declare send_loop.simps [simp del]

definition telnet_send :: "bytes \<Rightarrow> telnet \<Rightarrow> telnet" where
  "telnet_send buf t = (if \<not> connected t then t else send_loop buf t)"

datatype special = SS_AYT | SS_BRK | SS_EC | SS_EL | SS_GA | SS_NOP | SS_ABORT | SS_AO | SS_IP | SS_SUSP | SS_EOR | SS_EOF
  | SS_EOL | SS_SYNCH | SS_PING | SS_OTHER

text \<open>The urgent byte of SYNCH is written like the others.\<close>

definition telnet_special :: "special \<Rightarrow> telnet \<Rightarrow> telnet" where
  "telnet_special s t =
     (if \<not> connected t then t
      else case s of
        SS_AYT \<Rightarrow> sk_write [IAC, 246] t
      | SS_BRK \<Rightarrow> sk_write [IAC, 243] t
      | SS_EC \<Rightarrow> sk_write [IAC, 247] t
      | SS_EL \<Rightarrow> sk_write [IAC, 248] t
      | SS_GA \<Rightarrow> sk_write [IAC, 249] t
      | SS_NOP \<Rightarrow> sk_write [IAC, 241] t
      | SS_ABORT \<Rightarrow> sk_write [IAC, 238] t
      | SS_AO \<Rightarrow> sk_write [IAC, 245] t
      | SS_IP \<Rightarrow> sk_write [IAC, 244] t
      | SS_SUSP \<Rightarrow> sk_write [IAC, 237] t
      | SS_EOR \<Rightarrow> sk_write [IAC, 239] t
      | SS_EOF \<Rightarrow> sk_write [IAC, 236] t
      | SS_EOL \<Rightarrow> sk_write (if opt_states t WE_BIN = ACTIVE then [CR] else [CR, LF]) t
      | SS_SYNCH \<Rightarrow> sk_write [DM] (sk_write [IAC] t)
      | SS_PING \<Rightarrow> if opt_states t THEY_SGA = ACTIVE then sk_write [IAC, 241] t else t
      | SS_OTHER \<Rightarrow> t)"

section \<open>Setting up and closing\<close>

fun request_all :: "opt list \<Rightarrow> telnet \<Rightarrow> telnet" where
  "request_all [] t = t"
| "request_all (o' # os) t =
     (let t = set_opt (index o') (initial o') t in
      request_all os (if initial o' = REQUESTED then send_opt (send o') (code o') t else t))"

text \<open>\<open>telnet_init\<close> with the errors of the name lookup and of the socket.\<close>

definition telnet_init :: "conf \<Rightarrow> bytes option \<Rightarrow> bytes option \<Rightarrow> bytes + telnet" where
  "telnet_init c addr_error socket_error =
     (case addr_error of
        Some e \<Rightarrow> Inl e
      | None \<Rightarrow>
          (case socket_error of
             Some e \<Rightarrow> Inl e
           | None \<Rightarrow>
               let t = \<lparr>connected = True, closed_on_socket_error = False, term_width = width c, term_height = height c,
                      opt_states = (\<lambda>_. INACTIVE), echoing = True, editing = True, activated = False, in_synch = False,
                      sb_opt = 0, sb_buf = [], mode = TOP_LEVEL, cfg = c, sent = []\<rparr>
               in Inr (if passive_telnet c then t else (request_all opts t)\<lparr>activated := True\<rparr>)))"

definition telnet_closing :: "bytes option \<Rightarrow> telnet \<Rightarrow> telnet" where
  "telnet_closing error_msg t =
     (if connected t
      then t\<lparr>connected := False, closed_on_socket_error := closed_on_socket_error t \<or> error_msg \<noteq> None\<rparr> else t)"

definition telnet_reconfig :: "conf \<Rightarrow> telnet \<Rightarrow> telnet" where
  "telnet_reconfig c t = t\<lparr>cfg := c\<rparr>"

definition telnet_exitcode :: "telnet \<Rightarrow> int" where
  "telnet_exitcode t = (if connected t then - 1 else if closed_on_socket_error t then 2147483647 else 0)"

definition telnet_ldisc_echo :: "telnet \<Rightarrow> bool" where "telnet_ldisc_echo t = echoing t"
definition telnet_ldisc_edit :: "telnet \<Rightarrow> bool" where "telnet_ldisc_edit t = editing t"

section \<open>What the steps leave alone\<close>

lemma sk_write_simps [simp]:
  "opt_states (sk_write b t) = opt_states t" "activated (sk_write b t) = activated t" "mode (sk_write b t) = mode t"
  "connected (sk_write b t) = connected t" "sent (sk_write b t) = sent t @ b" "cfg (sk_write b t) = cfg t"
  by (simp_all add: sk_write_def)

lemma set_opt_simps [simp]:
  "opt_states (set_opt i s t) = (opt_states t)(i := s)" "activated (set_opt i s t) = activated t"
  "sent (set_opt i s t) = sent t"
  by (simp_all add: set_opt_def)

lemma send_opt_simps [simp]:
  "opt_states (send_opt c v t) = opt_states t" "activated (send_opt c v t) = activated t"
  "sent (send_opt c v t) = sent t @ [IAC, c, v]"
  by (simp_all add: send_opt_def)

lemma telnet_size_simps [simp]:
  "opt_states (telnet_size w h t) = opt_states t" "activated (telnet_size w h t) = activated t"
  by (simp_all add: telnet_size_def Let_def)

lemma deactivate_simps [simp]:
  "opt_states (deactivate_option o' t) = (opt_states t)(index o' := REALLY_INACTIVE)"
  "activated (deactivate_option o' t) = activated t"
  by (simp_all add: deactivate_option_def)

lemma request_if_inactive_states:
  "opt_states (request_if_inactive o' t) = (opt_states t)(index o' := (if opt_states t (index o') = INACTIVE then REQUESTED else opt_states t (index o')))"
  "activated (request_if_inactive o' t) = activated t"
  by (auto simp: request_if_inactive_def)

lemma side_effects_activated [simp]: "activated (option_side_effects o' e t)"
  by (auto simp: option_side_effects_def Let_def)

lemma side_effects_states:
  "i \<notin> {ECHO, WE_SGA, THEY_SGA} \<or> activated t \<Longrightarrow> opt_states (option_side_effects o' e t) i = opt_states t i"
  by (auto simp: option_side_effects_def Let_def request_if_inactive_states o_echo_def o_we_sga_def o_they_sga_def)

lemma find_opt_Some: "find_opt os c v = Some (o', b) \<Longrightarrow> o' \<in> set os \<and> code o' = v \<and> (if b then ack o' = c else nak o' = c)"
  by (induction os) (auto split: if_splits)

lemma opt_index_cases:
  assumes "o' \<in> set opts"
  shows "(index o' = NENV \<longleftrightarrow> send o' = WILL \<and> code o' = TELOPT_NEW_ENVIRON) \<and>
    (index o' = OENV \<longleftrightarrow> send o' = WILL \<and> code o' = TELOPT_OLD_ENVIRON)"
  using assms by (auto simp: opts_def opt_defs)

section \<open>The invariant of the negotiation\<close>

definition negotiated :: "telnet \<Rightarrow> bool" where
  "negotiated t \<longleftrightarrow>
     (opt_states t NENV = ACTIVE \<longrightarrow> opt_states t OENV = REALLY_INACTIVE) \<and>
     (opt_states t OENV = ACTIVE \<longrightarrow> opt_states t NENV = REALLY_INACTIVE) \<and>
     (\<not> activated t \<longrightarrow> (\<forall>i. opt_states t i = INACTIVE))"

lemma negotiated_simps [simp]:
  "negotiated (sk_write b t) = negotiated t" "negotiated (send_opt c v t) = negotiated t"
  "negotiated (telnet_size w h t) = negotiated t" "negotiated (t\<lparr>mode := m\<rparr>) = negotiated t"
  "negotiated (t\<lparr>in_synch := y\<rparr>) = negotiated t" "negotiated (t\<lparr>sb_opt := v\<rparr>) = negotiated t"
  "negotiated (t\<lparr>sb_buf := b\<rparr>) = negotiated t" "negotiated (t\<lparr>connected := y\<rparr>) = negotiated t"
  "negotiated (t\<lparr>closed_on_socket_error := y\<rparr>) = negotiated t" "negotiated (t\<lparr>cfg := k\<rparr>) = negotiated t"
  by (simp_all add: negotiated_def)

lemma activate_states:
  assumes "i \<in> {NENV, OENV}"
  shows "opt_states (activate_option o' t) i =
    (if send o' = WILL \<and> (code o' = TELOPT_NEW_ENVIRON \<and> i = OENV \<or> code o' = TELOPT_OLD_ENVIRON \<and> i = NENV)
     then REALLY_INACTIVE else opt_states t i)"
  using assms
  by (auto simp: activate_option_def Let_def side_effects_states o_oenv_def o_nenv_def)

lemma activate_activated [simp]: "activated (activate_option o' t)" "activated (refused_option o' t)"
  by (simp_all add: activate_option_def refused_option_def Let_def)

lemma acknowledged_negotiated:
  assumes "o' \<in> set opts" "negotiated t"
  shows "negotiated (acknowledged o' t)"
proof -
  have x: "negotiated (activate_option o' t')" if "opt_states t' = (opt_states t)(index o' := ACTIVE)" for t'
    using assms(2) opt_index_cases[OF assms(1)] that by (auto simp: negotiated_def activate_states)
  show ?thesis
    using assms x by (cases "opt_states t (index o')") (simp_all add: acknowledged_def)
qed

lemma refused_negotiated:
  assumes "o' \<in> set opts" "negotiated t"
  shows "negotiated (refused o' t)"
proof (cases "opt_states t (index o') = REQUESTED \<or> opt_states t (index o') = ACTIVE")
  case True
  have "negotiated (refused_option o' t')" if "opt_states t' = (opt_states t)(index o' := INACTIVE)" for t'
    using assms(2) True that by (auto simp: negotiated_def refused_option_def Let_def side_effects_states)
  moreover have "negotiated (option_side_effects o' False t')" if "opt_states t' = (opt_states t)(index o' := INACTIVE)" for t'
    using assms(2) True that by (auto simp: negotiated_def side_effects_states)
  ultimately show ?thesis using True by (auto simp: refused_def)
next
  case False
  then show ?thesis using assms(2) by (cases "opt_states t (index o')") (simp_all add: refused_def)
qed

lemma proc_rec_opt_negotiated: "negotiated t \<Longrightarrow> negotiated (proc_rec_opt c v t)"
proof (cases "find_opt opts c v")
  case (Some p)
  assume n: "negotiated t"
  obtain o' b where p: "p = (o', b)" by (cases p)
  have "o' \<in> set opts" using find_opt_Some Some p by blast
  then show ?thesis
    using acknowledged_negotiated refused_negotiated n Some p by (cases b) (simp_all add: proc_rec_opt_def)
qed (simp add: proc_rec_opt_def)

lemma process_subneg_sent: "\<exists>b. process_subneg t = sk_write b t"
proof -
  have "t = sk_write [] t" by (simp add: sk_write_def)
  then show ?thesis unfolding process_subneg_def Let_def by (auto split: list.split)
qed

lemma process_subneg_negotiated [simp]: "negotiated (process_subneg t) = negotiated t"
  using process_subneg_sent[of t] by auto

lemma read_char_negotiated: "negotiated t \<Longrightarrow> negotiated (fst (read_char c t))"
proof -
  assume n: "negotiated t"
  have p: "negotiated (proc_rec_opt d v t)" for d v by (rule proc_rec_opt_negotiated[OF n])
  show ?thesis
    unfolding read_char_def Let_def by (cases "mode t") (simp_all add: n p)
qed

lemma read_loop_negotiated: "negotiated t \<Longrightarrow> negotiated (fst (read_loop cs t shown outbuf))"
  by (induction cs arbitrary: t shown outbuf) (auto simp: Let_def split_beta read_char_negotiated)

text \<open>The states of a connection.\<close>

inductive reachable :: "telnet \<Rightarrow> bool" where
  opened: "telnet_init c ae se = Inr t \<Longrightarrow> reachable t"
| received: "reachable t \<Longrightarrow> reachable (fst (telnet_receive urgent data t))"
| sending: "reachable t \<Longrightarrow> reachable (telnet_send data t)"
| resized: "reachable t \<Longrightarrow> reachable (telnet_size w h t)"
| commanded: "reachable t \<Longrightarrow> reachable (telnet_special s t)"
| closed: "reachable t \<Longrightarrow> reachable (telnet_closing e t)"
| reconfigured: "reachable t \<Longrightarrow> reachable (telnet_reconfig c t)"

lemma send_loop_negotiated [simp]: "negotiated (send_loop p t) = negotiated t"
proof (induction p t rule: send_loop.induct)
  case (1 p t)
  then show ?case by (subst send_loop.simps) (simp add: Let_def)
qed

lemma request_all_activated: "negotiated ((request_all opts t)\<lparr>activated := True\<rparr>)"
  by (simp add: negotiated_def opts_def opt_defs)

lemma init_negotiated:
  assumes "telnet_init c ae se = Inr t"
  shows "negotiated t"
proof -
  have "negotiated t" if "opt_states t = (\<lambda>_. INACTIVE)" for t using that by (simp add: negotiated_def)
  then show ?thesis
    using assms request_all_activated by (auto simp: telnet_init_def Let_def split: option.splits if_splits)
qed

lemma reachable_negotiated: "reachable t \<Longrightarrow> negotiated t"
proof (induction rule: reachable.induct)
  case (opened c ae se t)
  then show ?case by (rule init_negotiated)
next
  case (received t urgent data)
  then show ?case
    unfolding telnet_receive_def do_telnet_read_def by (intro read_loop_negotiated) simp
next
  case (commanded t s)
  then show ?case by (cases s) (simp_all add: telnet_special_def)
qed (simp_all add: telnet_closing_def telnet_reconfig_def telnet_send_def)

section \<open>Asking twice\<close>

lemma request_keep: "opt_states t i = ACTIVE \<Longrightarrow> opt_states (request_if_inactive o' t) i = ACTIVE"
  by (auto simp: request_if_inactive_states)

lemma side_effects_keep: "opt_states t i = ACTIVE \<Longrightarrow> opt_states (option_side_effects o' e t) i = ACTIVE"
proof -
  assume a: "opt_states t i = ACTIVE"
  have k: "opt_states u i = ACTIVE \<Longrightarrow> opt_states (if \<not> activated u
      then (request_if_inactive o_they_sga (request_if_inactive o_we_sga (request_if_inactive o_echo u)))\<lparr>activated := True\<rparr>
      else u) i = ACTIVE" for u
    using request_keep by simp
  show ?thesis unfolding option_side_effects_def Let_def by (rule k) (simp add: a)
qed

lemma activate_keeps: "o' \<in> set opts \<Longrightarrow> opt_states t (index o') = ACTIVE \<Longrightarrow> opt_states (activate_option o' t) (index o') = ACTIVE"
proof -
  assume o: "o' \<in> set opts" and a: "opt_states t (index o') = ACTIVE"
  have "index o' = OENV \<Longrightarrow> code o' \<noteq> TELOPT_NEW_ENVIRON" "index o' = NENV \<Longrightarrow> code o' \<noteq> TELOPT_OLD_ENVIRON"
    using opt_index_cases[OF o] by auto
  then have "index (if code o' = TELOPT_NEW_ENVIRON then o_oenv else o_nenv) \<noteq> index o' \<or> code o' \<noteq> TELOPT_NEW_ENVIRON \<and> code o' \<noteq> TELOPT_OLD_ENVIRON"
    by (cases "code o' = TELOPT_NEW_ENVIRON") (auto simp: o_oenv_def o_nenv_def)
  then have k: "opt_states u (index o') = ACTIVE \<Longrightarrow> opt_states (if send o' = WILL \<and> (code o' = TELOPT_NEW_ENVIRON \<or> code o' = TELOPT_OLD_ENVIRON)
      then deactivate_option (if code o' = TELOPT_NEW_ENVIRON then o_oenv else o_nenv) u else u) (index o') = ACTIVE" for u
    by (cases "code o' = TELOPT_NEW_ENVIRON"; cases "code o' = TELOPT_OLD_ENVIRON") simp_all
  show ?thesis
    unfolding activate_option_def Let_def by (rule side_effects_keep, rule k) (simp add: a)
qed

lemma acknowledged_again:
  assumes o: "o' \<in> set opts"
  shows "acknowledged o' (acknowledged o' t) = acknowledged o' t \<or>
    acknowledged o' (acknowledged o' t) = send_opt (nsend o') (code o') (acknowledged o' t)"
proof (cases "opt_states t (index o')")
  case REQUESTED
  have "opt_states (acknowledged o' t) (index o') = ACTIVE"
    using REQUESTED activate_keeps[OF o] by (simp add: acknowledged_def)
  then show ?thesis by (simp add: acknowledged_def)
next
  case INACTIVE
  have "opt_states (acknowledged o' t) (index o') = ACTIVE"
    using INACTIVE activate_keeps[OF o] by (simp add: acknowledged_def)
  then show ?thesis by (simp add: acknowledged_def)
qed (simp_all add: acknowledged_def)

lemma refused_again:
  assumes n: "negotiated t" and o: "o' \<in> set opts"
  shows "refused o' (refused o' t) = refused o' t"
proof (cases "opt_states t (index o') = REQUESTED \<or> opt_states t (index o') = ACTIVE")
  case True
  then have a: "activated t" using n by (auto simp: negotiated_def)
  have c: "index o' = OENV \<Longrightarrow> code o' \<noteq> TELOPT_NEW_ENVIRON" using opt_index_cases[OF o] by auto
  have "opt_states (refused_option o' (set_opt (index o') INACTIVE t)) (index o') = INACTIVE"
    using a c by (auto simp: refused_option_def Let_def side_effects_states)
  moreover have "opt_states (option_side_effects o' False (send_opt x y (set_opt (index o') INACTIVE t))) (index o') = INACTIVE" for x y
    using a by (simp add: side_effects_states)
  ultimately show ?thesis using True by (auto simp: refused_def)
next
  case False
  then show ?thesis by (cases "opt_states t (index o')") (simp_all add: refused_def)
qed

lemma ack_reply: "o' \<in> set opts \<Longrightarrow> (ack o' = WILL \<and> nsend o' = DONT) \<or> (ack o' = DO \<and> nsend o' = WONT)"
  by (auto simp: opts_def opt_defs)

section \<open>The byte stream\<close>

text \<open>The loop without the portions.\<close>

fun read_all :: "bytes \<Rightarrow> telnet \<Rightarrow> telnet \<times> bytes" where
  "read_all [] t = (t, [])"
| "read_all (c # cs) t = (let (t, b) = read_char c t; (t, r) = read_all cs t in (t, b @ r))"

lemma read_all_append: "read_all (a @ b) t = (let (t, x) = read_all a t; (t, y) = read_all b t in (t, x @ y))"
  by (induction a arbitrary: t) (auto simp: Let_def split_beta)

lemma read_loop_all: "fst (read_loop cs t shown outbuf) = fst (read_all cs t) \<and>
    concat (snd (read_loop cs t shown outbuf)) = concat shown @ outbuf @ snd (read_all cs t)"
  by (induction cs arbitrary: t shown outbuf) (auto simp: Let_def split_beta)

lemma snd_if: "snd (if b then x else y) = (if b then snd x else snd y)"
  by simp

lemma read_char_shows: "snd (read_char c t) = [] \<or> snd (read_char c t) = [c]"
  unfolding read_char_def Let_def by (cases "mode t") (simp_all only: mode.case snd_if snd_conv, simp_all)

lemma read_char_length: "length (snd (read_char c t)) \<le> 1"
  using read_char_shows[of c t] by auto

definition portion :: "bytes \<Rightarrow> bool" where
  "portion x \<longleftrightarrow> x \<noteq> [] \<and> length x \<le> 4096"

lemma read_loop_portions:
  "length outbuf < 4096 \<Longrightarrow> \<forall>x \<in> set shown. portion x \<Longrightarrow> \<forall>x \<in> set (snd (read_loop cs t shown outbuf)). portion x"
proof (induction cs arbitrary: t shown outbuf)
  case Nil
  then show ?case by (simp add: portion_def)
next
  case (Cons c cs)
  obtain t' b where r: "read_char c t = (t', b)" by (cases "read_char c t")
  have l: "length (outbuf @ b) \<le> 4096" using Cons.prems(1) read_char_length[of c t] r by simp
  show ?case
  proof (cases "4096 \<le> length (outbuf @ b)")
    case True
    then have "outbuf @ b \<noteq> []" by (cases "outbuf @ b = []") simp_all
    then have "portion (outbuf @ b)" using l by (simp only: portion_def simp_thms not_False_eq_True)
    then have "\<forall>x \<in> set (shown @ [outbuf @ b]). portion x" using Cons.prems(2) by simp
    then have "\<forall>x \<in> set (snd (read_loop cs t' (shown @ [outbuf @ b]) [])). portion x" by (intro Cons.IH) simp_all
    then show ?thesis using True by (simp only: read_loop.simps r Let_def prod.case if_True)
  next
    case False
    then have "\<forall>x \<in> set (snd (read_loop cs t' shown (outbuf @ b))). portion x" using Cons.prems(2) by (intro Cons.IH) simp_all
    then show ?thesis using False by (simp only: read_loop.simps r Let_def prod.case if_False)
  qed
qed

text \<open>What a sender writes for some data.\<close>

definition escape :: "bool \<Rightarrow> bytes \<Rightarrow> bytes" where
  "escape bin p = concat (map (\<lambda>c. if c = IAC then [IAC, IAC] else if c = CR \<and> \<not> bin then [CR, NUL] else [c]) p)"

lemma escape_append: "escape bin (p @ q) = escape bin p @ escape bin q"
  by (simp add: escape_def)

lemma escape_writable: "\<forall>c \<in> set p. iswritable t c \<Longrightarrow> escape (opt_states t WE_BIN = ACTIVE) p = p"
  by (induction p) (auto simp: escape_def iswritable_def)

lemma escape_other: "\<forall>c \<in> set p. \<not> iswritable t c \<Longrightarrow>
    escape (opt_states t WE_BIN = ACTIVE) p = concat (map (\<lambda>c. if c = IAC then [IAC, IAC] else [CR, NUL]) p)"
  by (induction p) (auto simp: escape_def iswritable_def)

lemma sk_write_twice: "sk_write b (sk_write a t) = sk_write (a @ b) t"
  by (simp add: sk_write_def)

lemma send_loop_escape: "send_loop p t = sk_write (escape (opt_states t WE_BIN = ACTIVE) p) t"
proof (induction p t rule: send_loop.induct)
  case (1 p t)
  show ?case
  proof (cases "p = []")
    case True
    then show ?thesis by (subst send_loop.simps) (simp add: escape_def sk_write_def)
  next
    case False
    let ?bin = "opt_states t WE_BIN = ACTIVE"
    let ?q = "takeWhile (iswritable t) p" and ?r = "dropWhile (iswritable t) p"
    let ?b = "takeWhile (\<lambda>c. \<not> iswritable t c) ?r" and ?s = "dropWhile (\<lambda>c. \<not> iswritable t c) ?r"
    have "p = ?q @ ?b @ ?s" by simp
    then have "escape ?bin p = escape ?bin ?q @ escape ?bin ?b @ escape ?bin ?s" by (metis escape_append)
    moreover have "escape ?bin ?q = ?q" by (rule escape_writable) (auto dest: set_takeWhileD)
    moreover have "escape ?bin ?b = concat (map (\<lambda>c. if c = IAC then [IAC, IAC] else [CR, NUL]) ?b)"
      by (rule escape_other) (auto dest: set_takeWhileD)
    ultimately show ?thesis
      using "1.IH"[OF False refl refl refl] False by (subst send_loop.simps) (simp add: Let_def sk_write_twice)
  qed
qed

lemma read_escape:
  assumes "mode t = TOP_LEVEL" "\<not> in_synch t" "opt_states t THEY_BIN = ACTIVE \<longleftrightarrow> bin"
  shows "read_all (escape bin p) t = (t, p)"
proof (induction p)
  case (Cons c p)
  have m: "t\<lparr>mode := TOP_LEVEL\<rparr> = t" using assms(1) by (intro telnet.equality) simp_all
  have "read_all (escape bin [c]) t = (t, [c])"
    using assms m by (auto simp: escape_def read_char_def Let_def)
  moreover have "escape bin (c # p) = escape bin [c] @ escape bin p" by (simp add: escape_def)
  ultimately show ?case using Cons by (simp add: read_all_append)
qed (simp add: escape_def)

lemma environ_reply_fits: "length (environ_reply c v vv) \<le> environ_bsize c"
proof -
  have "length (concat (map (\<lambda>(k, v). a # k @ b # v) es)) = sum_list (map (\<lambda>(k, v). length k + length v + 2) es)"
    for a b :: u8 and es by (induction es) auto
  then show ?thesis by (auto simp: environ_reply_def environ_bsize_def split_beta str_def split: option.split)
qed

section \<open>The properties\<close>

text \<open>
  In every state a connection reaches, at most one of the two options for environment
  variables is active, and the other has been given up for good.
\<close>

lemma one_environ_option:
  assumes "reachable t"
  shows "(opt_states t NENV = ACTIVE \<longrightarrow> opt_states t OENV = REALLY_INACTIVE) \<and>
    (opt_states t OENV = ACTIVE \<longrightarrow> opt_states t NENV = REALLY_INACTIVE)"
  using reachable_negotiated[OF assms] by (simp add: negotiated_def)

definition plain :: conf where
  "plain = \<lparr>termspeed = str ''38400,38400'', termtype = str ''xterm'', rfc_environ = False, environmt = [], user = None,
     passive_telnet = False, width = 80, height = 24\<rparr>"

definition opened_plain :: telnet where
  "opened_plain = (request_all opts \<lparr>connected = True, closed_on_socket_error = False, term_width = 80, term_height = 24,
     opt_states = (\<lambda>_. INACTIVE), echoing = True, editing = True, activated = False, in_synch = False,
     sb_opt = 0, sb_buf = [], mode = TOP_LEVEL, cfg = plain, sent = []\<rparr>)\<lparr>activated := True\<rparr>"

lemma opened_plain: "reachable opened_plain"
  by (rule reachable.opened[of plain None None]) (simp add: telnet_init_def plain_def opened_plain_def)

lemma after_refusal_and_old:
  "opt_states (fst (telnet_receive False [IAC, DONT, 39, IAC, DO, 36] opened_plain)) OENV = ACTIVE"
  by code_simp

lemma one_environ_option_example:
  "opt_states (fst (telnet_receive False [IAC, DONT, 39, IAC, DO, 36] opened_plain)) NENV = REALLY_INACTIVE"
  using one_environ_option[OF reachable.received[OF opened_plain]] after_refusal_and_old by blast

text \<open>
  C30: how a stream of bytes is cut does not matter: the backend ends in the same state and
  shows the same bytes, in portions of at most 4096.
\<close>

theorem read_in_portions:
  "fst (do_telnet_read (a @ b) t) = fst (do_telnet_read b (fst (do_telnet_read a t))) \<and>
   concat (snd (do_telnet_read (a @ b) t)) =
     concat (snd (do_telnet_read a t)) @ concat (snd (do_telnet_read b (fst (do_telnet_read a t)))) \<and>
   list_all portion (snd (do_telnet_read a t))"
  using read_loop_portions[of "[]" "[]" a t]
  by (simp add: do_telnet_read_def read_loop_all read_all_append split_beta Let_def list_all_iff)

text \<open>
  C15: what one side sends the other side shows. The sender is connected; the reader is between two
  commands, is not discarding data up to a data mark, and takes the stream for binary exactly when the
  sender does (its THEY_BIN is active exactly when the sender's WE_BIN is). Then the sender doubles IAC
  and, out of binary mode, puts a NUL after CR, and the reader undoes it, shows the data unchanged and
  ends in the state it began in.
\<close>

theorem send_then_read:
  assumes "connected t" "mode r = TOP_LEVEL" "\<not> in_synch r"
    "opt_states r THEY_BIN = ACTIVE \<longleftrightarrow> opt_states t WE_BIN = ACTIVE"
  shows "\<exists>wire. sent (telnet_send p t) = sent t @ wire \<and> fst (do_telnet_read wire r) = r \<and> concat (snd (do_telnet_read wire r)) = p"
proof -
  have "read_all (escape (opt_states t WE_BIN = ACTIVE) p) r = (r, p)" by (rule read_escape) (use assms in auto)
  then show ?thesis
    using assms(1) by (auto simp: telnet_send_def send_loop_escape do_telnet_read_def read_loop_all)
qed

theorem send_then_read_witness:
  "\<exists>wire. sent (telnet_send [13, 255, 65] opened_plain) = sent opened_plain @ wire \<and>
    concat (snd (do_telnet_read wire opened_plain)) = [13, 255, 65]"
proof -
  have "connected opened_plain" "mode opened_plain = TOP_LEVEL" "\<not> in_synch opened_plain"
    "opt_states opened_plain THEY_BIN = ACTIVE \<longleftrightarrow> opt_states opened_plain WE_BIN = ACTIVE" by code_simp+
  from send_then_read[OF this] show ?thesis by blast
qed

text \<open>
  C18: negotiation does not loop. In every state a connection reaches, a negotiation that is
  received a second time changes nothing: it is ignored, or it is a request that is refused
  again with one answer.
\<close>

theorem negotiation_twice:
  assumes "reachable t"
  shows "proc_rec_opt c v (proc_rec_opt c v t) = proc_rec_opt c v t \<or>
    (c = WILL \<and> proc_rec_opt c v (proc_rec_opt c v t) = send_opt DONT v (proc_rec_opt c v t)) \<or>
    (c = DO \<and> proc_rec_opt c v (proc_rec_opt c v t) = send_opt WONT v (proc_rec_opt c v t))"
proof (cases "find_opt opts c v")
  case None
  then show ?thesis by (simp add: proc_rec_opt_def)
next
  case (Some p)
  obtain o' b where p: "p = (o', b)" by (cases p)
  have o: "o' \<in> set opts" "code o' = v" "b \<Longrightarrow> ack o' = c" using find_opt_Some[of opts c v o' b] Some p by auto
  show ?thesis
  proof (cases b)
    case True
    then show ?thesis
      using acknowledged_again[OF o(1), of t] ack_reply[OF o(1)] o Some p by (auto simp: proc_rec_opt_def)
  next
    case False
    then show ?thesis
      using refused_again[OF reachable_negotiated[OF assms] o(1)] Some p by (simp add: proc_rec_opt_def)
  qed
qed

theorem negotiation_twice_witness:
  "proc_rec_opt DO 31 (proc_rec_opt DO 31 opened_plain) = proc_rec_opt DO 31 opened_plain \<or>
    proc_rec_opt DO 31 (proc_rec_opt DO 31 opened_plain) = send_opt WONT 31 (proc_rec_opt DO 31 opened_plain)"
  using negotiation_twice[OF opened_plain, of DO 31] by auto

end
