(* ===== verification/Adder.thy ===== *)
theory Adder
  imports Prelude
begin

text \<open>
  \<open>adding-machine/challenge/src/adder.c\<close>: reads how many numbers to add, the numbers, and
  prints their sum. The array on the stack has 127 elements; an element outside it is a
  fault. What the debug commands print of the frame is a parameter.
\<close>

abbreviation (input) CHAR_MAX :: int where "CHAR_MAX \<equiv> 127"
abbreviation (input) SCRATCH_LEN :: nat where "SCRATCH_LEN \<equiv> 127"

text \<open>\<open>atol\<close>: white space, a sign, digits; glibc saturates.\<close>

definition is_space :: "u8 \<Rightarrow> bool" where
  "is_space c \<longleftrightarrow> c = 0x20 \<or> (9 \<le> c \<and> c \<le> 13)"

definition is_decimal :: "u8 \<Rightarrow> bool" where
  "is_decimal c \<longleftrightarrow> 0x30 \<le> c \<and> c \<le> 0x39"

definition clamp :: "int \<Rightarrow> int" where
  "clamp i = max (- (2 ^ 63)) (min (2 ^ 63 - 1) i)"

definition atol :: "bytes \<Rightarrow> int" where
  "atol s =
     (let t = dropWhile is_space s;
          neg = (t \<noteq> [] \<and> hd t = 0x2D);
          t = (if t \<noteq> [] \<and> (hd t = 0x2D \<or> hd t = 0x2B) then tl t else t);
          v = int (fold (\<lambda>c v. v * 10 + (unat c - 0x30)) (takeWhile is_decimal t) 0)
      in clamp (if neg then - v else v))"

record io =
  inp :: bytes
  out :: bytes

datatype 'a result = Value 'a io | Quit io | Fault io

text \<open>
  \<open>get_long\<close>; \<open>dbg\<close> and \<open>localdbg\<close> are what the two debug commands print. A line without
  newline is cut after 31 characters and the rest is read next.
\<close>

function get_long :: "bytes \<Rightarrow> bytes \<Rightarrow> bytes \<Rightarrow> io \<Rightarrow> int result" where
  "get_long dbg localdbg prompt s =
     (let s = s\<lparr>out := out s @ prompt @ str ''> ''\<rparr> in
      case fgets 32 (inp s) of
        None \<Rightarrow> Quit s
      | Some (line, rest) \<Rightarrow>
          let s = s\<lparr>inp := rest\<rparr>; buf = takeWhile (\<lambda>c. c \<noteq> 0x0A) (cstr line) in
          if buf = str ''quit'' then Quit s
          else if buf = str ''debug'' then get_long dbg localdbg prompt (s\<lparr>out := out s @ dbg\<rparr>)
          else if buf = str ''localdebug'' then get_long dbg localdbg prompt (s\<lparr>out := out s @ localdbg\<rparr>)
          else Value (atol buf) s)"
  by pat_completeness auto
termination by (relation "measure (\<lambda>(_, _, _, s). length (inp s))") (auto dest: fgets_decreases)

declare get_long.simps [simp del]

text \<open>\<open>get_data\<close> from element \<open>i\<close> on; \<open>None\<close> elements of the array are not written yet.\<close>

function get_data_loop :: "bytes \<Rightarrow> bytes \<Rightarrow> nat \<Rightarrow> nat \<Rightarrow> int option list \<Rightarrow> io \<Rightarrow> int option list result" where
  "get_data_loop dbg localdbg l i array s =
     (if i < l then
        (case get_long dbg localdbg (str ''long '' @ decimal i) s of
           Quit s \<Rightarrow> Quit s
         | Fault s \<Rightarrow> Fault s
         | Value v s \<Rightarrow>
             (case wr array i (Some v) of
                None \<Rightarrow> Fault s
              | Some array \<Rightarrow> get_data_loop dbg localdbg l (i + 1) array s))
      else Value array s)"
  by pat_completeness auto
termination by (relation "measure (\<lambda>(_, _, l, i, _, _). l - i)") auto

declare get_data_loop.simps [simp del]

definition get_data :: "bytes \<Rightarrow> bytes \<Rightarrow> u8 \<Rightarrow> int option list \<Rightarrow> io \<Rightarrow> int option list result" where
  "get_data dbg localdbg l array s = get_data_loop dbg localdbg (unat l) 0 array s"

text \<open>A \<open>long\<close> of 64 bits; the compiler's addition wraps.\<close>

fun add_loop :: "nat \<Rightarrow> nat \<Rightarrow> int option list \<Rightarrow> u64 \<Rightarrow> u64 option" where
  "add_loop 0 i array acc = Some acc"
| "add_loop (Suc n) i array acc =
     (case rd array i of
        Some (Some v) \<Rightarrow> add_loop n (i + 1) array (acc + word_of_int v)
      | _ \<Rightarrow> None)"

definition add_nums :: "int option list \<Rightarrow> u8 \<Rightarrow> u64 option" where
  "add_nums array l = add_loop (unat l) 0 array 0"

definition decimal_signed :: "int \<Rightarrow> bytes" where
  "decimal_signed i = (if i < 0 then 0x2D # decimal (nat (- i)) else decimal (nat i))"

definition put_line :: "bytes \<Rightarrow> io \<Rightarrow> io" where
  "put_line b s = s\<lparr>out := out s @ b @ [0x0A]\<rparr>"

text \<open>\<open>main\<close> behind the banner: the exit code.\<close>

definition main :: "bytes \<Rightarrow> bytes \<Rightarrow> io \<Rightarrow> int result" where
  "main dbg localdbg s =
     (case get_long dbg localdbg (str ''Number of numbers to add'') s of
        Quit s \<Rightarrow> Quit s
      | Fault s \<Rightarrow> Fault s
      | Value num_ints s \<Rightarrow>
          if num_ints > CHAR_MAX then
            Value 1 (put_line (str ''Error, can only handle up to 127 (CHAR_MAX) values!'') s)
          else
            (case get_data dbg localdbg (word_of_int num_ints) (replicate SCRATCH_LEN None) s of
               Quit s \<Rightarrow> Quit s
             | Fault s \<Rightarrow> Fault s
             | Value scratch s \<Rightarrow>
                 (case add_nums scratch (word_of_int num_ints) of
                    None \<Rightarrow> Fault s
                  | Some tot \<Rightarrow> Value 0 (put_line (str ''Total is '' @ decimal_signed (sint tot)) s))))"

section \<open>The debug dump\<close>

definition hexdump_line :: "bytes \<Rightarrow> bytes \<Rightarrow> bytes" where
  "hexdump_line addr p =
     addr @ str '' | '' @
     concat (map (\<lambda>i. hex2 (p ! i) @ [0x20] @ (if i = 7 then [0x20] else [])) [0..<16]) @ str ''|'' @
     map (\<lambda>i. if 0x20 \<le> p ! i \<and> p ! i \<le> 0x7E then p ! i else 0x2E) [0..<16] @ str ''|'' @ [0x0A]"

text \<open>The frame between two addresses; \<open>ptr\<close> is the text of an address.\<close>

function dump :: "(nat \<Rightarrow> bytes) \<Rightarrow> (nat \<Rightarrow> u8) \<Rightarrow> nat \<Rightarrow> nat \<Rightarrow> bytes" where
  "dump ptr mem p rbp =
     (if p \<le> rbp then hexdump_line (ptr p) (map (\<lambda>i. mem (p + i)) [0..<16]) @ dump ptr mem (p + 16) rbp else [])"
  by pat_completeness auto
termination by (relation "measure (\<lambda>(_, _, p, rbp). rbp + 1 - p)") auto

declare dump.simps [simp del]

definition debug :: "(nat \<Rightarrow> bytes) \<Rightarrow> (nat \<Rightarrow> u8) \<Rightarrow> nat \<Rightarrow> nat \<Rightarrow> nat \<Rightarrow> bytes \<Rightarrow> nat \<Rightarrow> nat \<Rightarrow> bytes" where
  "debug ptr mem main_addr printf_addr malloc_addr func rbp rsp =
     str ''Debug in '' @ func @ [0x0A] @ str ''  main @ '' @ ptr main_addr @ [0x0A] @
     str ''  printf @ '' @ ptr printf_addr @ [0x0A] @ str ''  malloc @ '' @ ptr malloc_addr @ [0x0A, 0x0A] @
     str ''RSP is '' @ ptr rsp @ str '', RBP is '' @ ptr rbp @ [0x0A, 0x0A] @ dump ptr mem rsp rbp"

section \<open>Reading the numbers\<close>

text \<open>The numbers one after the other, without an array.\<close>

fun read_n :: "bytes \<Rightarrow> bytes \<Rightarrow> nat \<Rightarrow> nat \<Rightarrow> io \<Rightarrow> int list result" where
  "read_n dbg localdbg i 0 s = Value [] s"
| "read_n dbg localdbg i (Suc k) s =
     (case get_long dbg localdbg (str ''long '' @ decimal i) s of
        Value v s \<Rightarrow>
          (case read_n dbg localdbg (i + 1) k s of
             Value vs s \<Rightarrow> Value (v # vs) s
           | Quit s \<Rightarrow> Quit s
           | Fault s \<Rightarrow> Fault s)
      | Quit s \<Rightarrow> Quit s
      | Fault s \<Rightarrow> Fault s)"

lemma read_n_length: "read_n dbg localdbg i k s = Value vs s' \<Longrightarrow> length vs = k"
  by (induction k arbitrary: i s vs) (auto split: result.splits)

lemma get_data_fits:
  assumes "i + k = l" "l \<le> length array"
  shows "get_data_loop dbg localdbg l i array s =
    (case read_n dbg localdbg i k s of
       Value vs s' \<Rightarrow> Value (take i array @ map Some vs @ drop l array) s'
     | Quit s' \<Rightarrow> Quit s'
     | Fault s' \<Rightarrow> Fault s')"
  using assms
proof (induction k arbitrary: i array s)
  case 0
  then show ?case by (subst get_data_loop.simps) simp
next
  case (Suc k)
  show ?case
  proof (cases "get_long dbg localdbg (str ''long '' @ decimal i) s")
    case (Value v s1)
    let ?a = "array[i := Some v]"
    have "wr array i (Some v) = Some ?a" using Suc.prems by (simp add: wr_def)
    moreover have "take (Suc i) ?a = take i array @ [Some v]" using Suc.prems by (simp add: take_Suc_conv_app_nth)
    moreover have "drop l ?a = drop l array" using Suc.prems by simp
    ultimately show ?thesis
      using Value Suc.IH[of "i + 1" ?a s1] Suc.prems by (subst get_data_loop.simps) (simp split: result.split)
  qed (use Suc.prems in \<open>subst get_data_loop.simps, simp\<close>)+
qed

lemma get_data_overflows:
  assumes "i + k = length array" "length array < l"
  shows "get_data_loop dbg localdbg l i array s =
    (case read_n dbg localdbg i (Suc k) s of
       Value vs s' \<Rightarrow> Fault s'
     | Quit s' \<Rightarrow> Quit s'
     | Fault s' \<Rightarrow> Fault s')"
  using assms
proof (induction k arbitrary: i array s)
  case 0
  then show ?case by (subst get_data_loop.simps) (simp add: wr_def split: result.split)
next
  case (Suc k)
  show ?case
  proof (cases "get_long dbg localdbg (str ''long '' @ decimal i) s")
    case (Value v s1)
    have "wr array i (Some v) = Some (array[i := Some v])" using Suc.prems by (simp add: wr_def)
    then show ?thesis
      using Value Suc.IH[of "i + 1" "array[i := Some v]" s1] Suc.prems
      by (subst get_data_loop.simps) (simp del: read_n.simps add: read_n.simps(2)[of _ _ i "Suc k"] split: result.split)
  qed (use Suc.prems in \<open>subst get_data_loop.simps, simp\<close>)+
qed

lemma add_loop_sum: "add_loop (length vs) (length us) (us @ map Some vs @ ws) acc = Some (acc + word_of_int (sum_list vs))"
proof (induction vs arbitrary: us acc)
  case (Cons v vs)
  then show ?case using Cons.IH[of "us @ [Some v]"] by (simp add: rd_def nth_append)
qed simp

section \<open>The property\<close>

text \<open>
  What the program does once it knows how many numbers are coming. Up to 127 it reads
  them and prints their sum modulo 2 to the 64; more than 127 is refused; but a negative count
  passes the check and is cast to an unsigned char, and one that becomes more than 127 makes
  the program write the 128th number behind the array.
\<close>

lemma adder_main:
  assumes "get_long dbg localdbg (str ''Number of numbers to add'') s = Value n s1"
  defines "l \<equiv> unat (word_of_int n :: u8)"
  shows "main dbg localdbg s =
    (if n > CHAR_MAX then Value 1 (put_line (str ''Error, can only handle up to 127 (CHAR_MAX) values!'') s1)
     else if l \<le> SCRATCH_LEN then
       (case read_n dbg localdbg 0 l s1 of
          Value vs s2 \<Rightarrow> Value 0 (put_line (str ''Total is '' @ decimal_signed (sint (word_of_int (sum_list vs) :: u64))) s2)
        | Quit s2 \<Rightarrow> Quit s2
        | Fault s2 \<Rightarrow> Fault s2)
     else
       (case read_n dbg localdbg 0 128 s1 of
          Value vs s2 \<Rightarrow> Fault s2
        | Quit s2 \<Rightarrow> Quit s2
        | Fault s2 \<Rightarrow> Fault s2))"
proof -
  let ?a = "replicate SCRATCH_LEN None :: int option list"
  consider "n > CHAR_MAX" | "\<not> n > CHAR_MAX" "l \<le> SCRATCH_LEN" | "\<not> n > CHAR_MAX" "SCRATCH_LEN < l" by linarith
  then show ?thesis
  proof cases
    case 1
    then show ?thesis using assms(1) by (simp add: main_def)
  next
    case 2
    have d: "get_data dbg localdbg (word_of_int n) ?a s1 = (case read_n dbg localdbg 0 l s1 of
        Value vs s' \<Rightarrow> Value (map Some vs @ drop l ?a) s' | Quit s' \<Rightarrow> Quit s' | Fault s' \<Rightarrow> Fault s')"
      using get_data_fits[of 0 l l ?a dbg localdbg s1] 2(2) unfolding get_data_def l_def[symmetric] by (simp split: result.splits)
    show ?thesis
    proof (cases "read_n dbg localdbg 0 l s1")
      case (Value vs s2)
      have "add_nums (map Some vs @ drop l ?a) (word_of_int n) = Some (word_of_int (sum_list vs))"
        using add_loop_sum[of vs "[]" "drop l ?a" 0] read_n_length[OF Value] by (simp add: add_nums_def l_def)
      then show ?thesis using assms(1) 2 d Value by (simp add: main_def)
    qed (use assms(1) 2 d in \<open>simp_all add: main_def\<close>)
  next
    case 3
    have "get_data dbg localdbg (word_of_int n) ?a s1 = (case read_n dbg localdbg 0 128 s1 of
        Value vs s' \<Rightarrow> Fault s' | Quit s' \<Rightarrow> Quit s' | Fault s' \<Rightarrow> Fault s')"
      using get_data_overflows[of 0 127 ?a l dbg localdbg s1] 3(2) unfolding get_data_def l_def[symmetric] by simp
    then show ?thesis using assms(1) 3 by (auto simp: main_def split: result.split)
  qed
qed

lemma adder_main_example:
  "\<exists>s1. main [] [] \<lparr>inp = str ''2'' @ [0x0A] @ str ''40'' @ [0x0A] @ str ''-5'' @ [0x0A], out = []\<rparr> =
    (case read_n [] [] 0 2 s1 of
       Value vs s2 \<Rightarrow> Value 0 (put_line (str ''Total is '' @ decimal_signed (sint (word_of_int (sum_list vs) :: u64))) s2)
     | Quit s2 \<Rightarrow> Quit s2
     | Fault s2 \<Rightarrow> Fault s2) \<and> (\<exists>s2. read_n [] [] 0 2 s1 = Value [40, -5] s2)"
proof -
  let ?s1 = "\<lparr>inp = str ''40'' @ [0x0A] @ str ''-5'' @ [0x0A], out = str ''Number of numbers to add> ''\<rparr>"
  have "get_long [] [] (str ''Number of numbers to add'') \<lparr>inp = str ''2'' @ [0x0A] @ str ''40'' @ [0x0A] @ str ''-5'' @ [0x0A], out = []\<rparr>
      = Value 2 ?s1" by code_simp
  from adder_main[OF this] have "main [] [] \<lparr>inp = str ''2'' @ [0x0A] @ str ''40'' @ [0x0A] @ str ''-5'' @ [0x0A], out = []\<rparr> =
    (case read_n [] [] 0 2 ?s1 of
       Value vs s2 \<Rightarrow> Value 0 (put_line (str ''Total is '' @ decimal_signed (sint (word_of_int (sum_list vs) :: u64))) s2)
     | Quit s2 \<Rightarrow> Quit s2
     | Fault s2 \<Rightarrow> Fault s2)" by simp
  moreover have "case read_n [] [] 0 2 ?s1 of Value vs s2 \<Rightarrow> vs = [40, -5] | _ \<Rightarrow> False" by code_simp
  ultimately show ?thesis by (intro exI[of _ ?s1]) (auto split: result.splits)
qed

text \<open>A count of \<open>-1\<close> becomes 255.\<close>

lemma negative_count: "unat (word_of_int (- 1) :: u8) = 255"
  by code_simp

end
