(* ===== verification/StraceMe.thy ===== *)
theory StraceMe
  imports Prelude
begin

text \<open>
  \<open>strace-me/challenge/strace-me.c\<close>: a program that fills a buffer with machine code from
  templates and calls it. The buffer is built byte by byte as in the code; a reader of the
  eight x86 instructions that occur says which system calls the buffer makes.
\<close>

section \<open>Building the code\<close>

definition SYSCALLS :: "u8 list" where
  "SYSCALLS = [
     5, 8, 9, 10, 11, 12, 13, 14, 15, 16, 18, 21, 22, 25, 26, 31, 32, 33, 38, 39, 40, 42, 43, 45, 51, 52,
     58, 59, 61, 74, 75, 76, 77, 78, 79, 82, 83, 84, 85, 86, 87, 88, 90, 91, 92, 96, 97, 98, 99, 101,
     104, 105, 106, 107, 109, 113, 115, 116, 121, 122, 124, 125, 126, 127, 128, 129, 130, 134, 135, 137,
     144, 149, 150, 151, 159, 160, 162, 163, 165, 166, 167, 168, 169, 171, 172, 175, 176, 177, 179, 182,
     183, 184, 185, 186, 188, 189, 191, 192, 193, 195, 196, 198, 209, 211, 212, 217, 218, 219, 222, 223,
     226, 227, 229, 230, 232, 233, 235, 236, 240, 243, 244, 246, 247, 248, 249, 251]"

text \<open>The templates differ in the four bytes behind the opcode 0xBB only.\<close>

definition template :: "bytes \<Rightarrow> bytes" where
  "template arg =
     [0xB8, 0, 0, 0, 0, 0xBB] @ arg @
     [0xB9, 0x80, 0x80, 0x80, 0x80, 0xBA, 0x80, 0x80, 0x80, 0x80,
      0xBE, 0x80, 0x80, 0x80, 0x80, 0xBF, 0x80, 0x80, 0x80, 0x80, 0xCD, 0x80]"

definition ARGS :: "bytes list" where
  "ARGS = [
     [0x2E, 0x13, 0x01, 0x16],
     [0x0A, 0x30, 0x3D, 0x21],
     [0x32, 0x3B, 0x3A, 0x39],
     [0x21, 0x0A, 0x27, 0x30],
     [0x33, 0x0A, 0x30, 0x3D],
     [0x0A, 0x32, 0x34, 0x39],
     [0x21, 0x0A, 0x26, 0x3C],
     [0x38, 0x0A, 0x30, 0x3D],
     [0x0A, 0x30, 0x27, 0x3A],
     [0x30, 0x21, 0x3B, 0x3C],
     [0x21, 0x26, 0x30, 0x27],
     [0x0A, 0x32, 0x3B, 0x3C],
     [0x25, 0x21, 0x20, 0x3A],
     [0x2C, 0x0A, 0x21, 0x20],
     [0x34, 0x0A, 0x20, 0x3A],
     [0x26, 0x0A, 0x30, 0x27],
     [0x3B, 0x3C, 0x30, 0x30],
     [0x3A, 0x26, 0x0A, 0x32],
     [0x30, 0x3D, 0x21, 0x0A],
     [0x3B, 0x3A, 0x39, 0x0A],
     [0x39, 0x33, 0x0A, 0x32],
     [0x3C, 0x0A, 0x32, 0x34],
     [0x3A, 0x39, 0x0A, 0x26],
     [0x28, 0x74, 0x32, 0x3B]]"

definition TEMPLATES :: "bytes list" where
  "TEMPLATES = map template ARGS"

text \<open>\<open>memcpy\<close> into the buffer, \<open>None\<close> behind its end.\<close>

fun copy_at :: "nat \<Rightarrow> bytes \<Rightarrow> bytes \<Rightarrow> bytes option" where
  "copy_at p [] buffer = Some buffer"
| "copy_at p (x # xs) buffer = Option.bind (wr buffer p x) (copy_at (p + 1) xs)"

definition xor_at :: "nat \<Rightarrow> u8 \<Rightarrow> bytes \<Rightarrow> bytes option" where
  "xor_at p x buffer = Option.bind (rd buffer p) (\<lambda>b. wr buffer p (b XOR x))"

text \<open>The loop of \<open>main\<close>; \<open>rnd\<close> gives the values of \<open>rand()\<close>.\<close>

fun fill_loop :: "(nat \<Rightarrow> nat) \<Rightarrow> nat \<Rightarrow> bytes list \<Rightarrow> bytes \<Rightarrow> bytes option" where
  "fill_loop rnd i [] buffer = copy_at (32 * i) [0x31, 0xC0, 0x40, 0x31, 0xDB, 0xCD, 0x80] buffer"
| "fill_loop rnd i (t # ts) buffer =
     Option.bind (copy_at (32 * i) (take 32 t) buffer) (\<lambda>buffer.
     Option.bind (wr buffer (32 * i + 1) (SYSCALLS ! (rnd i mod length SYSCALLS))) (\<lambda>buffer.
     Option.bind (xor_at (32 * i + 6) 0x55 buffer) (\<lambda>buffer.
     Option.bind (xor_at (32 * i + 7) 0x55 buffer) (\<lambda>buffer.
     Option.bind (xor_at (32 * i + 8) 0x55 buffer) (\<lambda>buffer.
     Option.bind (xor_at (32 * i + 9) 0x55 buffer) (\<lambda>buffer.
     fill_loop rnd (i + 1) ts buffer))))))"

definition main :: "(nat \<Rightarrow> nat) \<Rightarrow> bytes option" where
  "main rnd = fill_loop rnd 0 TEMPLATES (replicate (length TEMPLATES * 32 + 7) 0)"

section \<open>Running the code\<close>

record regs =
  eax :: u32
  ebx :: u32

text \<open>
  The x86 instructions of the buffer: loads of an immediate, clearing and incrementing a
  register, and the system call. \<open>None\<close>: another instruction, or the end of the bytes. System
  call 1 ends the program, any other one goes on.
\<close>

fun execute :: "bytes \<Rightarrow> regs \<Rightarrow> (u32 \<times> u32) list option" where
  "execute (op # p) r =
     (if op = 0xB8 then (case p of a # b # c # d # q \<Rightarrow> execute q (r\<lparr>eax := of_le [a, b, c, d]\<rparr>) | _ \<Rightarrow> None)
      else if op = 0xBB then (case p of a # b # c # d # q \<Rightarrow> execute q (r\<lparr>ebx := of_le [a, b, c, d]\<rparr>) | _ \<Rightarrow> None)
      else if op = 0xB9 \<or> op = 0xBA \<or> op = 0xBE \<or> op = 0xBF then (case p of a # b # c # d # q \<Rightarrow> execute q r | _ \<Rightarrow> None)
      else if op = 0x40 then execute p (r\<lparr>eax := eax r + 1\<rparr>)
      else if op = 0x31 then
        (case p of
           m # q \<Rightarrow> if m = 0xC0 then execute q (r\<lparr>eax := 0\<rparr>) else if m = 0xDB then execute q (r\<lparr>ebx := 0\<rparr>) else None
         | [] \<Rightarrow> None)
      else if op = 0xCD then
        (case p of
           m # q \<Rightarrow>
             if m = 0x80 then
               if eax r = 1 then Some [(1, ebx r)] else map_option ((#) (eax r, ebx r)) (execute q r)
             else None
         | [] \<Rightarrow> None)
      else None)"
| "execute [] r = None"

section \<open>What the buffer holds\<close>

lemma copy_at_front: "length ys = length xs \<Longrightarrow> copy_at (length pre) xs (pre @ ys @ rest) = Some (pre @ xs @ rest)"
proof (induction xs arbitrary: pre ys)
  case (Cons x xs)
  then obtain y zs where y: "ys = y # zs" "length zs = length xs" by (cases ys) auto
  have "wr (pre @ ys @ rest) (length pre) x = Some (pre @ x # zs @ rest)" using y by (simp add: wr_def list_update_append)
  then show ?case using Cons.IH[of zs "pre @ [x]"] y by simp
qed simp

lemma wr_block: "k < length xs \<Longrightarrow> n = length pre \<Longrightarrow> wr (pre @ xs @ rest) (n + k) y = Some (pre @ xs[k := y] @ rest)"
  by (simp add: wr_def list_update_append)

lemma xor_block: "k < length xs \<Longrightarrow> n = length pre \<Longrightarrow> xor_at (n + k) x (pre @ xs @ rest) = Some (pre @ xs[k := xs ! k XOR x] @ rest)"
  by (simp add: xor_at_def wr_block rd_def nth_append)

text \<open>One block of code: a system call number and the four bytes of its first argument.\<close>

definition block :: "u8 \<Rightarrow> bytes \<Rightarrow> bytes" where
  "block s arg =
     [0xB8, s, 0, 0, 0, 0xBB] @ map (\<lambda>b. b XOR 0x55) arg @
     [0xB9, 0x80, 0x80, 0x80, 0x80, 0xBA, 0x80, 0x80, 0x80, 0x80,
      0xBE, 0x80, 0x80, 0x80, 0x80, 0xBF, 0x80, 0x80, 0x80, 0x80, 0xCD, 0x80]"

definition picked :: "(nat \<Rightarrow> nat) \<Rightarrow> nat \<Rightarrow> u8" where
  "picked rnd i = SYSCALLS ! (rnd i mod length SYSCALLS)"

fun blocks :: "(nat \<Rightarrow> nat) \<Rightarrow> nat \<Rightarrow> bytes list \<Rightarrow> bytes" where
  "blocks rnd i [] = [0x31, 0xC0, 0x40, 0x31, 0xDB, 0xCD, 0x80]"
| "blocks rnd i (a # as) = block (picked rnd i) a @ blocks rnd (i + 1) as"

lemma length_template: "length arg = 4 \<Longrightarrow> length (template arg) = 32"
  by (simp add: template_def)

lemma four: "length arg = 4 \<Longrightarrow> \<exists>a b c d. arg = [a, b, c, d]"
  by (auto simp: length_Suc_conv eval_nat_numeral)

lemma patch_template:
  assumes "length arg = 4"
  shows "let t = (template arg)[1 := s]; t = t[6 := t ! 6 XOR 0x55]; t = t[7 := t ! 7 XOR 0x55]; t = t[8 := t ! 8 XOR 0x55];
    t = t[9 := t ! 9 XOR 0x55] in t = block s arg"
proof -
  obtain a b c d where "arg = [a, b, c, d]" using four[OF assms] by blast
  then show ?thesis by (simp add: template_def block_def Let_def)
qed

lemma fill_loop_blocks:
  assumes "\<forall>a \<in> set as. length a = 4" "length pre = 32 * i"
  shows "fill_loop rnd i (map template as) (pre @ replicate (length as * 32 + 7) 0) = Some (pre @ blocks rnd i as)"
  using assms
proof (induction as arbitrary: i pre)
  case Nil
  then show ?case
    using copy_at_front[of "replicate 7 0" "[0x31, 0xC0, 0x40, 0x31, 0xDB, 0xCD, 0x80]" pre "[]"] by simp
next
  case (Cons a as)
  let ?rest = "replicate (length as * 32 + 7) 0 :: bytes" and ?t = "template a"
  let ?t1 = "?t[1 := picked rnd i]"
  let ?t2 = "?t1[6 := ?t1 ! 6 XOR 0x55]"
  let ?t3 = "?t2[7 := ?t2 ! 7 XOR 0x55]"
  let ?t4 = "?t3[8 := ?t3 ! 8 XOR 0x55]"
  let ?t5 = "?t4[9 := ?t4 ! 9 XOR 0x55]"
  have l: "length a = 4" "length ?t = 32" using Cons.prems by (auto simp: length_template)
  have "replicate (length (a # as) * 32 + 7) 0 = replicate 32 0 @ ?rest" by (simp flip: replicate_add)
  then have c: "copy_at (32 * i) (take 32 ?t) (pre @ replicate (length (a # as) * 32 + 7) 0) = Some (pre @ ?t @ ?rest)"
    using copy_at_front[of "replicate 32 0" ?t pre ?rest] l(2) Cons.prems(2) by simp
  have t5: "?t5 = block (picked rnd i) a" using patch_template[OF l(1), of "picked rnd i"] by (simp only: Let_def)
  have lb: "length (block (picked rnd i) a) = 32" using l(1) by (simp add: block_def)
  have w: "wr (pre @ ?t @ ?rest) (32 * i + 1) (SYSCALLS ! (rnd i mod length SYSCALLS)) = Some (pre @ ?t1 @ ?rest)"
    using wr_block[of 1 ?t "32 * i" pre ?rest] l Cons.prems(2) by (simp only: picked_def)
  have x: "xor_at (32 * i + 6) 0x55 (pre @ ?t1 @ ?rest) = Some (pre @ ?t2 @ ?rest)"
    "xor_at (32 * i + 7) 0x55 (pre @ ?t2 @ ?rest) = Some (pre @ ?t3 @ ?rest)"
    "xor_at (32 * i + 8) 0x55 (pre @ ?t3 @ ?rest) = Some (pre @ ?t4 @ ?rest)"
    "xor_at (32 * i + 9) 0x55 (pre @ ?t4 @ ?rest) = Some (pre @ ?t5 @ ?rest)"
    by (rule xor_block; simp only: length_list_update l Cons.prems(2))+
  have ih: "fill_loop rnd (i + 1) (map template as) ((pre @ block (picked rnd i) a) @ ?rest) =
      Some ((pre @ block (picked rnd i) a) @ blocks rnd (i + 1) as)"
    by (rule Cons.IH) (use Cons.prems lb in auto)
  show ?case
    unfolding list.map fill_loop.simps c w x Option.bind.simps t5 blocks.simps using ih by simp
qed

lemma le_bytes_four: "le_bytes 4 (of_le [a, b, c, d] :: u32) = [a, b, c, d]"
proof -
  let ?w = "of_le [a, b, c, d] :: u32"
  have bits: "bit ?w n = (if n < 8 then bit a n else if n < 16 then bit b (n - 8) else if n < 24 then bit c (n - 16)
      else n < 32 \<and> bit d (n - 24))" for n
    by (auto simp: bit_simps not_less)
  have "le_bytes 4 ?w = [ucast ?w, ucast (drop_bit 8 ?w), ucast (drop_bit 16 ?w), ucast (drop_bit 24 ?w)]"
    by (simp add: eval_nat_numeral del: of_le.simps)
  moreover have "ucast ?w = a" "ucast (drop_bit 8 ?w) = b" "ucast (drop_bit 16 ?w) = c" "ucast (drop_bit 24 ?w) = d"
    by (rule bit_word_eqI; simp add: bit_unsigned_iff bit_drop_bit_eq bits del: of_le.simps)+
  ultimately show ?thesis by simp
qed

section \<open>What the buffer does\<close>

lemma of_le_byte: "of_le [s, 0, 0, 0] = (ucast s :: u32)"
  by simp

lemma execute_block:
  assumes "length arg = 4" "s \<noteq> 1"
  shows "execute (block s arg @ rest) r =
    map_option ((#) (ucast s, of_le (map (\<lambda>b. b XOR 0x55) arg)))
      (execute rest \<lparr>eax = ucast s, ebx = of_le (map (\<lambda>b. b XOR 0x55) arg)\<rparr>)"
proof -
  obtain a b c d where a: "arg = [a, b, c, d]" using four[OF assms(1)] by blast
  have "(ucast s :: u32) \<noteq> 1"
  proof
    assume "(ucast s :: u32) = 1"
    then have "unat (ucast s :: u32) = 1" by simp
    then have "unat s = 1" using u8_less[of s] by (simp add: unsigned_ucast_eq take_bit_nat_eq_self)
    then show False using assms(2) by (simp add: word_unat_eq_iff)
  qed
  then show ?thesis unfolding a block_def by (cases r) (simp del: of_le.simps add: of_le_byte)
qed

fun calls :: "(nat \<Rightarrow> nat) \<Rightarrow> nat \<Rightarrow> bytes list \<Rightarrow> (u32 \<times> u32) list" where
  "calls rnd i [] = [(1, 0)]"
| "calls rnd i (a # as) = (ucast (picked rnd i), of_le (map (\<lambda>b. b XOR 0x55) a)) # calls rnd (i + 1) as"

lemma picked_not_exit: "picked rnd i \<noteq> 1"
proof -
  have "\<forall>x \<in> set SYSCALLS. x \<noteq> 1" by (simp add: SYSCALLS_def)
  moreover have "SYSCALLS \<noteq> []" by (simp add: SYSCALLS_def)
  ultimately show ?thesis by (simp add: picked_def)
qed

lemma execute_blocks: "\<forall>a \<in> set as. length a = 4 \<Longrightarrow> execute (blocks rnd i as) r = Some (calls rnd i as)"
  by (induction as arbitrary: i r) (simp_all add: execute_block picked_not_exit)

lemma map_fst_calls: "calls rnd i as = map (\<lambda>(j, a). (ucast (picked rnd j), of_le (map (\<lambda>b. b XOR 0x55) a))) (zip [i..<i + length as] as) @ [(1, 0)]"
proof (induction as arbitrary: i)
  case (Cons a as)
  have "[i..<i + length (a # as)] = i # [i + 1..<i + 1 + length as]" by (simp add: upt_rec)
  then show ?case using Cons[of "i + 1"] by simp
qed simp

lemma args_ok: "\<forall>a \<in> set ARGS. length a = 4" "length ARGS = 24"
  by (simp_all add: ARGS_def)

text \<open>The letters a debugger shows for the first arguments, highest byte first.\<close>

definition letters :: "(u32 \<times> u32) list \<Rightarrow> bytes" where
  "letters cs = concat (map (\<lambda>(n, a). rev (le_bytes 4 a)) cs)"

lemma letters_calls: "\<forall>a \<in> set as. length a = 4 \<Longrightarrow>
  letters (map (\<lambda>(j, a). (ucast (picked rnd j), of_le (map (\<lambda>b. b XOR 0x55) a))) (zip [i..<i + length as] as)) =
    concat (map (\<lambda>a. rev (map (\<lambda>b. b XOR 0x55) a)) as)"
proof (induction as arbitrary: i)
  case (Cons a as)
  have u: "[i..<i + length (a # as)] = i # [i + 1..<i + 1 + length as]" by (simp add: upt_rec)
  have "le_bytes 4 (of_le (map (\<lambda>b. b XOR 0x55) a) :: u32) = map (\<lambda>b. b XOR 0x55) a"
    using Cons.prems four[of a] le_bytes_four by auto
  then show ?case using Cons.IH[of "i + 1"] Cons.prems u by (simp add: letters_def)
qed (simp add: letters_def)

section \<open>The property\<close>

text \<open>
  C36: whatever \<open>rand\<close> returns, the buffer is filled within its bounds, and its code makes 24
  system calls with numbers from the table and then leaves with exit code 0; the first
  arguments of the calls spell the flag.
\<close>

theorem strace_me_spells_flag:
  "\<exists>b cs. main rnd = Some b \<and> length b = 24 * 32 + 7 \<and> execute b r = Some (cs @ [(1, 0)]) \<and>
    map fst cs = map (\<lambda>i. ucast (SYSCALLS ! (rnd i mod length SYSCALLS))) [0..<24] \<and>
    letters cs = str ''CTF{the_longer_the_flag_is_the_more_interesting_output_you_are_seeing_so_the_long_flag_is_long!}''"
proof -
  let ?b = "blocks rnd 0 ARGS"
  let ?cs = "map (\<lambda>(j, a). (ucast (picked rnd j), of_le (map (\<lambda>b. b XOR 0x55) a))) (zip [0..<24] ARGS) :: (u32 \<times> u32) list"
  have m: "main rnd = Some ?b"
    using fill_loop_blocks[OF args_ok(1), of "[]" 0 rnd] by (simp add: main_def TEMPLATES_def)
  have "length (blocks rnd i as) = length as * 32 + 7" if "\<forall>a \<in> set as. length a = 4" for i as
    using that by (induction as arbitrary: i) (simp_all add: block_def)
  then have l: "length ?b = 24 * 32 + 7" using args_ok by simp
  have e: "execute ?b r = Some (?cs @ [(1, 0)])"
    using execute_blocks[OF args_ok(1), of rnd 0 r] map_fst_calls[of rnd 0 ARGS] args_ok(2) by simp
  have f: "map fst ?cs = map (\<lambda>i. ucast (SYSCALLS ! (rnd i mod length SYSCALLS))) [0..<24]"
    using args_ok(2) by (intro nth_equalityI) (simp_all add: picked_def split_beta)
  have "letters ?cs = concat (map (\<lambda>a. rev (map (\<lambda>b. b XOR 0x55) a)) ARGS)"
    using letters_calls[OF args_ok(1), of rnd 0] args_ok(2) by simp
  also have "\<dots> = str ''CTF{the_longer_the_flag_is_the_more_interesting_output_you_are_seeing_so_the_long_flag_is_long!}''" by code_simp
  finally show ?thesis using m l e f by blast
qed

end
