(* ===== verification/SmartLocky.thy ===== *)
theory SmartLocky
  imports Prelude
begin

text \<open>
  \<open>smart-locky/challenge/client/main/main.c\<close> and \<open>secrets.c\<close>: the remote control of a lock.
  Modelled are the obfuscated secrets, the lines on the screen, the WiFi event handler, the
  buttons, and the unlock task with every error path. What the radio and the network answer
  are parameters, what the code does to them is a list of actions.
\<close>

section \<open>Secrets\<close>

text \<open>What a pointer of the table \<open>SECRETS\<close> points to.\<close>

datatype object = Number int | Chars bytes

abbreviation (input) SECRET_PSK :: nat where "SECRET_PSK \<equiv> 1"
abbreviation (input) SECRET_PASSWD :: nat where "SECRET_PASSWD \<equiv> 3"

definition ekey :: int where "ekey = 81"
definition aa_len :: int where "aa_len = 21"
definition bb_len :: int where "bb_len = 18"

definition aa :: bytes where
  "aa = [0x12, 0x06, 0x15, 0x2F, 0x32, 0x39, 0x38, 0x3C, 0x06, 0x2D, 0x34, 0x2E, 0x36, 0x01, 0x2C, 0x05, 0x0F, 0x12, 0x02, 0x0D, 0x18]"

definition bb :: bytes where
  "bb = [0x34, 0x37, 0x35, 0x3D, 0x65, 0x25, 0x3F, 0x2D, 0x2A, 0x32, 0x62, 0x33, 0x3E, 0x36, 0x6A, 0x21, 0x0C, 0x03]"

definition SECRETS :: "object list" where
  "SECRETS = [Number ekey, Chars aa, Number aa_len, Chars bb, Number bb_len]"

definition read_int :: "object list \<Rightarrow> nat \<Rightarrow> int option" where
  "read_int tab i = (if i < length tab then (case tab ! i of Number n \<Rightarrow> Some n | Chars _ \<Rightarrow> None) else None)"

definition read_chars :: "object list \<Rightarrow> nat \<Rightarrow> nat \<Rightarrow> bytes option" where
  "read_chars tab i n = (if i < length tab then (case tab ! i of Chars b \<Rightarrow> if n \<le> length b then Some (take n b) else None | Number _ \<Rightarrow> None) else None)"

text \<open>The result and the buffer; \<open>None\<close>: a read or write outside an object.\<close>

definition decrypt_secret :: "object list \<Rightarrow> nat \<Rightarrow> bytes \<Rightarrow> (int \<times> bytes) option" where
  "decrypt_secret tab i dest =
     Option.bind (read_int tab (i + 1)) (\<lambda>secret_len.
       if secret_len \<ge> int (length dest) then Some (- 1, dest)
       else if secret_len < 0 then None
       else
         Option.bind (read_int tab 0) (\<lambda>k.
         Option.bind (read_chars tab i (nat secret_len)) (\<lambda>b.
           Some (secret_len, xor_with (\<lambda>j. word_of_int (k + int j)) b @ 0 # drop (Suc (nat secret_len)) dest))))"

section \<open>The screen\<close>

abbreviation (input) SCREEN_LINES :: nat where "SCREEN_LINES \<equiv> 5"
abbreviation (input) MAX_LINE_LEN :: nat where "MAX_LINE_LEN \<equiv> 32"
abbreviation (input) MARGIN_LEFT :: nat where "MARGIN_LEFT \<equiv> 4"

record screen =
  s_screen_buf :: "bytes list"
  line_idx :: nat

definition blank :: screen where
  "blank = \<lparr>s_screen_buf = replicate SCREEN_LINES [], line_idx = 0\<rparr>"

text \<open>The calls of \<open>TFT_print\<close>, the line with its left and top; \<open>h\<close> is the height of the font.\<close>

definition screen_print :: "nat \<Rightarrow> bytes \<Rightarrow> screen \<Rightarrow> (bytes \<times> nat \<times> nat) list \<times> screen" where
  "screen_print h buf s =
     (let b = (s_screen_buf s)[line_idx s := take MAX_LINE_LEN buf];
          drawn = map (\<lambda>i. (b ! ((i + line_idx s) mod SCREEN_LINES), MARGIN_LEFT, (i - 1) * h + 1)) (rev [1..<SCREEN_LINES + 1])
      in (drawn, \<lparr>s_screen_buf = b, line_idx = (line_idx s + 1) mod SCREEN_LINES\<rparr>))"

section \<open>WiFi events\<close>

datatype event = STA_START | STA_DISCONNECTED | GOT_IP "nat list" | OTHER

record wifi =
  s_retry_num :: nat
  s_connect_desired :: bool
  connected_bit :: bool
  fail_bit :: bool
  connects :: nat             \<comment> \<open>calls of \<open>esp_wifi_connect\<close>\<close>

definition ip_text :: "nat list \<Rightarrow> bytes" where
  "ip_text ip = str ''ip: '' @ decimal (ip ! 0) @ [0x2E] @ decimal (ip ! 1) @ [0x2E] @ decimal (ip ! 2) @ [0x2E] @ decimal (ip ! 3)"

definition wifi_event_handler :: "nat \<Rightarrow> event \<Rightarrow> wifi \<Rightarrow> wifi \<times> bytes option" where
  "wifi_event_handler max_retry e w =
     (case e of
        STA_START \<Rightarrow> (w\<lparr>connects := connects w + 1\<rparr>, None)
      | STA_DISCONNECTED \<Rightarrow>
          if s_connect_desired w \<and> s_retry_num w < max_retry
          then (w\<lparr>connects := connects w + 1, s_retry_num := s_retry_num w + 1\<rparr>, None)
          else (w\<lparr>fail_bit := True\<rparr>, None)
      | GOT_IP ip \<Rightarrow> (w\<lparr>s_retry_num := 0, connected_bit := True\<rparr>, Some (ip_text ip))
      | OTHER \<Rightarrow> (w, None))"

section \<open>The unlock task\<close>

datatype action =
    Print bytes
  | Wifi_start bytes                 \<comment> \<open>with this password\<close>
  | Wifi_stop
  | Socket
  | Connect u32 nat
  | Send bytes
  | Recv
  | Close

text \<open>What the network answers; the bits are those \<open>xEventGroupWaitBits\<close> returns.\<close>

record answers =
  got_connected :: bool
  got_fail :: bool
  my_ip :: "u32 option"
  sock :: int
  connect_err :: int
  sent :: int
  received :: "bytes option"

text \<open>\<open>wifi_init_sta\<close>: true for failure; the password buffer of the configuration has 64 bytes.\<close>

definition wifi_init_sta :: "object list \<Rightarrow> answers \<Rightarrow> (bool \<times> action list) option" where
  "wifi_init_sta tab a =
     Option.bind (decrypt_secret tab SECRET_PSK (replicate 64 0)) (\<lambda>(_, password).
       Some (got_fail a,
         [Wifi_stop, Wifi_start (cstr password)] @ (if \<not> got_connected a \<and> got_fail a then [Wifi_stop] else [])))"

abbreviation (input) PORT :: nat where "PORT \<equiv> 4141"

definition server_of :: "u32 \<Rightarrow> u32" where
  "server_of ip = (ip AND 0xFFFFFF) OR 0x1000000"

definition failed :: "action list" where
  "failed = [Print (str ''Connection failed.'')]"

definition unlock_remote_lock :: "object list \<Rightarrow> answers \<Rightarrow> action list option" where
  "unlock_remote_lock tab a =
     Option.bind (wifi_init_sta tab a) (\<lambda>(rv, acts).
       let acts = [Print (str ''Starting unlock'')] @ acts in
       if rv then Some (acts @ failed)
       else
         (case my_ip a of
            None \<Rightarrow> Some (acts @ failed)
          | Some ip \<Rightarrow>
              let acts = acts @ [Socket] in
              if sock a < 0 then Some (acts @ failed)
              else
                let acts = acts @ [Connect (server_of ip) PORT] in
                if connect_err a \<noteq> 0 then Some (acts @ failed)
                else
                  Option.bind (decrypt_secret tab SECRET_PASSWD (replicate 64 0)) (\<lambda>(len, buf).
                    if len < 0 then Some (acts @ [Close] @ failed)
                    else
                      let acts = acts @ [Send (take (nat len) buf)] in
                      if sent a \<noteq> len then Some (acts @ [Close] @ failed)
                      else
                        let acts = acts @ [Recv] in
                        (case received a of
                           None \<Rightarrow> Some (acts @ [Close] @ failed)
                         | Some b \<Rightarrow>
                             Some (acts @ [Print (cstr (take 63 b)), Close, Print (str ''Unlocked'')])))))"

section \<open>Buttons\<close>

record buttons =
  display :: bool
  backlight :: nat
  screen_toggle :: bool
  notified :: nat

definition btn_a_handler :: "bool \<Rightarrow> buttons \<Rightarrow> buttons" where
  "btn_a_handler click b = (if click then b\<lparr>display := True, notified := notified b + 1\<rparr> else b)"

definition btn_b_handler :: "bool \<Rightarrow> buttons \<Rightarrow> buttons" where
  "btn_b_handler hold b =
     (if hold then
        (if screen_toggle b then b\<lparr>display := True, backlight := 3, screen_toggle := False\<rparr>
         else b\<lparr>display := False, backlight := 0, screen_toggle := True\<rparr>)
      else b)"

section \<open>The screen as a list\<close>

text \<open>The lines from the oldest to the newest.\<close>

definition shown :: "screen \<Rightarrow> bytes list" where
  "shown s = map (\<lambda>i. s_screen_buf s ! ((line_idx s + i) mod SCREEN_LINES)) [0..<SCREEN_LINES]"

definition screen_ok :: "screen \<Rightarrow> bool" where
  "screen_ok s \<longleftrightarrow> length (s_screen_buf s) = SCREEN_LINES \<and> line_idx s < SCREEN_LINES \<and> (\<forall>l \<in> set (s_screen_buf s). length l \<le> MAX_LINE_LEN)"

lemma five: "i < (5 :: nat) \<Longrightarrow> i = 0 \<or> i = 1 \<or> i = 2 \<or> i = 3 \<or> i = 4"
  by auto

lemma screen_print_ok: "screen_ok s \<Longrightarrow> screen_ok (snd (screen_print h buf s))"
  by (auto simp: screen_ok_def screen_print_def Let_def dest!: set_update_subset_insert[THEN subsetD])

lemma upt_five: "[0..<5] = [0, 1, 2, 3, 4 :: nat]" "rev [1..<5 + 1] = [5, 4, 3, 2, 1 :: nat]"
  by code_simp+

lemma ring_step:
  assumes "i < 5"
  shows "map (\<lambda>j. [a, b, c, d, e][i := x] ! (((i + 1) mod 5 + j) mod 5)) [0, 1, 2, 3, 4 :: nat] =
      tl (map (\<lambda>j. [a, b, c, d, e] ! ((i + j) mod 5)) [0, 1, 2, 3, 4]) @ [x]"
    "map (\<lambda>j. [a, b, c, d, e][i := x] ! ((j + i) mod 5)) [5, 4, 3, 2, 1 :: nat] =
      rev (tl (map (\<lambda>j. [a, b, c, d, e] ! ((i + j) mod 5)) [0, 1, 2, 3, 4]) @ [x])"
  using five[OF assms] by (elim disjE; simp)+

lemma five_lines: "length b = 5 \<Longrightarrow> \<exists>l1 l2 l3 l4 l5. b = [l1, l2, l3, l4, l5]"
  by (auto simp: length_Suc_conv eval_nat_numeral)

lemma shown_print:
  assumes "screen_ok s"
  shows "shown (snd (screen_print h buf s)) = tl (shown s) @ [take MAX_LINE_LEN buf]"
    "map fst (fst (screen_print h buf s)) = rev (tl (shown s) @ [take MAX_LINE_LEN buf])"
proof -
  obtain l1 l2 l3 l4 l5 where b: "s_screen_buf s = [l1, l2, l3, l4, l5]" using assms five_lines[of "s_screen_buf s"] unfolding screen_ok_def by blast
  have i: "line_idx s < 5" using assms by (simp add: screen_ok_def)
  show "shown (snd (screen_print h buf s)) = tl (shown s) @ [take MAX_LINE_LEN buf]"
    unfolding shown_def screen_print_def Let_def snd_conv screen.simps b upt_five by (rule ring_step(1)[OF i])
  show "map fst (fst (screen_print h buf s)) = rev (tl (shown s) @ [take MAX_LINE_LEN buf])"
    unfolding shown_def screen_print_def Let_def fst_conv b upt_five map_map comp_def by (rule ring_step(2)[OF i])
qed

text \<open>The whole history of prints.\<close>

fun prints :: "nat \<Rightarrow> bytes list \<Rightarrow> screen \<Rightarrow> screen" where
  "prints h [] s = s"
| "prints h (b # bs) s = prints h bs (snd (screen_print h b s))"

definition last_lines :: "nat \<Rightarrow> bytes list \<Rightarrow> bytes list" where
  "last_lines n ls = drop (length ls - n) ls"

lemma prints_ok: "screen_ok s \<Longrightarrow> screen_ok (prints h bs s)"
  by (induction bs arbitrary: s) (simp_all add: screen_print_ok)

lemma length_shown [simp]: "length (shown s) = SCREEN_LINES"
  by (simp add: shown_def)

lemma shown_prints:
  "screen_ok s \<Longrightarrow> shown (prints h bs s) = last_lines SCREEN_LINES (shown s @ map (take MAX_LINE_LEN) bs)"
proof (induction bs arbitrary: s)
  case Nil
  then show ?case by (simp add: last_lines_def)
next
  case (Cons b bs)
  obtain l ls where l: "shown s = l # ls" "length ls = 4"
    using length_shown[of s] by (cases "shown s") auto
  have "shown (prints h (b # bs) s) = last_lines SCREEN_LINES ((ls @ [take MAX_LINE_LEN b]) @ map (take MAX_LINE_LEN) bs)"
    using Cons.IH[OF screen_print_ok[OF Cons.prems]] shown_print(1)[OF Cons.prems] l by simp
  also have "\<dots> = last_lines SCREEN_LINES (shown s @ map (take MAX_LINE_LEN) (b # bs))"
    using l by (simp add: last_lines_def)
  finally show ?case .
qed

section \<open>The properties\<close>

lemma blank_ok: "screen_ok blank" "shown blank = replicate SCREEN_LINES []"
  by code_simp+

text \<open>
  After any sequence of prints the ring of lines holds the last five of them, cut to 32
  characters, and a print draws them with the newest at the bottom.
\<close>

lemma screen_shows_last_lines:
  "shown (prints h bs blank) = last_lines SCREEN_LINES (replicate SCREEN_LINES [] @ map (take MAX_LINE_LEN) bs) \<and>
   map fst (fst (screen_print h b (prints h bs blank))) =
     rev (last_lines SCREEN_LINES (replicate SCREEN_LINES [] @ map (take MAX_LINE_LEN) (bs @ [b])))"
proof -
  have s: "shown (prints h cs blank) = last_lines SCREEN_LINES (replicate SCREEN_LINES [] @ map (take MAX_LINE_LEN) cs)" for cs
    unfolding shown_prints[OF blank_ok(1)] blank_ok(2) by (rule refl)
  have p: "prints h (bs @ [b]) s = snd (screen_print h b (prints h bs s))" for s
    by (induction bs arbitrary: s) simp_all
  have ok: "screen_ok (prints h bs blank)" by (rule prints_ok[OF blank_ok(1)])
  have "map fst (fst (screen_print h b (prints h bs blank))) = rev (shown (prints h (bs @ [b]) blank))"
    unfolding p shown_print[OF ok] by (rule refl)
  then show ?thesis unfolding s by simp
qed

definition password :: bytes where
  "password = str ''eefi0shush9och5Ama''"

lemma passwords:
  "decrypt_secret SECRETS SECRET_PSK (replicate 64 0) = Some (21, str ''CTF{good_work_senpai}'' @ replicate 43 0)"
  "decrypt_secret SECRETS SECRET_PASSWD (replicate 64 0) = Some (18, password @ replicate 46 0)"
  by code_simp+

lemma take_password: "take 18 password = password" "length password = 18"
  by (simp_all add: password_def str_def)

text \<open>
  The whole unlock task, whatever the network answers. The password is sent only to the
  first address of the own network and only once connected; any answer of the server, even
  an empty one, is reported as an open lock; and a socket is left open exactly when
  the connection fails.
\<close>

lemma unlock_actions:
  "\<exists>acts. unlock_remote_lock SECRETS a = Some acts \<and>
    (Socket \<in> set acts \<and> 0 \<le> sock a \<and> Close \<notin> set acts) =
      (\<not> got_fail a \<and> my_ip a \<noteq> None \<and> 0 \<le> sock a \<and> connect_err a \<noteq> 0) \<and>
    last acts = Print (if \<not> got_fail a \<and> my_ip a \<noteq> None \<and> 0 \<le> sock a \<and> connect_err a = 0 \<and> sent a = 18 \<and> received a \<noteq> None
      then str ''Unlocked'' else str ''Connection failed.'') \<and>
    {b. Send b \<in> set acts} =
      (if \<not> got_fail a \<and> my_ip a \<noteq> None \<and> 0 \<le> sock a \<and> connect_err a = 0 then {password} else {}) \<and>
    {(s, p). Connect s p \<in> set acts} =
      (if \<not> got_fail a \<and> my_ip a \<noteq> None \<and> 0 \<le> sock a then {(server_of (the (my_ip a)), PORT)} else {})"
proof -
  have w: "wifi_init_sta SECRETS a = Some (got_fail a, [Wifi_stop, Wifi_start (cstr (str ''CTF{good_work_senpai}'' @ replicate 43 0))] @
      (if \<not> got_connected a \<and> got_fail a then [Wifi_stop] else []))"
    by (simp only: wifi_init_sta_def passwords Option.bind.simps prod.case)
  consider "got_fail a" | "\<not> got_fail a" "my_ip a = None" | ip where "\<not> got_fail a" "my_ip a = Some ip" "sock a < 0"
    | ip where "\<not> got_fail a" "my_ip a = Some ip" "0 \<le> sock a" "connect_err a \<noteq> 0"
    | ip where "\<not> got_fail a" "my_ip a = Some ip" "0 \<le> sock a" "connect_err a = 0" "sent a \<noteq> 18"
    | ip where "\<not> got_fail a" "my_ip a = Some ip" "0 \<le> sock a" "connect_err a = 0" "sent a = 18" "received a = None"
    | ip b where "\<not> got_fail a" "my_ip a = Some ip" "0 \<le> sock a" "connect_err a = 0" "sent a = 18" "received a = Some b"
    by fastforce
  then show ?thesis
    by cases (auto simp: unlock_remote_lock_def w passwords failed_def take_password Let_def)
qed

end
