(* ===== verification/Decrypto3.thy ===== *)
theory Decrypto3
  imports Prelude
begin

text \<open>
  \<open>decrypto-3/challenge/src/crypto.c\<close>: encrypts a file and appends an HMAC, with keys
  derived from a key given in hexadecimal. OpenSSL is a parameter: a context with the three
  EVP calls of the code, and the HMAC as a function of key and data. The random device is the list of what
  its reads return.
\<close>

abbreviation (input) KEY_LEN :: nat where "KEY_LEN \<equiv> 32"

section \<open>The key\<close>

definition decode_nibble :: "u8 \<Rightarrow> u8" where
  "decode_nibble b =
     (if 0x61 \<le> b \<and> b \<le> 0x66 then b - 0x61 + 10
      else if 0x41 \<le> b \<and> b \<le> 0x46 then b - 0x41 + 10
      else if 0x30 \<le> b \<and> b \<le> 0x39 then b - 0x30
      else 0xFF)"

text \<open>The loop: \<open>buf\<close> points at \<open>2 * l\<close>, \<open>out\<close> at \<open>l\<close>.\<close>

function hex_loop :: "bytes \<Rightarrow> nat \<Rightarrow> (bytes \<times> nat) option" where
  "hex_loop b l =
     (case rd b (2 * l) of
        None \<Rightarrow> None
      | Some c \<Rightarrow>
          if c = 0 then Some (b, l)
          else
            (case rd b (2 * l + 1) of
               None \<Rightarrow> None
             | Some d \<Rightarrow> hex_loop (b[l := push_bit 4 (decode_nibble c) OR decode_nibble d]) (l + 1)))"
  by pat_completeness auto
termination by (relation "measure (\<lambda>(b, l). length b - 2 * l)") (auto simp: rd_def split: if_splits)

declare hex_loop.simps [simp del]

definition hex_decode_inplace :: "bytes \<Rightarrow> (bytes \<times> nat) option" where
  "hex_decode_inplace b = (if odd (strlen b) then Some (b, 0) else hex_loop b 0)"

section \<open>Random memory\<close>

text \<open>
  \<open>wipe_memory\<close>: every read goes to the start of the memory, \<open>ptr\<close> is not advanced. The
  rest of the reads is returned; \<open>None\<close> is the \<open>exit(1)\<close> of a failed read.
\<close>

function wipe_loop :: "bytes list \<Rightarrow> nat \<Rightarrow> nat \<Rightarrow> bytes \<Rightarrow> (bytes \<times> bytes list) option" where
  "wipe_loop reads tot sz mem =
     (if tot < sz then
        (case reads of
           [] \<Rightarrow> None
         | r # reads \<Rightarrow>
             let r = take (sz - tot) r in
             if r = [] then None else wipe_loop reads (tot + length r) sz (r @ drop (length r) mem))
      else Some (mem, reads))"
  by pat_completeness auto
termination by (relation "measure (\<lambda>(reads, _). length reads)") auto

declare wipe_loop.simps [simp del]

definition wipe_memory :: "bytes list \<Rightarrow> bytes \<Rightarrow> (bytes \<times> bytes list) option" where
  "wipe_memory reads mem = wipe_loop reads 0 (length mem) mem"

record key_data =
  raw_key :: bytes
  crypt_key :: bytes
  mac_key :: bytes
  entropy_seed :: bytes
  entropy_pool :: bytes

definition SIZEOF_KEY_DATA :: nat where "SIZEOF_KEY_DATA = 176"

definition update_key_data :: "(bytes \<Rightarrow> bytes \<Rightarrow> bytes) \<Rightarrow> bytes list \<Rightarrow> key_data \<Rightarrow> (key_data \<times> bytes list) option" where
  "update_key_data hmac reads k =
     (let k = k\<lparr>crypt_key := hmac (raw_key k) (str ''crypt_key''), mac_key := hmac (raw_key k) (str ''mac_key'')\<rparr> in
      Option.bind (wipe_memory reads (entropy_seed k)) (\<lambda>(s, reads).
      Option.bind (wipe_memory reads (entropy_pool k)) (\<lambda>(p, reads).
        Some (k\<lparr>entropy_seed := s, entropy_pool := p\<rparr>, reads))))"

text \<open>The struct as the bytes of its arrays and two pointers, which \<open>pretest\<close> fills at random.\<close>

definition key_of_bytes :: "bytes \<Rightarrow> key_data" where
  "key_of_bytes b = \<lparr>raw_key = take 32 b, crypt_key = take 32 (drop 32 b), mac_key = take 32 (drop 64 b),
     entropy_seed = take 32 (drop 96 b), entropy_pool = take 32 (drop 128 b)\<rparr>"

text \<open>\<open>pretest\<close>: whether it frees the copy and the key, and the reads left.\<close>

definition pretest :: "(bytes \<Rightarrow> bytes \<Rightarrow> bytes) \<Rightarrow> bytes list \<Rightarrow> (bool \<times> bool \<times> bytes list) option" where
  "pretest hmac reads =
     Option.bind (wipe_memory reads (replicate SIZEOF_KEY_DATA 0)) (\<lambda>(m, reads).
     Option.bind (update_key_data hmac reads (key_of_bytes m)) (\<lambda>(_, reads).
     Option.bind (wipe_memory reads m) (\<lambda>(raw, reads).
       Some (raw ! 0 AND 0x15 \<noteq> 0, raw ! 1 AND 0x03 \<noteq> 0, reads))))"

fun pretests :: "nat \<Rightarrow> (bytes \<Rightarrow> bytes \<Rightarrow> bytes) \<Rightarrow> bytes list \<Rightarrow> bytes list option" where
  "pretests 0 hmac reads = Some reads"
| "pretests (Suc n) hmac reads = Option.bind (pretest hmac reads) (\<lambda>(_, _, reads). pretests n hmac reads)"

fun clear_env :: "bytes list \<Rightarrow> bytes list \<Rightarrow> bytes list option" where
  "clear_env [] reads = Some reads"
| "clear_env (e # es) reads = Option.bind (wipe_memory reads (cstr e)) (\<lambda>(_, reads). clear_env es reads)"

section \<open>Encrypting\<close>

abbreviation (input) BUF_SIZE :: nat where "BUF_SIZE \<equiv> 1024"

text \<open>
  The cipher context of OpenSSL: \<open>einit\<close> is \<open>EVP_EncryptInit_ex\<close> with key and initialisation
  vector, \<open>eupd\<close> and \<open>efin\<close> are \<open>EVP_EncryptUpdate\<close> and \<open>EVP_EncryptFinal_ex\<close>.
\<close>

record 'c evp =
  einit :: "bytes \<Rightarrow> bytes \<Rightarrow> 'c"
  eupd :: "'c \<Rightarrow> bytes \<Rightarrow> 'c \<times> bytes"
  efin :: "'c \<Rightarrow> bytes"

record 'c crypter =
  ctx :: 'c
  mac_data :: bytes           \<comment> \<open>what the HMAC context has been given\<close>

definition setup_crypter :: "'c evp \<Rightarrow> key_data \<Rightarrow> 'c crypter" where
  "setup_crypter evp k = \<lparr>ctx = einit evp (crypt_key k) (replicate 16 0), mac_data = []\<rparr>"

text \<open>What is put into the output buffer; \<open>None\<close> if it does not fit.\<close>

definition encrypt_and_mac_data :: "'c evp \<Rightarrow> bytes \<Rightarrow> 'c crypter \<Rightarrow> ('c crypter \<times> bytes) option" where
  "encrypt_and_mac_data evp inblock k =
     (let (c, b) = eupd evp (ctx k) inblock in
      if length b \<le> BUF_SIZE then Some (\<lparr>ctx = c, mac_data = mac_data k @ b\<rparr>, b) else None)"

definition finalize_crypter :: "'c evp \<Rightarrow> (bytes \<Rightarrow> bytes \<Rightarrow> bytes) \<Rightarrow> key_data \<Rightarrow> 'c crypter \<Rightarrow> bytes option" where
  "finalize_crypter evp hmac kd k =
     (let b = efin evp (ctx k); b = b @ hmac (mac_key kd) (mac_data k @ b) in
      if length b \<le> BUF_SIZE then Some b else None)"

function encrypt_loop :: "'c evp \<Rightarrow> bytes \<Rightarrow> 'c crypter \<Rightarrow> ('c crypter \<times> bytes) option" where
  "encrypt_loop evp file k =
     (if file = [] then Some (k, [])
      else
        Option.bind (encrypt_and_mac_data evp (take BUF_SIZE file) k) (\<lambda>(k, b).
        Option.bind (encrypt_loop evp (drop BUF_SIZE file) k) (\<lambda>(k, r). Some (k, b @ r))))"
  by pat_completeness auto
termination by (relation "measure (\<lambda>(_, file, _). length file)") auto

declare encrypt_loop.simps [simp del]

definition encrypt_file :: "'c evp \<Rightarrow> (bytes \<Rightarrow> bytes \<Rightarrow> bytes) \<Rightarrow> key_data \<Rightarrow> bytes \<Rightarrow> bytes option" where
  "encrypt_file evp hmac kd file =
     Option.bind (encrypt_loop evp file (setup_crypter evp kd)) (\<lambda>(k, b).
     Option.bind (finalize_crypter evp hmac kd k) (\<lambda>f. Some (b @ f)))"

datatype outcome =
    Exit int                  \<comment> \<open>with this exit code, nothing written\<close>
  | Overflow                  \<comment> \<open>a write behind a buffer\<close>
  | Crash bytes               \<comment> \<open>a write to NULL after the output file has been written\<close>

text \<open>\<open>main\<close>: the arguments, the environment, the input file, whether the output file opens, the reads.\<close>

definition main :: "'c evp \<Rightarrow> (bytes \<Rightarrow> bytes \<Rightarrow> bytes) \<Rightarrow> bytes list \<Rightarrow> bytes list \<Rightarrow> bytes option \<Rightarrow> bool \<Rightarrow> bytes list \<Rightarrow> outcome" where
  "main evp hmac argv environ file opens reads =
     (case Option.bind (pretests 1 hmac reads) (clear_env environ) of
        None \<Rightarrow> Exit 1
      | Some reads \<Rightarrow>
          if length argv \<noteq> 3 then Exit 1
          else
            (case hex_decode_inplace (argv ! 1 @ [0]) of
               None \<Rightarrow> Overflow
             | Some (key, key_len) \<Rightarrow>
                 if key_len \<noteq> KEY_LEN then Exit 1
                 else
                   (case pretests (nat (sint (key ! 0) + 1)) hmac reads of
                      None \<Rightarrow> Exit 1
                    | Some reads \<Rightarrow>
                        (case update_key_data hmac reads
                             \<lparr>raw_key = take KEY_LEN key, crypt_key = replicate 32 0, mac_key = replicate 32 0,
                               entropy_seed = replicate 32 0, entropy_pool = replicate 32 0\<rparr> of
                           None \<Rightarrow> Exit 1
                         | Some (k, reads) \<Rightarrow>
                             (case file of
                                None \<Rightarrow> Exit 1
                              | Some data \<Rightarrow>
                                  if \<not> opens then Exit 1
                                  else
                                    (case encrypt_file evp hmac k data of
                                       None \<Rightarrow> Overflow
                                     | Some b \<Rightarrow>
                                         (case Option.bind (wipe_memory reads (replicate BUF_SIZE 0)) (\<lambda>(_, reads).
                                             wipe_memory reads (replicate BUF_SIZE 0)) of
                                            None \<Rightarrow> Exit 1
                                          | Some _ \<Rightarrow> Crash b)))))))"

section \<open>Decoding the key\<close>

fun decode_pairs :: "bytes \<Rightarrow> bytes" where
  "decode_pairs (c # d # r) = (push_bit 4 (decode_nibble c) OR decode_nibble d) # decode_pairs r"
| "decode_pairs _ = []"

lemma length_decode_pairs: "length (decode_pairs s) = length s div 2"
  by (induction s rule: decode_pairs.induct) auto

text \<open>Writing never overtakes reading.\<close>

lemma hex_loop_pairs:
  "even (length s) \<Longrightarrow> 0 \<notin> set s \<Longrightarrow> length p = 2 * l \<Longrightarrow>
   \<exists>b. hex_loop (p @ s @ 0 # z) l = Some (b, l + length s div 2) \<and> take (l + length s div 2) b = take l p @ decode_pairs s"
proof (induction s arbitrary: p l rule: decode_pairs.induct)
  case (1 c d r)
  let ?x = "push_bit 4 (decode_nibble c) OR decode_nibble d"
  let ?p = "(p @ [c, d])[l := ?x]"
  have upd: "(p @ (c # d # r) @ 0 # z)[l := ?x] = ?p @ r @ 0 # z"
    using 1(4) list_update_append[of "p @ [c, d]" "r @ 0 # z" l ?x] by simp
  have t: "take (Suc l) ?p = take l p @ [?x]"
    using 1(4) by (cases "l = 0") (simp_all add: take_Suc_conv_app_nth)
  obtain b where b: "hex_loop (?p @ r @ 0 # z) (l + 1) = Some (b, l + 1 + length r div 2)"
      "take (l + 1 + length r div 2) b = take (l + 1) ?p @ decode_pairs r"
    using 1(1)[of ?p "l + 1"] 1(2-4) by auto
  have "rd (p @ (c # d # r) @ 0 # z) (2 * l) = Some c" "rd (p @ (c # d # r) @ 0 # z) (2 * l + 1) = Some d"
    by (simp_all add: rd_def nth_append 1(4))
  then have "hex_loop (p @ (c # d # r) @ 0 # z) l = hex_loop (?p @ r @ 0 # z) (l + 1)"
    using 1(3) upd by (subst hex_loop.simps) simp
  then show ?case using b t by simp
next
  case "2_1"
  then show ?case by (subst hex_loop.simps) (simp add: rd_def nth_append)
qed simp

lemma hex_decode_pairs:
  assumes "even (length s)" "0 \<notin> set s"
  shows "\<exists>b. hex_decode_inplace (s @ [0]) = Some (b, length s div 2) \<and> take (length s div 2) b = decode_pairs s"
  using hex_loop_pairs[OF assms, of "[]" 0 "[]"] assms by (simp add: hex_decode_inplace_def strlen_def)

lemma decode_hex_digit: "x < 16 \<Longrightarrow> decode_nibble (hex_digit x) = x"
proof -
  have "\<forall>n \<in> set [0..<16]. decode_nibble (hex_digit (of_nat n)) = of_nat n" by code_simp
  moreover assume "x < (16 :: u8)"
  then have "unat x \<in> set [0..<16]" by (simp add: word_less_nat_alt)
  ultimately show ?thesis by fastforce
qed

lemma key_digit_nonzero: "x < 16 \<Longrightarrow> hex_digit x \<noteq> 0"
  using decode_hex_digit[of x] by (auto simp: decode_nibble_def)

lemma decode_pairs_hex: "decode_pairs (hex_bytes ks) = ks \<and> 0 \<notin> set (hex_bytes ks)"
proof (induction ks)
  case (Cons k ks)
  have "hex_digit (drop_bit 4 k) \<noteq> 0" "hex_digit (k AND 15) \<noteq> 0"
    using key_digit_nonzero nibble_less_16 by blast+
  then show ?case using Cons by (simp add: hex2_def decode_hex_digit nibble_less_16 byte_halves)
qed simp

section \<open>Encrypting in chunks\<close>

text \<open>A sequence of updates, and the documented behaviour of a block cipher of 16 bytes with padding.\<close>

fun updates :: "'c evp \<Rightarrow> 'c \<Rightarrow> bytes list \<Rightarrow> 'c \<times> bytes" where
  "updates evp c [] = (c, [])"
| "updates evp c (x # xs) = (let (c, b) = eupd evp c x; (c, r) = updates evp c xs in (c, b @ r))"

definition evp_cbc :: "'c evp \<Rightarrow> (bytes \<Rightarrow> bytes \<Rightarrow> bytes \<Rightarrow> bytes) \<Rightarrow> bool" where
  "evp_cbc evp E \<longleftrightarrow> (\<forall>k iv xs. let (c, b) = updates evp (einit evp k iv) xs in
     b @ efin evp c = E k iv (concat xs) \<and> length b = 16 * (length (concat xs) div 16) \<and> length (efin evp c) = 16)"

lemma updates_snoc: "updates evp c (xs @ [x]) = (let (c, b) = updates evp c xs; (c, r) = eupd evp c x in (c, b @ r))"
  by (induction xs arbitrary: c) (auto simp: Let_def split_beta)

lemma encrypt_loop_updates:
  assumes e: "evp_cbc evp E"
  shows "updates evp (einit evp key iv) xs = (ctx k, mac_data k) \<Longrightarrow> 16 dvd length (concat xs) \<Longrightarrow>
    \<exists>k' b ys. encrypt_loop evp inp k = Some (k', b) \<and> concat ys = concat xs @ inp \<and>
      updates evp (einit evp key iv) ys = (ctx k', mac_data k') \<and> mac_data k' = mac_data k @ b"
proof (induction "length inp" arbitrary: inp xs k rule: less_induct)
  case less
  show ?case
  proof (cases "inp = []")
    case True
    then show ?thesis using less.prems by (subst encrypt_loop.simps) auto
  next
    case False
    let ?x = "take BUF_SIZE inp"
    obtain c b where u: "eupd evp (ctx k) ?x = (c, b)" by (cases "eupd evp (ctx k) ?x")
    let ?k = "\<lparr>ctx = c, mac_data = mac_data k @ b\<rparr>"
    have s: "updates evp (einit evp key iv) (xs @ [?x]) = (ctx ?k, mac_data ?k)"
      using less.prems(1) u by (simp add: updates_snoc)
    have "length (mac_data k) = 16 * (length (concat xs) div 16)"
      "length (mac_data k @ b) = 16 * (length (concat (xs @ [?x])) div 16)"
      using e s less.prems(1) unfolding evp_cbc_def by (metis (mono_tags, lifting) case_prod_conv crypter.simps(1,2))+
    then have "length (concat xs) + length b = 16 * ((length (concat xs) + length ?x) div 16)"
      using less.prems(2) by simp
    then have b: "length b = 16 * (length ?x div 16)"
      using less.prems(2) by (elim dvdE) (simp add: algebra_simps)
    also have "\<dots> \<le> BUF_SIZE" using div_le_mono[of "length ?x" BUF_SIZE 16] by simp
    finally have em: "encrypt_and_mac_data evp ?x k = Some (?k, b)" using u by (simp add: encrypt_and_mac_data_def)
    show ?thesis
    proof (cases "drop BUF_SIZE inp = []")
      case True
      have "encrypt_loop evp inp k = Some (?k, b)"
        using False em True by (subst encrypt_loop.simps) (simp add: encrypt_loop.simps[of evp "[]"])
      moreover have "?x = inp" using True by simp
      ultimately show ?thesis using s by (intro exI[of _ ?k] exI[of _ b] exI[of _ "xs @ [?x]"]) simp
    next
      case more: False
      have "length ?x = BUF_SIZE" using more by simp
      then have "16 dvd length (concat (xs @ [?x]))" using less.prems(2) by simp
      moreover have "length (drop BUF_SIZE inp) < length inp" using False by simp
      ultimately obtain k' r ys where r: "encrypt_loop evp (drop BUF_SIZE inp) ?k = Some (k', r)"
          "concat ys = concat (xs @ [?x]) @ drop BUF_SIZE inp"
          "updates evp (einit evp key iv) ys = (ctx k', mac_data k')" "mac_data k' = mac_data ?k @ r"
        using less.hyps[of "drop BUF_SIZE inp" "xs @ [?x]" ?k] s by blast
      have "encrypt_loop evp inp k = Some (k', b @ r)" using False em r(1) by (subst encrypt_loop.simps) simp
      then show ?thesis using r(2-4) by (intro exI[of _ k'] exI[of _ "b @ r"] exI[of _ ys]) simp
    qed
  qed
qed

lemma encrypt_file_value:
  assumes e: "evp_cbc evp E" and h: "\<And>k d. length (hmac k d) = 32"
  shows "encrypt_file evp hmac kd inp =
    (let c = E (crypt_key kd) (replicate 16 0) inp in Some (c @ hmac (mac_key kd) c))"
proof -
  let ?c = "setup_crypter evp kd"
  have "updates evp (einit evp (crypt_key kd) (replicate 16 0)) [] = (ctx ?c, mac_data ?c)" by (simp add: setup_crypter_def)
  from encrypt_loop_updates[OF e this, of inp] obtain k b ys where "encrypt_loop evp inp ?c = Some (k, b)" "concat ys = concat [] @ inp"
      "updates evp (einit evp (crypt_key kd) (replicate 16 0)) ys = (ctx k, mac_data k)" "mac_data k = mac_data ?c @ b"
    by auto
  then have k: "encrypt_loop evp inp ?c = Some (k, b)" "concat ys = inp"
      "updates evp (einit evp (crypt_key kd) (replicate 16 0)) ys = (ctx k, mac_data k)" "mac_data k = b"
    by (simp_all add: setup_crypter_def)
  have "b @ efin evp (ctx k) = E (crypt_key kd) (replicate 16 0) inp" "length (efin evp (ctx k)) = 16"
    using e k(2-4) unfolding evp_cbc_def by (metis (mono_tags, lifting) case_prod_conv)+
  then show ?thesis using k(1,4) h by (simp add: encrypt_file_def finalize_crypter_def Let_def)
qed

section \<open>Enough random data\<close>

definition plenty :: "nat \<Rightarrow> bytes list \<Rightarrow> bool" where
  "plenty n reads \<longleftrightarrow> n \<le> length reads \<and> (\<forall>r \<in> set reads. BUF_SIZE \<le> length r)"

lemma plenty_less: "plenty n reads \<Longrightarrow> m \<le> n \<Longrightarrow> plenty m reads"
  by (simp add: plenty_def)

lemma wipe_plenty:
  assumes "plenty (Suc n) reads" "length mem \<le> BUF_SIZE"
  obtains m rest where "wipe_memory reads mem = Some (m, rest)" "plenty n rest" "length m = length mem"
proof (cases "mem = []")
  case True
  have "wipe_memory reads mem = Some ([], reads)" using True by (simp add: wipe_memory_def wipe_loop.simps[of reads 0 0])
  then show ?thesis using that assms(1) True by (simp add: plenty_def)
next
  case False
  obtain r rs where r: "reads = r # rs" "length mem \<le> length r" "plenty n rs"
    using assms by (cases reads) (auto simp: plenty_def)
  let ?m = "take (length mem) r"
  have l: "length ?m = length mem" using r(2) by simp
  have "wipe_loop rs (length mem) (length mem) ?m = Some (?m, rs)" by (subst wipe_loop.simps) simp
  then have "wipe_loop reads 0 (length mem) mem = Some (?m, rs)"
    using False l r(1) by (subst wipe_loop.simps) (auto simp: Let_def)
  then show ?thesis using that r(3) l by (simp add: wipe_memory_def)
qed

lemma update_plenty:
  assumes "plenty (Suc (Suc n)) reads" "length (entropy_seed k) \<le> 32" "length (entropy_pool k) \<le> 32"
  obtains k' rest where "update_key_data hmac reads k = Some (k', rest)" "plenty n rest"
    "crypt_key k' = hmac (raw_key k) (str ''crypt_key'')" "mac_key k' = hmac (raw_key k) (str ''mac_key'')"
proof -
  have l: "length (entropy_seed k) \<le> BUF_SIZE" "length (entropy_pool k) \<le> BUF_SIZE" using assms(2,3) by simp_all
  obtain s r1 where s: "wipe_memory reads (entropy_seed k) = Some (s, r1)" "plenty (Suc n) r1"
    by (rule wipe_plenty[OF assms(1) l(1)])
  obtain p r2 where p: "wipe_memory r1 (entropy_pool k) = Some (p, r2)" "plenty n r2"
    by (rule wipe_plenty[OF s(2) l(2)])
  show ?thesis by (rule that[OF _ p(2)]) (auto simp: update_key_data_def Let_def s p)
qed

lemma pretest_plenty:
  assumes "plenty (n + 4) reads"
  obtains a b rest where "pretest hmac reads = Some (a, b, rest)" "plenty n rest"
proof -
  have p: "plenty (Suc (n + 3)) reads" using assms by (simp add: add.commute)
  have z: "length (replicate SIZEOF_KEY_DATA (0 :: u8)) \<le> BUF_SIZE" by (simp add: SIZEOF_KEY_DATA_def)
  obtain m r1 where m: "wipe_memory reads (replicate SIZEOF_KEY_DATA 0) = Some (m, r1)" "plenty (n + 3) r1" "length m = 176"
    by (rule wipe_plenty[OF p(1) z]) (simp add: SIZEOF_KEY_DATA_def)
  have "plenty (Suc (Suc (n + 1))) r1" using m(2) by (simp add: eval_nat_numeral)
  then obtain k r2 where k: "update_key_data hmac r1 (key_of_bytes m) = Some (k, r2)" "plenty (n + 1) r2"
    by (rule update_plenty[where k = "key_of_bytes m"]) (simp_all add: key_of_bytes_def)
  have "plenty (Suc n) r2" using k(2) by simp
  then obtain w r3 where w: "wipe_memory r2 m = Some (w, r3)" "plenty n r3"
    by (rule wipe_plenty[of n r2 m]) (use m(3) in simp_all)
  show ?thesis by (rule that[OF _ w(2)]) (simp add: pretest_def m k w)
qed

lemma pretests_plenty: "plenty (n + 4 * m) reads \<Longrightarrow> \<exists>rest. pretests m hmac reads = Some rest \<and> plenty n rest"
proof (induction m arbitrary: reads)
  case (Suc m)
  have "plenty (n + 4 * m + 4) reads" using Suc.prems by (simp add: algebra_simps)
  then obtain a b rest where "pretest hmac reads = Some (a, b, rest)" "plenty (n + 4 * m) rest" by (rule pretest_plenty)
  then show ?case using Suc.IH by simp
qed simp

lemma length_cstr: "length (cstr e) \<le> length e"
  by (simp add: cstr_take)

lemma clear_env_plenty:
  "plenty (n + length es) reads \<Longrightarrow> \<forall>e \<in> set es. length e \<le> BUF_SIZE \<Longrightarrow> \<exists>rest. clear_env es reads = Some rest \<and> plenty n rest"
proof (induction es arbitrary: reads)
  case (Cons e es)
  have "plenty (Suc (n + length es)) reads" "length (cstr e) \<le> BUF_SIZE"
    using Cons.prems length_cstr[of e] by auto
  then obtain m rest where "wipe_memory reads (cstr e) = Some (m, rest)" "plenty (n + length es) rest" by (rule wipe_plenty)
  then show ?case using Cons by simp
qed simp

section \<open>The property\<close>

text \<open>
  C24: with a key of 64 hexadecimal digits, readable files and enough random data, the
  program writes the encryption of the whole input under the first derived key, followed
  by its HMAC under the second, without overrunning its buffers; then it always crashes in the
  wipe of a null pointer. The hypotheses on OpenSSL: encrypting in pieces is encrypting the
  whole, whole blocks come out at once, and the last piece is one block; an HMAC has 32 bytes.
\<close>

theorem main_encrypts:
  assumes "evp_cbc evp E" "\<And>k d. length (hmac k d) = 32" "length key = KEY_LEN"
    "plenty (600 + length environ) reads" "\<forall>e \<in> set environ. length e \<le> BUF_SIZE"
  shows "main evp hmac [prog, hex_bytes key, name] environ (Some inp) True reads =
    (let c = E (hmac key (str ''crypt_key'')) (replicate 16 0) inp in Crash (c @ hmac (hmac key (str ''mac_key'')) c))"
proof -
  obtain r1 where r1: "pretests 1 hmac reads = Some r1" "plenty (596 + length environ) r1"
    using pretests_plenty[of "596 + length environ" 1 reads hmac] assms(4) by (auto simp: add.commute)
  obtain r2 where r2: "clear_env environ r1 = Some r2" "plenty 596 r2"
    using clear_env_plenty[OF r1(2) assms(5)] by blast
  obtain b where b: "hex_decode_inplace (hex_bytes key @ [0]) = Some (b, 32)" "take KEY_LEN b = key"
    using hex_decode_pairs[of "hex_bytes key"] decode_pairs_hex[of key] assms(3) by auto
  let ?m = "nat (sint (b ! 0) + 1)"
  have "sint (b ! 0) < 128" using sint_lt[of "b ! 0"] by simp
  then have "?m \<le> 128" by simp
  then have "plenty (4 + 4 * ?m) r2" using plenty_less[OF r2(2)] by simp
  then obtain r3 where r3: "pretests ?m hmac r2 = Some r3" "plenty 4 r3" using pretests_plenty by blast
  let ?k = "\<lparr>raw_key = take KEY_LEN b, crypt_key = replicate 32 0, mac_key = replicate 32 0,
      entropy_seed = replicate 32 0, entropy_pool = replicate 32 (0 :: u8)\<rparr>"
  have "plenty (Suc (Suc 2)) r3" using r3(2) by (simp add: eval_nat_numeral)
  then obtain k r4 where k: "update_key_data hmac r3 ?k = Some (k, r4)" "plenty 2 r4"
      "crypt_key k = hmac key (str ''crypt_key'')" "mac_key k = hmac key (str ''mac_key'')"
    by (rule update_plenty[where k = ?k and hmac = hmac]) (use b(2) in simp_all)
  have p: "plenty (Suc 1) r4" using k(2) by (simp add: eval_nat_numeral)
  have z: "length (replicate BUF_SIZE (0 :: u8)) \<le> BUF_SIZE" by simp
  obtain w r5 where w: "wipe_memory r4 (replicate BUF_SIZE 0) = Some (w, r5)" "plenty 1 r5"
    by (rule wipe_plenty[OF p z])
  have "plenty (Suc 0) r5" using w(2) by simp
  then obtain v r6 where v: "wipe_memory r5 (replicate BUF_SIZE 0) = Some (v, r6)"
    by (rule wipe_plenty[OF _ z])
  have e: "encrypt_file evp hmac k inp = (let c = E (hmac key (str ''crypt_key'')) (replicate 16 0) inp
      in Some (c @ hmac (hmac key (str ''mac_key'')) c))"
    using encrypt_file_value[OF assms(1,2), where kd = k and inp = inp] k(3,4) by simp
  show ?thesis
    unfolding main_def r1(1) Option.bind.simps r2(1) option.case
    using b(1) r3(1) k(1) e w(1) v by (simp add: Let_def)
qed

text \<open>A cipher context with the assumed behaviour: it holds back the bytes of an unfinished block.\<close>

definition keep_blocks :: "bytes evp" where
  "keep_blocks = \<lparr>einit = (\<lambda>_ _. []),
     eupd = (\<lambda>p x. (drop (16 * (length (p @ x) div 16)) (p @ x), take (16 * (length (p @ x) div 16)) (p @ x))),
     efin = (\<lambda>p. p @ replicate (16 - length p) 1)\<rparr>"

definition padded :: "bytes \<Rightarrow> bytes \<Rightarrow> bytes \<Rightarrow> bytes" where
  "padded k iv d = d @ replicate (16 - length d mod 16) 1"

lemma split_blocks:
  fixes d y :: bytes
  defines "n \<equiv> 16 * (length d div 16)"
  defines "m \<equiv> 16 * (length (drop n d @ y) div 16)"
  shows "length (drop n d) < 16" "16 * (length (d @ y) div 16) = n + m"
    "take (n + m) (d @ y) = take n d @ take m (drop n d @ y)" "drop (n + m) (d @ y) = drop m (drop n d @ y)"
proof -
  have n: "n \<le> length d" by (simp add: n_def)
  have l: "length (drop n d) = length d mod 16" unfolding length_drop n_def by (rule minus_mult_div_eq_mod)
  then show "length (drop n d) < 16" by simp
  have e: "length (d @ y) = 16 * (length d div 16) + length (drop n d @ y)" using n by (simp add: n_def)
  have "16 * ((16 * q + r) div 16) = 16 * q + 16 * (r div 16)" for q r :: nat by simp
  from this[of "length d div 16" "length (drop n d @ y)", folded e] show "16 * (length (d @ y) div 16) = n + m"
    unfolding m_def by (simp only: n_def)
  have s: "d @ y = take n d @ (drop n d @ y)" by simp
  have t: "length (take n d) = n" using n by simp
  show "take (n + m) (d @ y) = take n d @ take m (drop n d @ y)" "drop (n + m) (d @ y) = drop m (drop n d @ y)"
    using s t by (metis take_add append_eq_conv_conj drop_drop add.commute)+
qed

lemma keep_blocks_updates:
  "length p < 16 \<Longrightarrow> updates keep_blocks p xs =
    (drop (16 * (length (p @ concat xs) div 16)) (p @ concat xs), take (16 * (length (p @ concat xs) div 16)) (p @ concat xs))"
proof (induction xs arbitrary: p)
  case (Cons x xs)
  note d = split_blocks(1)[of "p @ x"] split_blocks(2-4)[of "p @ x" "concat xs"]
  have u: "eupd keep_blocks p x = (drop (16 * (length (p @ x) div 16)) (p @ x), take (16 * (length (p @ x) div 16)) (p @ x))"
    by (simp only: keep_blocks_def evp.simps)
  show ?case
    using Cons.IH[OF d(1)] unfolding updates.simps u Let_def prod.case concat.simps append_assoc[symmetric] d(2-4)
    by (simp only: prod.case)
qed simp

lemma keep_blocks_cbc: "evp_cbc keep_blocks padded"
proof -
  have "take n d @ drop n d @ replicate (16 - length (drop n d)) 1 = padded k iv d" "length (take n d) = n" "length (drop n d) < 16"
    if "n = 16 * (length d div 16)" for n k iv and d :: bytes
    using that by (simp_all add: padded_def minus_mult_div_eq_mod)
  then show ?thesis
    using keep_blocks_updates[of "[]"] by (simp add: evp_cbc_def keep_blocks_def Let_def)
qed

theorem main_encrypts_witness:
  "main keep_blocks (\<lambda>k d. replicate 32 (hd d)) [[], hex_bytes (replicate 32 7), []] [] (Some [1, 2, 3]) True (replicate 600 (replicate 1024 0)) =
    Crash ([1, 2, 3] @ replicate 13 1 @ replicate 32 1)"
proof -
  have "plenty (600 + length []) (replicate 600 (replicate 1024 0))" by (simp add: plenty_def)
  from main_encrypts[OF keep_blocks_cbc _ _ this, of "\<lambda>k d. replicate 32 (hd d)" "replicate 32 7" "[]" "[]" "[1, 2, 3]"]
  show ?thesis by (simp add: padded_def)
qed

end
