(* ===== verification/Crc.thy ===== *)
theory Crc
  imports Prelude
begin

text \<open>
  \<open>maltty/challenge/src/sshcrc.c\<close> and \<open>sshcrcda.c\<close>: the CRC of SSH-1 without a table, and the
  detector of CRC compensation attacks with its open hash table.
\<close>

section \<open>The checksum\<close>

definition crc32_shift_4 :: "u32 \<Rightarrow> u32" where
  "crc32_shift_4 v =
     (let a = 0x11111044; b = 0x08840020; c = 0x04220000;
          m = v AND 0xF
      in drop_bit 4 v XOR a * m XOR b * m XOR c * m)"

definition crc32_shift_8 :: "u32 \<Rightarrow> u32" where
  "crc32_shift_8 v = crc32_shift_4 (crc32_shift_4 v)"

fun crc32_update :: "u32 \<Rightarrow> bytes \<Rightarrow> u32" where
  "crc32_update crc [] = crc"
| "crc32_update crc (p # ps) = crc32_update (crc32_shift_8 (crc XOR ucast p)) ps"

definition crc32_ssh1 :: "bytes \<Rightarrow> u32" where
  "crc32_ssh1 d = crc32_update 0 d"

definition crc32_rfc1662 :: "bytes \<Rightarrow> u32" where
  "crc32_rfc1662 d = crc32_update 0xFFFFFFFF d XOR 0xFFFFFFFF"

section \<open>The detector\<close>

abbreviation (input) SSH_MAXBLOCKS :: nat where "SSH_MAXBLOCKS \<equiv> 32 * 1024"
abbreviation (input) SSH_BLOCKSIZE :: nat where "SSH_BLOCKSIZE \<equiv> 8"
abbreviation (input) HASH_MINSIZE :: nat where "HASH_MINSIZE \<equiv> 8 * 1024"
abbreviation (input) HASH_UNUSED :: u16 where "HASH_UNUSED \<equiv> 0xFFFF"
abbreviation (input) HASH_IV :: u16 where "HASH_IV \<equiv> 0xFFFE"
abbreviation (input) HASH_MINBLOCKS :: nat where "HASH_MINBLOCKS \<equiv> 7 * SSH_BLOCKSIZE"

definition HASH_FACTOR :: "u32 \<Rightarrow> u32" where
  "HASH_FACTOR x = x * 3 div 2"

definition HASH :: "bytes \<Rightarrow> u32" where
  "HASH x = push_bit 24 (ucast (x ! 0)) OR push_bit 16 (ucast (x ! 1)) OR push_bit 8 (ucast (x ! 2)) OR ucast (x ! 3)"

definition ONE :: bytes where "ONE = [1, 0, 0, 0]"
definition ZERO :: bytes where "ZERO = [0, 0, 0, 0]"

text \<open>The table is \<open>None\<close> before the first packet.\<close>

record crcda_ctx =
  h :: "u16 list option"
  n :: u32

definition crcda_make_context :: crcda_ctx where
  "crcda_make_context = \<lparr>h = None, n = of_nat (HASH_MINSIZE div 2)\<rparr>"

text \<open>The block at a position; \<open>None\<close> if it is not inside the buffer.\<close>

definition block :: "bytes \<Rightarrow> nat \<Rightarrow> bytes option" where
  "block buf c = (if c + SSH_BLOCKSIZE \<le> length buf then Some (take SSH_BLOCKSIZE (drop c buf)) else None)"

function pattern_crc :: "bytes \<Rightarrow> bytes \<Rightarrow> nat \<Rightarrow> u32 \<Rightarrow> u32 option" where
  "pattern_crc S buf c crc =
     (if c < length buf then do {
        b \<leftarrow> block buf c;
        pattern_crc S buf (c + SSH_BLOCKSIZE)
          (if S = b then crc32_update (crc32_update crc ONE) ZERO else crc32_update (crc32_update crc ZERO) ZERO)
      }
      else Some crc)"
  by pat_completeness auto
termination by (relation "measure (\<lambda>(_, buf, c, _). length buf - c)") auto

declare pattern_crc.simps [simp del]

definition check_crc :: "bytes \<Rightarrow> bytes \<Rightarrow> bytes option \<Rightarrow> bool option" where
  "check_crc S buf IV =
     (let crc = 0;
          crc = (if IV = Some S then crc32_update (crc32_update crc ONE) ZERO else crc)
      in map_option (\<lambda>crc. crc = 0) (pattern_crc S buf 0 crc))"

text \<open>The size of the table: the loop would not end for a size of 0.\<close>

partial_function (option) grow :: "u32 \<Rightarrow> u32 \<Rightarrow> u32 option" where
  "grow bound l = (if l < bound then grow bound (push_bit 2 l) else Some l)"

text \<open>The short packets. The inner loop: is a block before \<open>c\<close> equal to it?\<close>

datatype verdict = Go_on | Detected | Stop

function earlier :: "bytes \<Rightarrow> bytes option \<Rightarrow> bytes \<Rightarrow> nat \<Rightarrow> nat \<Rightarrow> verdict option" where
  "earlier buf IV cb c d =
     (if d < c then do {
        db \<leftarrow> block buf d;
        if cb = db then do {
          a \<leftarrow> check_crc cb buf IV;
          Some (if a then Detected else Go_on)
        }
        else earlier buf IV cb c (d + SSH_BLOCKSIZE)
      }
      else Some Go_on)"
  by pat_completeness auto
termination by (relation "measure (\<lambda>(_, _, _, c, d). c - d)") auto

declare earlier.simps [simp del]

definition short_block :: "bytes \<Rightarrow> bytes option \<Rightarrow> nat \<Rightarrow> verdict option" where
  "short_block buf IV c = do {
     cb \<leftarrow> block buf c;
     if IV = Some cb then do {
       a \<leftarrow> check_crc cb buf IV;
       Some (if a then Detected else Stop)
     }
     else earlier buf IV cb c 0
   }"

function short_loop :: "bytes \<Rightarrow> bytes option \<Rightarrow> nat \<Rightarrow> bool option" where
  "short_loop buf IV c =
     (if c < length buf then do {
        v \<leftarrow> short_block buf IV c;
        case v of Detected \<Rightarrow> Some True | Stop \<Rightarrow> Some False | Go_on \<Rightarrow> short_loop buf IV (c + SSH_BLOCKSIZE)
      }
      else Some False)"
  by pat_completeness auto
termination by (relation "measure (\<lambda>(buf, _, c). length buf - c)") auto

declare short_loop.simps [simp del]

text \<open>
  The long packets. Probing from \<open>i\<close>: the place where \<open>c\<close> is stored, or an attack. The loop
  would not end in a full table. An entry \<open>HASH_IV\<close> without an IV fails the assertion.
\<close>

datatype probed = Attack | Place u32

partial_function (option) probe :: "bytes \<Rightarrow> bytes option \<Rightarrow> u32 \<Rightarrow> u16 list \<Rightarrow> bytes \<Rightarrow> u32 \<Rightarrow> probed option" where
  "probe buf IV m t cb i = do {
     e \<leftarrow> rd t (unat i);
     if e = HASH_UNUSED then Some (Place i)
     else do {
       b \<leftarrow> (if e = HASH_IV then IV else block buf (unat e * SSH_BLOCKSIZE));
       if cb = b then do {
         a \<leftarrow> check_crc cb buf IV;
         Some (if a then Attack else Place i)
       }
       else probe buf IV m t cb ((i + 1) AND (m - 1))
     }
   }"

function long_loop :: "bytes \<Rightarrow> bytes option \<Rightarrow> u32 \<Rightarrow> u16 list \<Rightarrow> nat \<Rightarrow> nat \<Rightarrow> (bool \<times> u16 list) option" where
  "long_loop buf IV m t c j =
     (if c < length buf then do {
        cb \<leftarrow> block buf c;
        p \<leftarrow> probe buf IV m t cb (HASH cb AND (m - 1));
        case p of
          Attack \<Rightarrow> Some (True, t)
        | Place i \<Rightarrow> do {
            t \<leftarrow> wr t (unat i) (of_nat j);
            long_loop buf IV m t (c + SSH_BLOCKSIZE) (j + 1)
          }
      }
      else Some (False, t))"
  by pat_completeness auto
termination by (relation "measure (\<lambda>(buf, _, _, _, c, _). length buf - c)") auto

declare long_loop.simps [simp del]

text \<open>\<open>fresh k\<close> is the memory of a fresh table of \<open>k\<close> entries.\<close>

definition ensure_table :: "(nat \<Rightarrow> u16 list) \<Rightarrow> u32 \<Rightarrow> crcda_ctx \<Rightarrow> crcda_ctx" where
  "ensure_table fresh l ctx =
     (case h ctx of
        None \<Rightarrow> ctx\<lparr>n := l, h := Some (fresh (unat l))\<rparr>
      | Some t \<Rightarrow> if n ctx < l then ctx\<lparr>n := l, h := Some (t @ drop (length t) (fresh (unat l)))\<rparr> else ctx)"

text \<open>
  \<open>None\<close> is a failed assertion, an access out of bounds or a loop that does not end.
\<close>

definition detect_attack :: "(nat \<Rightarrow> u16 list) \<Rightarrow> crcda_ctx \<Rightarrow> bytes \<Rightarrow> bytes option \<Rightarrow> (bool \<times> crcda_ctx) option" where
  "detect_attack fresh ctx buf IV =
     (if length buf > SSH_MAXBLOCKS * SSH_BLOCKSIZE \<or> length buf mod SSH_BLOCKSIZE \<noteq> 0 then None
      else do {
        l \<leftarrow> grow (HASH_FACTOR (of_nat (length buf) div of_nat SSH_BLOCKSIZE)) (n ctx);
        let ctx = ensure_table fresh l ctx;
        if length buf \<le> HASH_MINBLOCKS then do {
          r \<leftarrow> short_loop buf IV 0;
          Some (r, ctx)
        }
        else do {
          let t = map (\<lambda>_. HASH_UNUSED) (case h ctx of None \<Rightarrow> [] | Some t \<Rightarrow> t);
          t \<leftarrow> (case IV of None \<Rightarrow> Some t | Some iv \<Rightarrow> wr t (unat (HASH iv AND (n ctx - 1))) HASH_IV);
          (r, t) \<leftarrow> long_loop buf IV (n ctx) t 0 0;
          Some (r, ctx\<lparr>h := Some t\<rparr>)
        }
      })"

section \<open>The checksum is the shift register\<close>

text \<open>One step of the register: multiplication by x modulo the polynomial, bits reversed.\<close>

definition crc_bit :: "u32 \<Rightarrow> u32" where
  "crc_bit v = drop_bit 1 v XOR (if bit v 0 then 0xEDB88320 else 0)"

definition crc_byte :: "u32 \<Rightarrow> u8 \<Rightarrow> u32" where
  "crc_byte v b = (crc_bit ^^ 8) (v XOR ucast b)"

lemma xor_self_left: "x XOR (x XOR y) = (y :: u32)"
  by (simp flip: xor.assoc)

lemma crc_bit_xor: "crc_bit (v XOR w) = crc_bit v XOR crc_bit w"
  by (cases "bit v 0"; cases "bit w 0") (simp_all add: crc_bit_def drop_bit_xor bit_xor_iff xor_self_left ac_simps)

lemma crc_bits_xor: "(crc_bit ^^ k) (v XOR w) = (crc_bit ^^ k) v XOR (crc_bit ^^ k) w"
  by (induction k) (simp_all add: crc_bit_xor)

lemma crc_bits_high: "take_bit k v = 0 \<Longrightarrow> (crc_bit ^^ k) v = drop_bit k v"
proof (induction k arbitrary: v)
  case (Suc k)
  have b: "\<not> bit v 0" "take_bit k (drop_bit 1 v) = 0"
    using arg_cong[OF Suc.prems, of "\<lambda>x. bit x 0"]
      arg_cong[OF Suc.prems, of "drop_bit 1"]
    by (simp_all add: bit_take_bit_iff drop_bit_take_bit)
  have "(crc_bit ^^ Suc k) v = (crc_bit ^^ k) (drop_bit 1 v)"
    unfolding funpow_Suc_right comp_def using b(1) by (simp add: crc_bit_def)
  also have "\<dots> = drop_bit (Suc k) v" using Suc.IH[OF b(2)] by (simp add: drop_bit_drop_bit)
  finally show ?case .
qed simp

lemma nibble_shift: "\<forall>x \<in> set [0..<16]. crc32_shift_4 (of_nat x) = (crc_bit ^^ 4) (of_nat x)"
  by code_simp

lemma nibble_bound: "unat (v AND 0xF :: u32) < 16"
proof -
  have "v AND 0xF = take_bit 4 v" by (simp add: take_bit_eq_mask mask_eq_exp_minus_1)
  then show ?thesis by (simp add: take_bit_eq_mod unat_mod)
qed

lemma crc32_shift_4_bits: "crc32_shift_4 v = (crc_bit ^^ 4) v"
proof -
  define lo hi where "lo = v AND 0xF" and "hi = v AND NOT 0xF"
  have m: "(0xF :: u32) = mask 4" by (simp add: mask_eq_exp_minus_1)
  have v: "v = hi XOR lo" by (rule bit_word_eqI) (auto simp: lo_def hi_def bit_simps)
  have lo: "lo = of_nat (unat lo)" "unat lo < 16"
    using nibble_bound[of v] by (simp_all add: lo_def)
  have "take_bit 4 hi = 0" by (rule bit_word_eqI) (auto simp: hi_def m bit_simps)
  then have hi: "(crc_bit ^^ 4) hi = drop_bit 4 hi" by (rule crc_bits_high)
  have d: "drop_bit 4 lo = 0" by (rule bit_word_eqI) (auto simp: lo_def m bit_simps)
  have dv: "drop_bit 4 v = drop_bit 4 hi" by (rule bit_word_eqI) (auto simp: hi_def m bit_simps dest: bit_imp_le_length)
  have "lo AND 0xF = lo" by (simp add: lo_def and.assoc)
  then have "crc32_shift_4 v = drop_bit 4 hi XOR crc32_shift_4 lo"
    unfolding crc32_shift_4_def Let_def d dv by (simp add: lo_def xor.assoc)
  also have "crc32_shift_4 lo = (crc_bit ^^ 4) lo"
    using nibble_shift[rule_format, of "unat lo"] lo by simp
  finally show ?thesis using v hi crc_bits_xor[of 4 hi lo] by simp
qed

lemma crc32_shift_8_bits: "crc32_shift_8 v = (crc_bit ^^ 8) v"
  by (simp add: crc32_shift_8_def crc32_shift_4_bits flip: funpow_add[THEN fun_cong, simplified])


lemma crc32_update_fold: "crc32_update crc d = fold (\<lambda>b v. crc_byte v b) d crc"
  by (induction d arbitrary: crc) (simp_all add: crc32_shift_8_bits crc_byte_def)

lemma crc32_update_append: "crc32_update crc (d @ e) = crc32_update (crc32_update crc d) e"
  by (induction d arbitrary: crc) simp_all

text \<open>Linearity, which is what the compensation attack uses.\<close>

lemma crc_byte_xor: "crc_byte (v XOR w) (b XOR c) = crc_byte v b XOR crc_byte w c"
proof -
  have "ucast (b XOR c) = (ucast b XOR ucast c :: u32)" by (rule bit_word_eqI) (auto simp: bit_simps)
  then have "(v XOR w) XOR ucast (b XOR c) = (v XOR ucast b) XOR (w XOR ucast c)" by (simp add: ac_simps)
  then show ?thesis by (simp only: crc_byte_def crc_bits_xor)
qed

lemma crc32_update_xor: "length d = length e \<Longrightarrow>
    crc32_update (v XOR w) (map2 (XOR) d e) = crc32_update v d XOR crc32_update w e"
  by (induction d e arbitrary: v w rule: list_induct2) (simp_all add: crc32_update_fold crc_byte_xor)

section \<open>Open addressing\<close>

text \<open>
  A table with linear probing, apart from what its entries are: \<open>value\<close> is the key an entry
  stands for (\<open>None\<close>: the entry is free), \<open>start\<close> the place where the search for a key begins.
\<close>

locale open_table =
  fixes N :: nat and "value" :: "'e \<Rightarrow> 'v option" and start :: "'v \<Rightarrow> nat"
  assumes start_less: "start v < N"
begin

definition pos :: "'v \<Rightarrow> nat \<Rightarrow> nat" where
  "pos v t = (start v + t) mod N"

text \<open>The search for \<open>v\<close> ends after \<open>u\<close> steps; it finds \<open>v\<close>.\<close>

definition stops :: "'e list \<Rightarrow> 'v \<Rightarrow> nat \<Rightarrow> bool" where
  "stops T v u \<longleftrightarrow> u < N \<and> value (T ! pos v u) \<in> {None, Some v} \<and> (\<forall>s<u. value (T ! pos v s) \<notin> {None, Some v})"

definition finds :: "'e list \<Rightarrow> 'v \<Rightarrow> bool" where
  "finds T v \<longleftrightarrow> (\<exists>t<N. value (T ! pos v t) = Some v \<and> (\<forall>s<t. value (T ! pos v s) \<noteq> None))"

text \<open>Every key in the table is found.\<close>

definition sound :: "'e list \<Rightarrow> bool" where
  "sound T \<longleftrightarrow> (\<forall>i<N. \<forall>v. value (T ! i) = Some v \<longrightarrow> finds T v)"

definition used :: "'e list \<Rightarrow> nat set" where
  "used T = {i. i < N \<and> value (T ! i) \<noteq> None}"

lemma pos_less [simp]: "pos v t < N"
  using start_less[of v] by (simp add: pos_def)

lemma pos_onto: "i < N \<Longrightarrow> \<exists>t<N. pos v t = i"
proof -
  assume i: "i < N"
  let ?t = "(i + N - start v) mod N"
  have "pos v ?t = (start v + (i + N - start v)) mod N" by (simp add: pos_def mod_add_right_eq)
  also have "\<dots> = i" using i start_less[of v] by simp
  finally show ?thesis using i by (intro exI[of _ ?t]) simp
qed

lemma stops_ex:
  assumes "card (used T) < N"
  shows "\<exists>u. stops T v u"
proof -
  obtain i where i: "i < N" "value (T ! i) = None"
  proof (rule ccontr)
    assume "\<not> thesis"
    then have "used T = {..<N}" using that unfolding used_def by blast
    then show False using assms by simp
  qed
  obtain t where t: "t < N" "value (T ! pos v t) = None" using pos_onto[OF i(1), of v] i(2) by auto
  define P where "P s \<longleftrightarrow> value (T ! pos v s) \<in> {None, Some v}" for s
  define u where "u = (LEAST s. P s)"
  have P: "P t" using t(2) by (simp add: P_def)
  have "P u" "u \<le> t" unfolding u_def using P by (simp_all add: LeastI Least_le)
  moreover have "\<And>s. s < u \<Longrightarrow> \<not> P s" unfolding u_def by (rule not_less_Least)
  ultimately have "stops T v u" using t(1) unfolding stops_def P_def by (simp del: insert_iff)
  then show ?thesis ..
qed

lemma stops_finds: "stops T v u \<Longrightarrow> finds T v \<longleftrightarrow> value (T ! pos v u) = Some v"
proof
  assume s: "stops T v u" and "finds T v"
  then obtain t where t: "value (T ! pos v t) = Some v" "\<forall>s<t. value (T ! pos v s) \<noteq> None"
    by (auto simp: finds_def)
  have "\<not> t < u" using s t(1) by (auto simp: stops_def)
  then have "u = t \<or> value (T ! pos v u) \<noteq> None" using t(2) by (meson linorder_neqE_nat)
  then show "value (T ! pos v u) = Some v" using s t(1) by (auto simp: stops_def)
next
  assume s: "stops T v u" and v: "value (T ! pos v u) = Some v"
  then have "u < N" "\<forall>s<u. value (T ! pos v s) \<noteq> None" unfolding stops_def by simp_all
  then show "finds T v" using v unfolding finds_def by blast
qed

lemma used_update:
  assumes "length T = N"
  shows "card (used (T[i := e])) \<le> Suc (card (used T))"
proof -
  have "used (T[i := e]) \<subseteq> insert i (used T)" using assms by (auto simp: used_def nth_list_update split: if_splits)
  moreover have f: "finite (used T)" by (simp add: used_def)
  ultimately have "card (used (T[i := e])) \<le> card (insert i (used T))" by (simp add: card_mono)
  also have "\<dots> \<le> Suc (card (used T))" using f by (simp add: card_insert_if)
  finally show ?thesis .
qed

lemma finds_update:
  assumes "stops T v u" "value e = Some v" "length T = N" "sound T"
  shows "finds (T[pos v u := e]) w \<longleftrightarrow> w = v \<or> finds T w"
proof -
  let ?T = "T[pos v u := e]"
  have val: "value (?T ! pos w s) = (if pos w s = pos v u then Some v else value (T ! pos w s))" for w s
    using assms(2,3) by (simp add: nth_list_update)
  have old: "value (T ! pos v u) \<in> {None, Some v}" using assms(1) by (simp add: stops_def)
  show ?thesis
  proof
    assume "finds ?T w"
    then obtain t where t: "t < N" "value (?T ! pos w t) = Some w" "\<forall>s<t. value (?T ! pos w s) \<noteq> None"
      by (auto simp: finds_def)
    show "w = v \<or> finds T w"
      using t(2) assms(4) pos_less[of w t] unfolding val sound_def by (metis option.inject)
  next
    assume "w = v \<or> finds T w"
    then show "finds ?T w"
    proof
      assume "w = v"
      then show ?thesis using assms(1) by (auto simp: finds_def val stops_def intro!: exI[of _ u])
    next
      assume "finds T w"
      then obtain t where t: "t < N" "value (T ! pos w t) = Some w" "\<forall>s<t. value (T ! pos w s) \<noteq> None"
        by (auto simp: finds_def)
      moreover have "value (?T ! pos w t) = Some w" using t(2) old by (auto simp: val)
      ultimately show ?thesis by (auto simp: finds_def val)
    qed
  qed
qed

lemma sound_update:
  assumes "stops T v u" "value e = Some v" "length T = N" "sound T"
  shows "sound (T[pos v u := e])"
  using assms(2-4) by (auto simp: sound_def finds_update[OF assms] nth_list_update split: if_splits)

end

section \<open>Blocks and patterns\<close>

definition blk :: "bytes \<Rightarrow> nat \<Rightarrow> bytes" where
  "blk buf k = take SSH_BLOCKSIZE (drop (SSH_BLOCKSIZE * k) buf)"

definition blocks :: "bytes \<Rightarrow> bytes list" where
  "blocks buf = map (blk buf) [0..<length buf div SSH_BLOCKSIZE]"

text \<open>The message whose checksum is looked at: where the packet has the block \<open>S\<close>.\<close>

definition pattern :: "bytes \<Rightarrow> bytes list \<Rightarrow> bytes" where
  "pattern S bs = concat (map (\<lambda>b. (if S = b then ONE else ZERO) @ ZERO) bs)"

definition compensates :: "bytes \<Rightarrow> bytes option \<Rightarrow> bytes \<Rightarrow> bool" where
  "compensates buf IV S \<longleftrightarrow> crc32_ssh1 (pattern S ((if IV = Some S then [S] else []) @ blocks buf)) = 0"

text \<open>The block is the IV or has occurred before.\<close>

definition repeated :: "bytes \<Rightarrow> bytes option \<Rightarrow> nat \<Rightarrow> bool" where
  "repeated buf IV k \<longleftrightarrow> IV = Some (blk buf k) \<or> (\<exists>i<k. blk buf i = blk buf k)"

lemma block_blk: "k < length buf div 8 \<Longrightarrow> block buf (8 * k) = Some (blk buf k)"
  by (auto simp: block_def blk_def)

lemma in_buf: "8 dvd length buf \<Longrightarrow> 8 * k < length (buf :: bytes) \<longleftrightarrow> k < length buf div 8"
  by (auto elim!: dvdE)

lemma pattern_crc_eq:
  assumes "8 dvd length buf" "k \<le> length buf div 8"
  shows "pattern_crc S buf (8 * k) crc = Some (crc32_update crc (pattern S (drop k (blocks buf))))"
  using assms(2)
proof (induction "length buf div 8 - k" arbitrary: k crc)
  case 0
  then show ?case using in_buf[OF assms(1), of k]
    by (subst pattern_crc.simps) (simp add: pattern_def blocks_def)
next
  case (Suc d)
  then have k: "k < length buf div 8" by simp
  have dr: "drop k (blocks buf) = blk buf k # drop (Suc k) (blocks buf)"
    using k by (simp add: blocks_def Cons_nth_drop_Suc[symmetric])
  have IH: "pattern_crc S buf (8 * Suc k) crc = Some (crc32_update crc (pattern S (drop (Suc k) (blocks buf))))" for crc
    using Suc(2) k by (intro Suc(1)) auto
  show ?case
    using k in_buf[OF assms(1), of k] IH
    by (subst pattern_crc.simps) (simp add: block_blk dr pattern_def crc32_update_append add.commute)
qed

lemma check_crc_eq: "8 dvd length buf \<Longrightarrow> check_crc S buf IV = Some (compensates buf IV S)"
  using pattern_crc_eq[of buf 0 S]
  by (simp add: check_crc_def compensates_def crc32_ssh1_def pattern_def crc32_update_append)

section \<open>Short packets\<close>

lemma earlier_eq:
  assumes "8 dvd length buf" "c \<le> length buf div 8" "d \<le> c"
  shows "earlier buf IV cb (8 * c) (8 * d) =
    Some (if (\<exists>i. d \<le> i \<and> i < c \<and> blk buf i = cb) \<and> compensates buf IV cb then Detected else Go_on)"
  using assms(3)
proof (induction "c - d" arbitrary: d)
  case 0
  then show ?case by (subst earlier.simps) auto
next
  case (Suc n)
  then have d: "d < c" by simp
  have IH: "earlier buf IV cb (8 * c) (8 * Suc d) =
      Some (if (\<exists>i. Suc d \<le> i \<and> i < c \<and> blk buf i = cb) \<and> compensates buf IV cb then Detected else Go_on)"
    using Suc(2) d by (intro Suc(1)) auto
  have split: "(\<exists>i. d \<le> i \<and> i < c \<and> blk buf i = cb) \<longleftrightarrow> blk buf d = cb \<or> (\<exists>i. Suc d \<le> i \<and> i < c \<and> blk buf i = cb)"
    using d by (metis Suc_leI le_eq_less_or_eq Suc_le_lessD less_imp_le)
  show ?case
  proof (cases "cb = blk buf d")
    case True
    then show ?thesis using d assms(1,2)
      by (subst earlier.simps) (auto simp: block_blk check_crc_eq)
  next
    case False
    then show ?thesis unfolding split using d assms(2) IH
      by (subst earlier.simps) (simp add: block_blk add.commute)
  qed
qed

lemma short_block_eq:
  assumes "8 dvd length buf" "c < length buf div 8"
  shows "short_block buf IV (8 * c) = Some (if repeated buf IV c \<and> compensates buf IV (blk buf c) then Detected
    else if IV = Some (blk buf c) then Stop else Go_on)"
  using earlier_eq[OF assms(1), of c 0 IV "blk buf c"] assms
  by (auto simp: short_block_def block_blk check_crc_eq repeated_def)

lemma short_loop_eq:
  assumes "8 dvd length buf" "c \<le> length buf div 8"
  shows "short_loop buf IV (8 * c) = Some (\<exists>k. c \<le> k \<and> k < length buf div 8 \<and> repeated buf IV k \<and>
    compensates buf IV (blk buf k) \<and> (\<forall>i. c \<le> i \<and> i < k \<longrightarrow> IV \<noteq> Some (blk buf i)))"
  using assms(2)
proof (induction "length buf div 8 - c" arbitrary: c)
  case 0
  then show ?case using in_buf[OF assms(1), of c] by (subst short_loop.simps) auto
next
  case (Suc n)
  then have c: "c < length buf div 8" by simp
  let ?Q = "\<lambda>c k. c \<le> k \<and> k < length buf div 8 \<and> repeated buf IV k \<and>
    compensates buf IV (blk buf k) \<and> (\<forall>i. c \<le> i \<and> i < k \<longrightarrow> IV \<noteq> Some (blk buf i))"
  have IH: "short_loop buf IV (8 * Suc c) = Some (\<exists>k. ?Q (Suc c) k)"
    using Suc(2) c by (intro Suc(1)) auto
  have split: "(\<exists>k. ?Q c k) \<longleftrightarrow> repeated buf IV c \<and> compensates buf IV (blk buf c) \<or>
      IV \<noteq> Some (blk buf c) \<and> (\<exists>k. ?Q (Suc c) k)" (is "?l \<longleftrightarrow> ?r")
  proof
    assume ?l
    then obtain k where k: "?Q c k" ..
    show ?r
    proof (cases "k = c")
      case False
      then have "?Q (Suc c) k" "IV \<noteq> Some (blk buf c)" using k by (auto simp: Suc_le_eq)
      then show ?thesis by blast
    qed (use k in auto)
  next
    assume ?r
    then show ?l
    proof (elim disjE conjE exE)
      assume "repeated buf IV c" "compensates buf IV (blk buf c)"
      then show ?l using c by (intro exI[of _ c]) auto
    next
      fix k assume "IV \<noteq> Some (blk buf c)" "Suc c \<le> k" "k < length buf div 8" "repeated buf IV k"
        "compensates buf IV (blk buf k)" "\<forall>i. Suc c \<le> i \<and> i < k \<longrightarrow> IV \<noteq> Some (blk buf i)"
      moreover have "\<forall>i. c \<le> i \<and> i < k \<longrightarrow> IV \<noteq> Some (blk buf i)"
        using calculation(1,6) by (metis le_neq_implies_less Suc_leI)
      ultimately show ?l by (intro exI[of _ k]) simp
    qed
  qed
  show ?case unfolding split
    using c in_buf[OF assms(1), of c] IH
    by (subst short_loop.simps) (auto simp add: short_block_eq[OF assms(1)] add.commute)
qed

section \<open>Long packets\<close>

text \<open>The block an entry of the table stands for.\<close>

definition entry_key :: "bytes \<Rightarrow> bytes option \<Rightarrow> u16 \<Rightarrow> bytes option" where
  "entry_key buf IV e =
     (if e = HASH_UNUSED then None
      else Some (if e = HASH_IV then (case IV of Some iv \<Rightarrow> iv | None \<Rightarrow> []) else blk buf (unat e)))"

interpretation packet: open_table "2 ^ p" "entry_key buf IV" "\<lambda>v. unat (HASH v) mod 2 ^ p" for p buf IV
  by unfold_locales simp

text \<open>
  The table after the first \<open>j\<close> blocks: every entry has a meaning, every key in it is found,
  and the keys found are the IV and the blocks seen.
\<close>

definition table_ok :: "nat \<Rightarrow> bytes \<Rightarrow> bytes option \<Rightarrow> nat \<Rightarrow> u16 list \<Rightarrow> bool" where
  "table_ok p buf IV j t \<longleftrightarrow> length t = 2 ^ p \<and>
     (\<forall>e \<in> set t. e = HASH_UNUSED \<or> e = HASH_IV \<and> IV \<noteq> None \<or> unat e < j) \<and>
     packet.sound p buf IV t \<and> card (packet.used p buf IV t) \<le> Suc j \<and>
     (\<forall>v. packet.finds p buf IV t v \<longleftrightarrow> IV = Some v \<or> (\<exists>i<j. blk buf i = v))"

lemma unat_small: "p < 32 \<Longrightarrow> k < 2 ^ p \<Longrightarrow> unat (of_nat k :: u32) = k"
  using power_increasing[of p 32 "2::nat"] by (simp add: unat_of_nat)

lemma mask_pow: "p < 32 \<Longrightarrow> x AND (2 ^ p - 1) = (of_nat (unat x mod 2 ^ p) :: u32)"
proof -
  assume p: "p < 32"
  have "x AND (2 ^ p - 1) = take_bit p x" by (simp add: take_bit_eq_mask mask_eq_exp_minus_1)
  moreover have "unat (take_bit p x) = unat x mod 2 ^ p" by (simp add: unsigned_take_bit_eq) (simp add: take_bit_eq_mod)
  ultimately show ?thesis using unat_small[OF p, of "unat x mod 2 ^ p"] by (simp add: word_unat_eq_iff)
qed

lemma masked_pos:
  assumes "p < 32" "m = (2 ^ p :: u32)" "k < 2 ^ p"
  shows "(of_nat k + 1) AND (m - 1) = (of_nat ((k + 1) mod 2 ^ p) :: u32)"
proof (cases "k + 1 < 2 ^ p")
  case True
  then show ?thesis using mask_pow[OF assms(1), of "of_nat (k + 1)"] unat_small[OF assms(1) True] assms(2)
    by (simp add: add.commute)
next
  case False
  then have "k + 1 = 2 ^ p" using assms(3) by simp
  then have "of_nat k + 1 = (2 ^ p :: u32)" by (metis of_nat_1 of_nat_add of_nat_numeral of_nat_power)
  moreover have "2 ^ p AND (2 ^ p - 1) = (0 :: u32)"
    unfolding mask_eq_exp_minus_1[symmetric] by (rule bit_word_eqI) (simp add: bit_simps)
  ultimately show ?thesis using \<open>k + 1 = 2 ^ p\<close> assms(2) by simp
qed

text \<open>An entry of the table is read without a failed assertion and inside the packet.\<close>

lemma entry_read:
  assumes "table_ok p buf IV j t" "j \<le> length buf div 8" "length buf \<le> SSH_MAXBLOCKS * SSH_BLOCKSIZE"
    "e \<in> set t" "e \<noteq> HASH_UNUSED"
  shows "\<exists>b. (if e = HASH_IV then IV else block buf (unat e * SSH_BLOCKSIZE)) = Some b \<and> entry_key buf IV e = Some b"
proof (cases "e = HASH_IV")
  case True
  have "\<not> unat e < j" using assms(2,3) by (simp add: True)
  then have "IV \<noteq> None" using assms(1,4,5) by (auto simp: table_ok_def)
  then show ?thesis using True by (auto simp: entry_key_def)
next
  case False
  then have "unat e < length buf div 8" using assms by (auto simp: table_ok_def)
  then show ?thesis using False assms(5) block_blk[of "unat e" buf] by (simp add: entry_key_def mult.commute)
qed

lemma probe_eq:
  assumes ok: "table_ok p buf IV j t" "j \<le> length buf div 8" "length buf \<le> SSH_MAXBLOCKS * SSH_BLOCKSIZE"
    and buf: "8 dvd length buf" and m: "p < 32" "m = 2 ^ p" and stops: "packet.stops p buf IV t cb u" and "s \<le> u"
  shows "probe buf IV m t cb (of_nat (packet.pos p cb s)) =
    Some (if packet.finds p buf IV t cb \<and> compensates buf IV cb then Attack else Place (of_nat (packet.pos p cb u)))"
  using \<open>s \<le> u\<close>
proof (induction "u - s" arbitrary: s)
  case 0
  then have s: "s = u" by simp
  let ?i = "packet.pos p cb u"
  have i: "?i < 2 ^ p" by simp
  then have r: "rd t (unat (of_nat ?i :: u32)) = Some (t ! ?i)" "t ! ?i \<in> set t"
    using ok(1) unat_small[OF m(1) i] by (simp_all add: table_ok_def rd_def)
  have key: "entry_key buf IV (t ! ?i) \<in> {None, Some cb}" using stops by (simp add: packet.stops_def)
  show ?case
  proof (cases "t ! ?i = HASH_UNUSED")
    case True
    then have "\<not> packet.finds p buf IV t cb" using packet.stops_finds[OF stops] by (simp add: entry_key_def)
    then show ?thesis using True r s by (subst probe.simps) simp
  next
    case False
    then obtain b where b: "(if t ! ?i = HASH_IV then IV else block buf (unat (t ! ?i) * SSH_BLOCKSIZE)) = Some b"
      "entry_key buf IV (t ! ?i) = Some b" using entry_read[OF ok r(2)] by blast
    then have cb: "b = cb" "packet.finds p buf IV t cb" using key packet.stops_finds[OF stops] by auto
    show ?thesis unfolding s by (subst probe.simps) (use r False b(1) cb buf in \<open>simp add: check_crc_eq\<close>)
  qed
next
  case (Suc d)
  then have s: "s < u" by simp
  let ?i = "packet.pos p cb s"
  have i: "?i < 2 ^ p" by simp
  then have r: "rd t (unat (of_nat ?i :: u32)) = Some (t ! ?i)" "t ! ?i \<in> set t"
    using ok(1) unat_small[OF m(1) i] by (simp_all add: table_ok_def rd_def)
  have key: "entry_key buf IV (t ! ?i) \<notin> {None, Some cb}" using stops s by (simp add: packet.stops_def)
  then have un: "t ! ?i \<noteq> HASH_UNUSED" by (auto simp: entry_key_def)
  then obtain b where b: "(if t ! ?i = HASH_IV then IV else block buf (unat (t ! ?i) * SSH_BLOCKSIZE)) = Some b"
    "entry_key buf IV (t ! ?i) = Some b" using entry_read[OF ok r(2)] by blast
  then have "cb \<noteq> b" using key by auto
  moreover have "(of_nat ?i + 1) AND (m - 1) = (of_nat (packet.pos p cb (Suc s)) :: u32)"
    using masked_pos[OF m i] by (simp add: packet.pos_def mod_Suc_eq)
  moreover have "probe buf IV m t cb (of_nat (packet.pos p cb (Suc s))) =
      Some (if packet.finds p buf IV t cb \<and> compensates buf IV cb then Attack else Place (of_nat (packet.pos p cb u)))"
    using Suc(2) s by (intro Suc(1)) auto
  ultimately show ?case by (subst probe.simps) (use r un b(1) in simp)
qed

lemma block_entry: "j < 32768 \<Longrightarrow> unat (of_nat j :: u16) = j \<and> entry_key buf IV (of_nat j) = Some (blk buf j)"
proof -
  assume j: "j < 32768"
  then have u: "unat (of_nat j :: u16) = j" by (simp add: unat_of_nat)
  have "unat HASH_UNUSED = 65535" "unat HASH_IV = 65534" by simp_all
  then have "of_nat j \<noteq> HASH_UNUSED" "of_nat j \<noteq> HASH_IV" using u j by fastforce+
  then show ?thesis using u unfolding entry_key_def by simp
qed

lemma table_step:
  assumes "table_ok p buf IV j t" "j < length buf div 8" "length buf \<le> SSH_MAXBLOCKS * SSH_BLOCKSIZE"
    "packet.stops p buf IV t (blk buf j) u"
  shows "table_ok p buf IV (Suc j) (t[packet.pos p (blk buf j) u := of_nat j])"
proof -
  have "j < 32768" using assms(2,3) by simp
  note j = block_entry[OF this, THEN conjunct1] and e = block_entry[OF this, THEN conjunct2, of buf IV]
  have t: "length t = 2 ^ p" "packet.sound p buf IV t"
    and entries: "\<forall>x \<in> set t. x = HASH_UNUSED \<or> x = HASH_IV \<and> IV \<noteq> None \<or> unat x < j"
    and used: "card (packet.used p buf IV t) \<le> Suc j"
    and finds: "\<forall>v. packet.finds p buf IV t v \<longleftrightarrow> IV = Some v \<or> (\<exists>i<j. blk buf i = v)"
    using assms(1) unfolding table_ok_def by blast+
  let ?t = "t[packet.pos p (blk buf j) u := of_nat j]"
  have "\<forall>x \<in> set ?t. x = HASH_UNUSED \<or> x = HASH_IV \<and> IV \<noteq> None \<or> unat x < Suc j"
  proof
    fix x assume "x \<in> set ?t"
    then have "x = of_nat j \<or> x \<in> set t" using set_update_subset_insert by fast
    then show "x = HASH_UNUSED \<or> x = HASH_IV \<and> IV \<noteq> None \<or> unat x < Suc j"
      using entries j by (elim disjE) (simp, metis less_SucI)
  qed
  moreover have "card (packet.used p buf IV ?t) \<le> Suc (Suc j)"
    using packet.used_update[OF t(1), of buf IV "packet.pos p (blk buf j) u" "of_nat j"] used by linarith
  moreover have "\<forall>v. packet.finds p buf IV ?t v \<longleftrightarrow> IV = Some v \<or> (\<exists>i<Suc j. blk buf i = v)"
    using packet.finds_update[OF assms(4) e t] finds by (simp add: Ex_less_Suc) blast
  ultimately show ?thesis unfolding table_ok_def
    using packet.sound_update[OF assms(4) e t] t(1) by simp
qed

lemma empty_table:
  "\<not> packet.finds p buf IV (replicate (2 ^ p) HASH_UNUSED) v"
  "packet.used p buf IV (replicate (2 ^ p) HASH_UNUSED) = {}"
  "packet.sound p buf IV (replicate (2 ^ p) HASH_UNUSED)"
  by (auto simp: packet.sound_def packet.used_def packet.finds_def entry_key_def)

lemma table_start: "table_ok p buf None 0 (replicate (2 ^ p) HASH_UNUSED)"
  by (auto simp: table_ok_def empty_table)

lemma table_start_IV:
  "table_ok p buf (Some iv) 0 ((replicate (2 ^ p) HASH_UNUSED)[packet.pos p iv 0 := HASH_IV])"
proof -
  let ?t = "replicate (2 ^ p) HASH_UNUSED"
  note none = empty_table[of p buf "Some iv"]
  have s: "packet.stops p buf (Some iv) ?t iv 0" by (simp add: packet.stops_def entry_key_def)
  have e: "entry_key buf (Some iv) HASH_IV = Some iv" by (simp add: entry_key_def)
  show ?thesis unfolding table_ok_def
    using packet.finds_update[OF s e _ none(3)] packet.sound_update[OF s e _ none(3)]
      packet.used_update[of ?t p buf "Some iv" "packet.pos p iv 0" HASH_IV] set_update_subset_insert[of ?t "packet.pos p iv 0" HASH_IV]
    by (auto simp: none)
qed

lemma long_loop_eq:
  assumes "8 dvd length buf" "length buf \<le> SSH_MAXBLOCKS * SSH_BLOCKSIZE" "p < 32" "m = 2 ^ p" "length buf div 8 < 2 ^ p"
    "j \<le> length buf div 8" "table_ok p buf IV j t"
  shows "\<exists>t'. length t' = 2 ^ p \<and> long_loop buf IV m t (8 * j) j =
    Some (\<exists>k. j \<le> k \<and> k < length buf div 8 \<and> repeated buf IV k \<and> compensates buf IV (blk buf k), t')"
  using assms(6,7)
proof (induction "length buf div 8 - j" arbitrary: j t)
  case 0
  then show ?case using in_buf[OF assms(1), of j] by (subst long_loop.simps) (auto simp: table_ok_def)
next
  case (Suc d)
  then have j: "j < length buf div 8" by simp
  let ?cb = "blk buf j"
  have len: "length t = 2 ^ p" using Suc.prems(2) by (simp add: table_ok_def)
  have "card (packet.used p buf IV t) < 2 ^ p" using Suc.prems(2) j assms(5) by (simp add: table_ok_def)
  then obtain u where u: "packet.stops p buf IV t ?cb u" using packet.stops_ex by blast
  have f: "packet.finds p buf IV t ?cb \<longleftrightarrow> repeated buf IV j"
    using Suc.prems(2) by (simp add: table_ok_def repeated_def)
  have start: "HASH ?cb AND (m - 1) = of_nat (packet.pos p ?cb 0)"
    using mask_pow[OF assms(3)] assms(4) by (simp add: packet.pos_def)
  have pr: "probe buf IV m t ?cb (HASH ?cb AND (m - 1)) =
      Some (if repeated buf IV j \<and> compensates buf IV ?cb then Attack else Place (of_nat (packet.pos p ?cb u)))"
    unfolding start using probe_eq[OF Suc.prems(2) _ assms(2,1,3,4) u, of 0] j by (simp add: f)
  have w: "wr t (unat (of_nat (packet.pos p ?cb u) :: u32)) (of_nat j) = Some (t[packet.pos p ?cb u := of_nat j])"
    using unat_small[OF assms(3), of "packet.pos p ?cb u"] by (simp add: wr_def len)
  let ?Q = "\<lambda>j k. j \<le> k \<and> k < length buf div 8 \<and> repeated buf IV k \<and> compensates buf IV (blk buf k)"
  have split: "(\<exists>k. ?Q j k) \<longleftrightarrow> repeated buf IV j \<and> compensates buf IV ?cb \<or> (\<exists>k. ?Q (Suc j) k)"
    using j by (metis Suc_leD Suc_leI le_neq_implies_less order_refl)
  show ?case
  proof (cases "repeated buf IV j \<and> compensates buf IV ?cb")
    case True
    then show ?thesis unfolding split using j in_buf[OF assms(1), of j] pr len
      by (subst long_loop.simps) (simp add: block_blk)
  next
    case False
    have "\<exists>t'. length t' = 2 ^ p \<and> long_loop buf IV m (t[packet.pos p ?cb u := of_nat j]) (8 * Suc j) (Suc j) =
        Some (\<exists>k. ?Q (Suc j) k, t')"
      using Suc(2) j table_step[OF Suc.prems(2) j assms(2) u] by (intro Suc(1)) auto
    moreover have "(\<exists>k. ?Q j k) \<longleftrightarrow> (\<exists>k. ?Q (Suc j) k)" using False split by blast
    ultimately show ?thesis using j in_buf[OF assms(1), of j] pr[unfolded if_not_P[OF False]] w
      by (subst long_loop.simps) (simp add: block_blk add.commute)
  qed
qed

section \<open>The context\<close>

definition ctx_ok :: "crcda_ctx \<Rightarrow> bool" where
  "ctx_ok ctx \<longleftrightarrow> n ctx \<in> {2 ^ 12, 2 ^ 14, 2 ^ 16} \<and> (\<forall>t. h ctx = Some t \<longrightarrow> length t = unat (n ctx))"

lemma ctx_ok_make: "ctx_ok crcda_make_context"
  by (simp add: ctx_ok_def crcda_make_context_def)

lemma grow_done: "b \<le> l \<Longrightarrow> grow b l = Some l"
  by (subst grow.simps) (simp add: not_less[THEN iffD2])

lemma grow_more: "l < b \<Longrightarrow> grow b l = grow b (push_bit 2 l)"
  by (subst grow.simps) simp

lemma grow_ends:
  assumes "b \<le> 49152" "l \<in> {2 ^ 12, 2 ^ 14, 2 ^ 16}"
  shows "\<exists>l' \<in> {2 ^ 12, 2 ^ 14, 2 ^ 16}. grow b l = Some l' \<and> b \<le> l' \<and> l \<le> l'"
proof -
  have s: "push_bit 2 4096 = (16384 :: u32)" "push_bit 2 16384 = (65536 :: u32)" by simp_all
  have 16: "grow b 65536 = Some 65536" using assms(1) by (intro grow_done) (rule order_trans, auto)
  have 14: "\<exists>l' \<in> {16384, 65536}. grow b 16384 = Some l' \<and> b \<le> l'"
    using grow_done[of b 16384] grow_more[of 16384 b] 16 assms(1)
    by (cases "b \<le> 16384") (auto simp: s not_le intro: order_trans)
  have 12: "\<exists>l' \<in> {4096, 16384, 65536}. grow b 4096 = Some l' \<and> b \<le> l'"
    using grow_done[of b 4096] grow_more[of 4096 b] 14 by (cases "b \<le> 4096") (auto simp: s not_le)
  show ?thesis using assms(2) 12 14 16 assms(1) by (auto intro: order_trans)
qed

lemma HASH_FACTOR_unat: "k \<le> 32768 \<Longrightarrow> unat (HASH_FACTOR (of_nat k)) = k * 3 div 2"
proof -
  assume k: "k \<le> 32768"
  have "of_nat k * 3 = (of_nat (k * 3) :: u32)" by simp
  then show ?thesis unfolding HASH_FACTOR_def using k by (simp only: unat_div unat_of_nat) simp
qed

text \<open>The memory of a fresh table has the length asked for; then the table is ready.\<close>

lemma detect_attack_eq:
  assumes "ctx_ok ctx" "\<And>k. length (fresh k) = k" "8 dvd length buf" "length buf \<le> SSH_MAXBLOCKS * SSH_BLOCKSIZE"
  shows "\<exists>ctx'. ctx_ok ctx' \<and> n ctx \<le> n ctx' \<and> detect_attack fresh ctx buf IV =
    Some (\<exists>k < length buf div 8. repeated buf IV k \<and> compensates buf IV (blk buf k) \<and>
            (length buf \<le> HASH_MINBLOCKS \<longrightarrow> (\<forall>i<k. IV \<noteq> Some (blk buf i))), ctx')"
proof -
  let ?nb = "length buf div 8"
  have nb: "?nb \<le> 32768" using assms(4) by simp
  have "unat (of_nat (length buf) :: u32) = length buf" using assms(4) by (simp add: unat_of_nat)
  then have d: "of_nat (length buf) div of_nat SSH_BLOCKSIZE = (of_nat ?nb :: u32)"
    by (simp add: word_unat_eq_iff unat_div unat_of_nat)
  let ?b = "HASH_FACTOR (of_nat ?nb)"
  have b: "unat ?b = ?nb * 3 div 2" using HASH_FACTOR_unat[OF nb] .
  then have "?b \<le> 49152" using nb by (simp add: word_le_nat_alt)
  then obtain l where l: "l \<in> {2 ^ 12, 2 ^ 14, 2 ^ 16}" "grow ?b (n ctx) = Some l" "?b \<le> l" "n ctx \<le> l"
    using grow_ends[of ?b "n ctx"] assms(1) by (auto simp: ctx_ok_def)
  define ctx1 where "ctx1 = ensure_table fresh l ctx"
  have c1: "n ctx1 = l" "\<exists>t. h ctx1 = Some t \<and> length t = unat l"
  proof -
    have "n ctx < l \<Longrightarrow> unat (n ctx) < unat l" by (simp add: word_less_nat_alt)
    moreover have "\<not> n ctx < l \<Longrightarrow> n ctx = l" using l(4) by simp
    ultimately show "n ctx1 = l" "\<exists>t. h ctx1 = Some t \<and> length t = unat l"
      using assms(1,2) by (cases "n ctx < l"; auto simp: ctx1_def ensure_table_def ctx_ok_def split: option.splits)+
  qed
  have "\<exists>p \<in> {12, 14, 16}. l = 2 ^ p" using l(1) by simp
  then obtain p where p: "l = 2 ^ p" "p < 32" "12 \<le> p" and p': "p \<in> {12, 14, 16}" by fastforce
  have ul: "unat l = 2 ^ p" using p' unfolding p(1) by (elim insertE emptyE) simp_all
  have "?nb * 3 div 2 \<le> 2 ^ p" using l(3) b ul by (simp add: word_le_nat_alt)
  moreover have "(2 :: nat) ^ 12 \<le> 2 ^ p" using p(3) by (intro power_increasing) auto
  ultimately have small: "?nb < 2 ^ p" by simp
  have D: "detect_attack fresh ctx buf IV =
      (if length buf \<le> HASH_MINBLOCKS then map_option (\<lambda>r. (r, ctx1)) (short_loop buf IV 0)
       else do {
          let t = replicate (2 ^ p) HASH_UNUSED;
          t \<leftarrow> (case IV of None \<Rightarrow> Some t | Some iv \<Rightarrow> wr t (unat (HASH iv AND (l - 1))) HASH_IV);
          (r, t) \<leftarrow> long_loop buf IV l t 0 0;
          Some (r, ctx1\<lparr>h := Some t\<rparr>)
        })"
  proof -
    have "map (\<lambda>_. HASH_UNUSED) t = replicate (2 ^ p) HASH_UNUSED" if "length t = unat l" for t :: "u16 list"
      using that ul by (simp add: map_replicate_const)
    then have m: "map (\<lambda>_. HASH_UNUSED) (case h ctx1 of None \<Rightarrow> [] | Some t \<Rightarrow> t) = replicate (2 ^ p) HASH_UNUSED"
      using c1(2) by auto
    have "\<not> (length buf > SSH_MAXBLOCKS * SSH_BLOCKSIZE \<or> length buf mod SSH_BLOCKSIZE \<noteq> 0)"
      using assms(3,4) by auto
    then show ?thesis
      unfolding detect_attack_def d l(2) bind.bind_lunit Let_def ctx1_def[symmetric] m c1(1)
      by (simp add: map_conv_bind_option comp_def)
  qed
  show ?thesis
  proof (cases "length buf \<le> HASH_MINBLOCKS")
    case True
    have "ctx_ok ctx1" using c1 l(1) by (auto simp: ctx_ok_def)
    then show ?thesis using D True short_loop_eq[OF assms(3), of 0 IV] c1(1) l(4) by auto
  next
    case False
    obtain t where t: "table_ok p buf IV 0 t"
      "(case IV of None \<Rightarrow> Some (replicate (2 ^ p) HASH_UNUSED)
        | Some iv \<Rightarrow> wr (replicate (2 ^ p) HASH_UNUSED) (unat (HASH iv AND (l - 1))) HASH_IV) = Some t"
    proof (cases IV)
      case None
      then show ?thesis using that[of "replicate (2 ^ p) HASH_UNUSED"] table_start by simp
    next
      case (Some iv)
      have i: "unat (HASH iv AND (l - 1)) = packet.pos p iv 0"
        using mask_pow[OF p(2)] unat_small[OF p(2), of "packet.pos p iv 0"] by (simp add: p(1) packet.pos_def)
      show ?thesis using that table_start_IV[of p buf iv] by (simp add: Some i wr_def)
    qed
    obtain t' where t': "length t' = 2 ^ p" "long_loop buf IV l t 0 0 =
        Some (\<exists>k < ?nb. repeated buf IV k \<and> compensates buf IV (blk buf k), t')"
      using long_loop_eq[OF assms(3,4) p(2,1) small _ t(1)] by auto
    have "ctx_ok (ctx1\<lparr>h := Some t'\<rparr>)" using c1 l(1) t'(1) ul by (simp add: ctx_ok_def)
    then show ?thesis using D False t(2) t'(2) c1(1) l(4) by (intro exI[of _ "ctx1\<lparr>h := Some t'\<rparr>"]) simp
  qed
qed

section \<open>Which patterns compensate\<close>

text \<open>
  A mark \<open>k\<close> blocks from the end contributes \<open>contribution k\<close> to the checksum of a pattern,
  and the checksum is the sum of the contributions.
\<close>

definition skip :: "u32 \<Rightarrow> u32" where
  "skip v = crc32_update (crc32_update v ZERO) ZERO"

definition contribution :: "nat \<Rightarrow> u32" where
  "contribution k = (skip ^^ k) (crc32_update (crc32_update 0 ONE) ZERO)"

fun lincomb :: "bool list \<Rightarrow> u32 list \<Rightarrow> u32" where
  "lincomb (c # cs) (v # vs) = (if c then v else 0) XOR lincomb cs vs"
| "lincomb _ _ = 0"

lemma skip_xor: "skip (v XOR w) = skip v XOR skip w"
  by (simp add: skip_def ZERO_def crc32_shift_8_bits crc_bits_xor)

lemma mark_step: "crc32_update v ((if m then ONE else ZERO) @ ZERO) = skip v XOR (if m then contribution 0 else 0)"
  using crc32_update_xor[of ONE ONE v 0] crc32_update_xor[of ZERO ONE v 0]
    crc32_update_xor[of ZERO ZERO "crc32_update v ZERO" "crc32_update 0 ONE"]
  by (simp add: skip_def contribution_def crc32_update_append ONE_def ZERO_def)

lemma skip_0 [simp]: "skip 0 = 0"
  by (simp add: skip_def ZERO_def crc32_shift_8_bits crc_bits_high)

lemma skip_lincomb: "skip (lincomb cs vs) = lincomb cs (map skip vs)"
proof (induction cs vs rule: lincomb.induct)
  case (1 c cs v vs)
  then show ?case using skip_0 by (simp add: skip_xor)
qed (simp_all add: skip_0)

lemma pattern_lincomb: "crc32_ssh1 (pattern S bs) = lincomb (rev (map (\<lambda>b. S = b) bs)) (map contribution [0..<length bs])"
proof (induction bs rule: rev_induct)
  case Nil
  show ?case by (simp add: pattern_def crc32_ssh1_def)
next
  case (snoc b bs)
  have m: "map skip (map contribution [0..<length bs]) = map contribution [1..<Suc (length bs)]"
    by (simp add: contribution_def comp_def map_Suc_upt[symmetric] del: upt_Suc)
  have "crc32_ssh1 (pattern S (bs @ [b])) = skip (crc32_ssh1 (pattern S bs)) XOR (if S = b then contribution 0 else 0)"
    using mark_step[of "crc32_ssh1 (pattern S bs)" "S = b"] by (simp add: crc32_ssh1_def pattern_def crc32_update_append)
  also have "\<dots> = lincomb (rev (map (\<lambda>b. S = b) (bs @ [b]))) (map contribution (0 # [1..<Suc (length bs)]))"
    unfolding snoc skip_lincomb m by (simp add: xor.commute)
  also have "0 # [1..<Suc (length bs)] = [0..<length (bs @ [b])]" by (simp add: upt_conv_Cons del: upt_Suc)
  finally show ?case .
qed

text \<open>Gaussian elimination with given pivots: what it does not refute is linearly independent.\<close>

fun eliminates :: "nat list \<Rightarrow> u32 list \<Rightarrow> bool" where
  "eliminates [] [] = True"
| "eliminates (p # ps) (v # vs) = (bit v p \<and> eliminates ps (map (\<lambda>w. if bit w p then w XOR v else w) vs))"
| "eliminates _ _ = False"

lemma lincomb_reduce:
  "length cs = length vs \<Longrightarrow> bit v p \<Longrightarrow> \<exists>e. (True \<notin> set cs \<longrightarrow> \<not> e) \<and>
    \<not> bit (lincomb cs (map (\<lambda>w. if bit w p then w XOR v else w) vs)) p \<and>
    lincomb cs (map (\<lambda>w. if bit w p then w XOR v else w) vs) = lincomb cs vs XOR (if e then v else 0)"
proof (induction cs vs rule: list_induct2)
  case (Cons c cs w vs)
  then obtain e where e: "True \<notin> set cs \<longrightarrow> \<not> e"
    "\<not> bit (lincomb cs (map (\<lambda>w. if bit w p then w XOR v else w) vs)) p"
    "lincomb cs (map (\<lambda>w. if bit w p then w XOR v else w) vs) = lincomb cs vs XOR (if e then v else 0)" by blast
  show ?case
    by (rule exI[of _ "e \<noteq> (c \<and> bit w p)"])
      (use e(1,2) Cons.prems in \<open>auto simp: e(3) bit_simps ac_simps xor_self_left\<close>)
qed auto

lemma xor_eq_0: "x XOR y = 0 \<Longrightarrow> y = (x :: u32)"
  using xor_self_left[of x y] by simp

lemma eliminates_independent:
  "eliminates ps vs \<Longrightarrow> length cs = length vs \<Longrightarrow> lincomb cs vs = 0 \<Longrightarrow> True \<notin> set cs"
proof (induction ps vs arbitrary: cs rule: eliminates.induct)
  case (2 p ps v vs)
  then obtain c cs' where cs: "cs = c # cs'" "length cs' = length vs" by (cases cs) auto
  let ?vs = "map (\<lambda>w. if bit w p then w XOR v else w) vs"
  have el: "bit v p" "eliminates ps ?vs" using 2(2) by simp_all
  obtain e where e: "True \<notin> set cs' \<longrightarrow> \<not> e" "\<not> bit (lincomb cs' ?vs) p" "lincomb cs' ?vs = lincomb cs' vs XOR (if e then v else 0)"
    using lincomb_reduce[OF cs(2) el(1)] by blast
  have "lincomb cs' vs = (if c then v else 0)"
    using 2(4) unfolding cs lincomb.simps by (rule xor_eq_0)
  then have l: "lincomb cs' ?vs = (if c = e then 0 else v)" using e(3) by (cases c; cases e) simp_all
  then have ce: "c = e" using e(2) el(1) by (cases "c = e") simp_all
  have "length cs' = length ?vs" using cs(2) by simp
  from 2(1)[OF el(2) this] l ce have "True \<notin> set cs'" by simp
  then show ?case using e(1) ce cs(1) by simp
qed simp_all

text \<open>The first 32 contributions.\<close>

definition contributions :: "u32 list" where
  "contributions =
    [0xCCAA009E, 0xAE689191, 0x81256527, 0xF1DA05AA, 0xAF449247, 0x3DB1ECDC, 0x1D9513D7, 0x8F352D95,
     0xAE0B5394, 0x1C279815, 0x57C54819, 0xDF068DC2, 0xCBEC0ED, 0x31F8303F, 0x910EEEC1, 0x33FFF533,
     0x3F41287A, 0x26B70C3D, 0x9026D5B1, 0xE3543BE0, 0xD1DF2327, 0x5A1BB05D, 0xF5E48C85, 0x596C8D81,
     0x3C656CED, 0x682BDD4F, 0xFE807BBD, 0x4A28BD43, 0x1F0C2CDD, 0x77F00D, 0xE95C1271, 0xCE3371CB]"

lemma skip_steps1:
  "skip 0xCCAA009E = 0xAE689191"
  "skip 0xAE689191 = 0x81256527"
  "skip 0x81256527 = 0xF1DA05AA"
  "skip 0xF1DA05AA = 0xAF449247"
  "skip 0xAF449247 = 0x3DB1ECDC"
  "skip 0x3DB1ECDC = 0x1D9513D7"
  "skip 0x1D9513D7 = 0x8F352D95"
  "skip 0x8F352D95 = 0xAE0B5394"
  "skip 0xAE0B5394 = 0x1C279815"
  "skip 0x1C279815 = 0x57C54819"
  "skip 0x57C54819 = 0xDF068DC2"
  unfolding skip_def ZERO_def by (simp_all add: crc32_shift_8_def crc32_shift_4_def Let_def)

lemma skip_steps2:
  "skip 0xDF068DC2 = 0xCBEC0ED"
  "skip 0xCBEC0ED = 0x31F8303F"
  "skip 0x31F8303F = 0x910EEEC1"
  "skip 0x910EEEC1 = 0x33FFF533"
  "skip 0x33FFF533 = 0x3F41287A"
  "skip 0x3F41287A = 0x26B70C3D"
  "skip 0x26B70C3D = 0x9026D5B1"
  "skip 0x9026D5B1 = 0xE3543BE0"
  "skip 0xE3543BE0 = 0xD1DF2327"
  "skip 0xD1DF2327 = 0x5A1BB05D"
  unfolding skip_def ZERO_def by (simp_all add: crc32_shift_8_def crc32_shift_4_def Let_def)

lemma skip_steps3:
  "skip 0x5A1BB05D = 0xF5E48C85"
  "skip 0xF5E48C85 = 0x596C8D81"
  "skip 0x596C8D81 = 0x3C656CED"
  "skip 0x3C656CED = 0x682BDD4F"
  "skip 0x682BDD4F = 0xFE807BBD"
  "skip 0xFE807BBD = 0x4A28BD43"
  "skip 0x4A28BD43 = 0x1F0C2CDD"
  "skip 0x1F0C2CDD = 0x77F00D"
  "skip 0x77F00D = 0xE95C1271"
  "skip 0xE95C1271 = 0xCE3371CB"
  unfolding skip_def ZERO_def by (simp_all add: crc32_shift_8_def crc32_shift_4_def Let_def)

lemmas skip_steps = skip_steps1 skip_steps2 skip_steps3

lemma contributions_independent: "eliminates [31, 30, 29, 28, 24, 23, 27, 22, 21, 19, 26, 20, 25, 14, 18, 16, 12, 17, 15, 13, 11, 10, 9, 8, 3, 7, 6, 5, 4, 1, 2, 0] contributions"
  by (simp add: contributions_def)

lemma skip_list: "list_all2 (\<lambda>a b. skip a = b) (butlast contributions) (tl contributions)"
  by (simp add: contributions_def skip_steps)

lemma length_contributions: "length contributions = 32"
  by (simp add: contributions_def)

lemma contribution_0: "contribution 0 = contributions ! 0"
  by (simp add: contribution_def contributions_def ONE_def ZERO_def crc32_shift_8_def crc32_shift_4_def Let_def)

lemma contribution_eq: "k < 32 \<Longrightarrow> contribution k = contributions ! k"
proof (induction k)
  case (Suc k)
  have "skip (butlast contributions ! k) = tl contributions ! k"
    using skip_list Suc.prems by (auto simp: list_all2_conv_all_nth length_contributions)
  then have "skip (contributions ! k) = contributions ! Suc k"
    using Suc.prems by (simp add: length_contributions nth_butlast nth_tl)
  then show ?case using Suc by (simp add: contribution_def)
qed (rule contribution_0)

lemma map_contribution: "k \<le> 32 \<Longrightarrow> map contribution [0..<k] = take k contributions"
  by (rule nth_equalityI) (simp_all add: length_contributions contribution_eq)

lemma lincomb_pad: "length cs \<le> length vs \<Longrightarrow>
    lincomb cs (take (length cs) vs) = lincomb (cs @ replicate (length vs - length cs) False) vs"
proof (induction cs vs rule: lincomb.induct, goal_cases)
  case (2 vs)
  show ?case by (induction vs) simp_all
qed simp_all

text \<open>A pattern of at most 32 positions with a mark never has checksum 0.\<close>

lemma pattern_nonzero:
  assumes "length bs \<le> 32" "S \<in> set bs"
  shows "crc32_ssh1 (pattern S bs) \<noteq> 0"
proof
  let ?cs = "rev (map (\<lambda>b. S = b) bs)"
  assume "crc32_ssh1 (pattern S bs) = 0"
  then have "lincomb (?cs @ replicate (32 - length bs) False) contributions = 0"
    using lincomb_pad[of ?cs contributions] assms(1)
    by (simp add: pattern_lincomb map_contribution length_contributions)
  then have "True \<notin> set (?cs @ replicate (32 - length bs) False)"
    using assms(1) by (intro eliminates_independent[OF contributions_independent]) (simp_all add: length_contributions)
  then show False using assms(2) by auto
qed

lemma compensates_long:
  assumes "compensates buf IV (blk buf k)" "8 dvd length buf" "k < length buf div 8"
  shows "32 \<le> length buf div 8"
proof (rule ccontr)
  assume "\<not> 32 \<le> length buf div 8"
  moreover have "blk buf k \<in> set (blocks buf)" using assms(3) by (auto simp: blocks_def)
  ultimately have "crc32_ssh1 (pattern (blk buf k) ((if IV = Some (blk buf k) then [blk buf k] else []) @ blocks buf)) \<noteq> 0"
    by (intro pattern_nonzero) (auto simp: blocks_def)
  then show False using assms(1) by (simp add: compensates_def)
qed

section \<open>Properties\<close>

text \<open>
  C37: the checksum without a table is the shift register of the polynomial 0xEDB88320 (one
  step per bit), it has the two check values the file names, and it is linear: the checksum of
  an exclusive or is the exclusive or of the checksums, which is what compensation attacks use.
\<close>

theorem crc32_is_shift_register:
  assumes "length d = length e"
  shows "crc32_update crc d = fold (\<lambda>b v. (crc_bit ^^ 8) (v XOR ucast b)) d crc \<and>
    crc32_ssh1 (map2 (XOR) d e) = crc32_ssh1 d XOR crc32_ssh1 e \<and>
    crc32_rfc1662 (str ''123456789'') = 0xCBF43926 \<and> crc32_ssh1 (str ''123456789'') = 0x2DFD2D88"
proof (intro conjI)
  show "crc32_update crc d = fold (\<lambda>b v. (crc_bit ^^ 8) (v XOR ucast b)) d crc"
    unfolding crc32_update_fold crc_byte_def ..
  show "crc32_ssh1 (map2 (XOR) d e) = crc32_ssh1 d XOR crc32_ssh1 e"
    using crc32_update_xor[OF assms, of 0 0] by (simp add: crc32_ssh1_def)
  show "crc32_rfc1662 (str ''123456789'') = 0xCBF43926" by code_simp
  show "crc32_ssh1 (str ''123456789'') = 0x2DFD2D88" by code_simp
qed

theorem crc32_is_shift_register_witness:
  "crc32_ssh1 [1 XOR 3, 2 XOR 4] = crc32_ssh1 [1, 2] XOR crc32_ssh1 [3, 4]"
  using crc32_is_shift_register[of "[1, 2]" "[3, 4]"] by simp

text \<open>
  C38: the attack detector. From any context it can be in, on every packet the assertion
  admits, it returns (the table grows, no probing goes round in circles, no access leaves
  table or packet) and leaves such a context. It reports an attack exactly when some block of the
  packet repeats the IV or an earlier block and its pattern has checksum 0. That a
  short packet is left at the first block equal to the IV makes no difference.
\<close>

theorem detect_attack_decides:
  assumes "ctx_ok ctx" "\<And>k. length (fresh k) = k" "8 dvd length buf" "length buf \<le> SSH_MAXBLOCKS * SSH_BLOCKSIZE"
  shows "\<exists>ctx'. ctx_ok ctx' \<and> n ctx \<le> n ctx' \<and> detect_attack fresh ctx buf IV =
    Some (\<exists>k < length buf div 8. repeated buf IV k \<and> compensates buf IV (blk buf k), ctx')"
proof -
  have "length buf \<le> HASH_MINBLOCKS \<Longrightarrow> k < length buf div 8 \<Longrightarrow> \<not> compensates buf IV (blk buf k)" for k
    using compensates_long[OF _ assms(3)] by fastforce
  then have "(\<exists>k < length buf div 8. repeated buf IV k \<and> compensates buf IV (blk buf k) \<and>
            (length buf \<le> HASH_MINBLOCKS \<longrightarrow> (\<forall>i<k. IV \<noteq> Some (blk buf i)))) \<longleftrightarrow>
      (\<exists>k < length buf div 8. repeated buf IV k \<and> compensates buf IV (blk buf k))" by blast
  then show ?thesis using detect_attack_eq[OF assms, of IV] by simp
qed

theorem detect_attack_decides_witness:
  "\<exists>ctx'. ctx_ok ctx' \<and> detect_attack (\<lambda>k. replicate k 7) crcda_make_context (replicate 16 0) None =
    Some (\<exists>k < 2. repeated (replicate 16 0) None k \<and> compensates (replicate 16 0) None (blk (replicate 16 0) k), ctx')"
  using detect_attack_decides[of crcda_make_context "\<lambda>k. replicate k 7" "replicate 16 0" None] ctx_ok_make by auto

text \<open>
  What the detector cannot see. It never reports a packet of fewer than 32 blocks,
  whatever the IV: no pattern of so few positions has checksum 0. So the whole branch for short
  packets (up to 7 blocks) always answers "ok".
\<close>

lemma short_packets_pass:
  assumes "ctx_ok ctx" "\<And>k. length (fresh k) = k" "8 dvd length buf" "length buf < 32 * SSH_BLOCKSIZE"
  shows "\<exists>ctx'. ctx_ok ctx' \<and> detect_attack fresh ctx buf IV = Some (False, ctx')"
proof -
  obtain ctx' where c: "ctx_ok ctx'" "detect_attack fresh ctx buf IV =
      Some (\<exists>k < length buf div 8. repeated buf IV k \<and> compensates buf IV (blk buf k) \<and>
            (length buf \<le> HASH_MINBLOCKS \<longrightarrow> (\<forall>i<k. IV \<noteq> Some (blk buf i))), ctx')"
    using detect_attack_eq[OF assms(1-3), of IV] assms(4) by auto
  have "\<not> compensates buf IV (blk buf k)" if "k < length buf div 8" for k
    using compensates_long[OF _ assms(3) that, of IV] assms(4) by fastforce
  then show ?thesis using c by auto
qed

lemma short_packets_pass_example:
  "\<exists>ctx'. ctx_ok ctx' \<and> detect_attack (\<lambda>k. replicate k 7) crcda_make_context (replicate 16 0) None = Some (False, ctx')"
  using short_packets_pass[of crcda_make_context "\<lambda>k. replicate k 7" "replicate 16 0" None] ctx_ok_make by simp

end
