(* ===== verification/Bufchain.thy ===== *)
theory Bufchain
  imports Prelude
begin

text \<open>
  \<open>maltty/challenge/src/utils.c\<close>: a queue of bytes kept in a chain of granules, which the
  network layer and every backend of PuTTY buffer their data in. The linked list from \<open>head\<close>
  to \<open>tail\<close> is a list; the three pointers of a granule are offsets into its memory, \<open>bufmax\<close>
  is the size of that memory. The sizes of existing data do not wrap, so they are numbers.
\<close>

section \<open>Data\<close>

abbreviation (input) BUFFER_MIN_GRANULE :: nat where "BUFFER_MIN_GRANULE \<equiv> 512"
abbreviation (input) SIZEOF_GRANULE :: nat where "SIZEOF_GRANULE \<equiv> 32"

record granule =
  mem :: bytes
  bufpos :: nat
  bufend :: nat

text \<open>\<open>ic\<close>: whether a callback is registered; what \<open>bufchain_add\<close> queues is part of its result.\<close>

record bufchain =
  granules :: "granule list"
  buffersize :: nat
  ic :: bool

section \<open>Operations\<close>

definition bufchain_init :: bufchain where
  "bufchain_init = \<lparr>granules = [], buffersize = 0, ic = False\<rparr>"

definition bufchain_clear :: "bufchain \<Rightarrow> bufchain" where
  "bufchain_clear ch = ch\<lparr>granules := [], buffersize := 0\<rparr>"

definition bufchain_size :: "bufchain \<Rightarrow> nat" where
  "bufchain_size ch = buffersize ch"

definition bufchain_set_callback :: "bufchain \<Rightarrow> bool \<Rightarrow> bufchain" where
  "bufchain_set_callback ch i = ch\<lparr>ic := i\<rparr>"

text \<open>Fresh memory holds \<open>junk\<close>.\<close>

definition new_granule :: "(nat \<Rightarrow> u8) \<Rightarrow> nat \<Rightarrow> granule" where
  "new_granule junk len =
     (let grainlen = max (SIZEOF_GRANULE + len) BUFFER_MIN_GRANULE
      in \<lparr>mem = map junk [0..<grainlen - SIZEOF_GRANULE], bufpos = 0, bufend = 0\<rparr>)"

text \<open>One pass of the loop of \<open>bufchain_add\<close>: fill the last granule, and add one if data are left.\<close>

definition has_room :: "granule list \<Rightarrow> bool" where
  "has_room gs \<longleftrightarrow> gs \<noteq> [] \<and> bufend (last gs) < length (mem (last gs))"

definition fill_tail :: "granule list \<Rightarrow> bytes \<Rightarrow> granule list \<times> bytes" where
  "fill_tail gs buf =
     (if has_room gs
      then let g = last gs;
               copylen = min (length buf) (length (mem g) - bufend g)
           in (butlast gs @ [g\<lparr>mem := take (bufend g) (mem g) @ take copylen buf @ drop (bufend g + copylen) (mem g),
                               bufend := bufend g + copylen\<rparr>],
               drop copylen buf)
      else (gs, buf))"

definition grow_tail :: "(nat \<Rightarrow> u8) \<Rightarrow> granule list \<times> bytes \<Rightarrow> granule list \<times> bytes" where
  "grow_tail junk = (\<lambda>(gs, buf). (if buf = [] then gs else gs @ [new_granule junk (length buf)], buf))"

lemma length_fill_tail: "length (snd (fill_tail gs buf)) =
    length buf - (if has_room gs then length (mem (last gs)) - bufend (last gs) else 0)"
  by (simp add: fill_tail_def Let_def min_def)

lemma room_grow_tail: "snd (grow_tail junk x) \<noteq> [] \<Longrightarrow> has_room (fst (grow_tail junk x))"
  by (cases x) (auto simp: grow_tail_def has_room_def new_granule_def Let_def)

lemma snd_grow_tail [simp]: "snd (grow_tail junk x) = snd x"
  by (cases x) (simp add: grow_tail_def)

function add_loop :: "(nat \<Rightarrow> u8) \<Rightarrow> granule list \<Rightarrow> bytes \<Rightarrow> granule list" where
  "add_loop junk gs buf =
     (if buf = [] then gs
      else case grow_tail junk (fill_tail gs buf) of (gs, buf) \<Rightarrow> add_loop junk gs buf)"
  by pat_completeness auto
termination
proof (relation "measures [\<lambda>(_, gs, buf). length buf, \<lambda>(_, gs, buf). if has_room gs then 0 else 1]", goal_cases)
  case (2 junk gs buf gs' buf')
  have b: "buf' = snd (fill_tail gs buf)" using snd_grow_tail[of junk "fill_tail gs buf"] by (simp flip: 2(2))
  show ?case
  proof (cases "has_room gs")
    case True
    moreover obtain x xs where "buf = x # xs" using 2(1) by (cases buf) auto
    ultimately have "length buf' < length buf" using length_fill_tail[of gs buf] by (auto simp: b has_room_def)
    then show ?thesis by simp
  next
    case False
    then have "buf' = buf" by (simp add: b fill_tail_def)
    then show ?thesis using False 2(1) room_grow_tail[of junk "fill_tail gs buf"] by (simp flip: 2(2))
  qed
qed simp

declare add_loop.simps [simp del]

text \<open>The chain, and whether the callback is queued.\<close>

definition bufchain_add :: "(nat \<Rightarrow> u8) \<Rightarrow> bufchain \<Rightarrow> bytes \<Rightarrow> bufchain \<times> bool" where
  "bufchain_add junk ch data =
     (if data = [] then (ch, False)
      else (ch\<lparr>buffersize := buffersize ch + length data, granules := add_loop junk (granules ch) data\<rparr>, ic ch))"

text \<open>
  \<open>int remlen = len\<close>: the length is cut to a signed 32-bit number.
\<close>

definition as_int :: "nat \<Rightarrow> int" where
  "as_int len = sint (of_nat len :: u32)"

text \<open>\<open>None\<close>: a failed assertion, \<open>bufpos\<close> in front of the memory, or a loop that does not end.\<close>

partial_function (option) consume_loop :: "nat \<Rightarrow> bufchain \<Rightarrow> bufchain option" where
  "consume_loop len ch =
     (if len = 0 then Some ch
      else case granules ch of
        [] \<Rightarrow> None
      | g # gs \<Rightarrow>
          let remlen = as_int len; avail = bufend g - bufpos g in
          if remlen \<ge> int avail
          then consume_loop (len - avail) (ch\<lparr>granules := gs, buffersize := buffersize ch - avail\<rparr>)
          else if remlen < 0 then None
          else consume_loop (len - nat remlen)
                 (ch\<lparr>granules := g\<lparr>bufpos := bufpos g + nat remlen\<rparr> # gs, buffersize := buffersize ch - nat remlen\<rparr>))"

definition bufchain_consume :: "bufchain \<Rightarrow> nat \<Rightarrow> bufchain option" where
  "bufchain_consume ch len = (if buffersize ch \<ge> len then consume_loop len ch else None)"

definition bufchain_prefix :: "bufchain \<Rightarrow> bytes option" where
  "bufchain_prefix ch =
     (case granules ch of [] \<Rightarrow> None | g # gs \<Rightarrow> Some (take (bufend g - bufpos g) (drop (bufpos g) (mem g))))"

fun fetch_loop :: "granule list \<Rightarrow> nat \<Rightarrow> bytes option" where
  "fetch_loop [] len = (if len = 0 then Some [] else None)"
| "fetch_loop (g # gs) len =
     (if len = 0 then Some []
      else
        let remlen = as_int len; avail = bufend g - bufpos g;
            remlen = (if remlen \<ge> int avail then int avail else remlen)
        in if remlen < 0 then None
           else map_option (\<lambda>rest. take (nat remlen) (drop (bufpos g) (mem g)) @ rest) (fetch_loop gs (len - nat remlen)))"

definition bufchain_fetch :: "bufchain \<Rightarrow> nat \<Rightarrow> bytes option" where
  "bufchain_fetch ch len = (if buffersize ch \<ge> len then fetch_loop (granules ch) len else None)"

definition bufchain_fetch_consume :: "bufchain \<Rightarrow> nat \<Rightarrow> (bytes \<times> bufchain) option" where
  "bufchain_fetch_consume ch len = do {
     d \<leftarrow> bufchain_fetch ch len;
     ch \<leftarrow> bufchain_consume ch len;
     Some (d, ch)
   }"

text \<open>The inner \<open>None\<close> is \<open>false\<close>: nothing was fetched.\<close>

definition bufchain_try_fetch_consume :: "bufchain \<Rightarrow> nat \<Rightarrow> (bytes option \<times> bufchain) option" where
  "bufchain_try_fetch_consume ch len =
     (if buffersize ch \<ge> len then map_option (\<lambda>(d, ch). (Some d, ch)) (bufchain_fetch_consume ch len)
      else Some (None, ch))"

definition bufchain_fetch_consume_up_to :: "bufchain \<Rightarrow> nat \<Rightarrow> (bytes \<times> bufchain) option" where
  "bufchain_fetch_consume_up_to ch len =
     (let len = (if len > buffersize ch then buffersize ch else len)
      in if len \<noteq> 0 then bufchain_fetch_consume ch len else Some ([], ch))"

section \<open>The queue it implements\<close>

definition held :: "granule \<Rightarrow> bytes" where
  "held g = take (bufend g - bufpos g) (drop (bufpos g) (mem g))"

definition contents :: "bufchain \<Rightarrow> bytes" where
  "contents ch = concat (map held (granules ch))"

definition granule_ok :: "granule \<Rightarrow> bool" where
  "granule_ok g \<longleftrightarrow> bufpos g < bufend g \<and> bufend g \<le> length (mem g)"

definition chain_ok :: "bufchain \<Rightarrow> bool" where
  "chain_ok ch \<longleftrightarrow> (\<forall>g \<in> set (granules ch). granule_ok g) \<and> buffersize ch = length (contents ch)"

lemma length_held: "granule_ok g \<Longrightarrow> length (held g) = bufend g - bufpos g"
  by (auto simp: held_def granule_ok_def)

lemma as_int_zero [simp]: "as_int 0 = 0"
  by (simp add: as_int_def)

lemma as_int_negative: "2 ^ 31 \<le> len \<Longrightarrow> len < 2 ^ 32 \<Longrightarrow> as_int len < 0"
proof -
  assume l: "2 ^ 31 \<le> len" "len < 2 ^ 32"
  then have "take_bit 32 (int len) = int len" by (simp add: take_bit_int_eq_self)
  moreover have "int len div 2147483648 = 1" using l by (simp add: zdiv_int[symmetric] div_nat_eqI)
  ultimately show ?thesis using l unfolding as_int_def
    by (simp add: sint_uint unsigned_of_nat signed_take_bit_eq_take_bit_minus take_bit_nat_eq_self bit_iff_odd)
qed

lemma as_int_small: "len < 2 ^ 31 \<Longrightarrow> as_int len = int len"
  unfolding as_int_def by (simp add: sint_uint unsigned_of_nat signed_take_bit_int_eq_self take_bit_nat_eq_self)

text \<open>Between two passes the last granule may still be empty, with data to come.\<close>

definition adding :: "granule list \<Rightarrow> bytes \<Rightarrow> bool" where
  "adding gs buf \<longleftrightarrow> (\<forall>g \<in> set (butlast gs). granule_ok g) \<and>
     (gs \<noteq> [] \<longrightarrow> granule_ok (last gs) \<or> buf \<noteq> [] \<and> has_room gs \<and> bufpos (last gs) = bufend (last gs))"

lemma fill_tail_spec:
  assumes "adding gs buf" "buf \<noteq> []" "fill_tail gs buf = (gs', buf')"
  shows "(\<forall>g \<in> set gs'. granule_ok g) \<and> concat (map held gs') @ buf' = concat (map held gs) @ buf"
proof (cases "has_room gs")
  case False
  then show ?thesis using assms by (cases gs rule: rev_cases) (auto simp: fill_tail_def adding_def)
next
  case True
  then obtain hs g where gs: "gs = hs @ [g]" by (cases gs rule: rev_cases) (auto simp: has_room_def)
  have r: "bufend g < length (mem g)" "bufpos g \<le> bufend g" "\<forall>g \<in> set hs. granule_ok g"
    using True assms(1) by (auto simp: gs has_room_def adding_def granule_ok_def)
  moreover obtain x xs where "buf = x # xs" using assms(2) by (cases buf) auto
  ultimately show ?thesis using assms(3) True
    by (auto simp: fill_tail_def gs Let_def granule_ok_def held_def take_drop min_def split: if_splits)
qed

lemma grow_tail_spec:
  assumes "\<forall>g \<in> set gs. granule_ok g" "grow_tail junk (gs, buf) = (gs', buf')"
  shows "adding gs' buf' \<and> concat (map held gs') @ buf' = concat (map held gs) @ buf"
proof (cases "buf = []")
  case True
  then show ?thesis using assms by (auto simp: grow_tail_def adding_def dest: in_set_butlastD)
next
  case False
  then show ?thesis using assms by (auto simp: grow_tail_def adding_def has_room_def new_granule_def Let_def held_def)
qed

lemma add_loop_spec:
  "adding gs buf \<Longrightarrow> (\<forall>g \<in> set (add_loop junk gs buf). granule_ok g) \<and>
     concat (map held (add_loop junk gs buf)) = concat (map held gs) @ buf"
proof (induction junk gs buf rule: add_loop.induct)
  case (1 junk gs buf)
  show ?case
  proof (cases "buf = []")
    case True
    then show ?thesis using 1(2) by (cases gs rule: rev_cases) (auto simp: add_loop.simps adding_def)
  next
    case False
    obtain g1 b1 where 2: "fill_tail gs buf = (g1, b1)" by fastforce
    obtain g2 b2 where 3: "grow_tail junk (g1, b1) = (g2, b2)" by fastforce
    note f = fill_tail_spec[OF 1(2) False 2] and g = grow_tail_spec[OF _ 3]
    show ?thesis using 1(1)[OF False, of g2 b2] f g False
      by (subst (1 2) add_loop.simps) (simp add: 2 3)
  qed
qed

lemma bufchain_add_spec:
  assumes "chain_ok ch"
  shows "chain_ok (fst (bufchain_add junk ch d)) \<and> contents (fst (bufchain_add junk ch d)) = contents ch @ d"
proof (cases "d = []")
  case False
  have "adding (granules ch) d"
    using assms by (auto simp: chain_ok_def adding_def dest: in_set_butlastD)
  from add_loop_spec[OF this, of junk] show ?thesis
    using assms False by (simp add: bufchain_add_def chain_ok_def contents_def)
qed (use assms in \<open>simp add: bufchain_add_def\<close>)

lemma consume_loop_0: "consume_loop 0 ch = Some ch"
  by (subst consume_loop.simps) simp

lemma consume_loop_spec:
  assumes "chain_ok ch" "len \<le> length (contents ch)" "len < 2 ^ 31"
  shows "\<exists>ch'. consume_loop len ch = Some ch' \<and> chain_ok ch' \<and> contents ch' = drop len (contents ch) \<and> ic ch' = ic ch"
  using assms
proof (induction "granules ch" arbitrary: ch len)
  case Nil
  then have "len = 0" by (simp add: contents_def)
  then show ?case using Nil by (subst consume_loop.simps) simp
next
  case (Cons g gs)
  note gr = Cons(2)[symmetric]
  let ?avail = "bufend g - bufpos g"
  have g: "granule_ok g" "\<forall>g \<in> set gs. granule_ok g" using Cons(3) by (simp_all add: chain_ok_def gr)
  have c: "contents ch = held g @ concat (map held gs)" by (simp add: contents_def gr)
  show ?case
  proof (cases "len = 0")
    case True
    then show ?thesis using Cons(3) by (subst consume_loop.simps) simp
  next
    case n0: False
    show ?thesis
    proof (cases "?avail \<le> len")
      case True
      let ?ch = "ch\<lparr>granules := gs, buffersize := buffersize ch - ?avail\<rparr>"
      have ok: "chain_ok ?ch" using Cons(3) g(2) length_held[OF g(1)] by (simp add: chain_ok_def contents_def gr)
      have len: "len - ?avail \<le> length (contents ?ch)" using Cons(4) length_held[OF g(1)] unfolding c by (simp add: contents_def)
      have "\<exists>ch'. consume_loop (len - ?avail) ?ch = Some ch' \<and> chain_ok ch' \<and>
          contents ch' = drop (len - ?avail) (contents ?ch) \<and> ic ch' = ic ?ch"
        using Cons(5) by (intro Cons(1) ok len) auto
      moreover have "drop (len - ?avail) (contents ?ch) = drop len (contents ch)"
        using True length_held[OF g(1)] unfolding c by (simp add: contents_def)
      ultimately show ?thesis using True n0 Cons(5)
        by (subst consume_loop.simps) (simp add: gr Let_def as_int_small)
    next
      case False
      let ?ch = "ch\<lparr>granules := g\<lparr>bufpos := bufpos g + len\<rparr> # gs, buffersize := buffersize ch - len\<rparr>"
      have h: "held (g\<lparr>bufpos := bufpos g + len\<rparr>) = drop len (held g)"
        using False by (simp add: held_def drop_take ac_simps)
      have "chain_ok ?ch" "contents ?ch = drop len (contents ch)"
        using Cons(3) g False length_held[OF g(1)] by (auto simp: chain_ok_def contents_def gr h granule_ok_def)
      moreover have "consume_loop len ch = Some ?ch"
      proof -
        have "(as_int len \<ge> int ?avail) = False" "(as_int len < 0) = False" "nat (as_int len) = len"
          using False Cons(5) by (simp_all add: as_int_small)
        then show ?thesis using n0
          by (subst consume_loop.simps) (simp only: gr Let_def list.case if_False diff_self_eq_0 consume_loop_0)
      qed
      ultimately show ?thesis by simp
    qed
  qed
qed

lemma fetch_loop_spec:
  assumes "\<forall>g \<in> set gs. granule_ok g" "len \<le> length (concat (map held gs))" "len < 2 ^ 31"
  shows "fetch_loop gs len = Some (take len (concat (map held gs)))"
  using assms
proof (induction gs arbitrary: len)
  case (Cons g gs)
  have l: "length (held g) = bufend g - bufpos g" using Cons.prems by (simp add: length_held)
  have IH: "fetch_loop gs (len - length (held g)) = Some (take (len - length (held g)) (concat (map held gs)))"
    using Cons.prems by (intro Cons.IH) auto
  show ?case
  proof (cases "length (held g) \<le> len")
    case True
    have "take (length (held g)) (drop (bufpos g) (mem g)) = held g" by (simp add: l) (simp add: held_def)
    then show ?thesis using True Cons.prems(3) IH by (auto simp: Let_def as_int_small l[symmetric])
  next
    case False
    have "take len (drop (bufpos g) (mem g)) = take len (held g)" using False l by (simp add: held_def min_def)
    moreover have "fetch_loop gs 0 = Some []" by (cases gs) simp_all
    ultimately show ?thesis using False Cons.prems(3) by (auto simp: Let_def as_int_small l[symmetric])
  qed
qed simp

section \<open>The contract\<close>

text \<open>
  A queue of bytes as its clients use it: they add a block at the end, look at some of the
  bytes at the front, and drop those they have dealt with.
\<close>

locale byte_queue =
  fixes ok :: "'q \<Rightarrow> bool" and conts :: "'q \<Rightarrow> bytes" and size_of :: "'q \<Rightarrow> nat"
    and add :: "'q \<Rightarrow> bytes \<Rightarrow> 'q" and front :: "'q \<Rightarrow> bytes option" and consume :: "'q \<Rightarrow> nat \<Rightarrow> 'q option"
  assumes size_of: "ok q \<Longrightarrow> size_of q = length (conts q)"
    and add_ok: "ok q \<Longrightarrow> ok (add q d)"
    and add_conts: "ok q \<Longrightarrow> conts (add q d) = conts q @ d"
    and front: "ok q \<Longrightarrow> conts q \<noteq> [] \<Longrightarrow> \<exists>p r. front q = Some p \<and> p \<noteq> [] \<and> conts q = p @ r"
    and consume: "ok q \<Longrightarrow> k \<le> length (conts q) \<Longrightarrow> k < 2 ^ 31 \<Longrightarrow>
      \<exists>q'. consume q k = Some q' \<and> ok q' \<and> conts q' = drop k (conts q)"
begin

lemma size_add: "ok q \<Longrightarrow> size_of (add q d) = size_of q + length d"
  by (simp add: size_of add_ok add_conts)

text \<open>Take a piece off the front: the piece is what the queue had there.\<close>

lemma front_piece:
  assumes "ok q" "size_of q > 0"
  obtains p where "front q = Some p" "p \<noteq> []" "p = take (length p) (conts q)" "length p \<le> size_of q"
  using front[OF assms(1)] assms by (auto simp: size_of)

lemma consume_piece:
  assumes "ok q" "k \<le> size_of q" "k < 2 ^ 31"
  obtains q' where "consume q k = Some q'" "ok q'" "conts q = take k (conts q) @ conts q'" "size_of q' = size_of q - k"
  using consume[OF assms(1) _ assms(3)] assms(1,2) by (auto simp: size_of)

end

lemma bufchain_consume_spec:
  assumes "chain_ok ch" "len \<le> length (contents ch)" "len < 2 ^ 31"
  shows "\<exists>ch'. bufchain_consume ch len = Some ch' \<and> chain_ok ch' \<and> contents ch' = drop len (contents ch) \<and> ic ch' = ic ch"
  using consume_loop_spec[OF assms] assms(1,2) by (simp add: bufchain_consume_def chain_ok_def)

lemma bufchain_prefix_spec:
  assumes "chain_ok ch" "contents ch \<noteq> []"
  shows "\<exists>p r. bufchain_prefix ch = Some p \<and> p \<noteq> [] \<and> contents ch = p @ r"
proof (cases "granules ch")
  case (Cons g gs)
  then have "held g \<noteq> []" using assms(1) by (auto simp: chain_ok_def held_def granule_ok_def)
  then show ?thesis using Cons by (simp add: bufchain_prefix_def contents_def held_def)
qed (use assms(2) in \<open>simp add: contents_def\<close>)

interpretation chain: byte_queue chain_ok contents bufchain_size "\<lambda>ch d. fst (bufchain_add junk ch d)"
    bufchain_prefix bufchain_consume for junk
proof unfold_locales
  fix q k assume "chain_ok q" "k \<le> length (contents q)" "k < 2 ^ 31"
  from bufchain_consume_spec[OF this]
  show "\<exists>q'. bufchain_consume q k = Some q' \<and> chain_ok q' \<and> contents q' = drop k (contents q)" by blast
qed (use bufchain_prefix_spec in \<open>simp_all add: bufchain_add_spec bufchain_size_def chain_ok_def[THEN iffD1]\<close>)

lemma bufchain_fetch_spec:
  assumes "chain_ok ch" "len \<le> length (contents ch)" "len < 2 ^ 31"
  shows "bufchain_fetch ch len = Some (take len (contents ch))"
  using fetch_loop_spec[of "granules ch" len] assms by (simp add: bufchain_fetch_def chain_ok_def contents_def)

lemma bufchain_fetch_consume_spec:
  assumes "chain_ok ch" "len \<le> length (contents ch)" "len < 2 ^ 31"
  shows "\<exists>ch'. bufchain_fetch_consume ch len = Some (take len (contents ch), ch') \<and> chain_ok ch' \<and>
    contents ch' = drop len (contents ch)"
  using bufchain_fetch_spec[OF assms] bufchain_consume_spec[OF assms] by (auto simp: bufchain_fetch_consume_def)

lemma bufchain_try_fetch_consume_spec:
  assumes "chain_ok ch" "len < 2 ^ 31"
  shows "\<exists>r ch'. bufchain_try_fetch_consume ch len = Some (r, ch') \<and> chain_ok ch' \<and>
    (if len \<le> length (contents ch) then r = Some (take len (contents ch)) \<and> contents ch' = drop len (contents ch)
     else r = None \<and> ch' = ch)"
  using bufchain_fetch_consume_spec[OF assms(1) _ assms(2)] assms(1)
  by (cases "len \<le> length (contents ch)") (fastforce simp: bufchain_try_fetch_consume_def chain_ok_def)+

lemma bufchain_fetch_consume_up_to_spec:
  assumes "chain_ok ch" "len < 2 ^ 31"
  shows "\<exists>ch'. bufchain_fetch_consume_up_to ch len = Some (take len (contents ch), ch') \<and> chain_ok ch' \<and>
    contents ch' = drop len (contents ch)"
proof -
  define k where "k = min len (length (contents ch))"
  have k: "(if len > buffersize ch then buffersize ch else len) = k" "k \<le> length (contents ch)" "k < 2 ^ 31"
    "take len (contents ch) = take k (contents ch)" "drop len (contents ch) = drop k (contents ch)"
    using assms by (auto simp: k_def chain_ok_def min_def)
  show ?thesis using bufchain_fetch_consume_spec[OF assms(1) k(2,3)] assms(1)
    unfolding bufchain_fetch_consume_up_to_def k(1,4,5) by (cases "k = 0") auto
qed

lemma chain_ok_init: "chain_ok bufchain_init" "contents bufchain_init = []"
  by (simp_all add: bufchain_init_def chain_ok_def contents_def)

lemma chain_ok_clear: "chain_ok (bufchain_clear ch)" "contents (bufchain_clear ch) = []"
  by (simp_all add: bufchain_clear_def chain_ok_def contents_def)

lemma chain_ok_set_callback: "chain_ok (bufchain_set_callback ch i) = chain_ok ch" "contents (bufchain_set_callback ch i) = contents ch"
  by (simp_all add: bufchain_set_callback_def chain_ok_def contents_def)

section \<open>Programs over a queue\<close>

text \<open>What a client does with a queue, and what it does to the bytes in it.\<close>

datatype queue_op = Init | Clear | Add bytes | Consume nat | Fetch nat | Try nat | Up_to nat | Callback bool

fun run_op :: "(nat \<Rightarrow> u8) \<Rightarrow> queue_op \<Rightarrow> bufchain \<Rightarrow> (bytes option \<times> bufchain) option" where
  "run_op junk Init ch = Some (None, bufchain_init)"
| "run_op junk Clear ch = Some (None, bufchain_clear ch)"
| "run_op junk (Add d) ch = Some (None, fst (bufchain_add junk ch d))"
| "run_op junk (Consume k) ch = map_option (Pair None) (bufchain_consume ch k)"
| "run_op junk (Fetch k) ch = map_option (\<lambda>d. (Some d, ch)) (bufchain_fetch ch k)"
| "run_op junk (Try k) ch = bufchain_try_fetch_consume ch k"
| "run_op junk (Up_to k) ch = map_option (\<lambda>(d, ch). (Some d, ch)) (bufchain_fetch_consume_up_to ch k)"
| "run_op junk (Callback i) ch = Some (None, bufchain_set_callback ch i)"

fun spec_op :: "queue_op \<Rightarrow> bytes \<Rightarrow> (bytes option \<times> bytes) option" where
  "spec_op Init q = Some (None, [])"
| "spec_op Clear q = Some (None, [])"
| "spec_op (Add d) q = Some (None, q @ d)"
| "spec_op (Consume k) q = (if k \<le> length q then Some (None, drop k q) else None)"
| "spec_op (Fetch k) q = (if k \<le> length q then Some (Some (take k q), q) else None)"
| "spec_op (Try k) q = Some (if k \<le> length q then (Some (take k q), drop k q) else (None, q))"
| "spec_op (Up_to k) q = Some (Some (take k q), drop k q)"
| "spec_op (Callback i) q = Some (None, q)"

fun amount :: "queue_op \<Rightarrow> nat" where
  "amount (Consume k) = k"
| "amount (Fetch k) = k"
| "amount (Try k) = k"
| "amount (Up_to k) = k"
| "amount _ = 0"

fun run_ops :: "('o \<Rightarrow> 'q \<Rightarrow> ('r \<times> 'q) option) \<Rightarrow> 'o list \<Rightarrow> 'q \<Rightarrow> ('r list \<times> 'q) option" where
  "run_ops f [] q = Some ([], q)"
| "run_ops f (x # xs) q = do { (r, q) \<leftarrow> f x q; (rs, q) \<leftarrow> run_ops f xs q; Some (r # rs, q) }"

lemma run_op_refines:
  assumes "chain_ok ch" "amount x < 2 ^ 31"
  shows "map_option (map_prod id contents) (run_op junk x ch) = spec_op x (contents ch) \<and>
    (\<forall>r ch'. run_op junk x ch = Some (r, ch') \<longrightarrow> chain_ok ch')"
proof (cases x)
  case (Consume k)
  then show ?thesis using bufchain_consume_spec[OF assms(1), of k] assms
    by (cases "k \<le> length (contents ch)") (auto simp: bufchain_consume_def chain_ok_def)
next
  case (Fetch k)
  then show ?thesis using bufchain_fetch_spec[OF assms(1), of k] assms
    by (cases "k \<le> length (contents ch)") (auto simp: bufchain_fetch_def chain_ok_def)
next
  case (Try k)
  then show ?thesis using bufchain_try_fetch_consume_spec[OF assms(1), of k] assms by (auto split: if_splits)
next
  case (Up_to k)
  then show ?thesis using bufchain_fetch_consume_up_to_spec[OF assms(1), of k] assms by auto
qed (use assms bufchain_add_spec[OF assms(1), of junk] chain_ok_init chain_ok_clear chain_ok_set_callback in auto)

text \<open>
  C21: the chain of granules is a queue of bytes. Any sequence of operations on it, started
  from a well-formed chain, returns what the same sequence on a plain list of bytes
  returns, fails exactly when that asks for more bytes than there are, and leaves a well-formed
  chain with the same bytes. The amounts asked for must be below \<open>2 ^ 31\<close>.
\<close>

theorem bufchain_is_queue:
  assumes "chain_ok ch" "\<forall>x \<in> set xs. amount x < 2 ^ 31"
  shows "map_option (map_prod id contents) (run_ops (run_op junk) xs ch) = run_ops spec_op xs (contents ch) \<and>
    (\<forall>rs ch'. run_ops (run_op junk) xs ch = Some (rs, ch') \<longrightarrow> chain_ok ch')"
  using assms
proof (induction xs arbitrary: ch)
  case (Cons x xs)
  have r: "map_option (map_prod id contents) (run_op junk x ch) = spec_op x (contents ch)"
    "\<forall>r ch'. run_op junk x ch = Some (r, ch') \<longrightarrow> chain_ok ch'"
    using run_op_refines[OF Cons.prems(1), of x junk] Cons.prems(2) by auto
  show ?case
  proof (cases "run_op junk x ch")
    case None
    then show ?thesis using r(1) by (auto simp flip: r(1))
  next
    case (Some p)
    obtain r0 ch' where p: "p = (r0, ch')" by (cases p)
    have ok: "chain_ok ch'" "\<forall>x \<in> set xs. amount x < 2 ^ 31" using r(2) Some p Cons.prems(2) by simp_all
    note Cons.IH[OF ok]
    then show ?thesis using Some p r(1)
      by (cases "run_ops (run_op junk) xs ch'") (auto simp flip: r(1) dest: sym)
  qed
qed simp

theorem bufchain_is_queue_witness:
  "map_option (map_prod id contents) (run_ops (run_op (\<lambda>_. 7)) [Add [1, 2, 3], Fetch 2, Consume 1] bufchain_init) =
     Some ([None, Some [1, 2], None], [2, 3])"
  using bufchain_is_queue[OF chain_ok_init(1), of "[Add [1, 2, 3], Fetch 2, Consume 1]" "\<lambda>_. 7"]
  by (simp add: chain_ok_init)

end
