(* ===== verification/WinNet.thy ===== *)
theory WinNet
  imports Bufchain
begin

text \<open>
  \<open>maltty/challenge/src/windows/winnet.c\<close>: a network socket of PuTTY on Windows, from the
  data written to it to the calls of \<open>send\<close>, and the dispatch of socket events. The network is
  a list of answers, one per call of \<open>send\<close>; when it is used up, \<open>send\<close> would block. What
  is accepted is collected in \<open>wire\<close>, the calls to the plug are collected in \<open>plugged\<close>.
\<close>

section \<open>State\<close>

datatype eof = EOF_NO | EOF_PENDING | EOF_SENT

text \<open>\<open>Room k\<close>: \<open>send\<close> takes at most \<open>k\<close> bytes; \<open>Fail e\<close>: it returns -1, with error \<open>e\<close>.\<close>

datatype answer = Room nat | Fail int

datatype plug_call = Closing int | Receive int bytes | Sent_down u64

record netsocket =
  output_data :: bufchain
  connected :: bool
  writable :: bool
  frozen :: bool
  frozen_readable :: bool
  oobinline :: bool
  oobdata :: bytes
  sending_oob :: nat
  outgoingeof :: eof
  pending_error :: int
  wire :: "(bool \<times> bytes) list"      \<comment> \<open>urgent or not, and the bytes\<close>
  shut_down :: bool
  callbacks :: nat                    \<comment> \<open>\<open>socket_error_callback\<close>s queued\<close>
  network :: "answer list"
  plugged :: "plug_call list"

abbreviation (input) WSABASEERR :: int where "WSABASEERR \<equiv> 10000"
abbreviation (input) WSAEWOULDBLOCK :: int where "WSAEWOULDBLOCK \<equiv> 10035"
abbreviation (input) INT_MAX :: nat where "INT_MAX \<equiv> 2147483647"

text \<open>\<open>sk_new\<close>, before the connection is made; \<open>oob\<close> is the fresh one-byte buffer.\<close>

definition sk_new :: "bool \<Rightarrow> u8 \<Rightarrow> answer list \<Rightarrow> netsocket" where
  "sk_new inl oob net = \<lparr>output_data = bufchain_init, connected = False, writable = False, frozen = False,
     frozen_readable = False, oobinline = inl, oobdata = [oob], sending_oob = 0, outgoingeof = EOF_NO,
     pending_error = 0, wire = [], shut_down = False, callbacks = 0, network = net, plugged = []\<rparr>"

section \<open>Sending\<close>

definition backlog :: "netsocket \<Rightarrow> nat" where
  "backlog s = sending_oob s + bufchain_size (output_data s)"

text \<open>What is handed to \<open>send\<close> next, and whether it is urgent.\<close>

definition next_piece :: "netsocket \<Rightarrow> (bool \<times> bytes) option" where
  "next_piece s =
     (if sending_oob s \<noteq> 0 then Some (True, take (sending_oob s) (oobdata s))
      else map_option (\<lambda>d. (False, take INT_MAX d)) (bufchain_prefix (output_data s)))"

text \<open>\<open>nsent > 0\<close> bytes of a piece were accepted.\<close>

definition accepted :: "bool \<Rightarrow> bytes \<Rightarrow> nat \<Rightarrow> netsocket \<Rightarrow> netsocket option" where
  "accepted urgent d nsent s =
     (let s = s\<lparr>wire := wire s @ [(urgent, take nsent d)]\<rparr> in
      if urgent then
        Some (if nsent < length d
              then s\<lparr>oobdata := drop nsent d @ drop (length d - nsent) (oobdata s), sending_oob := length d - nsent\<rparr>
              else s\<lparr>sending_oob := 0\<rparr>)
      else map_option (\<lambda>q. s\<lparr>output_data := q\<rparr>) (bufchain_consume (output_data s) nsent))"

definition send_failed :: "int \<Rightarrow> bool \<Rightarrow> netsocket \<Rightarrow> netsocket" where
  "send_failed err negative s =
     (if err < WSABASEERR \<and> negative \<or> err = WSAEWOULDBLOCK then s\<lparr>writable := False\<rparr>
      else s\<lparr>pending_error := err, callbacks := callbacks s + 1\<rparr>)"

definition finish_eof :: "netsocket \<Rightarrow> netsocket" where
  "finish_eof s = (if outgoingeof s = EOF_PENDING then s\<lparr>shut_down := True, outgoingeof := EOF_SENT\<rparr> else s)"

text \<open>The loop, with the answers of the network. \<open>None\<close> is a fault of the queue.\<close>

fun try_send_loop :: "answer list \<Rightarrow> netsocket \<Rightarrow> netsocket option" where
  "try_send_loop net s =
     (if backlog s = 0 then Some (finish_eof (s\<lparr>network := net\<rparr>))
      else case next_piece s of
        None \<Rightarrow> None
      | Some (urgent, d) \<Rightarrow>
          (case net of
             [] \<Rightarrow> Some (send_failed WSAEWOULDBLOCK True (s\<lparr>network := []\<rparr>))
           | Fail e # net \<Rightarrow> Some (send_failed e True (s\<lparr>network := net\<rparr>))
           | Room k # net \<Rightarrow>
               let nsent = min k (length d) in
               if nsent = 0 then Some (send_failed 0 False (s\<lparr>network := net\<rparr>))
               else do { s \<leftarrow> accepted urgent d nsent s; try_send_loop net s }))"

declare try_send_loop.simps [simp del]

definition try_send :: "netsocket \<Rightarrow> netsocket option" where
  "try_send s = try_send_loop (network s) s"

definition send_if_writable :: "netsocket \<Rightarrow> netsocket option" where
  "send_if_writable s = (if writable s then try_send s else Some s)"

text \<open>\<open>None\<close> is a failed assertion too; the number is the one the function returns.\<close>

definition sk_net_write :: "(nat \<Rightarrow> u8) \<Rightarrow> bytes \<Rightarrow> netsocket \<Rightarrow> (nat \<times> netsocket) option" where
  "sk_net_write junk buf s =
     (if outgoingeof s \<noteq> EOF_NO then None
      else map_option (\<lambda>s. (bufchain_size (output_data s), s))
             (send_if_writable (s\<lparr>output_data := fst (bufchain_add junk (output_data s) buf)\<rparr>)))"

definition sk_net_write_oob :: "bytes \<Rightarrow> netsocket \<Rightarrow> (nat \<times> netsocket) option" where
  "sk_net_write_oob buf s =
     (if outgoingeof s \<noteq> EOF_NO \<or> length buf > length (oobdata s) then None
      else map_option (\<lambda>s. (sending_oob s, s))
             (send_if_writable (s\<lparr>output_data := bufchain_clear (output_data s),
                oobdata := buf @ drop (length buf) (oobdata s), sending_oob := length buf\<rparr>)))"

definition sk_net_write_eof :: "netsocket \<Rightarrow> netsocket option" where
  "sk_net_write_eof s =
     (if outgoingeof s \<noteq> EOF_NO then None else send_if_writable (s\<lparr>outgoingeof := EOF_PENDING\<rparr>))"

text \<open>\<open>present\<close>: the socket is still in the tree of sockets.\<close>

definition socket_error_callback :: "bool \<Rightarrow> netsocket \<Rightarrow> netsocket" where
  "socket_error_callback present s =
     (if \<not> present \<or> pending_error s = 0 then s else s\<lparr>plugged := plugged s @ [Closing (pending_error s)]\<rparr>)"

definition sk_net_set_frozen :: "bool \<Rightarrow> netsocket \<Rightarrow> netsocket" where
  "sk_net_set_frozen b s = (if frozen s = b then s else s\<lparr>frozen := b, frozen_readable := False\<rparr>)"

section \<open>Events\<close>

text \<open>What \<open>recv\<close> returns: some bytes (none at the end of the stream) or an error.\<close>

datatype received = Got bytes | Recv_fail int

datatype event = FD_CONNECT | FD_READ bool received | FD_OOB int received | FD_WRITE | FD_CLOSE "received list"

definition plug :: "plug_call \<Rightarrow> netsocket \<Rightarrow> netsocket" where
  "plug c s = s\<lparr>plugged := plugged s @ [c]\<rparr>"

text \<open>The rest of the stream at \<open>FD_CLOSE\<close>; when the list ends, \<open>recv\<close> would block.\<close>

fun drain :: "received list \<Rightarrow> netsocket \<Rightarrow> netsocket" where
  "drain [] s = s"
| "drain (Recv_fail e # rs) s = (if e = WSAEWOULDBLOCK then s else plug (Closing e) s)"
| "drain (Got d # rs) s = (if d = [] then plug (Closing 0) s else drain rs (plug (Receive 0 d) s))"

text \<open>
  \<open>select_result\<close> for an event without an error. The two sizes at \<open>FD_WRITE\<close> are
  \<open>int\<close>s, although the backlog and the argument of \<open>plug_sent\<close> are \<open>size_t\<close>. \<open>FD_READ\<close> carries the answer of
  \<open>SIOCATMARK\<close>, \<open>FD_OOB\<close> that of \<open>WSAGetLastError\<close> after the call of \<open>recv\<close>.
\<close>

definition select_result :: "event \<Rightarrow> netsocket \<Rightarrow> netsocket option" where
  "select_result ev s =
     (case ev of
        FD_CONNECT \<Rightarrow> Some (s\<lparr>connected := True, writable := True\<rparr>)
      | FD_READ mark r \<Rightarrow>
          Some (if frozen s then s\<lparr>frozen_readable := True\<rparr>
            else
              let atmark = (if oobinline s then mark else True) in
              case r of
                Recv_fail e \<Rightarrow> if e = WSAEWOULDBLOCK then s else plug (Closing e) s
              | Got d \<Rightarrow> if d = [] then plug (Closing 0) s else plug (Receive (if atmark then 0 else 1) d) s)
      | FD_OOB e r \<Rightarrow>
          Some (case r of
             Recv_fail _ \<Rightarrow> plug (Closing e) s
           | Got d \<Rightarrow> if d = [] then plug (Closing e) s else plug (Receive 2 d) s)
      | FD_WRITE \<Rightarrow> do {
          let bufsize_before = as_int (backlog s);
          s \<leftarrow> try_send (s\<lparr>writable := True\<rparr>);
          let bufsize_after = as_int (backlog s);
          Some (if bufsize_after < bufsize_before then plug (Sent_down (of_int bufsize_after)) s else s)
        }
      | FD_CLOSE rs \<Rightarrow> Some (drain rs s))"

section \<open>The stream a socket carries\<close>

definition sent_stream :: "netsocket \<Rightarrow> bytes" where
  "sent_stream s = concat (map snd (filter (\<lambda>w. \<not> fst w) (wire s)))"

definition urgent_stream :: "netsocket \<Rightarrow> bytes" where
  "urgent_stream s = concat (map snd (filter fst (wire s)))"

definition queued :: "netsocket \<Rightarrow> bytes" where
  "queued s = contents (output_data s)"

definition urgent_queued :: "netsocket \<Rightarrow> bytes" where
  "urgent_queued s = take (sending_oob s) (oobdata s)"

definition sock_ok :: "netsocket \<Rightarrow> bool" where
  "sock_ok s \<longleftrightarrow> chain_ok (output_data s) \<and> length (oobdata s) = 1 \<and> sending_oob s \<le> 1 \<and>
     (shut_down s \<longleftrightarrow> outgoingeof s = EOF_SENT) \<and> (shut_down s \<longrightarrow> backlog s = 0)"

lemmas stream_defs = sent_stream_def urgent_stream_def queued_def urgent_queued_def

lemma backlog_eq: "sock_ok s \<Longrightarrow> backlog s = length (urgent_queued s) + length (queued s)"
  by (simp add: backlog_def sock_ok_def urgent_queued_def queued_def chain.size_of)

lemma sock_ok_new: "sock_ok (sk_new inl oob net)"
  by (simp add: sk_new_def sock_ok_def chain_ok_init)

text \<open>What a pass of the sending loop leaves alone.\<close>

definition same_stream :: "netsocket \<Rightarrow> netsocket \<Rightarrow> bool" where
  "same_stream s s' \<longleftrightarrow> sent_stream s' @ queued s' = sent_stream s @ queued s \<and>
     urgent_stream s' @ urgent_queued s' = urgent_stream s @ urgent_queued s"

lemma same_stream_trans: "same_stream s t \<Longrightarrow> same_stream t u \<Longrightarrow> same_stream s u"
  by (simp add: same_stream_def)

lemma next_piece_spec:
  assumes "sock_ok s" "backlog s \<noteq> 0"
  shows "\<exists>u d. next_piece s = Some (u, d) \<and> d \<noteq> [] \<and> length d < 2 ^ 31 \<and>
    (if u then d = urgent_queued s \<and> sending_oob s = 1 else sending_oob s = 0 \<and> (\<exists>r. queued s = d @ r))"
proof (cases "sending_oob s = 0")
  case True
  then have "bufchain_size (output_data s) > 0" "chain_ok (output_data s)" using assms by (simp_all add: backlog_def sock_ok_def)
  then obtain p where p: "bufchain_prefix (output_data s) = Some p" "p \<noteq> []" "p = take (length p) (queued s)"
    using chain.front_piece unfolding queued_def by blast
  then have "\<exists>r. queued s = take INT_MAX p @ r"
    by (metis append_take_drop_id append.assoc)
  then show ?thesis using True p(1,2) by (simp add: next_piece_def ex_bool_eq min_less_iff_disj)
next
  case False
  then show ?thesis using assms(1) by (cases "oobdata s") (auto simp: next_piece_def sock_ok_def urgent_queued_def ex_bool_eq)
qed

lemma accepted_spec:
  assumes "sock_ok s" "next_piece s = Some (u, d)" "0 < k" "k \<le> length d" "backlog s \<noteq> 0" "outgoingeof s \<noteq> EOF_SENT"
  shows "\<exists>s'. accepted u d k s = Some s' \<and> sock_ok s' \<and> same_stream s s' \<and> backlog s' < backlog s \<and>
    outgoingeof s' = outgoingeof s \<and> writable s' = writable s \<and> callbacks s' = callbacks s"
proof (cases u)
  case True
  then have "k = 1" "length d = 1" "sending_oob s = 1" "d = urgent_queued s"
    using next_piece_spec[OF assms(1,5)] assms by (auto simp: urgent_queued_def)
  then show ?thesis using assms(1,6) True
    by (auto simp: accepted_def Let_def sock_ok_def same_stream_def stream_defs backlog_def)
next
  case False
  then obtain r where d: "queued s = d @ r" "length d < 2 ^ 31" using next_piece_spec[OF assms(1,5)] assms(2) by auto
  obtain q where q: "bufchain_consume (output_data s) k = Some q" "chain_ok q" "queued s = take k (queued s) @ contents q"
    "bufchain_size q = bufchain_size (output_data s) - k"
    using chain.consume_piece[of "output_data s" k] assms(1,4) d
    by (auto simp: queued_def sock_ok_def chain.size_of)
  have t: "take k (queued s) = take k d" using d(1) assms(4) by simp
  have "k \<le> bufchain_size (output_data s)" using assms(1,4) d(1) by (simp add: sock_ok_def chain.size_of queued_def)
  then show ?thesis using assms(1,3,6) False q t
    by (auto simp: accepted_def Let_def sock_ok_def same_stream_def stream_defs backlog_def)
qed

text \<open>The sending loop: it returns, keeps the stream, and stops for a reason.\<close>

definition stopped :: "netsocket \<Rightarrow> netsocket \<Rightarrow> bool" where
  "stopped s s' \<longleftrightarrow> backlog s' = 0 \<or> \<not> writable s' \<or> callbacks s < callbacks s'"

lemma send_failed_simps [simp]:
  "output_data (send_failed e b s) = output_data s" "oobdata (send_failed e b s) = oobdata s"
  "sending_oob (send_failed e b s) = sending_oob s" "outgoingeof (send_failed e b s) = outgoingeof s"
  "wire (send_failed e b s) = wire s" "shut_down (send_failed e b s) = shut_down s"
  "network (send_failed e b s) = network s"
  by (simp_all add: send_failed_def)

lemma failed_spec:
  assumes "sock_ok s" "outgoingeof s \<noteq> EOF_SENT" "backlog s \<noteq> 0"
  shows "sock_ok (send_failed e b (s\<lparr>network := net\<rparr>)) \<and> same_stream s (send_failed e b (s\<lparr>network := net\<rparr>)) \<and>
    stopped s (send_failed e b (s\<lparr>network := net\<rparr>)) \<and>
    outgoingeof (send_failed e b (s\<lparr>network := net\<rparr>)) = outgoingeof s \<and>
    backlog (send_failed e b (s\<lparr>network := net\<rparr>)) = backlog s"
proof -
  have "stopped s (send_failed e b (s\<lparr>network := net\<rparr>))" by (simp add: stopped_def send_failed_def)
  then show ?thesis using assms by (auto simp: sock_ok_def same_stream_def stream_defs backlog_def)
qed

lemma try_send_loop_spec:
  assumes "sock_ok s" "outgoingeof s \<noteq> EOF_SENT"
  shows "\<exists>s'. try_send_loop net s = Some s' \<and> sock_ok s' \<and> same_stream s s' \<and> stopped s s' \<and>
    outgoingeof s' = (if outgoingeof s = EOF_PENDING \<and> backlog s' = 0 then EOF_SENT else outgoingeof s)"
  using assms
proof (induction net arbitrary: s)
  case Nil
  show ?case
  proof (cases "backlog s = 0")
    case True
    then show ?thesis using Nil
      by (subst try_send_loop.simps) (auto simp: finish_eof_def sock_ok_def same_stream_def stream_defs stopped_def backlog_def)
  next
    case False
    then obtain u d where "next_piece s = Some (u, d)" using next_piece_spec[OF Nil(1)] by blast
    then show ?thesis using False failed_spec[OF Nil False, of WSAEWOULDBLOCK True "[]"]
      by (subst try_send_loop.simps) auto
  qed
next
  case (Cons a net)
  show ?case
  proof (cases "backlog s = 0")
    case True
    then show ?thesis using Cons(2,3)
      by (subst try_send_loop.simps) (auto simp: finish_eof_def sock_ok_def same_stream_def stream_defs stopped_def backlog_def)
  next
    case False
    then obtain u d where d: "next_piece s = Some (u, d)" "d \<noteq> []" using next_piece_spec[OF Cons(2)] by blast
    show ?thesis
    proof (cases a)
      case (Fail e)
      then show ?thesis using False d(1) failed_spec[OF Cons(2,3) False, of e True net]
        by (subst try_send_loop.simps) auto
    next
      case (Room k)
      show ?thesis
      proof (cases "min k (length d) = 0")
        case True
        then show ?thesis using False d Room failed_spec[OF Cons(2,3) False, of 0 False net]
          by (subst try_send_loop.simps) (auto simp: Let_def)
      next
        case pos: False
        then obtain s1 where s1: "accepted u d (min k (length d)) s = Some s1" "sock_ok s1" "same_stream s s1"
          "backlog s1 < backlog s" "outgoingeof s1 = outgoingeof s" "writable s1 = writable s" "callbacks s1 = callbacks s"
          using accepted_spec[OF Cons(2) d(1) _ _ False Cons(3), of "min k (length d)"] by auto
        from Cons(1)[OF s1(2)] s1(5) Cons(3)
        obtain s' where s': "try_send_loop net s1 = Some s'" "sock_ok s'" "same_stream s1 s'" "stopped s1 s'"
          "outgoingeof s' = (if outgoingeof s1 = EOF_PENDING \<and> backlog s' = 0 then EOF_SENT else outgoingeof s1)" by auto
        have "try_send_loop (a # net) s = Some s'"
          unfolding Room by (subst try_send_loop.simps) (simp only: False d(1) pos s1(1) s'(1) option.case prod.case list.case answer.case Let_def if_False bind.bind_lunit)
        then show ?thesis using s' s1 same_stream_trans[OF s1(3) s'(3)] by (auto simp: stopped_def)
      qed
    qed
  qed
qed

section \<open>Sessions\<close>

text \<open>What happens to a socket: writes, the end of the stream, events.\<close>

datatype action = Write bytes | Urgent bytes | Finish | Event event | Freeze bool | Error_callback bool

definition act :: "(nat \<Rightarrow> u8) \<Rightarrow> action \<Rightarrow> netsocket \<Rightarrow> netsocket option" where
  "act junk a s =
     (case a of
        Write d \<Rightarrow> map_option snd (sk_net_write junk d s)
      | Urgent d \<Rightarrow> map_option snd (sk_net_write_oob d s)
      | Finish \<Rightarrow> sk_net_write_eof s
      | Event ev \<Rightarrow> select_result ev s
      | Freeze b \<Rightarrow> Some (sk_net_set_frozen b s)
      | Error_callback b \<Rightarrow> Some (socket_error_callback b s))"

fun acts :: "(nat \<Rightarrow> u8) \<Rightarrow> action list \<Rightarrow> netsocket \<Rightarrow> netsocket option" where
  "acts junk [] s = Some s"
| "acts junk (a # as) s = do { s \<leftarrow> act junk a s; acts junk as s }"

fun written :: "action \<Rightarrow> bytes" where
  "written (Write d) = d"
| "written _ = []"

text \<open>The actions that only touch the receiving side and the plug.\<close>

definition inert :: "netsocket \<Rightarrow> netsocket \<Rightarrow> bool" where
  "inert s s' \<longleftrightarrow> output_data s' = output_data s \<and> oobdata s' = oobdata s \<and> sending_oob s' = sending_oob s \<and>
     outgoingeof s' = outgoingeof s \<and> wire s' = wire s \<and> shut_down s' = shut_down s"

lemma inert_trans: "inert s t \<Longrightarrow> inert t u \<Longrightarrow> inert s u"
  by (simp add: inert_def)

lemma inert_refl: "inert s s"
  by (simp add: inert_def)

lemma inert_flags: "inert s (s\<lparr>connected := True, writable := True\<rparr>)" "inert s (s\<lparr>frozen_readable := True\<rparr>)"
  by (simp_all add: inert_def)

lemma inert_plug: "inert s (plug c s)"
  by (simp add: inert_def plug_def)

lemma inert_drain: "inert s (drain rs s)"
proof (induction rs s rule: drain.induct)
  case (3 d rs s)
  then show ?case using inert_plug inert_trans by (cases "d = []") fastforce+
qed (use inert_plug in \<open>auto simp: inert_refl\<close>)

lemma inert_keeps:
  assumes "inert s s'" "sock_ok s"
  shows "sock_ok s'" "same_stream s s'"
  using assms by (auto simp: inert_def sock_ok_def same_stream_def stream_defs backlog_def)

lemma try_send_spec:
  assumes "sock_ok s"
  shows "\<exists>s'. try_send s = Some s' \<and> sock_ok s' \<and> same_stream s s' \<and> stopped s s' \<and>
    outgoingeof s' = (if outgoingeof s = EOF_PENDING \<and> backlog s' = 0 then EOF_SENT else outgoingeof s)"
proof (cases "outgoingeof s = EOF_SENT")
  case True
  then have "backlog s = 0" using assms by (simp add: sock_ok_def)
  then show ?thesis using True assms unfolding try_send_def
    by (subst try_send_loop.simps) (auto simp: finish_eof_def same_stream_def stopped_def)
qed (use try_send_loop_spec[OF assms, of "network s"] in \<open>simp add: try_send_def\<close>)

lemma send_if_writable_spec:
  assumes "sock_ok s"
  shows "\<exists>s'. send_if_writable s = Some s' \<and> sock_ok s' \<and> same_stream s s'"
  using try_send_spec[OF assms] assms by (auto simp: send_if_writable_def same_stream_def)

lemma sk_net_write_spec:
  assumes "sock_ok s" "outgoingeof s = EOF_NO"
  shows "\<exists>s'. sk_net_write junk d s = Some (bufchain_size (output_data s'), s') \<and> sock_ok s' \<and>
    sent_stream s' @ queued s' = sent_stream s @ queued s @ d"
proof -
  let ?s = "s\<lparr>output_data := fst (bufchain_add junk (output_data s) d)\<rparr>"
  have "sock_ok ?s" "queued ?s = queued s @ d" "sent_stream ?s = sent_stream s"
    using assms chain.add_ok chain.add_conts by (simp_all add: sock_ok_def queued_def sent_stream_def)
  then show ?thesis using send_if_writable_spec[of ?s] assms(2)
    by (auto simp: sk_net_write_def same_stream_def)
qed

lemma act_spec:
  assumes "sock_ok s" "act junk a s = Some s'" "\<forall>d. a \<noteq> Urgent d"
  shows "sock_ok s' \<and> sent_stream s' @ queued s' = sent_stream s @ queued s @ written a"
proof (cases a)
  case (Write d)
  have o: "outgoingeof s = EOF_NO" using assms(2) by (auto simp: act_def Write sk_net_write_def split: if_splits)
  show ?thesis using sk_net_write_spec[OF assms(1) o, of junk d] assms(2)
    by (auto simp: act_def Write)
next
  case Finish
  let ?s = "s\<lparr>outgoingeof := EOF_PENDING\<rparr>"
  have o: "outgoingeof s = EOF_NO" using assms(2) by (auto simp: act_def Finish sk_net_write_eof_def split: if_splits)
  then have "sock_ok ?s" using assms(1) by (simp add: sock_ok_def)
  then show ?thesis using send_if_writable_spec[of ?s] assms(2) o
    by (auto simp: act_def Finish sk_net_write_eof_def same_stream_def) (simp add: stream_defs)
next
  case (Event ev)
  show ?thesis
  proof (cases "ev = FD_WRITE")
    case True
    have w: "sock_ok (s\<lparr>writable := True\<rparr>)" "same_stream s (s\<lparr>writable := True\<rparr>)"
      using assms(1) by (simp_all add: sock_ok_def same_stream_def stream_defs backlog_def)
    obtain t where t: "try_send (s\<lparr>writable := True\<rparr>) = Some t" "sock_ok t" "same_stream (s\<lparr>writable := True\<rparr>) t"
      using try_send_spec[OF w(1)] by blast
    have "s' = t \<or> (\<exists>k. s' = plug (Sent_down k) t)"
      using assms(2) t(1) by (auto simp: act_def Event True select_result_def Let_def split: if_splits)
    then have "inert t s'" using inert_plug by (auto simp: inert_def plug_def)
    from inert_keeps[OF this t(2)] show ?thesis
      using same_stream_trans[OF same_stream_trans[OF w(2) t(3)]] Event by (simp add: same_stream_def)
  next
    case False
    have "inert s s'" using assms(2) False inert_drain[of s]
      by (cases ev) (auto simp: act_def Event select_result_def Let_def inert_plug inert_refl inert_flags split: received.splits if_splits)
    then show ?thesis using inert_keeps[OF _ assms(1)] Event by (simp add: same_stream_def)
  qed
next
  case (Freeze b)
  then have "inert s s'" using assms(2) by (auto simp: act_def sk_net_set_frozen_def inert_def split: if_splits)
  from inert_keeps[OF this assms(1)] show ?thesis using Freeze by (simp add: same_stream_def)
next
  case (Error_callback b)
  then have "inert s s'" using assms(2) by (auto simp: act_def socket_error_callback_def inert_def split: if_splits)
  from inert_keeps[OF this assms(1)] show ?thesis using Error_callback by (simp add: same_stream_def)
qed (use assms(3) in simp)

lemma acts_spec:
  assumes "sock_ok s" "acts junk as s = Some s'" "\<forall>a \<in> set as. \<forall>d. a \<noteq> Urgent d"
  shows "sock_ok s' \<and> sent_stream s' @ queued s' = sent_stream s @ queued s @ concat (map written as)"
  using assms
proof (induction "as" arbitrary: s)
  case (Cons a "as")
  then obtain s1 where s1: "act junk a s = Some s1" "acts junk as s1 = Some s'" by (auto split: Option.bind_splits)
  have 1: "sock_ok s1" "sent_stream s1 @ queued s1 = sent_stream s @ queued s @ written a"
    using act_spec[OF Cons.prems(1) s1(1)] Cons.prems(3) by auto
  have 2: "sock_ok s'" "sent_stream s' @ queued s' = sent_stream s1 @ queued s1 @ concat (map written as)"
    using Cons.IH[OF 1(1) s1(2)] Cons.prems(3) by auto
  show ?case using 2 arg_cong[OF 1(2), of "\<lambda>x. x @ concat (map written as)"] by simp
qed simp

text \<open>
  C16: a socket carries its stream. Whatever mixture of writes, events, freezing and a final
  end-of-file happens to a new socket, and however the network chops, delays or refuses the data, the
  bytes on the wire followed by those in the queue are the bytes written, in order, and the
  connection is shut down for writing only when all of them are on the wire.
\<close>

theorem socket_keeps_stream:
  assumes "acts junk as (sk_new inl oob net) = Some s" "\<forall>a \<in> set as. \<forall>d. a \<noteq> Urgent d"
  shows "sent_stream s @ queued s = concat (map written as) \<and>
    (shut_down s \<longrightarrow> sent_stream s = concat (map written as))"
proof -
  have s: "sock_ok s" "sent_stream s @ queued s = concat (map written as)"
    using acts_spec[OF sock_ok_new assms] by (simp_all add: sk_new_def sent_stream_def queued_def chain_ok_init)
  have "queued s = []" if "shut_down s"
    using s(1) that backlog_eq[OF s(1)] by (auto simp: sock_ok_def)
  then show ?thesis using s(2) by auto
qed

theorem socket_keeps_stream_witness:
  "\<exists>s. acts (\<lambda>_. 0) [Event FD_CONNECT, Write [1, 2, 3]] (sk_new True 0 [Room 2]) = Some s
     \<and> sent_stream s @ queued s = [1, 2, 3]"
proof -
  let ?as = "[Event FD_CONNECT, Write [1, 2, 3]]"
  let ?s = "(sk_new True 0 [Room 2])\<lparr>connected := True, writable := True\<rparr>"
  have "sock_ok ?s" using inert_keeps(1)[OF inert_flags(1) sock_ok_new] .
  then obtain k s where w: "sk_net_write (\<lambda>_. 0) [1, 2, 3] ?s = Some (k, s)"
    using sk_net_write_spec[of ?s "\<lambda>_. 0" "[1, 2, 3]"] by (auto simp: sk_new_def)
  have s: "acts (\<lambda>_. 0) ?as (sk_new True 0 [Room 2]) = Some s"
    using w by (simp add: act_def select_result_def)
  then show ?thesis using socket_keeps_stream[OF s] by simp
qed

section \<open>Progress\<close>

lemma try_send_loop_empty:
  assumes "backlog s = 0"
  shows "\<exists>s'. try_send_loop net s = Some s' \<and> backlog s' = 0 \<and> callbacks s' = callbacks s \<and> writable s' = writable s"
proof -
  have "try_send_loop net s = Some (finish_eof (s\<lparr>network := net\<rparr>))" using assms by (subst try_send_loop.simps) (simp only: simp_thms if_True)
  then show ?thesis using assms by (simp add: finish_eof_def backlog_def)
qed

lemma try_send_loop_progress:
  assumes "sock_ok s" "outgoingeof s \<noteq> EOF_SENT" "\<forall>a \<in> set (take (backlog s) net). \<exists>k. a = Room (Suc k)"
    "backlog s \<le> length net"
  shows "\<exists>s'. try_send_loop net s = Some s' \<and> backlog s' = 0 \<and> callbacks s' = callbacks s \<and> writable s' = writable s"
  using assms
proof (induction net arbitrary: s)
  case Nil
  then have "backlog s = 0" by simp
  then show ?case by (rule try_send_loop_empty)
next
  case (Cons a net)
  show ?case
  proof (cases "backlog s = 0")
    case True
    then show ?thesis by (rule try_send_loop_empty)
  next
    case False
    then obtain b where b: "backlog s = Suc b" by (cases "backlog s") auto
    then obtain k where a: "a = Room (Suc k)" using Cons.prems(3) by auto
    obtain u d where d: "next_piece s = Some (u, d)" "d \<noteq> []" using next_piece_spec[OF Cons.prems(1) False] by blast
    define m where "m = min (Suc k) (length d)"
    have m: "0 < m" "m \<le> length d" "m \<noteq> 0" using d(2) by (simp_all add: m_def)
    obtain s1 where s1: "accepted u d m s = Some s1" "sock_ok s1"
      "backlog s1 < backlog s" "outgoingeof s1 = outgoingeof s" "writable s1 = writable s" "callbacks s1 = callbacks s"
      using accepted_spec[OF Cons.prems(1) d(1) m(1,2) False Cons.prems(2)] by blast
    have le: "backlog s1 \<le> b" "b \<le> length net" using s1(3) b Cons.prems(4) by simp_all
    have "\<forall>a \<in> set (take (backlog s1) net). \<exists>k. a = Room (Suc k)"
      using Cons.prems(3) set_take_subset_set_take[OF le(1), of net] by (auto simp: b)
    from Cons.IH[OF s1(2) _ this] obtain s' where s': "try_send_loop net s1 = Some s'" "backlog s' = 0"
      "callbacks s' = callbacks s1" "writable s' = writable s1" using s1(4) Cons.prems(2) le by fastforce
    have "try_send_loop (a # net) s = Some s'"
      unfolding a by (subst try_send_loop.simps) (simp only: m_def[symmetric] False d(1) m(3) s1(1) s'(1) option.case prod.case list.case answer.case Let_def if_False bind.bind_lunit)
    then show ?thesis using s' s1(5,6) by simp
  qed
qed

lemma send_keeps_plugged [simp]:
  "plugged (send_failed e b s) = plugged s" "plugged (finish_eof s) = plugged s"
  "accepted u d k s = Some s' \<Longrightarrow> plugged s' = plugged s"
  by (auto simp: send_failed_def finish_eof_def accepted_def Let_def split: if_splits)

lemma try_send_loop_plugged: "try_send_loop net s = Some s' \<Longrightarrow> plugged s' = plugged s"
proof (induction net arbitrary: s)
  case Nil
  then show ?case by (subst (asm) try_send_loop.simps) (auto split: if_splits option.splits)
next
  case (Cons a net)
  then show ?case
    by (subst (asm) (2) try_send_loop.simps)
      (fastforce simp: Let_def split: if_splits option.splits answer.splits Option.bind_splits)
qed

text \<open>
  C31: what is queued gets sent. When a socket that has not failed is told it is writable and
  the network takes at least one byte each time it is asked, as often as there are bytes in the
  backlog, then the event empties the backlog: every byte is on the wire, a pending end-of-file
  is sent and no error is flagged. The plug is told, once, that nothing is left exactly when the
  backlog, read as an \<open>int\<close>, was positive: for less than \<open>2 ^ 31\<close> bytes exactly when
  there was anything, while from \<open>2 ^ 31\<close> up to \<open>2 ^ 32\<close> bytes it is never told.
\<close>

theorem write_event_flushes:
  assumes "sock_ok s" "backlog s \<le> length (network s)" "\<forall>a \<in> set (network s). \<exists>k. a = Room (Suc k)"
  shows "\<exists>s'. select_result FD_WRITE s = Some s' \<and> sent_stream s' = sent_stream s @ queued s \<and> queued s' = [] \<and>
    urgent_stream s' = urgent_stream s @ urgent_queued s \<and> callbacks s' = callbacks s \<and>
    (outgoingeof s \<noteq> EOF_NO \<longrightarrow> shut_down s') \<and>
    plugged s' = plugged s @ (if 0 < as_int (backlog s) then [Sent_down 0] else []) \<and>
    (backlog s < 2 ^ 31 \<longrightarrow> as_int (backlog s) = int (backlog s)) \<and>
    (2 ^ 31 \<le> backlog s \<and> backlog s < 2 ^ 32 \<longrightarrow> as_int (backlog s) < 0)"
proof -
  let ?s = "s\<lparr>writable := True\<rparr>"
  have w: "sock_ok ?s" "backlog ?s = backlog s" using assms(1) by (simp_all add: sock_ok_def backlog_def)
  obtain t where t: "try_send ?s = Some t" "sock_ok t" "same_stream ?s t"
    "outgoingeof t = (if outgoingeof s = EOF_PENDING \<and> backlog t = 0 then EOF_SENT else outgoingeof s)"
    using try_send_spec[OF w(1)] by auto
  have p: "backlog t = 0 \<and> callbacks t = callbacks s"
  proof (cases "outgoingeof s = EOF_SENT")
    case True
    then have "backlog ?s = 0" using w(1) by (simp add: sock_ok_def)
    then show ?thesis using t(1) True unfolding try_send_def
      by (subst (asm) try_send_loop.simps) (auto simp: finish_eof_def backlog_def)
  next
    case False
    have "\<forall>a \<in> set (take (backlog ?s) (network ?s)). \<exists>k. a = Room (Suc k)" using assms(3) by (auto dest: in_set_takeD)
    from try_send_loop_progress[OF w(1) _ this] show ?thesis
      using t(1) False assms(2) w(2) by (auto simp: try_send_def)
  qed
  have q: "queued t = []" "urgent_queued t = []" using p backlog_eq[OF t(2)] by simp_all
  have st: "sent_stream t = sent_stream s @ queued s" "urgent_stream t = urgent_stream s @ urgent_queued s"
    using t(3) q by (auto simp: same_stream_def stream_defs)
  have eof: "outgoingeof s \<noteq> EOF_NO \<longrightarrow> shut_down t"
    using t(2,4) p by (cases "outgoingeof s") (auto simp: sock_ok_def)
  have k: "plugged t = plugged s" using try_send_loop_plugged t(1) by (fastforce simp: try_send_def)
  show ?thesis using p q st eof w(2) t(1) k as_int_small[of "backlog s"] as_int_negative[of "backlog s"]
    by (auto simp: select_result_def Let_def plug_def stream_defs as_int_zero)
qed

theorem write_event_flushes_witness:
  "\<exists>s'. select_result FD_WRITE ((sk_new True 7 [Room 3])\<lparr>sending_oob := 1\<rparr>) = Some s' \<and> urgent_stream s' = [7] \<and>
     plugged s' = [Sent_down 0]"
proof -
  let ?s = "(sk_new True 7 [Room 3])\<lparr>sending_oob := 1\<rparr>"
  have "sock_ok ?s" by (simp add: sk_new_def sock_ok_def chain_ok_init)
  moreover have "backlog ?s = 1" by (simp add: sk_new_def backlog_def bufchain_size_def bufchain_init_def)
  moreover have "network ?s = [Room 3]" by (simp add: sk_new_def)
  ultimately show ?thesis using write_event_flushes[of ?s] by (auto simp: sk_new_def stream_defs numeral_3_eq_3)
qed

end
