(* ===== verification/Marshal.thy ===== *)
theory Marshal
  imports Bufchain
begin

text \<open>
  \<open>maltty/challenge/src/marshal.c\<close>: writing and reading the data types of the SSH protocol;
  with the growing string buffers of \<open>utils.c\<close> and the allocation arithmetic of \<open>memory.c\<close> they
  rest on. A sink is the function that takes its bytes; \<open>None\<close> is a failed assertion or the end of
  the program for lack of memory.
\<close>

section \<open>Growing arrays\<close>

text \<open>\<open>safegrowarray\<close>: the new size of an array, or \<open>None\<close> for a failed assertion.\<close>

definition safegrowarray :: "u64 \<Rightarrow> u64 \<Rightarrow> u64 \<Rightarrow> u64 \<Rightarrow> u64 option" where
  "safegrowarray oldsize eltsize oldlen extralen =
     (if eltsize = 0 then None
      else
        let maxsize = NOT 0 div eltsize in
        if oldsize > maxsize \<or> oldlen > maxsize \<or> extralen > maxsize - oldlen then None
        else if oldsize > oldlen + extralen then Some oldsize
        else
          let increment = (oldlen + extralen) - oldsize;
              increment = (if increment < 256 div eltsize then 256 div eltsize else increment);
              increment = (if increment < oldsize div 16 then oldsize div 16 else increment);
              maxincr = maxsize - oldsize;
              increment = (if increment > maxincr then maxincr else increment)
          in Some (oldsize + increment))"

text \<open>\<open>saferealloc\<close> refuses more than \<open>INT_MAX\<close> bytes; \<open>alloc\<close> tells which sizes \<open>realloc\<close> gives.\<close>

definition saferealloc :: "(u64 \<Rightarrow> bool) \<Rightarrow> u64 \<Rightarrow> u64 \<Rightarrow> u64 option" where
  "saferealloc alloc k eltsize =
     (if k > 0x7FFFFFFF div eltsize then None
      else if alloc (eltsize * k) then Some (eltsize * k) else None)"

section \<open>String buffers\<close>

text \<open>The memory allocated, and the length of the string in it.\<close>

record strbuf =
  smem :: bytes
  slen :: nat

definition strbuf_new :: "(nat \<Rightarrow> u8) \<Rightarrow> strbuf" where
  "strbuf_new junk = \<lparr>smem = (map junk [0..<512])[0 := 0], slen = 0\<rparr>"

definition grow_strbuf :: "(nat \<Rightarrow> u8) \<Rightarrow> (u64 \<Rightarrow> bool) \<Rightarrow> nat \<Rightarrow> strbuf \<Rightarrow> strbuf option" where
  "grow_strbuf junk alloc len s = do {
     newsize \<leftarrow> safegrowarray (of_nat (length (smem s))) 1 (of_nat (slen s) + 1) (of_nat len);
     if newsize = of_nat (length (smem s)) then Some s
     else do {
       k \<leftarrow> saferealloc alloc newsize 1;
       Some (s\<lparr>smem := smem s @ map junk [length (smem s)..<unat k]\<rparr>)
     }
   }"

text \<open>Where the new bytes go is the old length.\<close>

definition strbuf_append :: "(nat \<Rightarrow> u8) \<Rightarrow> (u64 \<Rightarrow> bool) \<Rightarrow> nat \<Rightarrow> strbuf \<Rightarrow> (nat \<times> strbuf) option" where
  "strbuf_append junk alloc len s = do {
     s \<leftarrow> grow_strbuf junk alloc len s;
     let toret = slen s;
     m \<leftarrow> wr (smem s) (toret + len) 0;
     Some (toret, s\<lparr>smem := m, slen := toret + len\<rparr>)
   }"

definition strbuf_write :: "(nat \<Rightarrow> u8) \<Rightarrow> (u64 \<Rightarrow> bool) \<Rightarrow> bytes \<Rightarrow> strbuf \<Rightarrow> strbuf option" where
  "strbuf_write junk alloc data s = do {
     (p, s) \<leftarrow> strbuf_append junk alloc (length data) s;
     if p + length data \<le> length (smem s)
     then Some (s\<lparr>smem := take p (smem s) @ data @ drop (p + length data) (smem s)\<rparr>)
     else None
   }"

definition strbuf_new_for_agent_query :: "(nat \<Rightarrow> u8) \<Rightarrow> (u64 \<Rightarrow> bool) \<Rightarrow> strbuf option" where
  "strbuf_new_for_agent_query junk alloc = map_option snd (strbuf_append junk alloc 4 (strbuf_new junk))"

text \<open>The \<open>k\<close> low bytes of a word, most significant first.\<close>

definition be_bytes :: "nat \<Rightarrow> 'a::len word \<Rightarrow> bytes" where
  "be_bytes k w = rev (le_bytes k w)"

definition of_be :: "bytes \<Rightarrow> 'a::len word" where
  "of_be bs = of_le (rev bs)"

definition strbuf_finalise_agent_query :: "strbuf \<Rightarrow> strbuf option" where
  "strbuf_finalise_agent_query s =
     (if slen s \<ge> 5 then Some (s\<lparr>smem := be_bytes 4 (of_nat (slen s - 4) :: u32) @ drop 4 (smem s)\<rparr>) else None)"

section \<open>Writing\<close>

type_synonym 's sink = "bytes \<Rightarrow> 's \<Rightarrow> 's option"

definition put_data :: "'s sink \<Rightarrow> bytes \<Rightarrow> 's \<Rightarrow> 's option" where
  "put_data write d s = write d s"

function put_padding :: "'s sink \<Rightarrow> nat \<Rightarrow> u8 \<Rightarrow> 's \<Rightarrow> 's option" where
  "put_padding write len padbyte s =
     (if len > 0 then
        let thislen = (if len < 16 then len else 16)
        in do { s \<leftarrow> write (replicate thislen padbyte) s; put_padding write (len - thislen) padbyte s }
      else Some s)"
  by pat_completeness auto
termination by (relation "measure (\<lambda>(_, len, _, _). len)") auto

declare put_padding.simps [simp del]

definition put_byte :: "'s sink \<Rightarrow> u8 \<Rightarrow> 's \<Rightarrow> 's option" where
  "put_byte write val s = write [val] s"

definition put_bool :: "'s sink \<Rightarrow> bool \<Rightarrow> 's \<Rightarrow> 's option" where
  "put_bool write val s = write [if val then 1 else 0] s"

definition put_uint16 :: "'s sink \<Rightarrow> u64 \<Rightarrow> 's \<Rightarrow> 's option" where
  "put_uint16 write val s = write (be_bytes 2 val) s"

definition put_uint32 :: "'s sink \<Rightarrow> u64 \<Rightarrow> 's \<Rightarrow> 's option" where
  "put_uint32 write val s = write (be_bytes 4 val) s"

definition put_uint64 :: "'s sink \<Rightarrow> u64 \<Rightarrow> 's \<Rightarrow> 's option" where
  "put_uint64 write val s = write (be_bytes 8 val) s"

definition put_string :: "'s sink \<Rightarrow> bytes \<Rightarrow> 's \<Rightarrow> 's option" where
  "put_string write d s =
     (if drop_bit 31 (of_nat (length d) :: u64) < 2
      then do { s \<leftarrow> put_uint32 write (of_nat (length d)) s; write d s }
      else None)"

text \<open>\<open>cs\<close> is a buffer with a C string in it.\<close>

definition put_stringz :: "'s sink \<Rightarrow> bytes \<Rightarrow> 's \<Rightarrow> 's option" where
  "put_stringz write cs s = put_string write (cstr cs) s"

definition put_asciz :: "'s sink \<Rightarrow> bytes \<Rightarrow> 's \<Rightarrow> 's option" where
  "put_asciz write cs s = write (cstr cs @ [0]) s"

text \<open>The boolean is the function's result.\<close>

definition put_pstring :: "'s sink \<Rightarrow> bytes \<Rightarrow> 's \<Rightarrow> (bool \<times> 's) option" where
  "put_pstring write cs s =
     (if strlen cs > 255 then Some (False, s)
      else do {
        s \<leftarrow> put_byte write (of_nat (strlen cs)) s;
        s \<leftarrow> write (cstr cs) s;
        Some (True, s)
      })"

section \<open>Reading\<close>

datatype source_error = BSE_NO_ERROR | BSE_OUT_OF_DATA | BSE_INVALID

record source =
  data :: bytes
  pos :: nat
  err :: source_error

definition source_init :: "bytes \<Rightarrow> source" where
  "source_init d = \<lparr>data = d, pos = 0, err = BSE_NO_ERROR\<rparr>"

definition data_avail :: "source \<Rightarrow> nat \<Rightarrow> bool \<times> source" where
  "data_avail src wanted =
     (if err src \<noteq> BSE_NO_ERROR then (False, src)
      else if wanted \<le> length (data src) - pos src then (True, src)
      else (False, src\<lparr>err := BSE_OUT_OF_DATA\<rparr>))"

definition get_data :: "nat \<Rightarrow> source \<Rightarrow> bytes \<times> source" where
  "get_data wanted src =
     (case data_avail src wanted of
        (False, src) \<Rightarrow> ([], src)
      | (True, src) \<Rightarrow> (take wanted (drop (pos src) (data src)), src\<lparr>pos := pos src + wanted\<rparr>))"

text \<open>The other fixed sizes are read the same way; \<open>f\<close> decodes the bytes found.\<close>

definition get_fixed :: "nat \<Rightarrow> (bytes \<Rightarrow> 'a) \<Rightarrow> 'a \<Rightarrow> source \<Rightarrow> 'a \<times> source" where
  "get_fixed k f z src =
     (case data_avail src k of
        (False, src) \<Rightarrow> (z, src)
      | (True, src) \<Rightarrow> (f (take k (drop (pos src) (data src))), src\<lparr>pos := pos src + k\<rparr>))"

definition get_byte :: "source \<Rightarrow> u8 \<times> source" where
  "get_byte = get_fixed 1 hd 0"

definition get_bool :: "source \<Rightarrow> bool \<times> source" where
  "get_bool = get_fixed 1 (\<lambda>b. hd b \<noteq> 0) False"

definition get_uint16 :: "source \<Rightarrow> u32 \<times> source" where
  "get_uint16 = get_fixed 2 of_be 0"

definition get_uint32 :: "source \<Rightarrow> u64 \<times> source" where
  "get_uint32 = get_fixed 4 of_be 0"

definition get_uint64 :: "source \<Rightarrow> u64 \<times> source" where
  "get_uint64 = get_fixed 8 of_be 0"

definition get_string :: "source \<Rightarrow> bytes \<times> source" where
  "get_string src =
     (case data_avail src 4 of
        (False, src) \<Rightarrow> ([], src)
      | (True, src) \<Rightarrow>
          let len = unat (of_be (take 4 (drop (pos src) (data src))) :: u32)
          in get_data len (src\<lparr>pos := pos src + 4\<rparr>))"

definition get_asciz :: "source \<Rightarrow> bytes \<times> source" where
  "get_asciz src =
     (if err src \<noteq> BSE_NO_ERROR then ([], src)
      else
        let rest = drop (pos src) (data src) in
        if 0 \<in> set rest then (cstr rest, src\<lparr>pos := pos src + strlen rest + 1\<rparr>)
        else ([], src\<lparr>err := BSE_OUT_OF_DATA\<rparr>))"

definition get_pstring :: "source \<Rightarrow> bytes \<times> source" where
  "get_pstring src =
     (case data_avail src 1 of
        (False, src) \<Rightarrow> ([], src)
      | (True, src) \<Rightarrow>
          let len = unat (hd (drop (pos src) (data src)))
          in get_data len (src\<lparr>pos := pos src + 1\<rparr>))"

text \<open>The two sinks of the file itself.\<close>

definition bufchain_sink_write :: "(nat \<Rightarrow> u8) \<Rightarrow> bufchain sink" where
  "bufchain_sink_write junk d ch = Some (fst (bufchain_add junk ch d))"

section \<open>Sinks\<close>

text \<open>
  What every sink promises: the bytes written go behind those it has taken. \<open>holds s m\<close>: the
  sink is well formed and has taken the bytes \<open>m\<close>.
\<close>

locale byte_sink =
  fixes put :: "'s sink" and holds :: "'s \<Rightarrow> bytes \<Rightarrow> bool"
  assumes put_holds: "holds s m \<Longrightarrow> put d s = Some s' \<Longrightarrow> holds s' (m @ d)"
begin

lemma put_padding_holds: "holds s m \<Longrightarrow> put_padding put len b s = Some s' \<Longrightarrow> holds s' (m @ replicate len b)"
proof (induction len arbitrary: s m rule: less_induct)
  case (less len)
  show ?case
  proof (cases "len = 0")
    case True
    then show ?thesis using less.prems by (simp add: put_padding.simps)
  next
    case False
    define k where "k = (if len < 16 then len else 16)"
    have k: "0 < k" "k \<le> len" using False by (auto simp: k_def)
    obtain s1 where s1: "put (replicate k b) s = Some s1" "put_padding put (len - k) b s1 = Some s'"
      using less.prems(2) False by (subst (asm) put_padding.simps) (auto simp: Let_def k_def split: Option.bind_splits)
    have "holds s' ((m @ replicate k b) @ replicate (len - k) b)"
      using less.IH[OF _ put_holds[OF less.prems(1) s1(1)] s1(2)] k by simp
    then show ?thesis using k by (simp flip: replicate_add)
  qed
qed

lemma put_put: "holds s m \<Longrightarrow> put d s = Some t \<Longrightarrow> put e t = Some u \<Longrightarrow> holds u (m @ d @ e)"
  using put_holds[of s m d t] put_holds[of t "m @ d" e u] by simp

lemma put_string_holds:
  "holds s m \<Longrightarrow> put_string put d s = Some s' \<Longrightarrow> holds s' (m @ be_bytes 4 (of_nat (length d) :: u64) @ d)"
  by (auto simp: put_string_def put_uint32_def dest: put_put split: if_splits Option.bind_splits)

lemma put_pstring_holds:
  "holds s m \<Longrightarrow> put_pstring put cs s = Some (True, s') \<Longrightarrow>
    strlen cs \<le> 255 \<and> holds s' (m @ of_nat (strlen cs) # cstr cs)"
  by (auto simp: put_pstring_def put_byte_def dest: put_put split: if_splits Option.bind_splits)

end

interpretation queue_sink: byte_sink "bufchain_sink_write junk" "\<lambda>ch m. chain_ok ch \<and> contents ch = m" for junk
  by unfold_locales (auto simp: bufchain_sink_write_def bufchain_add_spec)

section \<open>Growing arrays: lemmas\<close>

lemma max_u64: "(NOT 0 :: u64) = 18446744073709551615"
  by simp

lemma safegrowarray_unat:
  assumes "safegrowarray oldsize eltsize oldlen extralen = Some k"
  shows "oldsize \<le> k \<and> unat oldlen + unat extralen \<le> unat k \<and> unat k * unat eltsize < 2 ^ 64"
proof -
  define M where "M = NOT 0 div eltsize"
  define i1 where "i1 = (if oldlen + extralen - oldsize < 256 div eltsize then 256 div eltsize else oldlen + extralen - oldsize)"
  define i2 where "i2 = (if i1 < oldsize div 16 then oldsize div 16 else i1)"
  have D: "safegrowarray oldsize eltsize oldlen extralen =
     (if eltsize = 0 then None
      else if oldsize > M \<or> oldlen > M \<or> extralen > M - oldlen then None
      else if oldsize > oldlen + extralen then Some oldsize
      else Some (oldsize + (if i2 > M - oldsize then M - oldsize else i2)))"
    unfolding safegrowarray_def Let_def M_def i2_def i1_def ..
  have g: "eltsize \<noteq> 0" "oldsize \<le> M" "oldlen \<le> M" "extralen \<le> M - oldlen"
    using assms unfolding D by (auto split: if_splits)
  have M: "unat M * unat eltsize < 2 ^ 64"
  proof -
    have "unat M = (2 ^ 64 - 1) div unat eltsize" unfolding M_def unat_div max_u64 by simp
    then have "unat M * unat eltsize \<le> 2 ^ 64 - 1" by simp
    then show ?thesis by simp
  qed
  have sub: "unat (M - x) = unat M - unat x" if "x \<le> M" for x using that by (simp add: unat_sub)
  have le: "unat oldlen + unat extralen \<le> unat M"
    using g(3,4) sub[OF g(3)] by (simp add: word_le_nat_alt)
  then have s: "unat (oldlen + extralen) = unat oldlen + unat extralen"
    using le_less_trans[OF le u64_less] by (simp add: unat_word_ariths)
  show ?thesis
  proof (cases "oldsize > oldlen + extralen")
    case True
    then have "k = oldsize" using assms g unfolding D by (simp add: not_less[THEN iffD2])
    moreover have "unat k * unat eltsize \<le> unat M * unat eltsize"
      using g(2) calculation by (simp add: word_le_nat_alt)
    ultimately have "unat k * unat eltsize < 2 ^ 64" using M by (rule_tac le_less_trans)
    then show ?thesis using True s \<open>k = oldsize\<close> by (simp add: word_less_nat_alt)
  next
    case False
    then have ge: "oldsize \<le> oldlen + extralen" by simp
    define i0 where "i0 = oldlen + extralen - oldsize"
    obtain inc where inc: "k = oldsize + inc" "i0 \<le> inc" "inc \<le> M - oldsize"
    proof -
      have c: "i0 \<le> M - oldsize"
        using ge le s g(2) by (simp add: i0_def word_le_nat_alt unat_sub sub)
      have "i0 \<le> i1" by (auto simp: i1_def i0_def less_imp_le)
      also have "i1 \<le> i2" by (auto simp: i2_def less_imp_le)
      finally have "i0 \<le> i2" .
      moreover have "k = oldsize + (if i2 > M - oldsize then M - oldsize else i2)"
        using assms g False unfolding D by (auto simp: not_less[THEN iffD2] split: if_splits)
      ultimately show ?thesis
        using that[of "if i2 > M - oldsize then M - oldsize else i2"] c by (cases "i2 > M - oldsize") (auto simp: not_less)
    qed
    have "unat oldsize + unat inc \<le> unat M"
      using inc(3) g(2) sub[OF g(2)] by (simp add: word_le_nat_alt)
    then have k: "unat k = unat oldsize + unat inc" using inc(1) le_less_trans[OF _ u64_less] by (simp add: unat_word_ariths)
    have "unat i0 = unat oldlen + unat extralen - unat oldsize" using ge s by (simp add: i0_def unat_sub)
    then have "unat oldlen + unat extralen \<le> unat k" using inc(2) k by (simp add: word_le_nat_alt)
    moreover have "unat k * unat eltsize \<le> unat M * unat eltsize"
      using k \<open>unat oldsize + unat inc \<le> unat M\<close> by (intro mult_le_mono1) simp
    ultimately have "unat oldlen + unat extralen \<le> unat k" "unat k * unat eltsize < 2 ^ 64"
      using M by (blast, rule_tac le_less_trans)
    then show ?thesis using k by (simp add: word_le_nat_alt)
  qed
qed

section \<open>String buffers: lemmas\<close>

definition strbuf_ok :: "strbuf \<Rightarrow> bool" where
  "strbuf_ok s \<longleftrightarrow> slen s < length (smem s) \<and> length (smem s) < 2 ^ 32 \<and> smem s ! slen s = 0"

definition strbuf_text :: "strbuf \<Rightarrow> bytes" where
  "strbuf_text s = take (slen s) (smem s)"

lemma strbuf_ok_new: "strbuf_ok (strbuf_new junk)" "strbuf_text (strbuf_new junk) = []"
  by (simp_all add: strbuf_new_def strbuf_ok_def strbuf_text_def)

lemma saferealloc_Some: "saferealloc alloc k 1 = Some m \<Longrightarrow> m = k \<and> unat k \<le> 0x7FFFFFFF"
  by (auto simp: saferealloc_def word_le_nat_alt not_less split: if_splits)

lemma grow_strbuf_spec:
  assumes "strbuf_ok s" "grow_strbuf junk alloc len s = Some t" "len < 2 ^ 63"
  shows "slen t = slen s \<and> take (length (smem s)) (smem t) = smem s \<and> slen s + len < length (smem t) \<and> length (smem t) < 2 ^ 32"
proof -
  have u: "unat (of_nat (length (smem s)) :: u64) = length (smem s)" "unat (of_nat (slen s) + 1 :: u64) = slen s + 1" "unat (of_nat len :: u64) = len"
    using assms(1,3) by (simp_all add: strbuf_ok_def unat_of_nat unat_word_ariths)
  obtain k where k: "safegrowarray (of_nat (length (smem s))) 1 (of_nat (slen s) + 1) (of_nat len) = Some k"
    using assms(2) by (auto simp: grow_strbuf_def split: Option.bind_splits)
  note sp = safegrowarray_unat[OF k, unfolded word_le_nat_alt u]
  show ?thesis
  proof (cases "k = of_nat (length (smem s))")
    case True
    then have "t = s" using assms(2) k by (simp add: grow_strbuf_def)
    then show ?thesis using sp True u assms(1) by (simp add: strbuf_ok_def)
  next
    case False
    then obtain m where m: "saferealloc alloc k 1 = Some m" "t = s\<lparr>smem := smem s @ map junk [length (smem s)..<unat m]\<rparr>"
      using assms(2) k by (auto simp: grow_strbuf_def split: Option.bind_splits)
    then show ?thesis using sp saferealloc_Some[OF m(1)] by auto
  qed
qed

lemma strbuf_write_spec:
  assumes "strbuf_ok s" "strbuf_write junk alloc d s = Some t" "length d < 2 ^ 63"
  shows "strbuf_ok t \<and> strbuf_text t = strbuf_text s @ d"
proof -
  obtain g where g: "grow_strbuf junk alloc (length d) s = Some g"
    using assms(2) by (auto simp: strbuf_write_def strbuf_append_def split: Option.bind_splits)
  note sp = grow_strbuf_spec[OF assms(1) g assms(3)]
  have l: "slen s \<le> length (smem s)" using assms(1) by (simp add: strbuf_ok_def)
  have tk: "take (slen s) (smem g) = take (slen s) (smem s)"
    using sp l by (metis min.absorb1 take_take)
  have t: "t = g\<lparr>smem := take (slen s) (smem g) @ d @ drop (slen s + length d) ((smem g)[slen s + length d := 0]), slen := slen s + length d\<rparr>"
    using assms(2) g sp by (auto simp: strbuf_write_def strbuf_append_def wr_def Let_def split: if_splits)
  show ?thesis using sp l by (simp add: t strbuf_ok_def strbuf_text_def tk nth_append min_absorb2)
qed

text \<open>The length of data in memory is below \<open>2 ^ 63\<close>.\<close>

definition strbuf_sink :: "(nat \<Rightarrow> u8) \<Rightarrow> (u64 \<Rightarrow> bool) \<Rightarrow> strbuf sink" where
  "strbuf_sink junk alloc d s = (if length d < 2 ^ 63 then strbuf_write junk alloc d s else None)"

interpretation string_sink: byte_sink "strbuf_sink junk alloc" "\<lambda>s m. strbuf_ok s \<and> strbuf_text s = m" for junk alloc
  by unfold_locales (auto simp: strbuf_sink_def strbuf_write_spec split: if_splits)

section \<open>Big-endian words\<close>

lemma length_be_bytes [simp]: "length (be_bytes k w) = k"
  by (simp add: be_bytes_def)

lemma of_be_be_bytes: "of_be (be_bytes k w) = take_bit (8 * k) w"
  by (simp add: of_be_def be_bytes_def of_le_le_bytes)

lemma nth_le_bytes: "i < k \<Longrightarrow> le_bytes k w ! i = ucast (drop_bit (8 * i) w)"
proof (induction k arbitrary: i w)
  case (Suc k)
  then show ?case by (cases i) (simp_all add: drop_bit_drop_bit add.commute)
qed simp

lemma le_bytes_ucast:
  assumes "8 * k \<le> LENGTH('b)"
  shows "le_bytes k (ucast (w :: 'a::len word) :: 'b::len word) = le_bytes k w"
proof (rule nth_equalityI)
  fix i assume "i < length (le_bytes k (ucast w :: 'b word))"
  then have i: "i < k" by simp
  have "ucast (drop_bit (8 * i) (ucast w :: 'b word)) = (ucast (drop_bit (8 * i) w) :: u8)"
    using i assms by (intro bit_word_eqI) (auto simp: bit_simps)
  then show "le_bytes k (ucast w :: 'b word) ! i = le_bytes k w ! i" using i by (simp add: nth_le_bytes)
qed simp

lemma be_bytes_ucast: "8 * k \<le> LENGTH('b) \<Longrightarrow> be_bytes k (ucast (w :: 'a::len word) :: 'b::len word) = be_bytes k w"
  by (simp add: be_bytes_def le_bytes_ucast)

section \<open>Fields\<close>

text \<open>A message is a list of fields, written one after the other and read back by their kinds.\<close>

datatype field = Byte u8 | Bool bool | Uint16 u16 | Uint32 u32 | Uint64 u64 | String bytes | Asciz bytes | Pstring bytes

fun put_field :: "'s sink \<Rightarrow> field \<Rightarrow> 's \<Rightarrow> 's option" where
  "put_field w (Byte x) s = put_byte w x s"
| "put_field w (Bool x) s = put_bool w x s"
| "put_field w (Uint16 x) s = put_uint16 w (ucast x) s"
| "put_field w (Uint32 x) s = put_uint32 w (ucast x) s"
| "put_field w (Uint64 x) s = put_uint64 w x s"
| "put_field w (String d) s = put_string w d s"
| "put_field w (Asciz d) s = put_asciz w (d @ [0]) s"
| "put_field w (Pstring d) s =
     do { (done, s) \<leftarrow> put_pstring w (d @ [0]) s; if done then Some s else None }"

fun get_field :: "field \<Rightarrow> source \<Rightarrow> field \<times> source" where
  "get_field (Byte _) src = map_prod Byte id (get_byte src)"
| "get_field (Bool _) src = map_prod Bool id (get_bool src)"
| "get_field (Uint16 _) src = map_prod (\<lambda>x. Uint16 (ucast x)) id (get_uint16 src)"
| "get_field (Uint32 _) src = map_prod (\<lambda>x. Uint32 (ucast x)) id (get_uint32 src)"
| "get_field (Uint64 _) src = map_prod Uint64 id (get_uint64 src)"
| "get_field (String _) src = map_prod String id (get_string src)"
| "get_field (Asciz _) src = map_prod Asciz id (get_asciz src)"
| "get_field (Pstring _) src = map_prod Pstring id (get_pstring src)"

fun valid_field :: "field \<Rightarrow> bool" where
  "valid_field (Asciz d) \<longleftrightarrow> 0 \<notin> set d"
| "valid_field (Pstring d) \<longleftrightarrow> 0 \<notin> set d \<and> length d < 256"
| "valid_field (String d) \<longleftrightarrow> length d < 2 ^ 32"
| "valid_field _ \<longleftrightarrow> True"

fun encoding :: "field \<Rightarrow> bytes" where
  "encoding (Byte x) = [x]"
| "encoding (Bool x) = [if x then 1 else 0]"
| "encoding (Uint16 x) = be_bytes 2 x"
| "encoding (Uint32 x) = be_bytes 4 x"
| "encoding (Uint64 x) = be_bytes 8 x"
| "encoding (String d) = be_bytes 4 (of_nat (length d) :: u32) @ d"
| "encoding (Asciz d) = d @ [0]"
| "encoding (Pstring d) = of_nat (length d) # d"

fun put_fields :: "'s sink \<Rightarrow> field list \<Rightarrow> 's \<Rightarrow> 's option" where
  "put_fields w [] s = Some s"
| "put_fields w (f # fs) s = do { s \<leftarrow> put_field w f s; put_fields w fs s }"

fun get_fields :: "field list \<Rightarrow> source \<Rightarrow> field list \<times> source" where
  "get_fields [] src = ([], src)"
| "get_fields (f # fs) src =
     (let (x, src) = get_field f src; (xs, src) = get_fields fs src in (x # xs, src))"

definition encode_fields :: "field list \<Rightarrow> bytes" where
  "encode_fields fs = concat (map encoding fs)"

lemma be_bytes_of_nat: "be_bytes 4 (of_nat n :: u64) = be_bytes 4 (of_nat n :: u32)"
proof -
  have "(of_nat n :: u32) = ucast (of_nat n :: u64)" by (rule bit_word_eqI) (simp add: bit_simps)
  then show ?thesis using be_bytes_ucast[of 4 "of_nat n :: u64", where 'b = 32] by simp
qed

context byte_sink
begin

lemma put_field_holds:
  assumes "holds s m" "valid_field f" "put_field put f s = Some s'"
  shows "holds s' (m @ encoding f)"
proof (cases f)
  case (Pstring d)
  then show ?thesis using assms put_pstring_holds[OF assms(1), of "d @ [0]" s']
    by (auto simp: strlen_def split: Option.bind_splits if_splits)
next
  case (String d)
  then show ?thesis using assms put_string_holds[OF assms(1)] by (auto simp: be_bytes_of_nat)
qed (use assms put_holds[OF assms(1)] in \<open>auto simp: put_byte_def put_bool_def put_uint16_def put_uint32_def put_uint64_def
        put_asciz_def be_bytes_ucast\<close>)

lemma put_fields_holds:
  "holds s m \<Longrightarrow> \<forall>f \<in> set fs. valid_field f \<Longrightarrow> put_fields put fs s = Some s' \<Longrightarrow> holds s' (m @ encode_fields fs)"
proof (induction fs arbitrary: s m)
  case (Cons f fs)
  obtain s1 where s1: "put_field put f s = Some s1" "put_fields put fs s1 = Some s'"
    using Cons.prems(3) by (auto split: Option.bind_splits)
  have "holds s1 (m @ encoding f)" using put_field_holds[OF Cons.prems(1) _ s1(1)] Cons.prems(2) by simp
  from Cons.IH[OF this _ s1(2)] show ?case using Cons.prems(2) by (simp add: encode_fields_def)
qed (simp add: encode_fields_def)

end

section \<open>Reading back\<close>

text \<open>A source in the middle of a message: no error so far, and what is still to come.\<close>

definition at_rest :: "source \<Rightarrow> bytes \<Rightarrow> bool" where
  "at_rest src rest \<longleftrightarrow> err src = BSE_NO_ERROR \<and> pos src \<le> length (data src) \<and> drop (pos src) (data src) = rest"

lemma at_rest_step: "at_rest src (d @ rest) \<Longrightarrow> at_rest (src\<lparr>pos := pos src + length d\<rparr>) rest"
proof -
  assume a: "at_rest src (d @ rest)"
  then have "length d + length rest = length (data src) - pos src" by (metis at_rest_def length_append length_drop)
  moreover have "drop (pos src + length d) (data src) = rest"
    using a unfolding at_rest_def by (simp only: add.commute[of "pos src"] drop_drop[symmetric] append_eq_conv_conj) simp
  ultimately show ?thesis using a by (auto simp: at_rest_def)
qed

lemma avail_rest: "at_rest src rest \<Longrightarrow> k \<le> length rest \<Longrightarrow> data_avail src k = (True, src)"
  by (auto simp: data_avail_def at_rest_def)

lemma get_fixed_rest:
  assumes "at_rest src (d @ rest)" "length d = k"
  shows "get_fixed k g z src = (g d, src\<lparr>pos := pos src + k\<rparr>)" "at_rest (src\<lparr>pos := pos src + k\<rparr>) rest"
  using avail_rest[OF assms(1), of k] at_rest_step[OF assms(1)] assms by (auto simp: get_fixed_def at_rest_def)

lemma get_data_rest:
  assumes "at_rest src (d @ rest)" "length d = k"
  shows "get_data k src = (d, src\<lparr>pos := pos src + k\<rparr>)" "at_rest (src\<lparr>pos := pos src + k\<rparr>) rest"
  using avail_rest[OF assms(1), of k] at_rest_step[OF assms(1)] assms by (auto simp: get_data_def at_rest_def)

lemma of_be_small: "8 * k \<le> LENGTH('a) \<Longrightarrow> 8 * k \<le> LENGTH('b) \<Longrightarrow> (of_be (be_bytes k (w :: 'a::len word)) :: 'b::len word) = ucast (take_bit (8 * k) w)"
  by (simp add: be_bytes_ucast[symmetric, of k w, where 'b = 'b] of_be_be_bytes) (rule bit_word_eqI, auto simp: bit_simps)

lemma get_field_rest:
  assumes "at_rest src (encoding f @ rest)" "valid_field f"
  shows "\<exists>src'. get_field f src = (f, src') \<and> at_rest src' rest"
proof (cases f)
  case (Uint16 x)
  have x: "ucast (of_be (be_bytes 2 x) :: u32) = x" by (simp add: of_be_small) (rule bit_word_eqI, auto simp: bit_simps)
  show ?thesis using get_fixed_rest(1)[of src "be_bytes 2 x" rest 2 "of_be :: bytes \<Rightarrow> u32" 0] get_fixed_rest(2)[of src "be_bytes 2 x" rest 2] assms(1) x by (auto simp: Uint16 get_uint16_def)
next
  case (Uint32 x)
  have x: "ucast (of_be (be_bytes 4 x) :: u64) = x" by (simp add: of_be_small) (rule bit_word_eqI, auto simp: bit_simps)
  show ?thesis using get_fixed_rest(1)[of src "be_bytes 4 x" rest 4 "of_be :: bytes \<Rightarrow> u64" 0] get_fixed_rest(2)[of src "be_bytes 4 x" rest 4] assms(1) x by (auto simp: Uint32 get_uint32_def)
next
  case (Uint64 x)
  have x: "of_be (be_bytes 8 x) = x" using take_bit_length_eq[of x] by (simp add: of_be_be_bytes)
  show ?thesis using get_fixed_rest(1)[of src "be_bytes 8 x" rest 8 "of_be :: bytes \<Rightarrow> u64" 0] get_fixed_rest(2)[of src "be_bytes 8 x" rest 8] assms(1) x by (auto simp: Uint64 get_uint64_def)
next
  case (String d)
  let ?l = "of_nat (length d) :: u32"
  have l: "unat (take_bit 32 ?l) = length d"
    using assms(2) String take_bit_length_eq[of ?l] by (simp add: unat_of_nat)
  have a: "at_rest src (be_bytes 4 ?l @ d @ rest)" using assms(1) String by simp
  note g = get_fixed_rest(2)[OF a, of 4]
  have "data_avail src 4 = (True, src)" using avail_rest[OF a, of 4] by simp
  moreover have "take 4 (drop (pos src) (data src)) = be_bytes 4 ?l" using a by (simp add: at_rest_def)
  ultimately show ?thesis using get_data_rest[OF g, of "length d"] l
    by (simp add: String get_string_def of_be_be_bytes)
next
  case (Asciz d)
  then have "drop (pos src) (data src) = d @ 0 # rest" "err src = BSE_NO_ERROR" using assms(1) by (simp_all add: at_rest_def)
  moreover have "0 \<notin> set d" using assms(2) Asciz by simp
  ultimately show ?thesis using at_rest_step[of src "d @ [0]" rest] assms(1) Asciz
    by (simp add: get_asciz_def Let_def strlen_def)
next
  case (Pstring d)
  have l: "unat (of_nat (length d) :: u8) = length d" using assms(2) Pstring by (simp add: unat_of_nat)
  have a: "at_rest src ([of_nat (length d)] @ d @ rest)" using assms(1) Pstring by simp
  note g = get_fixed_rest(2)[OF a, of 1]
  have "data_avail src 1 = (True, src)" using avail_rest[OF a, of 1] by simp
  moreover have "hd (drop (pos src) (data src)) = of_nat (length d)" using a by (simp add: at_rest_def)
  ultimately show ?thesis using get_data_rest[OF g, of "length d"] l
    by (simp add: Pstring get_pstring_def)
next
  case (Byte x)
  then show ?thesis using get_fixed_rest(1)[of src "[x]" rest 1 hd 0] get_fixed_rest(2)[of src "[x]" rest 1] assms(1)
    by (auto simp: get_byte_def)
next
  case (Bool x)
  let ?d = "[if x then 1 else 0] :: bytes"
  show ?thesis using get_fixed_rest(1)[of src ?d rest 1 "\<lambda>b. hd b \<noteq> 0" False] get_fixed_rest(2)[of src ?d rest 1] assms(1)
    by (auto simp: Bool get_bool_def)
qed

lemma get_fields_rest:
  "at_rest src (encode_fields fs @ rest) \<Longrightarrow> \<forall>f \<in> set fs. valid_field f \<Longrightarrow>
    \<exists>src'. get_fields fs src = (fs, src') \<and> at_rest src' rest"
proof (induction fs arbitrary: src)
  case (Cons f fs)
  have "at_rest src (encoding f @ encode_fields fs @ rest)" using Cons.prems(1) by (simp add: encode_fields_def)
  then obtain s1 where s1: "get_field f src = (f, s1)" "at_rest s1 (encode_fields fs @ rest)"
    using get_field_rest Cons.prems(2) by fastforce
  then show ?case using Cons.IH[OF s1(2)] Cons.prems(2) by auto
qed (simp add: encode_fields_def)

text \<open>Errors stick: a source with an error returns default values and does not move.\<close>

fun default :: "field \<Rightarrow> field" where
  "default (Byte _) = Byte 0"
| "default (Bool _) = Bool False"
| "default (Uint16 _) = Uint16 0"
| "default (Uint32 _) = Uint32 0"
| "default (Uint64 _) = Uint64 0"
| "default (String _) = String []"
| "default (Asciz _) = Asciz []"
| "default (Pstring _) = Pstring []"

lemma get_field_stuck: "err src \<noteq> BSE_NO_ERROR \<Longrightarrow> get_field f src = (default f, src)"
  by (cases f) (simp_all add: get_byte_def get_bool_def get_uint16_def get_uint32_def get_uint64_def get_fixed_def
      get_string_def get_asciz_def get_pstring_def get_data_def data_avail_def)

lemma get_fields_stuck: "err src \<noteq> BSE_NO_ERROR \<Longrightarrow> get_fields fs src = (map default fs, src)"
  by (induction fs) (simp_all add: get_field_stuck)

text \<open>Reading never leaves the data block, and never changes it.\<close>

definition source_ok :: "source \<Rightarrow> bool" where
  "source_ok src \<longleftrightarrow> pos src \<le> length (data src) \<and> err src \<noteq> BSE_INVALID"

lemma get_field_inside: "source_ok src \<Longrightarrow> source_ok (snd (get_field f src)) \<and>
    data (snd (get_field f src)) = data src \<and> pos src \<le> pos (snd (get_field f src))"
  using strlen_le[of "drop (pos src) (data src)"] strlen_less[of "drop (pos src) (data src)"]
  by (cases f) (auto simp: source_ok_def get_byte_def get_bool_def get_uint16_def get_uint32_def get_uint64_def get_fixed_def
      get_string_def get_asciz_def get_pstring_def get_data_def data_avail_def Let_def terminated_def split: prod.splits if_splits bool.splits)

section \<open>Truncated messages\<close>

lemma avail_short: "at_rest src rest \<Longrightarrow> length rest < k \<Longrightarrow> data_avail src k = (False, src\<lparr>err := BSE_OUT_OF_DATA\<rparr>)"
  by (auto simp: data_avail_def at_rest_def)

lemma get_fixed_short: "at_rest src rest \<Longrightarrow> length rest < k \<Longrightarrow> get_fixed k g z src = (z, src\<lparr>err := BSE_OUT_OF_DATA\<rparr>)"
  by (simp add: get_fixed_def avail_short)

lemma get_data_short: "at_rest src rest \<Longrightarrow> length rest < k \<Longrightarrow> get_data k src = ([], src\<lparr>err := BSE_OUT_OF_DATA\<rparr>)"
  by (simp add: get_data_def avail_short)

lemma get_field_short:
  assumes "at_rest src d" "encoding f = d @ e" "e \<noteq> []" "valid_field f"
  shows "err (snd (get_field f src)) = BSE_OUT_OF_DATA"
proof -
  have short: "length d < length (encoding f)" using assms(2,3) by simp
  show ?thesis
  proof (cases f)
    case (String t)
    show ?thesis
    proof (cases "length d < 4")
      case True
      then show ?thesis using avail_short[OF assms(1), of 4] by (simp add: String get_string_def)
    next
      case False
      let ?l = "of_nat (length t) :: u32"
      obtain d1 d2 where d: "d = d1 @ d2" "length d1 = 4" using False by (metis append_take_drop_id length_take min.absorb2 not_less)
      have "be_bytes 4 ?l @ t = d1 @ (d2 @ e)" using assms(2) d(1) by (simp add: String)
      then have d1: "d1 = be_bytes 4 ?l" "t = d2 @ e"
        using d(2) append_eq_append_conv[of "be_bytes 4 ?l" d1 t "d2 @ e"] by (metis length_be_bytes)+
      have l: "unat (take_bit 32 ?l) = length t" using assms(4) String take_bit_length_eq[of ?l] by (simp add: unat_of_nat)
      have a: "at_rest src (d1 @ d2)" using assms(1) d(1) by simp
      have "data_avail src 4 = (True, src)" using avail_rest[OF a, of 4] d(2) by simp
      moreover have "take 4 (drop (pos src) (data src)) = be_bytes 4 ?l" using a d(2) d1(1) by (simp add: at_rest_def)
      ultimately show ?thesis using get_data_short[OF get_fixed_rest(2)[OF a d(2)], of "length t"] l d1(2) assms(3)
        by (simp add: String get_string_def of_be_be_bytes)
    qed
  next
    case (Pstring t)
    show ?thesis
    proof (cases d)
      case Nil
      then show ?thesis using avail_short[OF assms(1), of 1] by (simp add: Pstring get_pstring_def)
    next
      case (Cons x d2)
      have "of_nat (length t) # t = x # (d2 @ e)" using assms(2) unfolding Pstring Cons encoding.simps append_Cons .
      then have x: "x = of_nat (length t)" "t = d2 @ e" by (metis list.inject)+
      have l: "unat (of_nat (length t) :: u8) = length t" using assms(4) Pstring by (simp add: unat_of_nat)
      have a: "at_rest src ([x] @ d2)" using assms(1) Cons by simp
      have "data_avail src 1 = (True, src)" using avail_rest[OF a, of 1] by simp
      moreover have "hd (drop (pos src) (data src)) = of_nat (length t)" using a x(1) by (simp add: at_rest_def)
      ultimately show ?thesis using get_data_short[OF get_fixed_rest(2)[OF a, of 1], of "length t"] l x(2) assms(3)
        by (simp add: Pstring get_pstring_def)
    qed
  next
    case (Asciz t)
    then obtain e' where "t = d @ e'" using assms(2,3) by (cases e rule: rev_cases) auto
    then have "0 \<notin> set d" using assms(4) Asciz by auto
    then show ?thesis using assms(1) by (simp add: Asciz get_asciz_def at_rest_def)
  qed (use short in \<open>simp_all add: get_fixed_short[OF assms(1)] get_byte_def get_bool_def get_uint16_def get_uint32_def get_uint64_def\<close>)
qed

lemma get_fields_short:
  "at_rest src d \<Longrightarrow> encode_fields fs = d @ e \<Longrightarrow> e \<noteq> [] \<Longrightarrow> \<forall>f \<in> set fs. valid_field f \<Longrightarrow>
    err (snd (get_fields fs src)) = BSE_OUT_OF_DATA"
proof (induction fs arbitrary: src d)
  case Nil
  then show ?case by (simp add: encode_fields_def)
next
  case (Cons f fs)
  have enc: "encoding f @ encode_fields fs = d @ e" using Cons.prems(2) by (simp add: encode_fields_def)
  then obtain us where "encoding f = d @ us \<and> us @ encode_fields fs = e \<or> encoding f @ us = d \<and> encode_fields fs = us @ e"
    by (auto simp: append_eq_append_conv2)
  then consider e' where "encoding f = d @ e'" "e' \<noteq> []" | d' where "d = encoding f @ d'" "encode_fields fs = d' @ e"
    by (cases "us = []") auto
  then show ?case
  proof cases
    case 1
    have f: "err (snd (get_field f src)) = BSE_OUT_OF_DATA"
      using get_field_short[OF Cons.prems(1) 1] Cons.prems(4) by simp
    then show ?thesis using get_fields_stuck[of "snd (get_field f src)" fs] by (simp add: split_beta)
  next
    case 2
    then obtain s1 where s1: "get_field f src = (f, s1)" "at_rest s1 d'"
      using get_field_rest[of src f d'] Cons.prems(1,4) by auto
    then show ?thesis using Cons.IH[OF s1(2) 2(2) Cons.prems(3)] Cons.prems(4) by (simp add: split_beta)
  qed
qed

section \<open>Properties\<close>

lemma at_rest_init: "at_rest (source_init d) d"
  by (simp add: at_rest_def source_init_def)

definition decode_fields :: "field list \<Rightarrow> bytes \<Rightarrow> field list option" where
  "decode_fields ks d =
     (case get_fields ks (source_init d) of (fs, src) \<Rightarrow> if err src = BSE_NO_ERROR then Some fs else None)"

lemma get_field_default: "get_field (default f) src = get_field f src"
  by (cases f) simp_all

lemma get_fields_default: "get_fields (map default fs) src = get_fields fs src"
  by (induction fs arbitrary: src) (simp_all add: get_field_default)

interpretation message: codec "\<lambda>fs. map default fs = ks \<and> (\<forall>f \<in> set fs. valid_field f)" encode_fields "decode_fields ks" for ks
proof unfold_locales
  fix fs assume fs: "map default fs = ks \<and> (\<forall>f \<in> set fs. valid_field f)"
  obtain src where "get_fields fs (source_init (encode_fields fs)) = (fs, src)" "at_rest src []"
    using get_fields_rest[of "source_init (encode_fields fs)" fs "[]"] at_rest_init fs by auto
  then show "decode_fields ks (encode_fields fs) = Some fs"
    using fs get_fields_default[of fs] by (auto simp: decode_fields_def at_rest_def)
qed

text \<open>While the text fits the memory there is, writing cannot fail.\<close>

lemma safegrowarray_enough:
  assumes "oldlen + extralen < oldsize" "unat oldlen + unat extralen < 2 ^ 64"
  shows "safegrowarray oldsize 1 oldlen extralen = Some oldsize"
proof -
  let ?M = "0xFFFFFFFFFFFFFFFF :: u64"
  have "x \<le> ?M" for x
  proof -
    have "unat ?M = 18446744073709551615" by simp
    moreover have "unat x < 18446744073709551616" by simp
    ultimately show ?thesis unfolding word_le_nat_alt by linarith
  qed
  then have "\<not> oldsize > ?M" "\<not> oldlen > ?M" "oldlen \<le> ?M" by (simp_all add: not_less)
  moreover have "\<not> extralen > ?M - oldlen"
    using assms(2) calculation(3) by (simp add: word_less_nat_alt unat_sub not_less)
  moreover have M: "NOT 0 div 1 = ?M" unfolding max_u64 by (rule div_by_1)
  ultimately show ?thesis using assms(1) unfolding safegrowarray_def Let_def M by auto
qed

lemma strbuf_fits:
  assumes "slen s + length d + 1 < length (smem s)" "length (smem s) < 2 ^ 32"
  shows "\<exists>s'. strbuf_sink junk alloc d s = Some s' \<and> slen s' = slen s + length d \<and> length (smem s') = length (smem s)"
proof -
  have u: "unat (of_nat (length (smem s)) :: u64) = length (smem s)" "unat (of_nat (slen s) + 1 :: u64) = slen s + 1"
    "unat (of_nat (length d) :: u64) = length d" "unat (of_nat (slen s) + 1 + of_nat (length d) :: u64) = slen s + 1 + length d"
    using assms by (simp_all add: unat_of_nat unat_word_ariths)
  have "safegrowarray (of_nat (length (smem s))) 1 (of_nat (slen s) + 1) (of_nat (length d)) = Some (of_nat (length (smem s)))"
    by (rule safegrowarray_enough) (use assms u in \<open>simp_all add: word_less_nat_alt\<close>)
  then show ?thesis using assms by (simp add: strbuf_sink_def strbuf_write_def strbuf_append_def grow_strbuf_def wr_def Let_def)
qed

text \<open>
  C13: marshalling is undone by unmarshalling. The fields of a message written one after the
  other into a string buffer are read back unchanged from its text, without an error and up to its
  end; and the buffer, however it had to grow, holds a terminated string.
\<close>

theorem marshal_roundtrip:
  assumes "put_fields (strbuf_sink junk alloc) fs (strbuf_new junk) = Some s" "\<forall>f \<in> set fs. valid_field f"
  shows "strbuf_ok s \<and> (\<exists>src. get_fields fs (source_init (strbuf_text s)) = (fs, src) \<and> err src = BSE_NO_ERROR \<and>
    pos src = length (strbuf_text s))"
proof -
  have s: "strbuf_ok s" "strbuf_text s = encode_fields fs"
    using string_sink.put_fields_holds[OF _ assms(2,1), of "[]"] strbuf_ok_new by simp_all
  obtain src where src: "get_fields fs (source_init (encode_fields fs)) = (fs, src)" "at_rest src []"
    using get_fields_rest[of "source_init (encode_fields fs)" fs "[]"] at_rest_init assms(2) by auto
  have "data (snd (get_fields fs s0)) = data s0 \<and> source_ok (snd (get_fields fs s0))" if "source_ok s0" for s0
    using that by (induction fs arbitrary: s0) (use get_field_inside in \<open>fastforce simp: split_beta\<close>)+
  from this[of "source_init (encode_fields fs)"] have "data src = encode_fields fs"
    using src(1) by (simp add: source_ok_def source_init_def)
  then show ?thesis using s src by (simp add: at_rest_def)
qed

theorem marshal_roundtrip_witness:
  "\<exists>s. put_fields (strbuf_sink (\<lambda>_. 7) (\<lambda>_. True)) [Byte 5, String [1, 2]] (strbuf_new (\<lambda>_. 7)) = Some s \<and> strbuf_ok s"
proof -
  let ?w = "strbuf_sink (\<lambda>_. 7) (\<lambda>_. True)"
  let ?s0 = "strbuf_new (\<lambda>_. 7)"
  have s0: "slen ?s0 = 0" "length (smem ?s0) = 512" by (simp_all add: strbuf_new_def)
  obtain s1 where s1: "?w [5] ?s0 = Some s1" "slen s1 = 1" "length (smem s1) = 512"
    using strbuf_fits[of ?s0 "[5]" "\<lambda>_. 7" "\<lambda>_. True"] by (auto simp: s0)
  obtain s2 where s2: "?w (be_bytes 4 (2 :: u64)) s1 = Some s2" "slen s2 = 5" "length (smem s2) = 512"
    using strbuf_fits[of s1 "be_bytes 4 (2 :: u64)" "\<lambda>_. 7" "\<lambda>_. True"] by (auto simp: s1)
  obtain s3 where s3: "?w [1, 2] s2 = Some s3"
    using strbuf_fits[of s2 "[1, 2]" "\<lambda>_. 7" "\<lambda>_. True"] by (auto simp: s2)
  have s: "put_fields ?w [Byte 5, String [1, 2]] ?s0 = Some s3"
    using s1(1) s2(1) s3 by (simp add: put_byte_def put_string_def put_uint32_def)
  then show ?thesis using marshal_roundtrip[OF s] by simp
qed

text \<open>
  C25: a truncated message is noticed. Whatever the fields, reading them from a proper prefix
  of their encoding ends with the error "out of data", and from then on every read returns
  the default value of its type and leaves the position alone; reading never leaves the data.
\<close>

theorem truncated_is_noticed:
  assumes "encode_fields fs = d @ e" "e \<noteq> []" "\<forall>f \<in> set fs. valid_field f"
  shows "err (snd (get_fields fs (source_init d))) = BSE_OUT_OF_DATA \<and>
    get_fields gs (snd (get_fields fs (source_init d))) = (map default gs, snd (get_fields fs (source_init d))) \<and>
    pos (snd (get_fields fs (source_init d))) \<le> length d"
proof -
  have e: "err (snd (get_fields fs (source_init d))) = BSE_OUT_OF_DATA"
    using get_fields_short[OF at_rest_init assms] .
  have "data (snd (get_fields fs s0)) = data s0 \<and> source_ok (snd (get_fields fs s0))" if "source_ok s0" for s0
    using that by (induction fs arbitrary: s0) (use get_field_inside in \<open>fastforce simp: split_beta\<close>)+
  from this[of "source_init d"] show ?thesis
    using e get_fields_stuck[of "snd (get_fields fs (source_init d))" gs] by (auto simp: source_ok_def source_init_def)
qed

theorem truncated_is_noticed_witness:
  "err (snd (get_fields [Byte 1, String [2, 3]] (source_init [1, 0, 0, 0, 2, 2]))) = BSE_OUT_OF_DATA"
proof -
  have "encode_fields [Byte 1, String [2, 3]] = [1, 0, 0, 0, 2, 2] @ [3]" by code_simp
  then show ?thesis using truncated_is_noticed[of "[Byte 1, String [2, 3]]" "[1, 0, 0, 0, 2, 2]" "[3]" "[]"] by simp
qed

end
