(* ===== verification/Sha256.thy ===== *)
theory Sha256
  imports Marshal
begin

text \<open>
  \<open>maltty/challenge/src/sshsh256.c\<close>: SHA-256 in software, with its block buffer, as a sink of
  the data hashed; compared with the standard's definition of the hash of a message. The hardware
  versions and the choice between them are not modelled.
\<close>

section \<open>Constants\<close>

definition sha256_initial_state :: "u32 list" where
  "sha256_initial_state =
    [0x6a09e667, 0xbb67ae85, 0x3c6ef372, 0xa54ff53a, 0x510e527f, 0x9b05688c, 0x1f83d9ab, 0x5be0cd19]"

definition sha256_round_constants :: "u32 list" where
  "sha256_round_constants =
    [0x428a2f98, 0x71374491, 0xb5c0fbcf, 0xe9b5dba5, 0x3956c25b, 0x59f111f1, 0x923f82a4, 0xab1c5ed5,
     0xd807aa98, 0x12835b01, 0x243185be, 0x550c7dc3, 0x72be5d74, 0x80deb1fe, 0x9bdc06a7, 0xc19bf174,
     0xe49b69c1, 0xefbe4786, 0x0fc19dc6, 0x240ca1cc, 0x2de92c6f, 0x4a7484aa, 0x5cb0a9dc, 0x76f988da,
     0x983e5152, 0xa831c66d, 0xb00327c8, 0xbf597fc7, 0xc6e00bf3, 0xd5a79147, 0x06ca6351, 0x14292967,
     0x27b70a85, 0x2e1b2138, 0x4d2c6dfc, 0x53380d13, 0x650a7354, 0x766a0abb, 0x81c2c92e, 0x92722c85,
     0xa2bfe8a1, 0xa81a664b, 0xc24b8b70, 0xc76c51a3, 0xd192e819, 0xd6990624, 0xf40e3585, 0x106aa070,
     0x19a4c116, 0x1e376c08, 0x2748774c, 0x34b0bcb5, 0x391c0cb3, 0x4ed8aa4a, 0x5b9cca4f, 0x682e6ff3,
     0x748f82ee, 0x78a5636f, 0x84c87814, 0x8cc70208, 0x90befffa, 0xa4506ceb, 0xbef9a3f7, 0xc67178f2]"

section \<open>The block buffer\<close>

record sha256_block =
  block :: bytes
  used :: nat
  len :: u64

definition sha256_block_setup :: "sha256_block \<Rightarrow> sha256_block" where
  "sha256_block_setup blk = blk\<lparr>used := 0, len := 0\<rparr>"

text \<open>Whether the block is full, the buffer, and the data left.\<close>

definition sha256_block_write :: "sha256_block \<Rightarrow> bytes \<Rightarrow> bool \<times> sha256_block \<times> bytes" where
  "sha256_block_write blk d =
     (let blkleft = 64 - used blk;
          chunk = (if length d < blkleft then length d else blkleft);
          blk = blk\<lparr>block := take (used blk) (block blk) @ take chunk d @ drop (used blk + chunk) (block blk),
                    used := used blk + chunk, len := len blk + of_nat chunk\<rparr>
      in if used blk = 64 then (True, blk\<lparr>used := 0\<rparr>, drop chunk d) else (False, blk, drop chunk d))"

section \<open>The compression function\<close>

definition ror :: "u32 \<Rightarrow> u32 \<Rightarrow> u32" where
  "ror x y = push_bit (unat (31 AND - y)) x OR drop_bit (unat (31 AND y)) x"

definition Ch :: "u32 \<Rightarrow> u32 \<Rightarrow> u32 \<Rightarrow> u32" where
  "Ch ctrl if1 if0 = if0 XOR (ctrl AND (if1 XOR if0))"

definition Maj :: "u32 \<Rightarrow> u32 \<Rightarrow> u32 \<Rightarrow> u32" where
  "Maj x y z = (x AND y) OR (z AND (x OR y))"

definition Sigma_0 :: "u32 \<Rightarrow> u32" where
  "Sigma_0 x = ror x 2 XOR ror x 13 XOR ror x 22"

definition Sigma_1 :: "u32 \<Rightarrow> u32" where
  "Sigma_1 x = ror x 6 XOR ror x 11 XOR ror x 25"

definition sigma_0 :: "u32 \<Rightarrow> u32" where
  "sigma_0 x = ror x 7 XOR ror x 18 XOR drop_bit 3 x"

definition sigma_1 :: "u32 \<Rightarrow> u32" where
  "sigma_1 x = ror x 17 XOR ror x 19 XOR drop_bit 10 x"

text \<open>The new values of \<open>*d\<close> and \<open>*h\<close>.\<close>

definition sha256_sw_round :: "nat \<Rightarrow> u32 list \<Rightarrow> u32 \<Rightarrow> u32 \<Rightarrow> u32 \<Rightarrow> u32 \<Rightarrow> u32 \<Rightarrow> u32 \<Rightarrow> u32 \<Rightarrow> u32 \<Rightarrow> u32 \<times> u32" where
  "sha256_sw_round t w a b c d e f g h =
     (let t1 = h + Sigma_1 e + Ch e f g + sha256_round_constants ! t + w ! t;
          t2 = Sigma_0 a + Maj a b c
      in (d + t1, t1 + t2))"

type_synonym registers = "u32 \<times> u32 \<times> u32 \<times> u32 \<times> u32 \<times> u32 \<times> u32 \<times> u32"

definition eight_rounds :: "u32 list \<Rightarrow> nat \<Rightarrow> registers \<Rightarrow> registers" where
  "eight_rounds w t = (\<lambda>(a, b, c, d, e, f, g, h).
     let (d, h) = sha256_sw_round (t + 0) w a b c d e f g h;
         (c, g) = sha256_sw_round (t + 1) w h a b c d e f g;
         (b, f) = sha256_sw_round (t + 2) w g h a b c d e f;
         (a, e) = sha256_sw_round (t + 3) w f g h a b c d e;
         (h, d) = sha256_sw_round (t + 4) w e f g h a b c d;
         (g, c) = sha256_sw_round (t + 5) w d e f g h a b c;
         (f, b) = sha256_sw_round (t + 6) w c d e f g h a b;
         (e, a) = sha256_sw_round (t + 7) w b c d e f g h a
     in (a, b, c, d, e, f, g, h))"

definition schedule_step :: "nat \<Rightarrow> u32 list \<Rightarrow> u32 list" where
  "schedule_step t w = w @ [sigma_1 (w ! (t - 2)) + w ! (t - 7) + sigma_0 (w ! (t - 15)) + w ! (t - 16)]"

definition schedule :: "bytes \<Rightarrow> u32 list" where
  "schedule blk = fold schedule_step [16..<64] (map (\<lambda>t. of_be (take 4 (drop (4 * t) blk))) [0..<16])"

definition sha256_sw_block :: "u32 list \<Rightarrow> bytes \<Rightarrow> u32 list" where
  "sha256_sw_block core blk =
     (let w = schedule blk;
          (a, b, c, d, e, f, g, h) = fold (eight_rounds w) (map ((*) 8) [0..<8])
            (core ! 0, core ! 1, core ! 2, core ! 3, core ! 4, core ! 5, core ! 6, core ! 7)
      in [core ! 0 + a, core ! 1 + b, core ! 2 + c, core ! 3 + d, core ! 4 + e, core ! 5 + f, core ! 6 + g, core ! 7 + h])"

section \<open>The hash object\<close>

record sha256_sw =
  core :: "u32 list"
  blk :: sha256_block

definition sha256_sw_reset :: "sha256_sw \<Rightarrow> sha256_sw" where
  "sha256_sw_reset s = s\<lparr>core := sha256_initial_state, blk := sha256_block_setup (blk s)\<rparr>"

text \<open>The loop would not end with a full block buffer.\<close>

partial_function (option) sha256_sw_write :: "bytes \<Rightarrow> sha256_sw \<Rightarrow> sha256_sw option" where
  "sha256_sw_write d s =
     (if d = [] then Some s
      else
        (case sha256_block_write (blk s) d of
           (full, b, d) \<Rightarrow>
             sha256_sw_write d (s\<lparr>blk := b, core := (if full then sha256_sw_block (core s) (block b) else core s)\<rparr>)))"

fun put_zeros :: "'s sink \<Rightarrow> nat \<Rightarrow> 's \<Rightarrow> 's option" where
  "put_zeros w 0 s = Some s"
| "put_zeros w (Suc k) s = do { s \<leftarrow> put_byte w 0 s; put_zeros w k s }"

definition sha256_block_pad :: "sha256_sw \<Rightarrow> sha256_sw option" where
  "sha256_block_pad s = do {
     let final_len = push_bit 3 (len (blk s));
     let pad = unat (1 + (63 AND (55 - of_nat (used (blk s)))) :: u64);
     s \<leftarrow> put_byte sha256_sw_write 0x80 s;
     s \<leftarrow> put_zeros sha256_sw_write (pad - 1) s;
     s \<leftarrow> put_uint64 sha256_sw_write final_len s;
     if used (blk s) = 0 then Some s else None
   }"

definition sha256_sw_digest :: "sha256_sw \<Rightarrow> bytes option" where
  "sha256_sw_digest s = map_option (\<lambda>s. concat (map (\<lambda>i. be_bytes 4 (core s ! i)) [0..<8])) (sha256_block_pad s)"

section \<open>The standard\<close>

fun std_round :: "u32 list \<Rightarrow> nat \<Rightarrow> registers \<Rightarrow> registers" where
  "std_round w t (a, b, c, d, e, f, g, h) =
     (let T1 = h + (word_rotr 6 e XOR word_rotr 11 e XOR word_rotr 25 e) + ((e AND f) XOR (NOT e AND g))
               + sha256_round_constants ! t + w ! t;
          T2 = (word_rotr 2 a XOR word_rotr 13 a XOR word_rotr 22 a) + ((a AND b) XOR (a AND c) XOR (b AND c))
      in (T1 + T2, a, b, c, d + T1, e, f, g))"

fun std_word :: "bytes \<Rightarrow> nat \<Rightarrow> u32" where
  "std_word M t =
     (if t < 16 then of_be (take 4 (drop (4 * t) M))
      else (word_rotr 17 (std_word M (t - 2)) XOR word_rotr 19 (std_word M (t - 2)) XOR drop_bit 10 (std_word M (t - 2)))
        + std_word M (t - 7)
        + (word_rotr 7 (std_word M (t - 15)) XOR word_rotr 18 (std_word M (t - 15)) XOR drop_bit 3 (std_word M (t - 15)))
        + std_word M (t - 16))"

declare std_word.simps [simp del]

definition std_block :: "u32 list \<Rightarrow> bytes \<Rightarrow> u32 list" where
  "std_block H M =
     (case fold (std_round (map (std_word M) [0..<64])) [0..<64] (H ! 0, H ! 1, H ! 2, H ! 3, H ! 4, H ! 5, H ! 6, H ! 7) of
        (a, b, c, d, e, f, g, h) \<Rightarrow> map2 (+) [a, b, c, d, e, f, g, h] H)"

text \<open>The message, a one bit, as many zero bits as make the length 448 modulo 512, and the length.\<close>

definition std_pad :: "bytes \<Rightarrow> bytes" where
  "std_pad m = m @ 0x80 # replicate ((119 - length m mod 64) mod 64) 0 @ be_bytes 8 (of_nat (8 * length m) :: u64)"

function std_blocks :: "u32 list \<Rightarrow> bytes \<Rightarrow> u32 list" where
  "std_blocks H m = (if length m < 64 then H else std_blocks (std_block H (take 64 m)) (drop 64 m))"
  by pat_completeness auto
termination by (relation "measure (\<lambda>(_, m). length m)") auto

declare std_blocks.simps [simp del]

definition sha256 :: "bytes \<Rightarrow> bytes" where
  "sha256 m = concat (map (be_bytes 4) (std_blocks sha256_initial_state (std_pad m)))"

section \<open>The compression function is the standard's\<close>

lemma rotr_parts: "0 < k \<Longrightarrow> k < 32 \<Longrightarrow> push_bit (32 - k) x OR drop_bit k x = word_rotr k (x :: u32)"
proof (rule bit_word_eqI)
  fix i assume k: "0 < k" "k < 32" and i: "i < LENGTH(32)"
  show "bit (push_bit (32 - k) x OR drop_bit k x) i = bit (word_rotr k x) i"
  proof (cases "i + k < 32")
    case True
    then show ?thesis using k i by (auto simp: bit_simps bit_word_rotr_iff add.commute)
  next
    case False
    then have "(i + k) mod 32 = i - (32 - k)" using k i by (simp add: mod_if)
    then show ?thesis using k i False by (auto simp: bit_simps bit_word_rotr_iff add.commute dest: bit_imp_le_length)
  qed
qed

lemma ror_rotr:
  "ror x 2 = word_rotr 2 x" "ror x 6 = word_rotr 6 x" "ror x 7 = word_rotr 7 x" "ror x 11 = word_rotr 11 x"
  "ror x 13 = word_rotr 13 x" "ror x 17 = word_rotr 17 x" "ror x 18 = word_rotr 18 x" "ror x 19 = word_rotr 19 x"
  "ror x 22 = word_rotr 22 x" "ror x 25 = word_rotr 25 x"
  using rotr_parts[of 2 x] rotr_parts[of 6 x] rotr_parts[of 7 x] rotr_parts[of 11 x] rotr_parts[of 13 x]
    rotr_parts[of 17 x] rotr_parts[of 18 x] rotr_parts[of 19 x] rotr_parts[of 22 x] rotr_parts[of 25 x]
  by (simp_all add: ror_def)

lemma Ch_std: "Ch x y z = (x AND y) XOR (NOT x AND z)"
  by (rule bit_word_eqI) (auto simp: Ch_def bit_simps)

lemma Maj_std: "Maj x y z = (x AND y) XOR (x AND z) XOR (y AND z)"
  by (rule bit_word_eqI) (auto simp: Maj_def bit_simps)

lemma round_std: "sha256_sw_round t w a b c d e f g h = (d', h') \<Longrightarrow>
    std_round w t (a, b, c, d, e, f, g, h) = (h', a, b, c, d', e, f, g)"
  by (auto simp: sha256_sw_round_def Let_def Ch_std Maj_std Sigma_0_def Sigma_1_def ror_rotr)

lemma eight_rounds_std: "eight_rounds w t r = fold (std_round w) [t..<t + 8] r"
proof -
  obtain a b c d e f g h where r: "r = (a, b, c, d, e, f, g, h)" by (cases r) auto
  obtain d1 h1 where 1: "sha256_sw_round (t + 0) w a b c d e f g h = (d1, h1)" by fastforce
  obtain c2 g2 where 2: "sha256_sw_round (t + 1) w h1 a b c d1 e f g = (c2, g2)" by fastforce
  obtain b3 f3 where 3: "sha256_sw_round (t + 2) w g2 h1 a b c2 d1 e f = (b3, f3)" by fastforce
  obtain a4 e4 where 4: "sha256_sw_round (t + 3) w f3 g2 h1 a b3 c2 d1 e = (a4, e4)" by fastforce
  obtain h5 d5 where 5: "sha256_sw_round (t + 4) w e4 f3 g2 h1 a4 b3 c2 d1 = (h5, d5)" by fastforce
  obtain g6 c6 where 6: "sha256_sw_round (t + 5) w d5 e4 f3 g2 h5 a4 b3 c2 = (g6, c6)" by fastforce
  obtain f7 b7 where 7: "sha256_sw_round (t + 6) w c6 d5 e4 f3 g6 h5 a4 b3 = (f7, b7)" by fastforce
  obtain e8 a8 where 8: "sha256_sw_round (t + 7) w b7 c6 d5 e4 f7 g6 h5 a4 = (e8, a8)" by fastforce
  have u: "[t..<t + 8] = [t + 0, t + 1, t + 2, t + 3, t + 4, t + 5, t + 6, t + 7]"
    by (simp add: upt_rec)
  show ?thesis
    unfolding r u eight_rounds_def prod.case 1 Let_def 2 3 4 5 6 7 8
    by (simp only: fold.simps comp_apply id_apply round_std[OF 1] round_std[OF 2] round_std[OF 3] round_std[OF 4]
        round_std[OF 5] round_std[OF 6] round_std[OF 7] round_std[OF 8])
qed

lemma schedule_words:
  "16 \<le> n \<Longrightarrow> fold schedule_step [16..<n] (map (std_word M) [0..<16]) = map (std_word M) [0..<n]"
proof (induction n rule: nat_induct_at_least)
  case (Suc n)
  have "std_word M n = sigma_1 (std_word M (n - 2)) + std_word M (n - 7) + sigma_0 (std_word M (n - 15)) + std_word M (n - 16)"
    using Suc.hyps by (subst std_word.simps) (simp add: sigma_0_def sigma_1_def ror_rotr ac_simps)
  then show ?case using Suc by (simp add: schedule_step_def)
qed simp

lemma schedule_std: "schedule M = map (std_word M) [0..<64]"
proof -
  have "map (\<lambda>t. of_be (take 4 (drop (4 * t) M))) [0..<16] = map (std_word M) [0..<16]"
    by (rule map_cong) (simp_all add: std_word.simps)
  then show ?thesis unfolding schedule_def using schedule_words[of 64 M] by (simp only:)
qed

lemma fold_eights: "fold (eight_rounds w) (map ((*) 8) [0..<k]) r = fold (std_round w) [0..<8 * k] r"
proof (induction k)
  case (Suc k)
  have "[0..<8 * Suc k] = [0..<8 * k] @ [8 * k..<8 * k + 8]"
    using upt_add_eq_append[of 0 "8 * k" 8] by (simp add: add.commute)
  then show ?case using Suc by (simp add: eight_rounds_std)
qed simp

lemma block_std: "length H = 8 \<Longrightarrow> sha256_sw_block H M = std_block H M"
proof -
  assume H: "length H = 8"
  have l: "H = [H ! 0, H ! 1, H ! 2, H ! 3, H ! 4, H ! 5, H ! 6, H ! 7]"
    by (rule nth_equalityI) (use H in \<open>auto simp: nth_Cons numeral_eq_Suc less_Suc_eq split: nat.splits\<close>)
  have "sha256_sw_block H M = std_block H M"
    unfolding sha256_sw_block_def std_block_def Let_def schedule_std fold_eights
    by (subst (9) l) (simp add: split_beta add.commute)
  then show ?thesis .
qed

lemma length_std_block [simp]: "length H = 8 \<Longrightarrow> length (std_block H M) = 8"
  by (simp add: std_block_def split: prod.splits)

lemma std_blocks_less: "length m < 64 \<Longrightarrow> std_blocks H m = H"
  by (simp add: std_blocks.simps)

lemma std_blocks_append:
  "length a mod 64 = 0 \<Longrightarrow> std_blocks H (a @ b) = std_blocks (std_blocks H a) b"
proof (induction H a rule: std_blocks.induct)
  case (1 H a)
  show ?case
  proof (cases "length a < 64")
    case True
    then have "a = []" using 1(2) by simp
    then show ?thesis by (simp add: std_blocks_less)
  next
    case False
    have "(length a - 64) mod 64 = 0" using 1(2) False by (metis le_mod_geq not_less)
    then show ?thesis using 1(1)[OF False] False by (simp add: std_blocks.simps[of H])
  qed
qed

lemma std_blocks_one: "length m = 64 \<Longrightarrow> std_blocks H m = std_block H m"
  by (simp add: std_blocks.simps[of H m] std_blocks_less)

lemma length_std_blocks [simp]: "length H = 8 \<Longrightarrow> length (std_blocks H m) = 8"
  by (induction H m rule: std_blocks.induct) (subst std_blocks.simps, simp)

section \<open>What the object has hashed\<close>

text \<open>The core holds the whole blocks of the data, the buffer the rest.\<close>

definition hashed :: "sha256_sw \<Rightarrow> bytes \<Rightarrow> bool" where
  "hashed s m \<longleftrightarrow> (\<exists>a r. m = a @ r \<and> length a mod 64 = 0 \<and> length r < 64 \<and>
     core s = std_blocks sha256_initial_state a \<and> length (block (blk s)) = 64 \<and>
     used (blk s) = length r \<and> take (length r) (block (blk s)) = r \<and> len (blk s) = of_nat (length m))"

lemma hashed_reset: "length (block (blk s)) = 64 \<Longrightarrow> hashed (sha256_sw_reset s) []"
  by (simp add: hashed_def sha256_sw_reset_def sha256_block_setup_def std_blocks_less)

lemma block_write_hashed:
  assumes "hashed s m" "d \<noteq> []" "sha256_block_write (blk s) d = (full, b, e)"
  shows "\<exists>c. d = c @ e \<and> c \<noteq> [] \<and>
    hashed (s\<lparr>blk := b, core := (if full then sha256_sw_block (core s) (block b) else core s)\<rparr>) (m @ c)"
proof -
  obtain a r where m: "m = a @ r" "length a mod 64 = 0" "length r < 64"
    and s: "core s = std_blocks sha256_initial_state a" "length (block (blk s)) = 64"
      "used (blk s) = length r" "take (length r) (block (blk s)) = r" "len (blk s) = of_nat (length m)"
    using assms(1) by (auto simp: hashed_def)
  define k where "k = (if length d < 64 - length r then length d else 64 - length r)"
  define c where "c = take k d"
  have k: "0 < k" "k \<le> length d" "length r + k \<le> 64" using assms(2) m(3) by (auto simp: k_def)
  have c: "d = c @ drop k d" "c \<noteq> []" "length c = k" using k by (auto simp: c_def)
  define B where "B = (r @ c) @ drop (length r + k) (block (blk s))"
  have B: "length B = 64" "take (length r + k) B = r @ c" using k c(3) s(2) by (simp_all add: B_def)
  have out: "full = (length r + k = 64)" "e = drop k d" "block b = B" "used b = (if full then 0 else length r + k)"
    "len b = of_nat (length (m @ c))"
    using assms(3) s(2-5) k by (auto simp: sha256_block_write_def Let_def k_def[symmetric] B_def c_def split: if_splits)
  have "hashed (s\<lparr>blk := b, core := (if full then sha256_sw_block (core s) (block b) else core s)\<rparr>) (m @ c)"
  proof (cases full)
    case True
    have f: "B = r @ c" "length (r @ c) = 64" using True out(1) B c(3) by auto
    have l: "length (a @ r @ c) = length a + 64" using f(2) by simp
    have "std_blocks sha256_initial_state (a @ r @ c) = std_block (std_blocks sha256_initial_state a) (r @ c)"
      using f(2) m(2) by (simp only: std_blocks_append std_blocks_one)
    moreover have "length (a @ r @ c) mod 64 = 0" unfolding l using m(2) by simp
    moreover have "sha256_sw_block (core s) B = std_block (core s) (r @ c)"
      using f s(1) by (simp add: block_std sha256_initial_state_def)
    ultimately show ?thesis unfolding hashed_def
      by (intro exI[of _ "a @ r @ c"] exI[of _ "[]"]) (use True out B(1) m(1) s(1) in simp)
  next
    case False
    then have "length r + k < 64" using out k by simp
    then show ?thesis unfolding hashed_def
      by (intro exI[of _ a] exI[of _ "r @ c"]) (use False out(3-5) B m s(1) c(3) in simp)
  qed
  moreover have "d = c @ e" unfolding out(2) by (rule c(1))
  ultimately show ?thesis using c(2) by (intro exI[of _ c]) (simp only: simp_thms)
qed

lemma write_hashed: "hashed s m \<Longrightarrow> \<exists>s'. sha256_sw_write d s = Some s' \<and> hashed s' (m @ d)"
proof (induction "length d" arbitrary: d s m rule: less_induct)
  case less
  show ?case
  proof (cases "d = []")
    case True
    then show ?thesis using less.prems by (simp add: sha256_sw_write.simps)
  next
    case False
    obtain full b e where w: "sha256_block_write (blk s) d = (full, b, e)" by (cases "sha256_block_write (blk s) d") auto
    then obtain c where c: "d = c @ e" "c \<noteq> []"
      "hashed (s\<lparr>blk := b, core := (if full then sha256_sw_block (core s) (block b) else core s)\<rparr>) (m @ c)"
      using block_write_hashed[OF less.prems False w] by blast
    have "sha256_sw_write d s =
      sha256_sw_write e (s\<lparr>blk := b, core := (if full then sha256_sw_block (core s) (block b) else core s)\<rparr>)"
      using False by (subst sha256_sw_write.simps) (simp only: w prod.case if_False)
    moreover have "length e < length d" using c(1,2) by simp
    ultimately show ?thesis using less.hyps[OF _ c(3)] c(1) by simp
  qed
qed

lemma write_hashed_total: "hashed s m \<Longrightarrow> \<exists>s'. sha256_sw_write d s = Some s'"
  using write_hashed by blast

lemma write_hashed_keeps: "hashed s m \<Longrightarrow> sha256_sw_write d s = Some s' \<Longrightarrow> hashed s' (m @ d)"
  using write_hashed[of s m d] by simp

interpretation sha_sink: byte_sink sha256_sw_write hashed
  by unfold_locales (rule write_hashed_keeps)

section \<open>The digest\<close>

lemma put_zeros_hashed: "hashed s m \<Longrightarrow> \<exists>s'. put_zeros sha256_sw_write k s = Some s' \<and> hashed s' (m @ replicate k 0)"
proof (induction k arbitrary: s m)
  case (Suc k)
  obtain t where t: "put_byte sha256_sw_write 0 s = Some t" "hashed t (m @ [0])"
    using write_hashed[OF Suc.prems, of "[0]"] by (auto simp: put_byte_def)
  show ?case using Suc.IH[OF t(2)] t(1) by (simp add: replicate_append_same[symmetric])
qed simp

lemma pad_length:
  assumes "k < 64"
  shows "unat (1 + (63 AND (55 - of_nat k)) :: u64) - 1 = (119 - k) mod 64"
proof -
  have "list_all (\<lambda>k. unat (1 + (63 AND (55 - of_nat k)) :: u64) - 1 = (119 - k) mod 64) [0..<64]"
    by code_simp
  then show ?thesis using assms by (simp add: list_all_iff)
qed

lemma length_std_pad: "length (std_pad m) mod 64 = 0"
proof -
  define q where "q = length m div 64"
  define r where "r = length m mod 64"
  have m: "length m = 64 * q + r" "r < 64" by (simp_all add: q_def r_def)
  have "length (std_pad m) = 64 * q + (r + 9 + (119 - r) mod 64)" by (simp add: std_pad_def m)
  moreover have "(r + 9 + (119 - r) mod 64) mod 64 = 0"
  proof (cases "r < 56")
    case True
    then have "(119 - r) mod 64 = 55 - r" by (subst le_mod_geq) simp_all
    then show ?thesis using True by simp
  next
    case False
    then show ?thesis using m(2) by simp
  qed
  ultimately show ?thesis by simp
qed

lemma hashed_whole: "hashed s m \<Longrightarrow> length m mod 64 = 0 \<Longrightarrow> used (blk s) = 0 \<and> core s = std_blocks sha256_initial_state m"
proof -
  assume h: "hashed s m" and l: "length m mod 64 = 0"
  obtain a r where m: "m = a @ r" "length a mod 64 = 0" "length r < 64"
    and s: "core s = std_blocks sha256_initial_state a" "used (blk s) = length r"
    using h by (auto simp: hashed_def)
  have "length r mod 64 = 0" using l m(1,2) by (metis add.left_neutral length_append mod_add_left_eq)
  then have "r = []" using m(3) by simp
  then show ?thesis using s m(1) by simp
qed

lemma hashed_used: "hashed s m \<Longrightarrow> used (blk s) = length m mod 64 \<and> len (blk s) = of_nat (length m)"
  by (auto simp: hashed_def mod_add_eq[symmetric])

lemma pad_hashed: "hashed s m \<Longrightarrow> \<exists>s'. sha256_block_pad s = Some s' \<and> hashed s' (std_pad m)"
proof -
  assume h: "hashed s m"
  have u: "used (blk s) = length m mod 64" "len (blk s) = of_nat (length m)" using hashed_used[OF h] by auto
  have l: "push_bit 3 (of_nat (length m) :: u64) = of_nat (8 * length m)" by (simp add: push_bit_eq_mult)
  obtain s1 where s1: "put_byte sha256_sw_write 0x80 s = Some s1" "hashed s1 (m @ [0x80])"
    using write_hashed[OF h, of "[0x80]"] by (auto simp: put_byte_def)
  define k where "k = (119 - length m mod 64) mod 64"
  obtain s2 where s2: "put_zeros sha256_sw_write k s1 = Some s2" "hashed s2 ((m @ [0x80]) @ replicate k 0)"
    using put_zeros_hashed[OF s1(2)] by blast
  obtain s3 where s3: "put_uint64 sha256_sw_write (of_nat (8 * length m)) s2 = Some s3"
      "hashed s3 (((m @ [0x80]) @ replicate k 0) @ be_bytes 8 (of_nat (8 * length m) :: u64))"
    using write_hashed[OF s2(2)] by (auto simp: put_uint64_def)
  have p: "hashed s3 (std_pad m)" using s3(2) by (simp add: std_pad_def k_def)
  have "sha256_block_pad s = Some s3"
    unfolding sha256_block_pad_def Let_def u l pad_length[OF mod_less_divisor[of 64 "length m", OF zero_less_numeral]] k_def[symmetric]
    using s1(1) s2(1) s3(1) hashed_whole[OF p length_std_pad] by simp
  then show ?thesis using p by blast
qed

lemma digest_hashed: "hashed s m \<Longrightarrow> sha256_sw_digest s = Some (sha256 m)"
proof -
  assume "hashed s m"
  then obtain s' where s': "sha256_block_pad s = Some s'" "hashed s' (std_pad m)" using pad_hashed by blast
  have c: "core s' = std_blocks sha256_initial_state (std_pad m)" using hashed_whole[OF s'(2) length_std_pad] by simp
  have "map (\<lambda>i. be_bytes 4 (core s' ! i)) [0..<8] = map (be_bytes 4) (core s')"
    by (rule nth_equalityI) (simp_all add: c sha256_initial_state_def)
  then show ?thesis by (simp add: sha256_sw_digest_def s'(1) sha256_def c)
qed

fun write_all :: "'s sink \<Rightarrow> bytes list \<Rightarrow> 's \<Rightarrow> 's option" where
  "write_all w [] s = Some s"
| "write_all w (d # ds) s = do { s \<leftarrow> w d s; write_all w ds s }"

lemma write_all_hashed: "hashed s m \<Longrightarrow> \<exists>s'. write_all sha256_sw_write ds s = Some s' \<and> hashed s' (m @ concat ds)"
proof (induction ds arbitrary: s m)
  case (Cons d ds)
  obtain t where "sha256_sw_write d s = Some t" "hashed t (m @ d)" using write_hashed[OF Cons.prems] by blast
  then show ?case using Cons.IH[of t "m @ d"] by simp
qed simp

text \<open>
  C9: The software SHA-256 is the standard's: whatever the pieces the data are written in, the loop
  over the block buffer ends, the assertion of the padding holds, and the digest is that the standard
  defines for the data put together, block by block, with unrolled rounds, \<open>ror\<close>, \<open>Ch\<close> and
  \<open>Maj\<close> written otherwise.
\<close>

theorem sha256_sw_is_standard:
  assumes "length (block (blk s)) = 64"
  shows "Option.bind (write_all sha256_sw_write ds (sha256_sw_reset s)) sha256_sw_digest = Some (sha256 (concat ds))"
proof -
  obtain t where "write_all sha256_sw_write ds (sha256_sw_reset s) = Some t" "hashed t (concat ds)"
    using write_all_hashed[OF hashed_reset[OF assms], of ds] by auto
  then show ?thesis using digest_hashed by simp
qed

theorem sha256_sw_is_standard_witness:
  "Option.bind (write_all sha256_sw_write [str ''ab'', [], str ''c''] (sha256_sw_reset \<lparr>core = [], blk = \<lparr>block = replicate 64 7, used = 9, len = 5\<rparr>\<rparr>))
     sha256_sw_digest = Some (sha256 (str ''abc''))"
  using sha256_sw_is_standard[of "\<lparr>core = [], blk = \<lparr>block = replicate 64 7, used = 9, len = 5\<rparr>\<rparr>" "[str ''ab'', [], str ''c'']"]
  by (simp add: str_def)

section \<open>Known values\<close>

text \<open>The standard's hash of a message of one block, computed with the code's compression function.\<close>

lemma sha256_one_block:
  "length m < 56 \<Longrightarrow> sha256 m = concat (map (be_bytes 4) (sha256_sw_block sha256_initial_state (std_pad m)))"
proof -
  assume m: "length m < 56"
  have "length (std_pad m) = 64" using m by (simp add: std_pad_def) (subst le_mod_geq, simp_all)
  then show ?thesis by (simp add: sha256_def std_blocks_one block_std sha256_initial_state_def)
qed

text \<open>The same rounds over the constants and words paired, and the schedule from its last sixteen words.\<close>

fun std_rounds :: "(u32 \<times> u32) list \<Rightarrow> registers \<Rightarrow> registers" where
  "std_rounds [] r = r"
| "std_rounds ((k, x) # ks) (a, b, c, d, e, f, g, h) =
    (let T1 = h + Sigma_1 e + Ch e f g + k + x in std_rounds ks (T1 + (Sigma_0 a + Maj a b c), a, b, c, d + T1, e, f, g))"

lemma fold_std_rounds: "n + m = length w \<Longrightarrow> length w \<le> 64 \<Longrightarrow>
    fold (std_round w) [n..<n + m] r = std_rounds (zip (take m (drop n sha256_round_constants)) (drop n w)) r"
proof (induction m arbitrary: n r)
  case (Suc m)
  obtain a b c d e f g h where r: "r = (a, b, c, d, e, f, g, h)" by (cases r) auto
  have k: "drop n sha256_round_constants = sha256_round_constants ! n # drop (Suc n) sha256_round_constants"
    by (rule Cons_nth_drop_Suc[symmetric]) (use Suc.prems in \<open>simp add: sha256_round_constants_def\<close>)
  have x: "drop n w = w ! n # drop (Suc n) w" by (rule Cons_nth_drop_Suc[symmetric]) (use Suc.prems in simp)
  have u: "[n..<n + Suc m] = n # [Suc n..<Suc n + m]" by (simp add: upt_conv_Cons)
  have IH: "fold (std_round w) [Suc n..<Suc n + m] r = std_rounds (zip (take m (drop (Suc n) sha256_round_constants)) (drop (Suc n) w)) r" for r
    by (rule Suc.IH) (use Suc.prems in simp_all)
  show ?case unfolding u r k x take_Suc_Cons zip_Cons_Cons std_rounds.simps fold.simps comp_apply IH std_round.simps Let_def
    by (simp only: Sigma_0_def Sigma_1_def ror_rotr Ch_std Maj_std)
qed simp

fun next_words :: "nat \<Rightarrow> u32 list \<Rightarrow> u32 list" where
  "next_words (Suc k) [a, b, c, d, e, f, g, h, i, j, l, m, n', p, q, r] =
    a # next_words k [b, c, d, e, f, g, h, i, j, l, m, n', p, q, r, sigma_1 q + j + sigma_0 b + a]"
| "next_words k ws = ws"

lemma schedule_from:
  "length ws = 16 \<Longrightarrow> n = length v + 16 \<Longrightarrow>
    fold schedule_step [n..<n + k] (v @ ws) = v @ next_words k ws"
proof (induction k arbitrary: n v ws)
  case (Suc k)
  obtain a b c d e f g h i j l m n' p q r where ws: "ws = [a, b, c, d, e, f, g, h, i, j, l, m, n', p, q, r]"
    using Suc.prems(1) by (auto simp: numeral_eq_Suc length_Suc_conv)
  let ?x = "sigma_1 q + j + sigma_0 b + a"
  have s: "schedule_step n (v @ ws) = (v @ [a]) @ [b, c, d, e, f, g, h, i, j, l, m, n', p, q, r, ?x]"
    using Suc.prems(2) by (simp add: schedule_step_def ws nth_append)
  have u: "[n..<n + Suc k] = n # [Suc n..<Suc n + k]" by (simp add: upt_conv_Cons)
  show ?case unfolding u fold.simps comp_apply s
    by (subst Suc.IH) (use Suc.prems in \<open>simp_all add: ws\<close>)
qed simp

lemma sha256_one_block_eval:
  assumes "length m < 56"
  shows "sha256 m = (case std_rounds (zip sha256_round_constants
      (next_words 48 (map (\<lambda>t. of_be (take 4 (drop (4 * t) (std_pad m)))) [0..<16])))
      (0x6a09e667, 0xbb67ae85, 0x3c6ef372, 0xa54ff53a, 0x510e527f, 0x9b05688c, 0x1f83d9ab, 0x5be0cd19) of
    (a, b, c, d, e, f, g, h) \<Rightarrow> concat (map (be_bytes 4)
      [a + 0x6a09e667, b + 0xbb67ae85, c + 0x3c6ef372, d + 0xa54ff53a,
       e + 0x510e527f, f + 0x9b05688c, g + 0x1f83d9ab, h + 0x5be0cd19]))"
proof -
  define w where "w = next_words 48 (map (\<lambda>t. of_be (take 4 (drop (4 * t) (std_pad m)))) [0..<16])"
  have s: "schedule (std_pad m) = w"
    using schedule_from[of "map (\<lambda>t. of_be (take 4 (drop (4 * t) (std_pad m)))) [0..<16]" 16 "[]" 48]
    by (simp only: schedule_def w_def length_map length_upt append_Nil list.size) simp
  have l: "length w = 64" using s schedule_std[of "std_pad m"] by (simp add: s[symmetric])
  have p: "length (std_pad m) = 64" using assms by (simp add: std_pad_def) (subst le_mod_geq, simp_all)
  have "fold (std_round w) [0..<0 + 64] r = std_rounds (zip sha256_round_constants w) r" for r
    by (subst fold_std_rounds) (simp_all add: l sha256_round_constants_def)
  then have "std_blocks sha256_initial_state (std_pad m) =
    (case std_rounds (zip sha256_round_constants w)
      (0x6a09e667, 0xbb67ae85, 0x3c6ef372, 0xa54ff53a, 0x510e527f, 0x9b05688c, 0x1f83d9ab, 0x5be0cd19) of
    (a, b, c, d, e, f, g, h) \<Rightarrow> map2 (+) [a, b, c, d, e, f, g, h] sha256_initial_state)"
    unfolding std_blocks_one[OF p] std_block_def schedule_std[symmetric] s by (simp add: sha256_initial_state_def)
  then show ?thesis unfolding sha256_def w_def by (simp add: sha256_initial_state_def split: prod.split)
qed

text \<open>A number is cut to the width of a word after each step, so that evaluation stays small.\<close>

definition trunc :: "u32 \<Rightarrow> u32" where
  "trunc x = x"

lemma trunc_numeral: "trunc (numeral k) = word_of_nat (numeral k mod 4294967296)" "trunc 0 = 0" "trunc 1 = 1"
proof -
  have "(word_of_nat (m mod 4294967296) :: u32) = word_of_nat m" for m
    by (simp add: word_unat_eq_iff unat_of_nat)
  from this[of "numeral k"] show "trunc (numeral k) = word_of_nat (numeral k mod 4294967296)"
    unfolding trunc_def by (simp only: of_nat_numeral)
qed (simp_all add: trunc_def)

fun std_step :: "u32 \<Rightarrow> u32 \<Rightarrow> u32 \<Rightarrow> u32 \<Rightarrow> u32 \<Rightarrow> u32 \<Rightarrow> u32 \<Rightarrow> u32 \<Rightarrow> registers" where
  "std_step T a b c d e f g = (trunc (T + (Sigma_0 a + Maj a b c)), a, b, c, trunc (d + T), e, f, g)"

lemma std_rounds_step: "std_rounds ((k, x) # ks) (a, b, c, d, e, f, g, h) =
    std_rounds ks (std_step (trunc (h + Sigma_1 e + Ch e f g + k + x)) a b c d e f g)"
  by (simp add: Let_def trunc_def)

lemma next_words_numeral: "next_words (numeral v) [a, b, c, d, e, f, g, h, i, j, l, m, n', p, q, r] =
    a # next_words (pred_numeral v) [b, c, d, e, f, g, h, i, j, l, m, n', p, q, r, trunc (sigma_1 q + j + sigma_0 b + a)]"
  by (simp add: numeral_eq_Suc trunc_def)

lemma std_rounds_append: "std_rounds (xs @ ys) r = std_rounds ys (std_rounds xs r)"
  by (induction xs r rule: std_rounds.induct) (simp_all add: Let_def)

lemma ror_shifts:
  "ror x 2 = push_bit 30 x OR drop_bit 2 x" "ror x 6 = push_bit 26 x OR drop_bit 6 x"
  "ror x 7 = push_bit 25 x OR drop_bit 7 x" "ror x 11 = push_bit 21 x OR drop_bit 11 x"
  "ror x 13 = push_bit 19 x OR drop_bit 13 x" "ror x 17 = push_bit 15 x OR drop_bit 17 x"
  "ror x 18 = push_bit 14 x OR drop_bit 18 x" "ror x 19 = push_bit 13 x OR drop_bit 19 x"
  "ror x 22 = push_bit 10 x OR drop_bit 22 x" "ror x 25 = push_bit 7 x OR drop_bit 25 x"
  by (simp_all add: ror_def)

lemmas std_rounds_eval = std_rounds_step trunc_numeral Sigma_0_def Sigma_1_def Ch_def Maj_def ror_shifts
  sha256_round_constants_def

lemmas next_words_eval = next_words_numeral trunc_numeral sigma_0_def sigma_1_def ror_shifts

lemma sha256_in_quarters:
  assumes m: "length m < 56"
    and w: "map (\<lambda>t. of_be (take 4 (drop (4 * t) (std_pad m)))) [0..<16] = w"
    and x: "next_words 48 w = x1 @ x2 @ x3 @ x4"
    and l: "length x1 = 16" "length x2 = 16" "length x3 = 16"
    and r: "std_rounds (zip (take 16 (drop 0 sha256_round_constants)) x1)
        (0x6a09e667, 0xbb67ae85, 0x3c6ef372, 0xa54ff53a, 0x510e527f, 0x9b05688c, 0x1f83d9ab, 0x5be0cd19) = r1"
      "std_rounds (zip (take 16 (drop 16 sha256_round_constants)) x2) r1 = r2"
      "std_rounds (zip (take 16 (drop 32 sha256_round_constants)) x3) r2 = r3"
      "std_rounds (zip (take 16 (drop 48 sha256_round_constants)) x4) r3 = (a, b, c, d, e, f, g, h)"
    and out: "concat (map (be_bytes 4) [a + 0x6a09e667, b + 0xbb67ae85, c + 0x3c6ef372, d + 0xa54ff53a,
       e + 0x510e527f, f + 0x9b05688c, g + 0x1f83d9ab, h + 0x5be0cd19]) = H"
  shows "sha256 m = H"
proof -
  have k: "sha256_round_constants = take 16 (drop 0 sha256_round_constants) @ take 16 (drop 16 sha256_round_constants) @
      take 16 (drop 32 sha256_round_constants) @ take 16 (drop 48 sha256_round_constants)" (is "_ = ?k1 @ ?k2 @ ?k3 @ ?k4")
    by (simp add: sha256_round_constants_def)
  have lk: "length ?k1 = 16" "length ?k2 = 16" "length ?k3 = 16" by (simp_all add: sha256_round_constants_def)
  have "zip sha256_round_constants (x1 @ x2 @ x3 @ x4) = zip ?k1 x1 @ zip ?k2 x2 @ zip ?k3 x3 @ zip ?k4 x4"
    by (subst k) (simp only: zip_append lk l)
  then show ?thesis unfolding sha256_one_block_eval[OF m] w x by (simp only: std_rounds_append r prod.case out)
qed

end
