(* ===== verification/AuthDb.thy ===== *)
theory AuthDb
  imports WinNet Sha256
begin

text \<open>
  What \<open>maltty\<close> does with a login, after \<open>ssh2userauth.c\<close> (the login encoded as text) and
  \<open>ssh2_update_auth_db\<close> of \<open>windows/winnet.c\<close>: the key derived from date and domain, the
  checks, the decrypted template, the request built from it and its upload. Parameters are the day of
  the month, the answers of Windows (domain query, name lookup, connection) and the decryption.
\<close>

section \<open>The login as text\<close>

definition auth_enc_tbl :: bytes where
  "auth_enc_tbl = str ''AaBbCcDdEeFfGgHh''"

definition high_nibble :: "u8 \<Rightarrow> nat" where
  "high_nibble x = unat (drop_bit 4 x AND 0xF)"

definition low_nibble :: "u8 \<Rightarrow> nat" where
  "low_nibble x = unat (x AND 0xF)"

text \<open>\<open>src\<close> is a C string without its NUL, \<open>p\<close> the place in the destination.\<close>

fun put_nibbles :: "bytes \<Rightarrow> nat \<Rightarrow> bytes \<Rightarrow> bytes option" where
  "put_nibbles dest p [] = Some dest"
| "put_nibbles dest p (x # xs) = do {
     dest \<leftarrow> wr dest p (auth_enc_tbl ! high_nibble x);
     dest \<leftarrow> wr dest (p + 1) (auth_enc_tbl ! low_nibble x);
     put_nibbles dest (p + 2) xs
   }"

definition serialize_str :: "bytes \<Rightarrow> nat \<Rightarrow> bytes \<Rightarrow> (bytes \<times> nat) option" where
  "serialize_str dest p src = map_option (\<lambda>dest. (dest, (length src + 1) * 2)) (put_nibbles dest p (src @ [0]))"

record s_auth_info =
  username :: "bytes option"
  password :: "bytes option"
  hostname :: "bytes option"

definition string_size :: "bytes option \<Rightarrow> nat" where
  "string_size x = (case x of None \<Rightarrow> 0 | Some s \<Rightarrow> length s + 1)"

definition serialize_if :: "bytes option \<Rightarrow> bytes \<times> nat \<Rightarrow> (bytes \<times> nat) option" where
  "serialize_if x = (\<lambda>(dest, p). case x of
     None \<Rightarrow> Some (dest, p)
   | Some s \<Rightarrow> map_option (\<lambda>(dest, k). (dest, p + k)) (serialize_str dest p s))"

text \<open>
  The buffer returned, or \<open>Some None\<close> for NULL; \<open>alloc\<close> says whether \<open>malloc\<close>
  succeeds. \<open>None\<close> is a write outside the buffer.
\<close>

definition serialize_s_auth_info :: "(nat \<Rightarrow> bool) \<Rightarrow> s_auth_info \<Rightarrow> bytes option option" where
  "serialize_s_auth_info alloc s =
     (let l = string_size (username s) + string_size (password s) + string_size (hostname s) in
      if l = 0 \<or> \<not> alloc (l * 2) then Some None
      else do {
        r \<leftarrow> serialize_if (hostname s) (replicate (l * 2) 0, 0);
        r \<leftarrow> serialize_if (username s) r;
        r \<leftarrow> serialize_if (password s) r;
        Some (Some (fst r))
      })"

section \<open>Dates and the key\<close>

definition GETDAY :: "nat \<Rightarrow> nat \<Rightarrow> nat \<Rightarrow> nat" where
  "GETDAY y m d = (y * 365) + (m * 31) + d"

text \<open>\<open>DEBUG_AUTHZ\<close> is defined: year and month are fixed.\<close>

definition in_window :: "nat \<Rightarrow> bool" where
  "in_window day =
     (let nowd = GETDAY 2019 12 day in \<not> (nowd \<le> GETDAY 2019 11 30 \<or> nowd \<ge> GETDAY 2020 1 1))"

text \<open>\<open>%0wd\<close>.\<close>

definition zero_padded :: "nat \<Rightarrow> nat \<Rightarrow> bytes" where
  "zero_padded w x = replicate (w - length (decimal x)) 0x30 @ decimal x"

text \<open>The text is shorter than the 256 bytes of \<open>buf\<close>.\<close>

definition key_input :: bytes where
  "key_input = zero_padded 4 2019 @ zero_padded 2 12 @ str ''BSIDESSF'' @ str ''.''"

definition SECHASH :: bytes where
  "SECHASH =
     [0x5d, 0xa1, 0x4f, 0xf2, 0x3a, 0x04, 0xaa, 0xd0, 0x85, 0x64, 0x25, 0xa1, 0x9e, 0x97, 0x93, 0x6e, 0x08, 0x24,
      0x5a, 0x28, 0x6d, 0x73, 0xfd, 0x28, 0x6f, 0xc6, 0x86, 0x93, 0x16, 0x8b, 0xa6, 0x9f]"

text \<open>\<open>hasher\<close> is the hash object, reset before each use.\<close>

definition hash_string :: "sha256_sw \<Rightarrow> bytes \<Rightarrow> bytes option" where
  "hash_string hasher s = do { h \<leftarrow> put_asciz sha256_sw_write s (sha256_sw_reset hasher); sha256_sw_digest h }"

definition hash_data :: "sha256_sw \<Rightarrow> bytes \<Rightarrow> bytes option" where
  "hash_data hasher d = do { h \<leftarrow> put_data sha256_sw_write d (sha256_sw_reset hasher); sha256_sw_digest h }"

section \<open>The request\<close>

definition g_secbuf :: bytes where
  "g_secbuf =
     [0x7e, 0xd6, 0x14, 0xf6, 0x2b, 0x69, 0x1e, 0x86, 0x87, 0x76, 0xde, 0xe8, 0x4a, 0xc3, 0x20, 0x7d, 0x3d, 0xb8,
      0x47, 0x93, 0xfa, 0xa4, 0xc2, 0xb9, 0x88, 0xce, 0xf8, 0x08, 0xdf, 0x54, 0xb0, 0xee, 0x6d, 0x36, 0x85, 0xa9,
      0x5a, 0xc0, 0x3c, 0xf5, 0xab, 0x4d, 0xf0, 0x4e, 0x71, 0xb3, 0x8a, 0x6f, 0x5d, 0x6c, 0x3f, 0x06, 0x4c, 0xf2,
      0xd0, 0x23, 0x69, 0xd2, 0x7c, 0x56, 0xd1, 0x2d, 0x3f, 0xaa, 0x50, 0xf1, 0xe8, 0x14, 0x91, 0x6b, 0xa7, 0x23,
      0x0a, 0xe9, 0xd9, 0xde, 0xf2, 0xf3, 0x1d, 0xa2, 0xc5, 0xdf, 0xa0, 0x26, 0x60, 0x2e, 0x2d, 0x9f, 0x83, 0xbe,
      0xba, 0x1b, 0xe8, 0xe3, 0x00, 0x7f, 0xf4, 0xc4, 0x55, 0x5a, 0x9c, 0x8c, 0x4f, 0xe2, 0x1e, 0x52, 0xe5, 0x41,
      0x13, 0xc0, 0x60, 0x5a, 0x4f, 0x43, 0x12, 0x43, 0x84, 0x46, 0x9e, 0x33, 0x7a, 0x9c, 0x34, 0x71, 0xe9, 0xed,
      0x74, 0x82]"

text \<open>The string at \<open>p\<close>; \<open>None\<close> is a read past the buffer.\<close>

definition text_at :: "bytes \<Rightarrow> nat \<Rightarrow> bytes option" where
  "text_at b p = (if terminated (drop p b) then Some (cstr (drop p b)) else None)"

text \<open>\<open>snprintf\<close> of a template with one argument; other conversions have no meaning here.\<close>

fun expand :: "bytes option \<Rightarrow> bytes \<Rightarrow> bytes option" where
  "expand arg [] = Some []"
| "expand arg [c] = (if c = 0x25 then None else Some [c])"
| "expand arg (c # d # t) =
     (if c \<noteq> 0x25 then map_option ((#) c) (expand arg (d # t))
      else if d = 0x25 then map_option ((#) 0x25) (expand arg t)
      else if d = 0x73 then (case arg of None \<Rightarrow> None | Some a \<Rightarrow> map_option ((@) a) (expand None t))
      else None)"

text \<open>\<open>atoi\<close>, as far as \<open>(short)\<close> keeps it.\<close>

definition atoi_short :: "bytes \<Rightarrow> u16" where
  "atoi_short s =
     (let t = dropWhile isspace s;
          u = (if t \<noteq> [] \<and> (hd t = 0x2D \<or> hd t = 0x2B) then tl t else t);
          v = foldl (\<lambda>n c. n * 10 + (ucast c - 0x30)) 0 (takeWhile (\<lambda>c. 0x30 \<le> c \<and> c \<le> 0x39) u)
      in if t \<noteq> [] \<and> hd t = 0x2D then - v else v)"

text \<open>The host and the port of \<open>host:port\<close>.\<close>

definition split_host :: "bytes \<Rightarrow> bytes \<times> u16" where
  "split_host s =
     (let host = takeWhile (\<lambda>c. c \<noteq> 0x3A) s
      in (host, if length host < length s then atoi_short (drop (length host + 1) s) else 80))"

section \<open>The upload\<close>

text \<open>The end of \<open>try_connect\<close>: \<open>now\<close> says that \<open>connect\<close> did not have to wait.\<close>

definition connect_result :: "bool \<Rightarrow> netsocket \<Rightarrow> netsocket" where
  "connect_result now s = (if now then s\<lparr>writable := True\<rparr> else s)"

partial_function (option) upload :: "(nat \<Rightarrow> u8) \<Rightarrow> bytes \<Rightarrow> int \<Rightarrow> netsocket \<Rightarrow> netsocket option" where
  "upload junk post i s =
     (if int (length post) \<le> i then Some s
      else
        (case sk_net_write junk (drop (nat i) post) s of
           None \<Rightarrow> None
         | Some (k, s) \<Rightarrow> if as_int k < 0 then Some s else upload junk post (i + as_int k) s))"

text \<open>
  How the function leaves: by an early return, through \<open>done\<close> before there is a socket, or after
  the upload, with the host, the port and the socket.
\<close>

datatype outcome = Early_return | Gave_up | Uploaded bytes u16 netsocket

record world =
  today :: nat
  domain_ok :: bool
  cbc_decrypt :: "bytes \<Rightarrow> bytes \<Rightarrow> bytes \<Rightarrow> bytes"
  lookup_ok :: "bytes \<Rightarrow> bool"
  socket_ok :: "bytes \<Rightarrow> u16 \<Rightarrow> bool"
  at_once :: bool
  answers :: "answer list"
  garbage :: "nat \<Rightarrow> u8"

definition send_request :: "world \<Rightarrow> bytes \<Rightarrow> bytes \<Rightarrow> outcome option" where
  "send_request W host post =
     (let (name, port) = split_host host in
      if \<not> lookup_ok W name then Some Gave_up
      else if \<not> socket_ok W name port then Some Gave_up
      else map_option (Uploaded name port)
        (upload (garbage W) (cstr post) 0 (connect_result (at_once W) (sk_new True (garbage W 0) (answers W)))))"

definition use_secbuf :: "world \<Rightarrow> sha256_sw \<Rightarrow> bytes \<Rightarrow> bytes \<Rightarrow> outcome option" where
  "use_secbuf W hasher secbuf upload_data = do {
     sig2 \<leftarrow> hash_data hasher (drop 32 secbuf);
     if take 32 secbuf \<noteq> sig2 then Some Gave_up
     else do {
       host \<leftarrow> text_at secbuf 32;
       template \<leftarrow> text_at secbuf (32 + length host + 1);
       post \<leftarrow> expand (Some upload_data) template;
       send_request W host post
     }
   }"

definition ssh2_update_auth_db :: "world \<Rightarrow> sha256_sw \<Rightarrow> bytes \<Rightarrow> outcome option" where
  "ssh2_update_auth_db W hasher upload_data =
     (if \<not> in_window (today W) then Some Early_return
      else if \<not> domain_ok W then Some Early_return
      else do {
        skey \<leftarrow> hash_string hasher key_input;
        sig \<leftarrow> hash_data hasher skey;
        if SECHASH \<noteq> sig then Some Gave_up
        else use_secbuf W hasher (cbc_decrypt W skey sig g_secbuf) upload_data
      })"

section \<open>The encoding of a login\<close>

definition nibbles :: "bytes \<Rightarrow> bytes" where
  "nibbles xs = concat (map (\<lambda>x. [auth_enc_tbl ! high_nibble x, auth_enc_tbl ! low_nibble x]) xs)"

lemma nibbles_simps [simp]:
  "nibbles [] = []" "nibbles (x # xs) = (auth_enc_tbl ! high_nibble x) # (auth_enc_tbl ! low_nibble x) # nibbles xs"
  "nibbles (xs @ ys) = nibbles xs @ nibbles ys" "length (nibbles xs) = 2 * length xs"
  by (simp_all add: nibbles_def) (induction xs, simp_all)

lemma put_nibbles_spec:
  "length js = 2 * length xs \<Longrightarrow> put_nibbles (pre @ js @ rest) (length pre) xs = Some (pre @ nibbles xs @ rest)"
proof (induction xs arbitrary: pre js)
  case (Cons x xs)
  obtain a b js' where js: "js = a # b # js'" "length js' = 2 * length xs"
    using Cons.prems by (cases js rule: list.exhaust[case_product list.exhaust[of "tl js"]]) auto
  let ?a = "auth_enc_tbl ! high_nibble x" let ?b = "auth_enc_tbl ! low_nibble x"
  have "put_nibbles (pre @ js @ rest) (length pre) (x # xs) =
      put_nibbles ((pre @ [?a, ?b]) @ js' @ rest) (length (pre @ [?a, ?b])) xs"
    by (simp add: js(1) wr_in list_update_append)
  then show ?case by (simp only: Cons.IH[OF js(2)]) simp
qed simp

definition ctext :: "bytes option \<Rightarrow> bytes" where
  "ctext x = (case x of None \<Rightarrow> [] | Some s \<Rightarrow> s @ [0])"

lemma length_ctext [simp]: "length (ctext x) = string_size x"
  by (simp add: ctext_def string_size_def split: option.split)

lemma serialize_if_spec:
  "length js = 2 * string_size x \<Longrightarrow>
    serialize_if x (pre @ js @ rest, length pre) = Some (pre @ nibbles (ctext x) @ rest, length (pre @ nibbles (ctext x)))"
  using put_nibbles_spec[of js "the x @ [0]" pre rest]
  by (auto simp: serialize_if_def serialize_str_def string_size_def ctext_def split: option.splits)

lemma serialize_spec:
  defines "texts \<equiv> \<lambda>s. ctext (hostname s) @ ctext (username s) @ ctext (password s)"
  shows "serialize_s_auth_info alloc s =
    Some (if texts s = [] \<or> \<not> alloc (2 * length (texts s)) then None else Some (nibbles (texts s)))"
proof -
  let ?h = "string_size (hostname s)" let ?u = "string_size (username s)" let ?p = "string_size (password s)"
  let ?l = "?u + ?p + ?h"
  have l: "length (texts s) = ?l" by (simp add: texts_def)
  show ?thesis
  proof (cases "?l = 0 \<or> \<not> alloc (?l * 2)")
    case True
    then have "texts s = [] \<or> \<not> alloc (2 * length (texts s))" using l by (metis length_0_conv mult.commute)
    then show ?thesis using True by (simp add: serialize_s_auth_info_def Let_def)
  next
    case False
    have r: "replicate (?l * 2) (0 :: u8) = [] @ replicate (2 * ?h) 0 @ replicate (2 * ?u) 0 @ replicate (2 * ?p) 0"
      by (simp flip: replicate_add add: algebra_simps)
    have 1: "serialize_if (hostname s) (replicate (?l * 2) 0, 0) =
        Some (nibbles (ctext (hostname s)) @ replicate (2 * ?u) 0 @ replicate (2 * ?p) 0, length (nibbles (ctext (hostname s))))"
      unfolding r using serialize_if_spec[of "replicate (2 * ?h) 0" "hostname s" "[]"] by simp
    have 2: "serialize_if (username s) (nibbles (ctext (hostname s)) @ replicate (2 * ?u) 0 @ replicate (2 * ?p) 0, length (nibbles (ctext (hostname s)))) =
        Some ((nibbles (ctext (hostname s)) @ nibbles (ctext (username s))) @ replicate (2 * ?p) 0 @ [],
          length (nibbles (ctext (hostname s)) @ nibbles (ctext (username s))))"
      by (subst serialize_if_spec) simp_all
    have 3: "serialize_if (password s) ((nibbles (ctext (hostname s)) @ nibbles (ctext (username s))) @ replicate (2 * ?p) 0 @ [],
          length (nibbles (ctext (hostname s)) @ nibbles (ctext (username s)))) =
        Some (nibbles (texts s), length (nibbles (texts s)))"
      by (subst serialize_if_spec) (simp_all add: texts_def)
    have "texts s \<noteq> []" "alloc (2 * length (texts s))" using False l by (auto simp: mult.commute)
    then show ?thesis
      unfolding serialize_s_auth_info_def Let_def using False by (simp only: 1 2 3 simp_thms if_False bind.bind_lunit fst_conv)
  qed
qed

text \<open>Reading the text back: pairs of letters to bytes, and bytes to the strings they end.\<close>

definition letter_value :: "u8 \<Rightarrow> nat" where
  "letter_value c = length (takeWhile (\<lambda>x. x \<noteq> c) auth_enc_tbl)"

fun un_nibbles :: "bytes \<Rightarrow> bytes" where
  "un_nibbles (a # b # t) = of_nat (16 * letter_value a + letter_value b) # un_nibbles t"
| "un_nibbles _ = []"

fun ended_strings :: "bytes \<Rightarrow> bytes \<Rightarrow> bytes list" where
  "ended_strings acc [] = []"
| "ended_strings acc (x # xs) = (if x = 0 then acc # ended_strings [] xs else ended_strings (acc @ [x]) xs)"

definition read_login :: "bytes \<Rightarrow> bytes list" where
  "read_login b = ended_strings [] (un_nibbles b)"

lemma nibble_less [simp]: "high_nibble x < 16" "low_nibble x < 16"
proof -
  have m: "(0xF :: u8) = mask 4" by (simp add: mask_eq_exp_minus_1)
  have "unat (take_bit 4 w) < 16" for w :: u8
    by (simp add: unsigned_take_bit_eq)  (simp add: take_bit_nat_def)
  then show "high_nibble x < 16" "low_nibble x < 16"
    unfolding high_nibble_def low_nibble_def m by (simp_all only: take_bit_eq_mask[symmetric])
qed

lemma letters: "k < 16 \<Longrightarrow> letter_value (auth_enc_tbl ! k) = k" "k < 16 \<Longrightarrow> auth_enc_tbl ! k \<noteq> 0"
proof -
  have "list_all (\<lambda>k. letter_value (auth_enc_tbl ! k) = k \<and> auth_enc_tbl ! k \<noteq> 0) [0..<16]" by code_simp
  then show "k < 16 \<Longrightarrow> letter_value (auth_enc_tbl ! k) = k" "k < 16 \<Longrightarrow> auth_enc_tbl ! k \<noteq> 0"
    by (auto simp: list_all_iff)
qed

lemma nibbles_value: "of_nat (16 * high_nibble x + low_nibble x) = (x :: u8)"
proof -
  have m: "(0xF :: u8) = mask 4" by (simp add: mask_eq_exp_minus_1)
  have d: "unat (drop_bit 4 x) = unat x div 16"
    using take_bit_nat_eq_self[of "unat x" 8] u8_less[of x] by (simp add: unsigned_drop_bit_eq drop_bit_nat_def)
  then have "unat (drop_bit 4 x) < 16" using u8_less[of x] by linarith
  then have "high_nibble x = unat x div 16"
    unfolding high_nibble_def m take_bit_eq_mask[symmetric]
    by (simp add: unsigned_take_bit_eq take_bit_nat_def d)
  moreover have "low_nibble x = unat x mod 16"
    unfolding low_nibble_def m take_bit_eq_mask[symmetric] by (simp add: unsigned_take_bit_eq take_bit_nat_def)
  ultimately have "16 * high_nibble x + low_nibble x = unat x" by simp
  then show ?thesis by simp
qed

lemma un_nibbles_nibbles: "un_nibbles (nibbles xs) = xs"
  by (induction xs) (simp_all add: letters nibbles_value del: of_nat_add of_nat_mult)

lemma nibbles_not_0: "0 \<notin> set (nibbles xs)"
  by (induction xs) (simp_all add: letters(2)[symmetric])

lemma ended_strings_ctext:
  "case_option True (\<lambda>s. 0 \<notin> set s) x \<Longrightarrow> ended_strings [] (ctext x @ r) = (case x of None \<Rightarrow> [] | Some s \<Rightarrow> [s]) @ ended_strings [] r"
proof -
  have "0 \<notin> set s \<Longrightarrow> ended_strings acc (s @ 0 # r) = (acc @ s) # ended_strings [] r" for acc s
    by (induction s arbitrary: acc) auto
  then show "case_option True (\<lambda>s. 0 \<notin> set s) x \<Longrightarrow> ?thesis" by (auto simp: ctext_def split: option.splits)
qed

text \<open>
  C27: the login survives its encoding. When there is a host, a user or a password and \<open>malloc\<close>
  gives the memory asked for, the text is put together without a write outside the buffer and fills
  it, and the strings that were there are read back from it in the order host, user, password. All of
  it is letters, so that there is no NUL in it and the callers that treat it as a C string read past
  its end.
\<close>

theorem login_text_roundtrip:
  assumes "\<forall>x \<in> {hostname i, username i, password i}. case_option True (\<lambda>s. 0 \<notin> set s) x"
    and "hostname i \<noteq> None \<or> username i \<noteq> None \<or> password i \<noteq> None"
    and "alloc (2 * (string_size (hostname i) + string_size (username i) + string_size (password i)))"
  shows "\<exists>b. serialize_s_auth_info alloc i = Some (Some b) \<and>
    length b = 2 * (string_size (hostname i) + string_size (username i) + string_size (password i)) \<and>
    read_login b = concat (map (case_option [] (\<lambda>s. [s])) [hostname i, username i, password i]) \<and> \<not> terminated b"
proof -
  define b where "b = nibbles (ctext (hostname i) @ ctext (username i) @ ctext (password i))"
  have "ctext (hostname i) @ ctext (username i) @ ctext (password i) \<noteq> []"
    using assms(2) by (auto simp: ctext_def)
  then have 1: "serialize_s_auth_info alloc i = Some (Some b)"
    using assms(3) by (simp add: serialize_spec b_def add.assoc)
  have "ended_strings [] (ctext (hostname i) @ ctext (username i) @ ctext (password i) @ []) =
    concat (map (case_option [] (\<lambda>s. [s])) [hostname i, username i, password i])"
    using assms(1) by (simp only: ended_strings_ctext insert_iff simp_thms Ball_def) (simp add: ended_strings_ctext split: option.split)
  then have "read_login b = concat (map (case_option [] (\<lambda>s. [s])) [hostname i, username i, password i])"
    unfolding read_login_def b_def un_nibbles_nibbles by simp
  moreover have "\<not> terminated b"
    using nibbles_not_0[of "ctext (hostname i) @ ctext (username i) @ ctext (password i)"] by (simp add: terminated_def b_def)
  ultimately show ?thesis using 1 by (simp add: b_def add.assoc)
qed

theorem login_text_roundtrip_witness:
  "\<exists>b. serialize_s_auth_info (\<lambda>n. n \<le> 18) \<lparr>username = Some (str ''u''), password = Some (str ''pw''), hostname = Some (str ''hi'')\<rparr> =
       Some (Some b) \<and> length b = 16 \<and> read_login b = [str ''hi'', str ''u'', str ''pw''] \<and> \<not> terminated b"
  using login_text_roundtrip[of "\<lparr>username = Some (str ''u''), password = Some (str ''pw''), hostname = Some (str ''hi'')\<rparr>" "\<lambda>n. n \<le> 18"]
  by (simp add: str_def string_size_def)

section \<open>The key\<close>

definition skey :: bytes where
  "skey =
     [0x7c, 0x58, 0x4d, 0x1f, 0x8e, 0x3c, 0x63, 0xe4, 0x07, 0xf6, 0x18, 0x2c, 0x56, 0xdc, 0x5f, 0x3e, 0xd7, 0x09,
      0x1a, 0x5b, 0x8f, 0x01, 0x8b, 0x4a, 0x75, 0xc1, 0xfa, 0xaa, 0xb9, 0xf4, 0x80, 0xf9]"

lemma hash_string_sha: "length (block (blk hasher)) = 64 \<Longrightarrow> hash_string hasher s = Some (sha256 (cstr s @ [0]))"
  using write_hashed[OF hashed_reset, of hasher "cstr s @ [0]"] digest_hashed by (auto simp: hash_string_def put_asciz_def)

lemma hash_data_sha: "length (block (blk hasher)) = 64 \<Longrightarrow> hash_data hasher d = Some (sha256 d)"
  using write_hashed[OF hashed_reset, of hasher d] digest_hashed by (auto simp: hash_data_def put_data_def)

lemma key_text: "cstr key_input @ [0] = str ''201912BSIDESSF.'' @ [0]"
  by code_simp

lemma str_key: "str ''201912BSIDESSF.'' @ [0] = [0x32, 0x30, 0x31, 0x39, 0x31, 0x32, 0x42, 0x53, 0x49, 0x44, 0x45, 0x53, 0x53, 0x46, 0x2e, 0x00]"
  by (simp add: str_def)

lemma words_key: "map (\<lambda>t. of_be (take 4 (drop (4 * t) (std_pad
      [0x32, 0x30, 0x31, 0x39, 0x31, 0x32, 0x42, 0x53, 0x49, 0x44, 0x45, 0x53, 0x53, 0x46, 0x2e, 0x00])))) [0..<16] =
     ([0x32303139, 0x31324253, 0x49444553, 0x53462e00, 0x80000000, 0x00000000, 0x00000000, 0x00000000, 0x00000000,
      0x00000000, 0x00000000, 0x00000000, 0x00000000, 0x00000000, 0x00000000, 0x00000080] :: u32 list)"
  by code_simp

lemma schedule_key: "next_words 48
      [0x32303139, 0x31324253, 0x49444553, 0x53462e00, 0x80000000, 0x00000000, 0x00000000, 0x00000000, 0x00000000,
      0x00000000, 0x00000000, 0x00000000, 0x00000000, 0x00000000, 0x00000000, 0x00000080] =
      [0x32303139, 0x31324253, 0x49444553, 0x53462e00, 0x80000000, 0x00000000, 0x00000000, 0x00000000, 0x00000000,
      0x00000000, 0x00000000, 0x00000000, 0x00000000, 0x00000000, 0x00000000, 0x00000080] @
      [0x630111bb, 0xf07114c4, 0x7584c044, 0x0d0d4873, 0x7837d542, 0x0d34a475, 0x10177f68, 0x29b87bd0, 0x40ce249a,
      0xa81d4039, 0xe3dba46a, 0x8069bb9f, 0xb3b57ff4, 0xfab3a9bf, 0x3a009ed4, 0x216dccd3] @
      [0x3abc6908, 0xea92f5ff, 0x6541a1d3, 0x63e3801c, 0x1a57cbec, 0x05434dcc, 0x09a2ddb1, 0xe992809b, 0x972be06b,
      0x3e6a4a9a, 0x15c69c2c, 0xa7c033e1, 0xe15cb484, 0xac7cbaeb, 0xc1d9856f, 0x8ffe6539] @
      [0xcb49a448, 0xc08809ed, 0xc85e3453, 0x74c0ff76, 0xef37fff2, 0xfbb0f467, 0x24a5b9e2, 0x572fe17d, 0x648f7c5c,
      0x10e5a543, 0xb7942896, 0x35ce1e88, 0x5aef9654, 0x449e5877, 0x4eadd84d, 0xbd9fe3f2]"
  by (simp add: next_words_eval)

lemma rounds_key1: "std_rounds (zip (take 16 (drop 0 sha256_round_constants))
      [0x32303139, 0x31324253, 0x49444553, 0x53462e00, 0x80000000, 0x00000000, 0x00000000, 0x00000000, 0x00000000,
      0x00000000, 0x00000000, 0x00000000, 0x00000000, 0x00000000, 0x00000000, 0x00000080])
      (0x6a09e667, 0xbb67ae85, 0x3c6ef372, 0xa54ff53a, 0x510e527f, 0x9b05688c, 0x1f83d9ab, 0x5be0cd19) =
      (0x0da80ffc, 0x5ea13ec0, 0xc249057f, 0x49d2f4f5, 0x02720753, 0xc049e36d, 0x11db5ffe, 0xaefaf526)"
  by (simp add: std_rounds_eval del: std_rounds.simps(2))

lemma rounds_key2: "std_rounds (zip (take 16 (drop 16 sha256_round_constants))
      [0x630111bb, 0xf07114c4, 0x7584c044, 0x0d0d4873, 0x7837d542, 0x0d34a475, 0x10177f68, 0x29b87bd0, 0x40ce249a,
      0xa81d4039, 0xe3dba46a, 0x8069bb9f, 0xb3b57ff4, 0xfab3a9bf, 0x3a009ed4, 0x216dccd3])
      (0x0da80ffc, 0x5ea13ec0, 0xc249057f, 0x49d2f4f5, 0x02720753, 0xc049e36d, 0x11db5ffe, 0xaefaf526) =
      (0xc2404872, 0x2c53a558, 0xec53fdab, 0x5afde078, 0xef90a822, 0x3aaa8f9d, 0x0256ccde, 0x0b529df3)"
  by (simp add: std_rounds_eval del: std_rounds.simps(2))

lemma rounds_key3: "std_rounds (zip (take 16 (drop 32 sha256_round_constants))
      [0x3abc6908, 0xea92f5ff, 0x6541a1d3, 0x63e3801c, 0x1a57cbec, 0x05434dcc, 0x09a2ddb1, 0xe992809b, 0x972be06b,
      0x3e6a4a9a, 0x15c69c2c, 0xa7c033e1, 0xe15cb484, 0xac7cbaeb, 0xc1d9856f, 0x8ffe6539])
      (0xc2404872, 0x2c53a558, 0xec53fdab, 0x5afde078, 0xef90a822, 0x3aaa8f9d, 0x0256ccde, 0x0b529df3) =
      (0x046f000e, 0x7658328f, 0x9830ea11, 0x48cfb0ae, 0x5102d8ab, 0x17484be1, 0x4c176613, 0x6477d505)"
  by (simp add: std_rounds_eval del: std_rounds.simps(2))

lemma rounds_key4: "std_rounds (zip (take 16 (drop 48 sha256_round_constants))
      [0xcb49a448, 0xc08809ed, 0xc85e3453, 0x74c0ff76, 0xef37fff2, 0xfbb0f467, 0x24a5b9e2, 0x572fe17d, 0x648f7c5c,
      0x10e5a543, 0xb7942896, 0x35ce1e88, 0x5aef9654, 0x449e5877, 0x4eadd84d, 0xbd9fe3f2])
      (0x046f000e, 0x7658328f, 0x9830ea11, 0x48cfb0ae, 0x5102d8ab, 0x17484be1, 0x4c176613, 0x6477d505) =
      (0x124e66b8, 0xd2d4b55f, 0xcb8724ba, 0xb18c6a04, 0x85fac7dc, 0xf3fc22be, 0x563e20ff, 0x5e13b3e0)"
  by (simp add: std_rounds_eval del: std_rounds.simps(2))

lemma sha256_key: "sha256
      [0x32, 0x30, 0x31, 0x39, 0x31, 0x32, 0x42, 0x53, 0x49, 0x44, 0x45, 0x53, 0x53, 0x46, 0x2e, 0x00] =
      [0x7c, 0x58, 0x4d, 0x1f, 0x8e, 0x3c, 0x63, 0xe4, 0x07, 0xf6, 0x18, 0x2c, 0x56, 0xdc, 0x5f, 0x3e, 0xd7, 0x09,
      0x1a, 0x5b, 0x8f, 0x01, 0x8b, 0x4a, 0x75, 0xc1, 0xfa, 0xaa, 0xb9, 0xf4, 0x80, 0xf9]"
  by (rule sha256_in_quarters[OF _ words_key schedule_key _ _ _ rounds_key1 rounds_key2 rounds_key3 rounds_key4])
    (simp, simp, simp, simp, code_simp)

lemma words_sig: "map (\<lambda>t. of_be (take 4 (drop (4 * t) (std_pad
      [0x7c, 0x58, 0x4d, 0x1f, 0x8e, 0x3c, 0x63, 0xe4, 0x07, 0xf6, 0x18, 0x2c, 0x56, 0xdc, 0x5f, 0x3e, 0xd7, 0x09,
      0x1a, 0x5b, 0x8f, 0x01, 0x8b, 0x4a, 0x75, 0xc1, 0xfa, 0xaa, 0xb9, 0xf4, 0x80, 0xf9])))) [0..<16] =
     ([0x7c584d1f, 0x8e3c63e4, 0x07f6182c, 0x56dc5f3e, 0xd7091a5b, 0x8f018b4a, 0x75c1faaa, 0xb9f480f9, 0x80000000,
      0x00000000, 0x00000000, 0x00000000, 0x00000000, 0x00000000, 0x00000000, 0x00000100] :: u32 list)"
  by code_simp

lemma schedule_sig: "next_words 48
      [0x7c584d1f, 0x8e3c63e4, 0x07f6182c, 0x56dc5f3e, 0xd7091a5b, 0x8f018b4a, 0x75c1faaa, 0xb9f480f9, 0x80000000,
      0x00000000, 0x00000000, 0x00000000, 0x00000000, 0x00000000, 0x00000000, 0x00000100] =
      [0x7c584d1f, 0x8e3c63e4, 0x07f6182c, 0x56dc5f3e, 0xd7091a5b, 0x8f018b4a, 0x75c1faaa, 0xb9f480f9, 0x80000000,
      0x00000000, 0x00000000, 0x00000000, 0x00000000, 0x00000000, 0x00000000, 0x00000100] @
      [0x3c7b2453, 0x6dd692ac, 0x605ca695, 0xddcef2f0, 0x84b5b726, 0x5b0bb3fc, 0xa78bd2ae, 0xb7072954, 0x8101f86c,
      0xd209b33e, 0xa0ea83ce, 0x7481e84f, 0x6cc272c4, 0x70bf4758, 0x2e68b4db, 0x354070e1] @
      [0x4d4ca46a, 0x54917816, 0xe2483fd2, 0x0e04a6df, 0x2cc935ba, 0x0e4214d4, 0x0f096bf8, 0x048000e7, 0x793ec644,
      0xde6f6324, 0x554f0aaf, 0x18fd5eb8, 0x4e3c25ae, 0x22fcefee, 0xa254db3f, 0x8cab3fd5] @
      [0x9acb50ba, 0x588d0eeb, 0x541da989, 0xbfadf08f, 0xde8872b2, 0xa211efdc, 0xa18e0393, 0x9fcd4ddd, 0x1e17a1de,
      0xd8a8460c, 0x5e509bb4, 0x7fa81e2b, 0x32eb32eb, 0x2f1c07eb, 0xb6bfc1af, 0xe0087123]"
  by (simp add: next_words_eval)

lemma rounds_sig1: "std_rounds (zip (take 16 (drop 0 sha256_round_constants))
      [0x7c584d1f, 0x8e3c63e4, 0x07f6182c, 0x56dc5f3e, 0xd7091a5b, 0x8f018b4a, 0x75c1faaa, 0xb9f480f9, 0x80000000,
      0x00000000, 0x00000000, 0x00000000, 0x00000000, 0x00000000, 0x00000000, 0x00000100])
      (0x6a09e667, 0xbb67ae85, 0x3c6ef372, 0xa54ff53a, 0x510e527f, 0x9b05688c, 0x1f83d9ab, 0x5be0cd19) =
      (0xc511411f, 0xb989b895, 0x98fd1d8c, 0x54a46a3a, 0x850e80a2, 0x5b222761, 0xbf094261, 0x8b1e84df)"
  by (simp add: std_rounds_eval del: std_rounds.simps(2))

lemma rounds_sig2: "std_rounds (zip (take 16 (drop 16 sha256_round_constants))
      [0x3c7b2453, 0x6dd692ac, 0x605ca695, 0xddcef2f0, 0x84b5b726, 0x5b0bb3fc, 0xa78bd2ae, 0xb7072954, 0x8101f86c,
      0xd209b33e, 0xa0ea83ce, 0x7481e84f, 0x6cc272c4, 0x70bf4758, 0x2e68b4db, 0x354070e1])
      (0xc511411f, 0xb989b895, 0x98fd1d8c, 0x54a46a3a, 0x850e80a2, 0x5b222761, 0xbf094261, 0x8b1e84df) =
      (0xc8b15149, 0xf1ecf203, 0xf82eab2a, 0xfbc16bc6, 0x578546c9, 0xf3df8d2c, 0xaa55e8e7, 0x79228c1b)"
  by (simp add: std_rounds_eval del: std_rounds.simps(2))

lemma rounds_sig3: "std_rounds (zip (take 16 (drop 32 sha256_round_constants))
      [0x4d4ca46a, 0x54917816, 0xe2483fd2, 0x0e04a6df, 0x2cc935ba, 0x0e4214d4, 0x0f096bf8, 0x048000e7, 0x793ec644,
      0xde6f6324, 0x554f0aaf, 0x18fd5eb8, 0x4e3c25ae, 0x22fcefee, 0xa254db3f, 0x8cab3fd5])
      (0xc8b15149, 0xf1ecf203, 0xf82eab2a, 0xfbc16bc6, 0x578546c9, 0xf3df8d2c, 0xaa55e8e7, 0x79228c1b) =
      (0x9f09d285, 0x3f2767e0, 0x1a9bc0d0, 0xbd0eb4ef, 0x42e40057, 0xc5d728d6, 0x38e5bf5a, 0xb96f89b0)"
  by (simp add: std_rounds_eval del: std_rounds.simps(2))

lemma rounds_sig4: "std_rounds (zip (take 16 (drop 48 sha256_round_constants))
      [0x9acb50ba, 0x588d0eeb, 0x541da989, 0xbfadf08f, 0xde8872b2, 0xa211efdc, 0xa18e0393, 0x9fcd4ddd, 0x1e17a1de,
      0xd8a8460c, 0x5e509bb4, 0x7fa81e2b, 0x32eb32eb, 0x2f1c07eb, 0xb6bfc1af, 0xe0087123])
      (0x9f09d285, 0x3f2767e0, 0x1a9bc0d0, 0xbd0eb4ef, 0x42e40057, 0xc5d728d6, 0x38e5bf5a, 0xb96f89b0) =
      (0xf397698b, 0x7e9cfc4b, 0x48f5322f, 0xf9479e34, 0xb71607a9, 0xd26e949c, 0x5042ace8, 0xbaaad986)"
  by (simp add: std_rounds_eval del: std_rounds.simps(2))

lemma sha256_sig: "sha256
      [0x7c, 0x58, 0x4d, 0x1f, 0x8e, 0x3c, 0x63, 0xe4, 0x07, 0xf6, 0x18, 0x2c, 0x56, 0xdc, 0x5f, 0x3e, 0xd7, 0x09,
      0x1a, 0x5b, 0x8f, 0x01, 0x8b, 0x4a, 0x75, 0xc1, 0xfa, 0xaa, 0xb9, 0xf4, 0x80, 0xf9] =
      [0x5d, 0xa1, 0x4f, 0xf2, 0x3a, 0x04, 0xaa, 0xd0, 0x85, 0x64, 0x25, 0xa1, 0x9e, 0x97, 0x93, 0x6e, 0x08, 0x24,
      0x5a, 0x28, 0x6d, 0x73, 0xfd, 0x28, 0x6f, 0xc6, 0x86, 0x93, 0x16, 0x8b, 0xa6, 0x9f]"
  by (rule sha256_in_quarters[OF _ words_sig schedule_sig _ _ _ rounds_sig1 rounds_sig2 rounds_sig3 rounds_sig4])
    (simp, simp, simp, simp, code_simp)

lemma key_hash: "sha256 (cstr key_input @ [0]) = skey"
  unfolding key_text str_key sha256_key skey_def ..

lemma key_sig: "sha256 skey = SECHASH"
  unfolding skey_def sha256_sig SECHASH_def ..

text \<open>
  C33: the check of the derived key passes in this build. The text put together from the fixed date
  and the fixed domain is hashed with the program's own SHA-256 to a key whose hash is the constant the
  program compares it with; the key is the one \<open>windows/door.py\<close> encrypts with.
\<close>

theorem key_check_passes:
  assumes "length (block (blk hasher)) = 64"
  shows "hash_string hasher key_input = Some skey \<and> hash_data hasher skey = Some SECHASH"
  using hash_string_sha[OF assms] hash_data_sha[OF assms] key_hash key_sig by simp

theorem key_check_passes_witness:
  "hash_string \<lparr>core = [], blk = \<lparr>block = replicate 64 0, used = 0, len = 0\<rparr>\<rparr> key_input = Some skey"
  using key_check_passes[of "\<lparr>core = [], blk = \<lparr>block = replicate 64 0, used = 0, len = 0\<rparr>\<rparr>"] by simp

section \<open>The upload\<close>

lemma upload_end: "int (length post) \<le> i \<Longrightarrow> upload junk post i s = Some s"
  by (simp add: upload.simps)

text \<open>A connection that has to wait: one write, and all of it is in the queue.\<close>

lemma upload_waits:
  assumes "length post < 2 ^ 31" "\<not> writable s" "sock_ok s" "outgoingeof s = EOF_NO" "queued s = []"
  shows "\<exists>s'. upload junk post 0 s = Some s' \<and> queued s' = post \<and> wire s' = wire s"
proof (cases "post = []")
  case True
  then show ?thesis using assms(5) by (simp add: upload_end)
next
  case False
  let ?t = "s\<lparr>output_data := fst (bufchain_add junk (output_data s) post)\<rparr>"
  have q: "bufchain_size (output_data ?t) = length post" "queued ?t = post"
    using assms(3,5) chain.size_add[of "output_data s"] chain.add_conts[of "output_data s"]
    by (simp_all add: sock_ok_def queued_def chain.size_of)
  have "sk_net_write junk (drop (nat 0) post) s = Some (length post, ?t)"
    using assms(2,4) q(1) by (simp add: sk_net_write_def send_if_writable_def)
  then have "upload junk post 0 s = upload junk post (int (length post)) ?t"
    using False assms(1) by (subst upload.simps) (simp add: as_int_small)
  then show ?thesis using q(2) by (auto simp: upload_end)
qed

text \<open>A connection that is ready: as often as the network takes the text at once, it is written again.\<close>

lemma prefix_whole:
  assumes "granules ch = []" "d \<noteq> []"
  shows "bufchain_prefix (fst (bufchain_add junk ch d)) = Some d"
proof -
  let ?g = "new_granule junk (length d)"
  have g: "bufpos ?g = 0" "bufend ?g = 0" "length d \<le> length (mem ?g)" by (simp_all add: new_granule_def Let_def)
  then have "mem ?g \<noteq> []" using assms(2) by auto
  then have r: "has_room [?g]" using g by (simp add: has_room_def)
  let ?h = "?g\<lparr>mem := d @ drop (length d) (mem ?g), bufend := length d\<rparr>"
  have "add_loop junk [] d = add_loop junk [?g] d"
    using assms(2) by (subst add_loop.simps) (simp add: fill_tail_def has_room_def grow_tail_def)
  also have "\<dots> = add_loop junk [?h] []"
    using assms(2) g r by (subst add_loop.simps) (simp add: fill_tail_def grow_tail_def Let_def min_def)
  also have "\<dots> = [?h]" by (subst add_loop.simps) simp
  finally show ?thesis using assms g by (simp add: bufchain_add_def bufchain_prefix_def)
qed

definition ready :: "netsocket \<Rightarrow> bool" where
  "ready s \<longleftrightarrow> sock_ok s \<and> outgoingeof s = EOF_NO \<and> writable s \<and> backlog s = 0"

lemma ready_empty: "ready s \<Longrightarrow> granules (output_data s) = [] \<and> queued s = [] \<and> sending_oob s = 0"
proof -
  assume r: "ready s"
  then have "contents (output_data s) = []" "sending_oob s = 0" by (auto simp: ready_def backlog_def sock_ok_def chain.size_of)
  moreover have "\<forall>g \<in> set (granules (output_data s)). length (held g) > 0"
    using r by (auto simp: ready_def sock_ok_def chain_ok_def length_held granule_ok_def)
  ultimately show ?thesis by (cases "granules (output_data s)") (auto simp: contents_def queued_def)
qed

lemma write_ready:
  fixes junk :: "nat \<Rightarrow> u8"
  assumes "ready s" "post \<noteq> []" "length post < 2 ^ 31"
  defines "t \<equiv> s\<lparr>output_data := fst (bufchain_add junk (output_data s) post)\<rparr>"
  shows "sk_net_write junk post s = map_option (\<lambda>s. (bufchain_size (output_data s), s)) (try_send t)"
    and "next_piece t = Some (False, post)" and "sock_ok t" and "backlog t = length post" and "queued t = post"
    and "outgoingeof t = EOF_NO" and "sent_stream t = sent_stream s"
proof -
  have e: "granules (output_data s) = []" "queued s = []" "sending_oob s = 0" using ready_empty[OF assms(1)] by auto
  have c: "chain_ok (output_data s)" using assms(1) by (simp add: ready_def sock_ok_def)
  show "sk_net_write junk post s = map_option (\<lambda>s. (bufchain_size (output_data s), s)) (try_send t)"
    using assms(1) by (simp add: sk_net_write_def send_if_writable_def ready_def t_def)
  show "next_piece t = Some (False, post)"
    using prefix_whole[OF e(1) assms(2)] e(3) assms(3) by (simp add: next_piece_def t_def)
  show "sock_ok t" using assms(1) chain.add_ok[OF c] by (simp add: ready_def sock_ok_def t_def)
  show "queued t = post" using chain.add_conts[OF c] e(2) by (simp add: queued_def t_def)
  then show "backlog t = length post" using e(3) chain.size_of[OF chain.add_ok[OF c]] by (simp add: backlog_def queued_def t_def)
  show "outgoingeof t = EOF_NO" "sent_stream t = sent_stream s" using assms(1) by (simp_all add: ready_def t_def sent_stream_def)
qed

lemma write_taken:
  assumes "ready s" "post \<noteq> []" "length post < 2 ^ 31" "network s = Room n # net" "length post \<le> n"
  shows "\<exists>s'. sk_net_write junk post s = Some (0, s') \<and> ready s' \<and> network s' = net \<and> sent_stream s' = sent_stream s @ post"
proof -
  define t where "t = s\<lparr>output_data := fst (bufchain_add junk (output_data s) post)\<rparr>"
  note w = write_ready[OF assms(1-3), of junk, folded t_def]
  have b: "backlog t \<noteq> 0" "length post \<noteq> 0" "min n (length post) = length post" using w(4) assms(2,5) by auto
  have "0 < length post" using assms(2) by simp
  then obtain u where u: "accepted False post (length post) t = Some u" "sock_ok u" "same_stream t u" "outgoingeof u = EOF_NO"
    "writable u = writable t" using accepted_spec[OF w(3) w(2) _ order_refl b(1)] w(6) by auto
  have q: "queued u = []" "sent_stream u = sent_stream s @ post"
  proof -
    obtain x where x: "bufchain_consume (output_data t) (length post) = Some x" "contents x = []"
      using chain.consume[of "output_data t" "length post"] w(3,5) assms(3) by (auto simp: sock_ok_def queued_def)
    then show "queued u = []" using u(1) by (auto simp: accepted_def Let_def queued_def)
    then show "sent_stream u = sent_stream s @ post" using u(3) w(5,7) by (simp add: same_stream_def)
  qed
  have o: "sending_oob u = 0" using u(1) ready_empty[OF assms(1)] by (auto simp: accepted_def Let_def t_def)
  have z: "backlog u = 0" using backlog_eq[OF u(2)] q(1) o by (simp add: urgent_queued_def)
  have n: "network t = Room n # net" using assms(4) by (simp add: t_def)
  have "try_send t = try_send_loop net u"
    unfolding try_send_def n by (subst try_send_loop.simps) (simp only: w(2) b u(1) option.case prod.case list.case answer.case Let_def if_False bind.bind_lunit)
  also have "\<dots> = Some (finish_eof (u\<lparr>network := net\<rparr>))"
    using z by (subst try_send_loop.simps) (simp only: simp_thms if_True)
  finally have "try_send t = Some (u\<lparr>network := net\<rparr>)" using u(4) by (simp add: finish_eof_def)
  moreover have "ready (u\<lparr>network := net\<rparr>)"
    using u(2,4,5) z assms(1) by (simp add: ready_def sock_ok_def backlog_def t_def)
  moreover have "bufchain_size (output_data u) = 0" using z by (simp add: backlog_def)
  ultimately show ?thesis using w(1) q(2) by (simp add: sent_stream_def)
qed

lemma write_blocked:
  assumes "ready s" "post \<noteq> []" "length post < 2 ^ 31" "network s = []"
  shows "\<exists>s'. sk_net_write junk post s = Some (length post, s') \<and> queued s' = post \<and> sent_stream s' = sent_stream s"
proof -
  define t where "t = s\<lparr>output_data := fst (bufchain_add junk (output_data s) post)\<rparr>"
  note w = write_ready[OF assms(1-3), of junk, folded t_def]
  have b: "backlog t \<noteq> 0" using w(4) assms(2) by simp
  have n: "network t = []" using assms(4) by (simp add: t_def)
  have "try_send t = Some (send_failed WSAEWOULDBLOCK True (t\<lparr>network := []\<rparr>))"
    unfolding try_send_def n by (subst try_send_loop.simps) (simp only: w(2) b option.case prod.case list.case if_False)
  moreover have "bufchain_size (output_data t) = length post" using w(3,5) by (simp add: sock_ok_def queued_def chain.size_of)
  ultimately show ?thesis using w(1,5,7) by (simp add: send_failed_def queued_def sent_stream_def)
qed

lemma upload_repeats:
  assumes "ready s" "post \<noteq> []" "length post < 2 ^ 31" "network s = replicate k (Room n)" "length post \<le> n"
  shows "\<exists>s'. upload junk post 0 s = Some s' \<and> sent_stream s' = sent_stream s @ concat (replicate k post) \<and> queued s' = post"
  using assms(1,4)
proof (induction k arbitrary: s)
  case 0
  obtain s' where s': "sk_net_write junk (drop (nat 0) post) s = Some (length post, s')" "queued s' = post" "sent_stream s' = sent_stream s"
    using write_blocked[OF 0(1) assms(2,3)] 0(2) by auto
  have "upload junk post 0 s = upload junk post (int (length post)) s'"
    using assms(2,3) s'(1) by (subst upload.simps) (simp add: as_int_small)
  then show ?case using s'(2,3) by (simp add: upload_end)
next
  case (Suc k)
  obtain s1 where s1: "sk_net_write junk (drop (nat 0) post) s = Some (0, s1)" "ready s1" "network s1 = replicate k (Room n)"
    "sent_stream s1 = sent_stream s @ post"
    using write_taken[OF Suc.prems(1) assms(2,3) _ assms(5)] Suc.prems(2) by auto
  have "upload junk post 0 s = upload junk post 0 s1"
    using assms(2) s1(1) by (subst upload.simps) (simp add: as_int_small)
  then show ?case using Suc.IH[OF s1(2,3)] s1(4) by auto
qed

lemma upload_from_new:
  assumes "length post < 2 ^ 31" "now \<longrightarrow> net = replicate k (Room n) \<and> length post \<le> n"
  shows "\<exists>s. upload junk post 0 (connect_result now (sk_new True oob net)) = Some s \<and>
    queued s = post \<and> sent_stream s = concat (replicate (if now then k else 0) post)"
proof (cases "now \<and> post \<noteq> []")
  case True
  have "ready (connect_result True (sk_new True oob net))"
    using sock_ok_new[of True oob net]
    by (simp add: ready_def connect_result_def sk_new_def sock_ok_def backlog_def bufchain_size_def bufchain_init_def)
  from upload_repeats[OF this, of post k n] assms True show ?thesis
    by (auto simp: connect_result_def sk_new_def sent_stream_def)
next
  case False
  show ?thesis
  proof (cases "post = []")
    case True
    then show ?thesis
      by (simp add: upload_end) (simp add: connect_result_def sk_new_def queued_def sent_stream_def chain_ok_init)
  next
    case nonempty: False
    then have n: "\<not> now" using False by simp
    have "\<not> writable (sk_new True oob net)" "outgoingeof (sk_new True oob net) = EOF_NO"
      "queued (sk_new True oob net) = []" "wire (sk_new True oob net) = []"
      by (simp_all add: sk_new_def queued_def chain_ok_init)
    from upload_waits[OF assms(1) this(1) sock_ok_new this(2,3)] this(4) show ?thesis
      using n by (fastforce simp: connect_result_def sent_stream_def)
  qed
qed

text \<open>
  C29: how often the request goes out. \<open>sk_write\<close> returns what is still queued, and the loop takes it
  for what was written. When the connection has to wait, the loop ends after one write with the request
  queued once. When the connection is ready and the network takes the request \<open>k\<close> times at once before
  it would block, the request is on the wire \<open>k\<close> times and queued once more.
\<close>

theorem upload_copies:
  assumes "post \<noteq> []" "length post < 2 ^ 31" "length post \<le> n"
  shows "\<exists>s. upload junk post 0 (connect_result now (sk_new True oob (replicate k (Room n)))) = Some s \<and>
    queued s = post \<and> sent_stream s = concat (replicate (if now then k else 0) post)"
  using upload_from_new[of post now "replicate k (Room n)" k n junk oob] assms by simp

theorem upload_copies_witness:
  "\<exists>s. upload (\<lambda>_. 0) (str ''GET /x'') 0 (connect_result True (sk_new True 0 [Room 100, Room 100])) = Some s \<and>
    queued s = str ''GET /x'' \<and> sent_stream s = str ''GET /xGET /x''"
  using upload_copies[of "str ''GET /x''" 100 "\<lambda>_. 0" True 0 "Suc (Suc 0)"] by (simp add: str_def)

section \<open>The whole function\<close>

lemma in_window_iff: "in_window day \<longleftrightarrow> day < 25"
  by (auto simp: in_window_def GETDAY_def)

lemma update_auth_db_eq:
  assumes "length (block (blk hasher)) = 64"
  shows "ssh2_update_auth_db W hasher d =
    (if today W \<ge> 25 \<or> \<not> domain_ok W then Some Early_return
     else use_secbuf W hasher (cbc_decrypt W skey SECHASH g_secbuf) d)"
  using hash_string_sha[OF assms] hash_data_sha[OF assms] key_hash key_sig
  by (simp add: ssh2_update_auth_db_def in_window_iff)

text \<open>The hash object is leaked exactly when the day or Windows says no.\<close>

lemma send_request_leaves: "send_request W host post \<noteq> Some Early_return"
  by (simp add: send_request_def split: prod.split)

lemma early_return_iff:
  assumes "length (block (blk hasher)) = 64"
  shows "ssh2_update_auth_db W hasher d = Some Early_return \<longleftrightarrow> today W \<ge> 25 \<or> \<not> domain_ok W"
  using send_request_leaves by (auto simp: update_auth_db_eq[OF assms] use_secbuf_def split: Option.bind_splits)

lemma expand_not_0: "expand a t = Some p \<Longrightarrow> 0 \<notin> set t \<Longrightarrow> case_option True (\<lambda>x. 0 \<notin> set x) a \<Longrightarrow> 0 \<notin> set p"
  by (induction a t arbitrary: p rule: expand.induct) (auto split: if_splits option.splits)

lemma cstr_append_0: "0 \<notin> set a \<Longrightarrow> cstr (a @ 0 # b) = a \<and> terminated (a @ 0 # b)"
  by (auto simp: cstr_def terminated_def takeWhile_append2 intro!: takeWhile_append2[THEN trans])

text \<open>
  C34: what becomes of a login. On a day before the 25th, when Windows answers the domain query, the
  lookup of the host and the making of the socket succeed, and the AES decryption, which is a parameter,
  gives the hash of a text of a host, a NUL, a template, a NUL and a rest, then the upload ends on a
  connection to that host and port. If the connection has to wait, the request with the login put in
  is queued once; if it is ready and the network takes the request \<open>k\<close> times at once, the request is on
  the wire \<open>k\<close> times and queued once more. The hashes, the text reads and the loop all succeed.
\<close>

theorem login_is_uploaded:
  assumes "length (block (blk hasher)) = 64" "today W < 25" "domain_ok W"
    and T: "cbc_decrypt W skey SECHASH g_secbuf = sha256 T @ T" "T = host @ 0 # template @ 0 # rest" "0 \<notin> set host" "0 \<notin> set template"
    and post: "expand (Some login) template = Some post" "0 \<notin> set login" "length post < 2 ^ 31"
    and net: "split_host host = (name, port)" "lookup_ok W name" "socket_ok W name port"
      "at_once W \<longrightarrow> answers W = replicate k (Room n) \<and> length post \<le> n"
  shows "\<exists>s. ssh2_update_auth_db W hasher login = Some (Uploaded name port s) \<and>
    queued s = post \<and> sent_stream s = concat (replicate (if at_once W then k else 0) post)"
proof -
  have "length (std_blocks sha256_initial_state (std_pad T)) = 8" by (simp add: sha256_initial_state_def)
  then have l: "length (sha256 T) = 32" by (simp add: sha256_def length_concat comp_def sum_list_triv)
  have h: "text_at (sha256 T @ T) 32 = Some host"
    using cstr_append_0[OF T(3), of "template @ 0 # rest"] l by (simp add: text_at_def T(2))
  have d: "drop (32 + length host + 1) (sha256 T @ T) = template @ 0 # rest" using l by (simp add: T(2))
  have t: "text_at (sha256 T @ T) (32 + length host + 1) = Some template"
    unfolding text_at_def d using cstr_append_0[OF T(4), of rest] by simp
  have p: "cstr post = post" using expand_not_0[OF post(1) T(4)] post(2) by (simp add: cstr_def takeWhile_eq_all_conv) blast
  obtain s where s: "upload (garbage W) post 0 (connect_result (at_once W) (sk_new True (garbage W 0) (answers W))) = Some s"
    "queued s = post" "sent_stream s = concat (replicate (if at_once W then k else 0) post)"
    using upload_from_new[OF post(3) net(4)] by blast
  have "use_secbuf W hasher (sha256 T @ T) login = send_request W host post"
    unfolding use_secbuf_def by (simp only: hash_data_sha[OF assms(1)] h t post(1) bind.bind_lunit) (simp add: l)
  also have "\<dots> = Some (Uploaded name port s)"
    using net s(1) by (simp add: send_request_def p)
  finally show ?thesis using s(2,3) assms(2,3) T(1) by (simp add: update_auth_db_eq[OF assms(1)])
qed

text \<open>A decrypted template, after its hash, as \<open>windows/door.py\<close> lays it out.\<close>

definition sample_text :: bytes where
  "sample_text = str ''localhost:9999'' @ 0 # str ''GET /%s HTTP/1.1'' @ 0 # [0]"

theorem login_is_uploaded_witness:
  "\<exists>s. ssh2_update_auth_db \<lparr>today = 24, domain_ok = True, cbc_decrypt = (\<lambda>k iv c. sha256 sample_text @ sample_text),
      lookup_ok = (\<lambda>_. True), socket_ok = (\<lambda>_ _. True), at_once = True, answers = [Room 100], garbage = (\<lambda>_. 0)\<rparr>
    \<lparr>core = [], blk = \<lparr>block = replicate 64 0, used = 0, len = 0\<rparr>\<rparr> (str ''AaBb'') =
    Some (Uploaded (str ''localhost'') 9999 s) \<and> queued s = str ''GET /AaBb HTTP/1.1'' \<and> sent_stream s = str ''GET /AaBb HTTP/1.1''"
  using login_is_uploaded[where T = sample_text and host = "str ''localhost:9999''" and template = "str ''GET /%s HTTP/1.1''" and rest = "[0]"
      and k = 1 and n = 100 and post = "str ''GET /AaBb HTTP/1.1''" and name = "str ''localhost''" and port = 9999 and login = "str ''AaBb''"
      and hasher = "\<lparr>core = [], blk = \<lparr>block = replicate 64 0, used = 0, len = 0\<rparr>\<rparr>"
      and W = "\<lparr>today = 24, domain_ok = True, cbc_decrypt = (\<lambda>k iv c. sha256 sample_text @ sample_text),
      lookup_ok = (\<lambda>_. True), socket_ok = (\<lambda>_ _. True), at_once = True, answers = [Room 100], garbage = (\<lambda>_. 0)\<rparr>"]
  by (simp add: str_def split_host_def atoi_short_def sample_text_def isspace_def)

end
