(* ===== verification/Chameleon.thy ===== *)
theory Chameleon
  imports Prelude
begin

text \<open>
  \<open>chameleon/challenge/client/src/chameleon.cpp\<close>: a file encryptor for Windows that leaves its keys
  with a server. The generator of the keys, their text form, the two exchanges with the server, files,
  and the choice of \<open>main\<close>. The crypto library and the server are parameters; the parsing of the
  command line (a copy of \<open>getopt\<close>) and the handling of standard input are left out.
  \<open>unsigned long\<close> has 32 bits there.
\<close>

section \<open>The generator\<close>

abbreviation (input) NN :: nat where "NN \<equiv> 351"
abbreviation (input) MM :: nat where "MM \<equiv> 175"

definition MATRIX_A :: u32 where "MATRIX_A = 0xE4BD75F5"
definition TEMB :: u32 where "TEMB = 0x655E5280"
definition TEMC :: u32 where "TEMC = 0xFFD58000"
definition LOWER_MASK :: u32 where "LOWER_MASK = push_bit 19 1 - 1"
definition UPPER_MASK :: u32 where "UPPER_MASK = push_bit 19 (- 1)"

record generator =
  mt :: "u32 list"
  mti :: nat

fun fill_words :: "nat \<Rightarrow> u32 \<Rightarrow> u32 list" where
  "fill_words 0 s = []"
| "fill_words (Suc k) s = (let s = s * 29945647 - 1 in s # fill_words k s)"

definition mysrand :: "u32 \<Rightarrow> generator" where
  "mysrand seed = \<lparr>mt = fill_words NN seed, mti = NN\<rparr>"

definition twisted :: "u32 \<Rightarrow> u32 \<Rightarrow> u32 \<Rightarrow> u32" where
  "twisted x x1 xm =
     (let y = (x AND UPPER_MASK) OR (x1 AND LOWER_MASK)
      in xm XOR drop_bit 1 y XOR (- (y AND 1) AND MATRIX_A))"

definition twist_step :: "nat \<Rightarrow> u32 list \<times> nat \<Rightarrow> u32 list \<times> nat" where
  "twist_step kk = (\<lambda>(v, km).
     (v[kk := twisted (v ! kk) (v ! (kk + 1)) (v ! km)], if km + 1 \<ge> NN then 0 else km + 1))"

definition twist :: "u32 list \<Rightarrow> u32 list" where
  "twist v =
     (let (v, _) = fold twist_step [0..<NN - 1] (v, MM)
      in v[NN - 1 := twisted (v ! (NN - 1)) (v ! 0) (v ! (MM - 1))])"

definition temper :: "u32 \<Rightarrow> u32" where
  "temper y =
     (let y = y XOR drop_bit 11 y;
          y = y XOR (push_bit 7 y AND TEMB);
          y = y XOR (push_bit 15 y AND TEMC);
          y = y XOR drop_bit 17 y
      in y AND 0xFF)"

definition myrand :: "generator \<Rightarrow> u32 \<times> generator" where
  "myrand g =
     (let g = (if mti g \<ge> NN then \<lparr>mt = twist (mt g), mti = 0\<rparr> else g)
      in (temper (mt g ! mti g), g\<lparr>mti := mti g + 1\<rparr>))"

fun key_loop :: "nat \<Rightarrow> generator \<Rightarrow> bytes" where
  "key_loop 0 g = []"
| "key_loop (Suc k) g = (let (r, g) = myrand g in ((ucast r AND 0xFF) XOR 0x55) # key_loop k g)"

definition generate_key :: "u32 \<Rightarrow> bytes" where
  "generate_key now = key_loop 8 (mysrand now)"

section \<open>Keys as text\<close>

text \<open>Without the NUL \<open>sprintf\<close> puts after it.\<close>

definition to_hex :: "bytes \<Rightarrow> bytes" where
  "to_hex key = hex_bytes (take 8 key)"

text \<open>\<open>strtol\<close> with base 16 on a short string, which cannot overflow.\<close>

definition hex_number :: "bytes \<Rightarrow> int" where
  "hex_number s = foldl (\<lambda>v c. 16 * v + the (hex_value c)) 0 (takeWhile (\<lambda>c. hex_value c \<noteq> None) s)"

definition strtol16 :: "bytes \<Rightarrow> int" where
  "strtol16 s =
     (let t = dropWhile isspace s;
          sign = (if t \<noteq> [] \<and> hd t = 0x2D then - 1 else 1);
          u = (if t \<noteq> [] \<and> (hd t = 0x2D \<or> hd t = 0x2B) then tl t else t);
          v = (case u of c # d # e # _ \<Rightarrow> if c = 0x30 \<and> (d = 0x78 \<or> d = 0x58) \<and> hex_value e \<noteq> None then drop 2 u else u | _ \<Rightarrow> u)
      in sign * hex_number v)"

definition from_hex :: "bytes \<Rightarrow> bytes" where
  "from_hex b = map (\<lambda>i. of_int (strtol16 (cstr (take 2 (drop (i * 2) b))))) [0..<8]"

section \<open>The server\<close>

text \<open>
  The answer to a request: status and body, or \<open>None\<close> when one of the calls of the library fails.
  A run ends with \<open>Inl\<close> and a message when the program exits; the outer \<open>None\<close> is a write
  outside a buffer.
\<close>

type_synonym answer = "(bytes \<times> bytes) option"

definition store_key :: "(bytes \<Rightarrow> answer) \<Rightarrow> bytes \<Rightarrow> bytes + bytes" where
  "store_key server key =
     (case server (to_hex key) of
        None \<Rightarrow> Inl (str ''Encryption failed'')
      | Some (status, body) \<Rightarrow>
          let reply = cstr (take 1023 body)
          in if cstr status = str ''200'' then Inr reply else Inl (str ''HTTP '' @ cstr status @ str '': '' @ reply))"

text \<open>\<open>junk\<close> is what the buffer of 1024 bytes holds before.\<close>

definition retrieve_key :: "bytes \<Rightarrow> (bytes \<Rightarrow> answer) \<Rightarrow> bytes \<Rightarrow> (bytes + bytes) option" where
  "retrieve_key junk server i =
     (case server i of
        None \<Rightarrow> Some (Inl (str ''Decryption failed''))
      | Some (status, body) \<Rightarrow> do {
          let got = take 1024 body;
          buffer \<leftarrow> wr (got @ drop (length got) junk) (length got) 0;
          Some (if cstr status = str ''200'' then Inr (from_hex buffer)
                else Inl (str ''HTTP '' @ cstr status @ str '': '' @ cstr buffer))
        })"

section \<open>Files\<close>

text \<open>The contents, if the file can be opened.\<close>

definition read_file :: "bytes option \<Rightarrow> bytes + bytes" where
  "read_file f = (case f of None \<Rightarrow> Inl (str ''Could not open the file for reading'') | Some d \<Rightarrow> Inr d)"

text \<open>What the new file holds; with an invalid handle, nothing is written but the program goes on.\<close>

definition write_file :: "bool \<Rightarrow> bytes \<Rightarrow> bytes option" where
  "write_file exists d = (if exists then None else Some d)"

section \<open>Encrypting and decrypting\<close>

record result =
  shown :: bytes
  produced :: "bytes option"

text \<open>\<open>crypt\<close> is \<open>CryptEncrypt\<close> or \<open>CryptDecrypt\<close> with an imported key.\<close>

definition do_encrypt ::
  "(bytes \<Rightarrow> bytes \<Rightarrow> bytes option) \<Rightarrow> (bytes \<Rightarrow> answer) \<Rightarrow> u32 \<Rightarrow> bytes option \<Rightarrow> bool \<Rightarrow> bytes + result" where
  "do_encrypt crypt server now in_file out_exists =
     (case read_file in_file of
        Inl m \<Rightarrow> Inl m
      | Inr d \<Rightarrow>
          let key = generate_key now in
          (case crypt key d of
             None \<Rightarrow> Inl (str ''Encryption failed'')
           | Some c \<Rightarrow>
               (case store_key server key of
                  Inl m \<Rightarrow> Inl m
                | Inr i \<Rightarrow> Inr \<lparr>shown = i, produced = write_file out_exists c\<rparr>)))"

definition do_decrypt ::
  "(bytes \<Rightarrow> bytes \<Rightarrow> bytes option) \<Rightarrow> (bytes \<Rightarrow> answer) \<Rightarrow> bytes \<Rightarrow> bytes option \<Rightarrow> bool \<Rightarrow> bytes \<Rightarrow> (bytes + result) option" where
  "do_decrypt crypt server junk in_file out_exists i =
     (case read_file in_file of
        Inl m \<Rightarrow> Some (Inl m)
      | Inr d \<Rightarrow>
          map_option
            (\<lambda>k. case k of
               Inl m \<Rightarrow> Inl m
             | Inr key \<Rightarrow>
                 (case crypt key d of
                    None \<Rightarrow> Inl (str ''Decryption failed'')
                  | Some p \<Rightarrow> Inr \<lparr>shown = str ''File successfully decrypted!'', produced = write_file out_exists p\<rparr>))
            (retrieve_key junk server i))"

text \<open>What \<open>main\<close> does with the flags.\<close>

datatype choice = Usage | Encrypt | Decrypt bytes

definition main_choice :: "bool \<Rightarrow> bool \<Rightarrow> bytes option \<Rightarrow> choice" where
  "main_choice enc dec i =
     (if enc = dec then Usage
      else if dec then (case i of None \<Rightarrow> Usage | Some i \<Rightarrow> Decrypt i)
      else Encrypt)"

section \<open>The keys are a function of the clock\<close>

lemma length_fill_words [simp]: "length (fill_words k s) = k"
  by (induction k arbitrary: s) (simp_all add: Let_def)

text \<open>The \<open>i\<close>-th state of the linear generator.\<close>

fun lcg :: "u32 \<Rightarrow> nat \<Rightarrow> u32" where
  "lcg s 0 = s * 29945647 - 1"
| "lcg s (Suc i) = lcg s i * 29945647 - 1"

lemma lcg_Suc: "lcg (s * 29945647 - 1) i = lcg s (Suc i)"
  by (induction i) simp_all

lemma nth_fill: "i < k \<Longrightarrow> fill_words k s ! i = lcg s i"
  by (induction k arbitrary: i s) (auto simp: Let_def nth_Cons lcg_Suc simp del: lcg.simps(2) split: nat.split)

text \<open>The first words of the twisted state are those of the old one twisted.\<close>

lemma twist_steps:
  assumes "length xs = NN" "k \<le> 175"
  shows "length (fst (fold twist_step [0..<k] (xs, MM))) = NN \<and> snd (fold twist_step [0..<k] (xs, MM)) = MM + k \<and>
    (\<forall>i < NN. fst (fold twist_step [0..<k] (xs, MM)) ! i =
       (if i < k then twisted (xs ! i) (xs ! (i + 1)) (xs ! (i + MM)) else xs ! i))"
  using assms(2)
proof (induction k)
  case (Suc k)
  then show ?case by (auto simp: twist_step_def split_beta nth_list_update add.commute)
qed (simp add: assms(1))

lemma twist_step_keeps: "i < kk \<Longrightarrow> fst (twist_step kk p) ! i = fst p ! i"
  by (simp add: twist_step_def split_beta)

lemma fold_twist_keeps: "i < a \<Longrightarrow> fst (fold twist_step [a..<b] p) ! i = fst p ! i"
  by (induction b) (auto simp: twist_step_keeps)

lemma nth_twist:
  assumes "length xs = NN" "i < 175"
  shows "twist xs ! i = twisted (xs ! i) (xs ! (i + 1)) (xs ! (i + MM))"
proof -
  have "[0..<NN - 1] = [0..<175] @ [175..<NN - 1]" using upt_add_eq_append[of 0 175 175] by simp
  then have "fst (fold twist_step [0..<NN - 1] (xs, MM)) ! i = fst (fold twist_step [0..<175] (xs, MM)) ! i"
    using assms(2) by (simp only: fold_append comp_apply fold_twist_keeps)
  also have "\<dots> = twisted (xs ! i) (xs ! (i + 1)) (xs ! (i + MM))"
    using twist_steps[OF assms(1) order_refl] assms(2) by auto
  finally show ?thesis using assms(2) by (simp only: twist_def Let_def split_beta nth_list_update_neq)
qed

definition key_byte :: "u32 \<Rightarrow> nat \<Rightarrow> u8" where
  "key_byte now i = ucast (temper (twisted (lcg now i) (lcg now (i + 1)) (lcg now (i + 175)))) XOR 0x55"

lemma myrand_after:
  assumes "length v = NN" "i < 175"
  shows "myrand \<lparr>mt = twist v, mti = i\<rparr> = (temper (twisted (v ! i) (v ! (i + 1)) (v ! (i + MM))), \<lparr>mt = twist v, mti = Suc i\<rparr>)"
  using assms(2) nth_twist[OF assms] by (simp add: myrand_def Let_def)

lemma myrand_first: "myrand (mysrand now) = myrand \<lparr>mt = twist (fill_words NN now), mti = 0\<rparr>"
  by (simp add: myrand_def mysrand_def)

lemma key_loop_after:
  assumes "i + k \<le> 175"
  shows "key_loop k \<lparr>mt = twist (fill_words NN now), mti = i\<rparr> = map (key_byte now) [i..<i + k]"
  using assms
proof (induction k arbitrary: i)
  case (Suc k)
  have "myrand \<lparr>mt = twist (fill_words NN now), mti = i\<rparr> =
      (temper (twisted (lcg now i) (lcg now (i + 1)) (lcg now (i + 175))), \<lparr>mt = twist (fill_words NN now), mti = Suc i\<rparr>)"
    using Suc.prems by (subst myrand_after) (simp_all add: nth_fill)
  moreover have "y AND 0xFF = y" for y :: u8
  proof -
    have "(0xFF :: u8) = - 1" by simp
    then show ?thesis by (simp only: and.right_neutral)
  qed
  moreover have "[i..<i + Suc k] = i # [Suc i..<Suc i + k]" by (simp add: upt_conv_Cons)
  ultimately show ?case using Suc.IH[of "Suc i"] Suc.prems by (simp add: key_byte_def)
qed simp

lemma generate_key_bytes: "generate_key now = map (key_byte now) [0..<8]"
proof -
  have "generate_key now = key_loop 8 \<lparr>mt = twist (fill_words NN now), mti = 0\<rparr>"
  proof -
    have "key_loop (Suc 7) (mysrand now) = key_loop (Suc 7) \<lparr>mt = twist (fill_words NN now), mti = 0\<rparr>"
      by (simp only: key_loop.simps myrand_first)
    then show ?thesis by (simp only: generate_key_def Suc_numeral semiring_norm)
  qed
  then show ?thesis using key_loop_after[of 0 8 now] by simp
qed

text \<open>The states are affine in the seed.\<close>

lemma lcg_affine: "lcg s i = s * 29945647 ^ Suc i - (\<Sum>j\<le>i. 29945647 ^ j)"
proof (induction i)
  case (Suc i)
  have "lcg s (Suc i) = s * 29945647 ^ Suc (Suc i) - ((\<Sum>j\<le>i. 29945647 ^ Suc j) + 1)"
    unfolding lcg.simps Suc by (simp add: sum_distrib_left algebra_simps)
  also have "(\<Sum>j\<le>i. 29945647 ^ Suc j) + 1 = (\<Sum>j\<le>Suc i. 29945647 ^ j :: u32)"
    by (subst sum.atMost_Suc_shift) simp
  finally show ?case .
qed simp

section \<open>Keys survive their text form\<close>

lemma uint_halves: "16 * uint (drop_bit 4 x) + uint (x AND 15) = uint (x :: u8)"
proof -
  have m: "(15 :: u8) = mask 4" by (simp add: mask_eq_exp_minus_1)
  have "uint (x AND 15) = uint x mod 16" unfolding m take_bit_eq_mask[symmetric] unsigned_take_bit_eq
    by (simp only: take_bit_eq_mod) simp
  moreover have "uint (drop_bit 4 x) = uint x div 16" 
    by (simp only: drop_bit_eq_div uint_div) simp
  ultimately show ?thesis by (simp only: mult_div_mod_eq)
qed

lemma strtol16_hex2: "strtol16 (cstr (hex2 x)) = uint x"
proof -
  define a where "a = drop_bit 4 x"
  define b where "b = x AND 15"
  have n: "a < 16" "b < 16" unfolding a_def b_def by (rule nibble_less_16)+
  have h: "hex2 x = [hex_digit a, hex_digit b]" by (simp add: hex2_def a_def b_def)
  have "cstr (hex2 x) = [hex_digit a, hex_digit b]"
    unfolding h using hex_digit_graphic[OF n(1)] hex_digit_graphic[OF n(2)] by (simp add: cstr_def)
  then have "strtol16 (cstr (hex2 x)) = 16 * uint a + uint b"
    using hex_digit_graphic[OF n(1)] hex_value_digit[OF n(1)] hex_value_digit[OF n(2)]
    by (simp add: strtol16_def hex_number_def)
  then show ?thesis unfolding a_def b_def uint_halves .
qed

lemma hex_bytes_pair: "i < length key \<Longrightarrow> take 2 (drop (i * 2) (hex_bytes key @ r)) = hex2 (key ! i)"
proof (induction key arbitrary: i)
  case (Cons x key)
  then show ?case by (cases i) simp_all
qed simp

lemma from_hex_to_hex: "length key = 8 \<Longrightarrow> from_hex (to_hex key @ r) = key"
proof (rule nth_equalityI)
  fix i assume k: "length key = 8" and i: "i < length (from_hex (to_hex key @ r))"
  then have "i < length key" by (simp add: from_hex_def)
  from hex_bytes_pair[OF this, of r] show "from_hex (to_hex key @ r) ! i = key ! i"
    using i k by (simp add: from_hex_def to_hex_def strtol16_hex2)
qed (simp add: from_hex_def)

interpretation key_text: codec "\<lambda>k. length k = 8" to_hex "\<lambda>t. Some (from_hex t)"
  using from_hex_to_hex[of _ "[]"] by unfold_locales simp

lemma length_generate_key [simp]: "length (generate_key now) = 8"
  by (simp add: generate_key_bytes)

text \<open>An answer of the server that fills the buffer is ended outside it.\<close>

lemma retrieve_key_overflow: "server i = Some (status, body) \<Longrightarrow> 1024 \<le> length body \<Longrightarrow> length junk = 1024 \<Longrightarrow> retrieve_key junk server i = None"
  by (simp add: retrieve_key_def wr_def)

lemma retrieve_key_gets:
  assumes "server i = Some (str ''200'', to_hex key)" "length key = 8" "length junk = 1024"
  shows "retrieve_key junk server i = Some (Inr key)"
proof -
  have l: "length (to_hex key) = 16" using assms(2) by (simp add: to_hex_def)
  have "(to_hex key @ drop 16 junk)[16 := 0] = to_hex key @ (drop 16 junk)[0 := 0]" using l by (simp add: list_update_append)
  moreover have "cstr (str ''200'') = str ''200''" by code_simp
  ultimately show ?thesis using assms l by (simp add: retrieve_key_def Let_def wr_def from_hex_to_hex)
qed

section \<open>Properties\<close>

text \<open>
  A key is a function of the second it was made in. Although the generator twists a table of 351
  words, the eight bytes of a key depend on no more than the clock, by a formula over sixteen words that
  are affine in it: with the time of the encryption known, so is the key.
\<close>

lemma key_from_clock:
  "generate_key now =
    (let st = (\<lambda>i. now * 29945647 ^ Suc i - (\<Sum>j\<le>i. 29945647 ^ j))
     in map (\<lambda>i. ucast (temper (twisted (st i) (st (i + 1)) (st (i + 175)))) XOR 0x55) [0..<8])"
  by (simp add: generate_key_bytes key_byte_def Let_def lcg_affine del: power_Suc)

text \<open>
  C39: what is encrypted can be decrypted. If the encryption of a file succeeds, the library's
  decryption undoes its encryption and the server gives back, under the id it answered, the text it was
  sent, then decrypting the file produced with that id succeeds and produces the original.
\<close>

theorem chameleon_roundtrip:
  assumes "do_encrypt enc store now (Some d) False = Inr r"
    and "\<And>k c. enc k d = Some c \<Longrightarrow> dec k c = Some d"
    and "\<And>status body. store (to_hex (generate_key now)) = Some (status, body) \<Longrightarrow>
      retrieve (cstr (take 1023 body)) = Some (str ''200'', to_hex (generate_key now))"
    and "length junk = 1024"
  shows "do_decrypt dec retrieve junk (produced r) False (shown r) =
    Some (Inr \<lparr>shown = str ''File successfully decrypted!'', produced = Some d\<rparr>)"
proof -
  obtain c where c: "enc (generate_key now) d = Some c" "produced r = Some c"
    using assms(1) by (auto simp: do_encrypt_def read_file_def write_file_def Let_def split: option.splits sum.splits)
  obtain status body where s: "store (to_hex (generate_key now)) = Some (status, body)" "shown r = cstr (take 1023 body)"
    using assms(1) by (auto simp: do_encrypt_def read_file_def store_key_def Let_def split: option.splits sum.splits prod.splits if_splits)
  have "retrieve_key junk retrieve (shown r) = Some (Inr (generate_key now))"
    unfolding s(2) by (rule retrieve_key_gets) (use assms(3)[OF s(1)] assms(4) in simp_all)
  then show ?thesis using assms(2)[OF c(1)] c(2) by (simp add: do_decrypt_def read_file_def write_file_def)
qed

theorem chameleon_roundtrip_witness:
  "do_decrypt (\<lambda>k c. if take 8 c = k then Some (drop 8 c) else None) (\<lambda>i. Some (str ''200'', to_hex (generate_key 77)))
     (replicate 1024 9) (Some (generate_key 77 @ str ''hi'')) False (str ''5'') =
    Some (Inr \<lparr>shown = str ''File successfully decrypted!'', produced = Some (str ''hi'')\<rparr>)"
proof -
  let ?r = "\<lparr>shown = str ''5'', produced = Some (generate_key 77 @ str ''hi'')\<rparr>"
  have "do_encrypt (\<lambda>k d. if length k = 8 then Some (k @ d) else None) (\<lambda>h. Some (str ''200'', str ''5'')) 77 (Some (str ''hi'')) False = Inr ?r"
    by (simp add: do_encrypt_def read_file_def write_file_def store_key_def str_def cstr_def)
  moreover have "(if length k = 8 then Some (k @ str ''hi'') else None) = Some c \<Longrightarrow>
      (if take 8 c = k then Some (drop 8 c) else None) = Some (str ''hi'')" for k c :: bytes
    by (auto split: if_splits)
  ultimately have "do_decrypt (\<lambda>k c. if take 8 c = k then Some (drop 8 c) else None) (\<lambda>i. Some (str ''200'', to_hex (generate_key 77)))
      (replicate 1024 9) (produced ?r) False (shown ?r) =
    Some (Inr \<lparr>shown = str ''File successfully decrypted!'', produced = Some (str ''hi'')\<rparr>)"
    by (rule chameleon_roundtrip) simp_all
  then show ?thesis by simp
qed

end
