(* ===== verification/Mpint.thy ===== *)
theory Mpint
  imports Prelude
begin

text \<open>
  \<open>maltty/challenge/src/mpint.c\<close>: the big numbers of PuTTY, first part: words, bytes, addition and
  subtraction, comparison, selection, shifts. A number is the list of its words, the least significant first;
  its width \<open>w\<close> (\<open>BIGNUM_INT_BITS\<close>: 16, 32 or 64) is a type parameter, as it is a build option
  in C. The functions write to a number of fixed size, which is the first argument here (\<open>r->nw\<close>); a
  loop writes word \<open>i\<close> after it has read the words \<open>i\<close> of its inputs, so that these may be the
  output itself. The code has no secret-dependent branches; what it does instead with masks is kept.
\<close>

section \<open>Words\<close>

definition mp_word :: "'w::len word list \<Rightarrow> nat \<Rightarrow> 'w word" where
  "mp_word x i = (if i < length x then x ! i else 0)"

text \<open>\<open>None\<close> is the assertion that there is a word.\<close>

definition mp_make_sized :: "nat \<Rightarrow> 'w::len word list option" where
  "mp_make_sized nw = (if nw = 0 then None else Some (replicate nw 0))"

definition mp_new :: "nat \<Rightarrow> 'w::len word list option" where
  "mp_new maxbits = mp_make_sized ((maxbits + LENGTH('w) - 1) div LENGTH('w))"

definition mp_clear :: "'w::len word list \<Rightarrow> 'w word list" where
  "mp_clear x = replicate (length x) 0"

definition mp_copy_into :: "nat \<Rightarrow> 'w::len word list \<Rightarrow> 'w word list" where
  "mp_copy_into nw src = (let copy_nw = min nw (length src) in take copy_nw src @ replicate (nw - copy_nw) 0)"

definition mp_select_into :: "nat \<Rightarrow> 'w::len word list \<Rightarrow> 'w word list \<Rightarrow> nat \<Rightarrow> 'w word list" where
  "mp_select_into nw src0 src1 which =
     (let mask = - (of_nat (which mod 2)) in
      map (\<lambda>i. let srcword0 = mp_word src0 i; srcword1 = mp_word src1 i
               in srcword0 XOR ((srcword1 XOR srcword0) AND mask)) [0..<nw])"

definition mp_cond_swap :: "'w::len word list \<Rightarrow> 'w word list \<Rightarrow> nat \<Rightarrow> ('w word list \<times> 'w word list) option" where
  "mp_cond_swap x0 x1 swap =
     (if length x0 \<noteq> length x1 then None
      else
        let mask = - (of_nat (swap mod 2));
            diff = map2 (\<lambda>u v. (u XOR v) AND mask) x0 x1
        in Some (map2 (XOR) x0 diff, map2 (XOR) x1 diff))"

definition mp_cond_clear :: "'w::len word list \<Rightarrow> nat \<Rightarrow> 'w word list" where
  "mp_cond_clear x clear = (let mask = NOT (- (of_nat (clear mod 2))) in map (\<lambda>u. u AND mask) x)"

section \<open>Addition and its relatives\<close>

text \<open>The sum and the carry off its top.\<close>

definition BignumADC :: "'w::len word \<Rightarrow> 'w word \<Rightarrow> 'w word \<Rightarrow> 'w word \<times> 'w word" where
  "BignumADC a b c =
     (let temp = unat a + unat b + unat c in (of_nat temp, of_nat (temp div 2 ^ LENGTH('w))))"

fun add_loop :: "('w::len word list) \<Rightarrow> ('w word list) \<Rightarrow> 'w word \<Rightarrow> 'w word \<Rightarrow> nat \<Rightarrow> nat \<Rightarrow> 'w word \<Rightarrow> 'w word list \<times> 'w word" where
  "add_loop a b b_and b_xor i 0 carry = ([], carry)"
| "add_loop a b b_and b_xor i (Suc n) carry =
     (let (out, carry) = BignumADC (mp_word a i) ((mp_word b i AND b_and) XOR b_xor) carry;
          (r, carry) = add_loop a b b_and b_xor (Suc i) n carry
      in (out # r, carry))"

definition mp_add_masked_into ::
  "nat \<Rightarrow> 'w::len word list \<Rightarrow> 'w word list \<Rightarrow> 'w word \<Rightarrow> 'w word \<Rightarrow> 'w word \<Rightarrow> 'w word list \<times> 'w word" where
  "mp_add_masked_into rw a b b_and b_xor carry = add_loop a b b_and b_xor 0 rw carry"

definition mp_add_into :: "nat \<Rightarrow> 'w::len word list \<Rightarrow> 'w word list \<Rightarrow> 'w word list" where
  "mp_add_into rw a b = fst (mp_add_masked_into rw a b (NOT 0) 0 0)"

definition mp_sub_into :: "nat \<Rightarrow> 'w::len word list \<Rightarrow> 'w word list \<Rightarrow> 'w word list" where
  "mp_sub_into rw a b = fst (mp_add_masked_into rw a b (NOT 0) (NOT 0) 1)"

definition mp_and_into :: "nat \<Rightarrow> 'w::len word list \<Rightarrow> 'w word list \<Rightarrow> 'w word list" where
  "mp_and_into rw a b = map (\<lambda>i. mp_word a i AND mp_word b i) [0..<rw]"

definition mp_or_into :: "nat \<Rightarrow> 'w::len word list \<Rightarrow> 'w word list \<Rightarrow> 'w word list" where
  "mp_or_into rw a b = map (\<lambda>i. mp_word a i OR mp_word b i) [0..<rw]"

definition mp_xor_into :: "nat \<Rightarrow> 'w::len word list \<Rightarrow> 'w word list \<Rightarrow> 'w word list" where
  "mp_xor_into rw a b = map (\<lambda>i. mp_word a i XOR mp_word b i) [0..<rw]"

definition mp_bic_into :: "nat \<Rightarrow> 'w::len word list \<Rightarrow> 'w word list \<Rightarrow> 'w word list" where
  "mp_bic_into rw a b = map (\<lambda>i. mp_word a i AND NOT (mp_word b i)) [0..<rw]"

fun negate_loop :: "'w::len word list \<Rightarrow> 'w word \<Rightarrow> nat \<Rightarrow> nat \<Rightarrow> 'w word \<Rightarrow> 'w word list" where
  "negate_loop x flip i 0 carry = []"
| "negate_loop x flip i (Suc n) carry =
     (let (out, carry) = BignumADC 0 (mp_word x i XOR flip) carry in out # negate_loop x flip (Suc i) n carry)"

text \<open>\<open>yes\<close> is 0 or 1.\<close>

definition mp_cond_negate :: "nat \<Rightarrow> 'w::len word list \<Rightarrow> nat \<Rightarrow> 'w word list" where
  "mp_cond_negate rw x yes = negate_loop x (- (of_nat yes)) 0 rw (of_nat yes)"

text \<open>The shift is compared with the number of bytes of a word, not with that of bits of \<open>b\<close>.\<close>

fun add_integer_loop ::
  "'w::len word list \<Rightarrow> u64 \<Rightarrow> 'w word \<Rightarrow> 'w word \<Rightarrow> nat \<Rightarrow> nat \<Rightarrow> 'w word \<Rightarrow> 'w word list \<times> 'w word" where
  "add_integer_loop a b b_and b_xor i 0 carry = ([], carry)"
| "add_integer_loop a b b_and b_xor i (Suc n) carry =
     (let shift = i * LENGTH('w);
          bword = (if shift < LENGTH('w) div 8 then ucast (drop_bit shift b) else 0);
          (out, carry) = BignumADC (mp_word a i) ((bword XOR b_xor) AND b_and) carry;
          (r, carry) = add_integer_loop a b b_and b_xor (Suc i) n carry
      in (out # r, carry))"

definition mp_add_integer_into :: "nat \<Rightarrow> 'w::len word list \<Rightarrow> u64 \<Rightarrow> 'w word list" where
  "mp_add_integer_into rw a n = fst (add_integer_loop a n (NOT 0) 0 0 rw 0)"

definition mp_sub_integer_into :: "nat \<Rightarrow> 'w::len word list \<Rightarrow> u64 \<Rightarrow> 'w word list" where
  "mp_sub_integer_into rw a n = fst (add_integer_loop a n (NOT 0) (NOT 0) 0 rw 1)"

text \<open>Product and summands, high and low word.\<close>

definition BignumMULADD2 :: "'w::len word \<Rightarrow> 'w word \<Rightarrow> 'w word \<Rightarrow> 'w word \<Rightarrow> 'w word \<times> 'w word" where
  "BignumMULADD2 a b c d =
     (let temp = unat a * unat b + unat c + unat d in (of_nat (temp div 2 ^ LENGTH('w)), of_nat temp))"

definition BignumMULADD :: "'w::len word \<Rightarrow> 'w word \<Rightarrow> 'w word \<Rightarrow> 'w word \<times> 'w word" where
  "BignumMULADD a b c = BignumMULADD2 a b c 0"

fun mul_integer_loop :: "'w::len word list \<Rightarrow> 'w word \<Rightarrow> nat \<Rightarrow> nat \<Rightarrow> 'w word \<Rightarrow> 'w word list \<times> 'w word" where
  "mul_integer_loop a mult i 0 carry = ([], carry)"
| "mul_integer_loop a mult i (Suc n) carry =
     (let (carry, out) = BignumMULADD (mp_word a i) mult carry;
          (r, carry) = mul_integer_loop a mult (Suc i) n carry
      in (out # r, carry))"

text \<open>\<open>None\<close> is the assertion that nothing is carried out.\<close>

definition mp_mul_integer_into :: "nat \<Rightarrow> 'w::len word list \<Rightarrow> u16 \<Rightarrow> 'w word list option" where
  "mp_mul_integer_into rw a n =
     (let (r, carry) = mul_integer_loop a (ucast n) 0 rw 0 in if carry = 0 then Some r else None)"

definition mp_cond_add_into :: "nat \<Rightarrow> 'w::len word list \<Rightarrow> 'w word list \<Rightarrow> nat \<Rightarrow> 'w word list" where
  "mp_cond_add_into rw a b yes = (let mask = - (of_nat (yes mod 2)) in fst (mp_add_masked_into rw a b mask 0 0))"

definition mp_cond_sub_into :: "nat \<Rightarrow> 'w::len word list \<Rightarrow> 'w word list \<Rightarrow> nat \<Rightarrow> 'w word list" where
  "mp_cond_sub_into rw a b yes =
     (let mask = - (of_nat (yes mod 2)) in fst (mp_add_masked_into rw a b mask mask (1 AND mask)))"

definition mp_neg_into :: "nat \<Rightarrow> 'w::len word list \<Rightarrow> 'w word list" where
  "mp_neg_into rw a = mp_sub_into rw [] a"

definition mp_add :: "'w::len word list \<Rightarrow> 'w word list \<Rightarrow> 'w word list option" where
  "mp_add x y = do { r :: 'w word list \<leftarrow> mp_make_sized (max (length x) (length y) + 1); Some (mp_add_into (length r) x y) }"

definition mp_sub :: "'w::len word list \<Rightarrow> 'w word list \<Rightarrow> 'w word list option" where
  "mp_sub x y = do { r :: 'w word list \<leftarrow> mp_make_sized (max (length x) (length y)); Some (mp_sub_into (length r) x y) }"

definition mp_neg :: "'w::len word list \<Rightarrow> 'w word list option" where
  "mp_neg a = do { r :: 'w word list \<leftarrow> mp_make_sized (length a); Some (mp_neg_into (length r) a) }"

section \<open>Comparison\<close>

definition normalise_to_1 :: "'w::len word \<Rightarrow> 'w word" where
  "normalise_to_1 n = (let n = drop_bit 1 n OR (n AND 1) in drop_bit (LENGTH('w) - 1) (- n))"

definition mp_cmp_hs :: "'w::len word list \<Rightarrow> 'w word list \<Rightarrow> 'w word" where
  "mp_cmp_hs a b = snd (mp_add_masked_into (max (length a) (length b)) a b (NOT 0) (NOT 0) 1)"

fun hs_integer_loop :: "'w::len word list \<Rightarrow> u64 \<Rightarrow> nat \<Rightarrow> 'w word \<Rightarrow> 'w word" where
  "hs_integer_loop [] n i carry = carry"
| "hs_integer_loop (x # xs) n i carry =
     (let shift = i * LENGTH('w);
          nword = (if shift < 64 then ucast (drop_bit shift n) else 0)
      in hs_integer_loop xs n (Suc i) (snd (BignumADC x (NOT nword) carry)))"

definition mp_hs_integer :: "'w::len word list \<Rightarrow> u64 \<Rightarrow> 'w word" where
  "mp_hs_integer x n = hs_integer_loop x n 0 1"

definition mp_cmp_eq :: "'w::len word list \<Rightarrow> 'w word list \<Rightarrow> 'w word" where
  "mp_cmp_eq a b =
     1 XOR normalise_to_1 (fold (\<lambda>i diff. diff OR (mp_word a i XOR mp_word b i)) [0..<max (length a) (length b)] 0)"

definition mp_eq_integer :: "'w::len word list \<Rightarrow> u64 \<Rightarrow> 'w word" where
  "mp_eq_integer x n =
     1 XOR normalise_to_1 (fold (\<lambda>i diff.
       let shift = i * LENGTH('w);
           nword = (if shift < 64 then ucast (drop_bit shift n) else 0)
       in diff OR (x ! i XOR nword)) [0..<length x] 0)"

definition mp_min_into :: "nat \<Rightarrow> 'w::len word list \<Rightarrow> 'w word list \<Rightarrow> 'w word list" where
  "mp_min_into rw x y = mp_select_into rw x y (unat (mp_cmp_hs x y))"

definition mp_max_into :: "nat \<Rightarrow> 'w::len word list \<Rightarrow> 'w word list \<Rightarrow> 'w word list" where
  "mp_max_into rw x y = mp_select_into rw y x (unat (mp_cmp_hs x y))"

section \<open>Shifts\<close>

definition lshift_word :: "'w::len word list \<Rightarrow> nat \<Rightarrow> nat \<Rightarrow> nat \<Rightarrow> 'w word" where
  "lshift_word a words bitoff i =
     (if i < words then 0
      else
        let x = mp_word a (i - words) in
        if bitoff \<noteq> 0 then
          let x = push_bit bitoff x
          in if i > words then x OR drop_bit (LENGTH('w) - bitoff) (mp_word a (i - words - 1)) else x
        else x)"

definition mp_lshift_fixed_into :: "nat \<Rightarrow> 'w::len word list \<Rightarrow> nat \<Rightarrow> 'w word list" where
  "mp_lshift_fixed_into rw a bits =
     (let words = bits div LENGTH('w); bitoff = bits mod LENGTH('w) in map (lshift_word a words bitoff) [0..<rw])"

definition rshift_word :: "'w::len word list \<Rightarrow> nat \<Rightarrow> nat \<Rightarrow> nat \<Rightarrow> 'w word" where
  "rshift_word a words bitoff i =
     (let x = mp_word a (i + words) in
      if bitoff \<noteq> 0 then drop_bit bitoff x OR push_bit (LENGTH('w) - bitoff) (mp_word a (i + words + 1)) else x)"

definition mp_rshift_fixed_into :: "nat \<Rightarrow> 'w::len word list \<Rightarrow> nat \<Rightarrow> 'w word list" where
  "mp_rshift_fixed_into rw a bits =
     (let words = bits div LENGTH('w); bitoff = bits mod LENGTH('w) in map (rshift_word a words bitoff) [0..<rw])"

definition mp_rshift_fixed :: "'w::len word list \<Rightarrow> nat \<Rightarrow> 'w word list option" where
  "mp_rshift_fixed x bits =
     (let words = bits div LENGTH('w); nw = length x - min (length x) words
      in do { r :: 'w word list \<leftarrow> mp_make_sized (max nw 1); Some (mp_rshift_fixed_into (length r) x bits) })"

definition mp_reduce_mod_2to :: "'w::len word list \<Rightarrow> nat \<Rightarrow> 'w word list" where
  "mp_reduce_mod_2to x p =
     (let word = p div LENGTH('w) in
      map (\<lambda>i. if i < word then x ! i
               else if i = word then x ! i AND (push_bit (p mod LENGTH('w)) 1 - 1)
               else 0) [0..<length x])"

section \<open>The value of a number\<close>

abbreviation base :: "'w::len itself \<Rightarrow> nat" where
  "base t \<equiv> 2 ^ LENGTH('w)"

fun mp_val :: "'w::len word list \<Rightarrow> nat" where
  "mp_val [] = 0"
| "mp_val (u # us) = unat u + base TYPE('w) * mp_val us"

lemma make_sized_pos [simp]: "0 < n \<Longrightarrow> mp_make_sized n = Some (replicate n 0)"
  by (simp add: mp_make_sized_def)

lemma base_pos [simp]: "0 < base TYPE('w::len)" "base TYPE('w::len) \<noteq> 0"
  by simp_all

lemma unat_less_base [simp]: "unat (u :: 'w::len word) < base TYPE('w)"
  by (rule unsigned_less)

lemma unat_of_nat_base: "unat (of_nat n :: 'w::len word) = n mod base TYPE('w)"
  by (simp add: unat_of_nat)

lemma mp_val_append: "mp_val (xs @ ys :: 'w::len word list) = mp_val xs + base TYPE('w) ^ length xs * mp_val ys"
  by (induction xs) (simp_all add: algebra_simps)

lemma mp_val_less: "mp_val (xs :: 'w::len word list) < base TYPE('w) ^ length xs"
proof (induction xs)
  case (Cons x xs)
  have "mp_val (x # xs) < base TYPE('w) + base TYPE('w) * mp_val xs" by simp
  also have "\<dots> = base TYPE('w) * Suc (mp_val xs)" by simp
  also have "\<dots> \<le> base TYPE('w) * base TYPE('w) ^ length xs" using Cons by (intro mult_le_mono2) simp
  finally show ?case by simp
qed simp

lemma mp_val_replicate_0 [simp]: "mp_val (replicate n 0) = 0"
  by (induction n) simp_all

lemma mp_val_take_drop:
  "mp_val (take n xs) = mp_val (xs :: 'w::len word list) mod base TYPE('w) ^ n \<and>
   mp_val (drop n xs) = mp_val xs div base TYPE('w) ^ n"
proof (cases "n \<le> length xs")
  case True
  have v: "mp_val xs = mp_val (take n xs) + base TYPE('w) ^ n * mp_val (drop n xs)"
    using mp_val_append[of "take n xs" "drop n xs"] True by simp
  have "mp_val (take n xs) < base TYPE('w) ^ n" using mp_val_less[of "take n xs"] True by simp
  then show ?thesis unfolding v by simp
next
  case False
  then have "mp_val xs < base TYPE('w) ^ n"
    using less_le_trans[OF mp_val_less[of xs] power_increasing[of "length xs" n "base TYPE('w)"]] by simp
  then show ?thesis using False by simp
qed

lemmas mp_val_take = conjunct1[OF mp_val_take_drop]
lemmas mp_val_drop = conjunct2[OF mp_val_take_drop]

lemma mp_val_inj: "length xs = length ys \<Longrightarrow> mp_val xs = mp_val ys \<Longrightarrow> xs = (ys :: 'w::len word list)"
proof (induction xs ys rule: list_induct2)
  case (Cons x xs y ys)
  have e: "unat x + base TYPE('w) * mp_val xs = unat y + base TYPE('w) * mp_val ys" using Cons.prems by simp
  have "unat x = unat y" using arg_cong[OF e, of "\<lambda>n. n mod base TYPE('w)"] by simp
  moreover have "mp_val xs = mp_val ys" using arg_cong[OF e, of "\<lambda>n. n div base TYPE('w)"] by simp
  ultimately show ?case using Cons.IH by (simp add: word_unat_eq_iff)
qed simp

text \<open>The words read at \<open>n\<close> places from \<open>i\<close> on.\<close>

definition words_at :: "'w::len word list \<Rightarrow> nat \<Rightarrow> nat \<Rightarrow> 'w word list" where
  "words_at a i n = map (mp_word a) [i..<i + n]"

lemma words_at_0 [simp]: "words_at a i 0 = []"
  by (simp add: words_at_def)

lemma words_at_Suc: "words_at a i (Suc n) = mp_word a i # words_at a (Suc i) n"
  by (simp add: words_at_def upt_conv_Cons del: upt_Suc)

lemma length_words_at [simp]: "length (words_at a i n) = n"
  by (simp add: words_at_def)

lemma words_at_eq: "words_at a i n = take n (drop i a) @ replicate (n - (length a - i)) 0"
  by (rule nth_equalityI) (auto simp: words_at_def mp_word_def nth_append)

lemma mp_val_words_at: "mp_val (words_at a i n) = mp_val (a :: 'w::len word list) div base TYPE('w) ^ i mod base TYPE('w) ^ n"
  by (simp add: words_at_eq mp_val_append mp_val_take mp_val_drop)

lemma copy_into_eq: "mp_copy_into n a = words_at a 0 n"
  by (cases "n \<le> length a") (simp_all add: mp_copy_into_def Let_def words_at_eq min_def)

lemma mp_val_copy_into: "mp_val (mp_copy_into n a) = mp_val (a :: 'w::len word list) mod base TYPE('w) ^ n"
  by (simp add: copy_into_eq mp_val_words_at)

lemma length_copy_into [simp]: "length (mp_copy_into n a) = n"
  by (simp add: mp_copy_into_def Let_def)

lemma mp_val_not: "mp_val (map NOT xs :: 'w::len word list) + mp_val xs + 1 = base TYPE('w) ^ length xs"
proof (induction xs)
  case (Cons x xs)
  have "unat (NOT x) + unat x + 1 = base TYPE('w)"
  proof -
    have n: "NOT x = - 1 - x" by (simp add: not_eq_complement)
    have "unat (NOT x) = unat (- 1 :: 'w word) - unat x" unfolding n by (rule unat_sub) (rule word_order.extremum)
    then have "unat (NOT x) = base TYPE('w) - 1 - unat x" by (simp add: unsigned_minus_1_eq_mask mask_eq_exp_minus_1)
    then show ?thesis using unat_less_base[of x] by linarith
  qed
  then have "mp_val (map NOT (x # xs)) + mp_val (x # xs) + 1 = base TYPE('w) * (mp_val (map NOT xs) + mp_val xs + 1)"
    by (simp add: algebra_simps)
  also have "\<dots> = base TYPE('w) * base TYPE('w) ^ length xs" by (simp only: Cons)
  finally show ?case by simp
qed simp

section \<open>Sums\<close>

lemma BignumADC_val:
  "BignumADC a b c = (r, d) \<Longrightarrow> unat (c :: 'w::len word) \<le> 1 \<Longrightarrow>
    unat r + base TYPE('w) * unat d = unat a + unat b + unat c \<and> unat d \<le> 1"
proof -
  assume r: "BignumADC a b c = (r, d)" and c: "unat c \<le> 1"
  let ?t = "unat a + unat b + unat c"
  have "?t < 2 * base TYPE('w)" using unat_less_base[of a] unat_less_base[of b] c by linarith
  then have d: "?t div base TYPE('w) < 2" by (simp add: less_mult_imp_div_less mult.commute)
  have "base TYPE('w) \<ge> 2" using self_le_power[of 2 "LENGTH('w)"] by simp
  then have "unat d = ?t div base TYPE('w)" "unat r = ?t mod base TYPE('w)"
    using r d by (auto simp: BignumADC_def Let_def unat_of_nat_base simp del: of_nat_add)
  then show ?thesis using d by simp
qed

lemma add_loop_val:
  "add_loop a b b_and b_xor i n c = (r, d) \<Longrightarrow> unat (c :: 'w::len word) \<le> 1 \<Longrightarrow>
    length r = n \<and> unat d \<le> 1 \<and>
    mp_val r + base TYPE('w) ^ n * unat d =
      mp_val (words_at a i n) + mp_val (map (\<lambda>u. (u AND b_and) XOR b_xor) (words_at b i n)) + unat c"
proof (induction n arbitrary: i r c)
  case (Suc n)
  obtain x e where x: "BignumADC (mp_word a i) ((mp_word b i AND b_and) XOR b_xor) c = (x, e)" by fastforce
  obtain r' where r: "add_loop a b b_and b_xor (Suc i) n e = (r', d)" "r = x # r'"
    using Suc.prems(1) x by (auto split: prod.splits)
  note X = BignumADC_val[OF x Suc.prems(2)]
  have IH: "length r' = n" "unat d \<le> 1" "mp_val r' + base TYPE('w) ^ n * unat d =
      mp_val (words_at a (Suc i) n) + mp_val (map (\<lambda>u. (u AND b_and) XOR b_xor) (words_at b (Suc i) n)) + unat e"
    using Suc.IH[OF r(1)] X by auto
  have "mp_val r + base TYPE('w) ^ Suc n * unat d = unat x + base TYPE('w) * (mp_val r' + base TYPE('w) ^ n * unat d)"
    by (simp add: r(2) algebra_simps)
  then show ?case unfolding IH(3) using X IH(1,2) by (simp add: words_at_Suc r(2) algebra_simps)
qed simp

lemma mask_all: "map (\<lambda>u. (u AND NOT 0) XOR 0) xs = (xs :: 'w::len word list)"
  "map (\<lambda>u. (u AND NOT 0) XOR NOT 0) xs = map NOT (xs :: 'w::len word list)"
  by (simp_all add: xor.commute)

lemma mp_add_carry:
  assumes "mp_add_masked_into n a b (NOT 0) 0 0 = (r, d)"
  shows "length r = n" "mp_val (r :: 'w::len word list) + base TYPE('w) ^ n * unat d =
    mp_val a mod base TYPE('w) ^ n + mp_val b mod base TYPE('w) ^ n"
  using add_loop_val[OF assms[unfolded mp_add_masked_into_def]] by (simp_all add: mask_all mp_val_words_at)

lemma length_add_into [simp]: "length (mp_add_into n a b) = n"
  unfolding mp_add_into_def by (cases "mp_add_masked_into n a b (NOT 0) 0 0") (simp add: mp_add_carry)

lemma mp_val_add_into: "mp_val (mp_add_into n a b) = (mp_val a + mp_val b) mod base TYPE('w) ^ n"
  for a b :: "'w::len word list"
proof -
  obtain r d where r: "mp_add_masked_into n a b (NOT 0) 0 0 = (r, d)" by fastforce
  have "mp_val r < base TYPE('w) ^ n" using mp_val_less[of r] mp_add_carry(1)[OF r] by simp
  then have "mp_val r = (mp_val r + base TYPE('w) ^ n * unat d) mod base TYPE('w) ^ n" by simp
  also have "\<dots> = (mp_val a + mp_val b) mod base TYPE('w) ^ n" unfolding mp_add_carry(2)[OF r] by (simp add: mod_add_eq)
  finally show ?thesis unfolding mp_add_into_def r fst_conv .
qed

lemma mp_sub_carry:
  assumes "mp_add_masked_into n a b (NOT 0) (NOT 0) 1 = (r, d)"
  shows "length r = n" "mp_val (r :: 'w::len word list) + base TYPE('w) ^ n * unat d + mp_val b mod base TYPE('w) ^ n =
    mp_val a mod base TYPE('w) ^ n + base TYPE('w) ^ n" "unat d \<le> 1"
proof -
  note L = add_loop_val[OF assms[unfolded mp_add_masked_into_def], simplified mask_all mp_val_words_at]
  show "length r = n" "unat d \<le> 1" using L by auto
  have "mp_val (map NOT (words_at b 0 n)) + mp_val b mod base TYPE('w) ^ n + 1 = base TYPE('w) ^ n"
    using mp_val_not[of "words_at b 0 n"] by (simp add: mp_val_words_at)
  then show "mp_val r + base TYPE('w) ^ n * unat d + mp_val b mod base TYPE('w) ^ n = mp_val a mod base TYPE('w) ^ n + base TYPE('w) ^ n"
    using L by simp
qed

lemma length_sub_into [simp]: "length (mp_sub_into n a b) = n"
  unfolding mp_sub_into_def by (cases "mp_add_masked_into n a b (NOT 0) (NOT 0) 1") (simp add: mp_sub_carry)

text \<open>The difference modulo the size of the result, over the integers.\<close>

lemma mp_val_sub_into: "int (mp_val (mp_sub_into n a b)) = (int (mp_val a) - int (mp_val b)) mod int (base TYPE('w) ^ n)"
  for a b :: "'w::len word list"
proof -
  let ?B = "base TYPE('w) ^ n"
  obtain r d where r: "mp_add_masked_into n a b (NOT 0) (NOT 0) 1 = (r, d)" by fastforce
  have l: "mp_val r < ?B" using mp_val_less[of r] mp_sub_carry(1)[OF r] by simp
  have "int (mp_val r + ?B * unat d + mp_val b mod ?B) = int (mp_val a mod ?B + ?B)"
    by (simp only: mp_sub_carry(2)[OF r])
  then have "int (mp_val r) = int (mp_val a mod ?B) - int (mp_val b mod ?B) + int ?B * (1 - int (unat d))"
    by (simp add: algebra_simps)
  then have "int (mp_val r) mod int ?B = (int (mp_val a mod ?B) - int (mp_val b mod ?B)) mod int ?B"
    by simp
  moreover have "int (mp_val r) mod int ?B = int (mp_val r)" unfolding zmod_int[symmetric] using l by simp
  ultimately show ?thesis unfolding mp_sub_into_def r fst_conv by (simp add: zmod_int mod_diff_eq)
qed

lemma mp_val_sub_into_le: "mp_val b \<le> mp_val a \<Longrightarrow> mp_val a < base TYPE('w) ^ n \<Longrightarrow> mp_val (mp_sub_into n a b) = mp_val a - mp_val b"
  for a b :: "'w::len word list"
  using mp_val_sub_into[of n a b] by (simp add: of_nat_diff[symmetric] zmod_int[symmetric] del: of_nat_diff of_nat_power)

lemma mp_cmp_hs_iff: "unat (mp_cmp_hs a b) = (if mp_val b \<le> mp_val a then 1 else 0)"
  for a b :: "'w::len word list"
proof -
  let ?n = "max (length a) (length b)"
  obtain r d where r: "mp_add_masked_into ?n a b (NOT 0) (NOT 0) 1 = (r, d)" by fastforce
  have l: "mp_val r < base TYPE('w) ^ ?n" using mp_val_less[of r] mp_sub_carry(1)[OF r] by simp
  have "mp_val a < base TYPE('w) ^ ?n" "mp_val b < base TYPE('w) ^ ?n"
    using less_le_trans[OF mp_val_less[of a] power_increasing[of "length a" ?n]]
      less_le_trans[OF mp_val_less[of b] power_increasing[of "length b" ?n]] by simp_all
  then have e: "mp_val r + base TYPE('w) ^ ?n * unat d + mp_val b = mp_val a + base TYPE('w) ^ ?n"
    using mp_sub_carry(2)[OF r] by simp
  have "unat d = 0 \<or> unat d = 1" using mp_sub_carry(3)[OF r] by linarith
  then have "unat d = (if mp_val b \<le> mp_val a then 1 else 0)"
    using e l by auto
  then show ?thesis unfolding mp_cmp_hs_def r snd_conv .
qed

section \<open>Masks\<close>

lemma minus_mod2: "- (of_nat (k mod 2)) = (if odd k then - 1 else 0 :: 'w::len word)"
  by (cases "odd k") (simp_all add: mod2_eq_if)

lemma mask_zero: "map (\<lambda>u. (u AND 0) XOR 0) xs = replicate (length xs) (0 :: 'w::len word)"
  by (induction xs) simp_all

lemma mp_val_cond_add_into:
  "mp_val (mp_cond_add_into n a b yes) = (mp_val a + (if odd yes then mp_val b else 0)) mod base TYPE('w) ^ n"
  for a b :: "'w::len word list"
proof (cases "odd yes")
  case True
  then show ?thesis using mp_val_add_into[of n a b] by (simp add: mp_cond_add_into_def mp_add_into_def minus_mod2)
next
  case False
  obtain r d where r: "mp_add_masked_into n a b 0 0 0 = (r, d)" by fastforce
  note L = add_loop_val[OF r[unfolded mp_add_masked_into_def], simplified mask_zero mp_val_words_at]
  have "mp_val r < base TYPE('w) ^ n" using mp_val_less[of r] L by simp
  then have "mp_val r = (mp_val r + base TYPE('w) ^ n * unat d) mod base TYPE('w) ^ n" by simp
  also have "\<dots> = mp_val a mod base TYPE('w) ^ n" using L by simp
  finally show ?thesis using False by (simp add: mp_cond_add_into_def minus_mod2 r)
qed

lemma mp_val_cond_sub_into:
  "int (mp_val (mp_cond_sub_into n a b yes)) =
    (int (mp_val a) - (if odd yes then int (mp_val b) else 0)) mod int (base TYPE('w) ^ n)"
  for a b :: "'w::len word list"
proof (cases "odd yes")
  case True
  then show ?thesis using mp_val_sub_into[of n a b] by (simp add: mp_cond_sub_into_def mp_sub_into_def minus_mod2 Let_def)
next
  case False
  then have "mp_cond_sub_into n a b yes = mp_cond_add_into n a b yes"
    by (simp add: mp_cond_sub_into_def mp_cond_add_into_def minus_mod2)
  then show ?thesis using False mp_val_cond_add_into[of n a b yes] by (simp add: zmod_int)
qed

lemma length_cond_add_into [simp]: "length (mp_cond_add_into n a b yes) = n"
  using add_loop_val[of a b "- (of_nat (yes mod 2))" 0 0 n 0]
  by (cases "add_loop a b (- (of_nat (yes mod 2))) 0 0 n 0") (simp add: mp_cond_add_into_def mp_add_masked_into_def Let_def)

lemma length_cond_sub_into [simp]: "length (mp_cond_sub_into n a b yes) = n"
  by (cases "odd yes")
    (use add_loop_val[of a b "- 1" "- 1" 0 n 1] add_loop_val[of a b 0 0 0 n 0] in
      \<open>auto simp: mp_cond_sub_into_def mp_add_masked_into_def Let_def minus_mod2 fst_def split: prod.split\<close>)

text \<open>Choosing, swapping and clearing do what the condition says.\<close>

lemma mp_select_into_eq: "mp_select_into n x y which = words_at (if odd which then y else x) 0 n"
  by (cases "odd which") (simp_all add: mp_select_into_def words_at_def minus_mod2 Let_def xor.assoc[symmetric] xor.commute)

lemma mp_cond_swap_eq:
  "length x = length y \<Longrightarrow> mp_cond_swap x y swap = Some (if odd swap then (y, x) else (x, y))"
  for x y :: "'w::len word list"
proof -
  assume l: "length x = length y"
  have e: "u XOR (u XOR v) = v" "v XOR (u XOR v) = u" for u v :: "'w word"
    by (rule bit_word_eqI, auto simp: bit_xor_iff)+
  show ?thesis
  proof (cases "odd swap")
    case True
    then have "map2 (XOR) x (map2 (\<lambda>u v. (u XOR v) AND - (of_nat (swap mod 2))) x y) = y"
      "map2 (XOR) y (map2 (\<lambda>u v. (u XOR v) AND - (of_nat (swap mod 2))) x y) = x"
      unfolding minus_mod2 using l by (simp_all add: list_eq_iff_nth_eq e)
    then show ?thesis using l True by (simp add: mp_cond_swap_def Let_def)
  next
    case False
    then have "map2 (XOR) x (map2 (\<lambda>u v. (u XOR v) AND - (of_nat (swap mod 2))) x y) = x"
      "map2 (XOR) y (map2 (\<lambda>u v. (u XOR v) AND - (of_nat (swap mod 2))) x y) = y"
      unfolding minus_mod2 using l by (simp_all add: list_eq_iff_nth_eq)
    then show ?thesis using l False by (simp add: mp_cond_swap_def Let_def)
  qed
qed

lemma mp_cond_clear_eq: "mp_cond_clear x clear = (if odd clear then mp_clear x else x)"
  by (induction x) (simp_all add: mp_cond_clear_def mp_clear_def minus_mod2)

section \<open>Bits\<close>

lemma bit_mp_val: "bit (mp_val x) i \<longleftrightarrow> bit (mp_word x (i div LENGTH('w))) (i mod LENGTH('w))"
  for x :: "'w::len word list"
proof (induction x arbitrary: i)
  case (Cons u us)
  let ?v = "mp_val (u # us)"
  have t: "take_bit LENGTH('w) ?v = unat u" "drop_bit LENGTH('w) ?v = mp_val us"
    by (simp_all add: take_bit_eq_mod drop_bit_eq_div)
  show ?case
  proof (cases "i < LENGTH('w)")
    case True
    have "bit ?v i \<longleftrightarrow> bit (take_bit LENGTH('w) ?v) i" using True by (simp add: bit_take_bit_iff)
    also have "\<dots> \<longleftrightarrow> bit u i" unfolding t using True by (simp add: bit_unsigned_iff)
    finally show ?thesis using True by (simp add: mp_word_def)
  next
    case False
    then obtain j where j: "i = LENGTH('w) + j" using le_Suc_ex not_less by blast
    have "bit ?v i \<longleftrightarrow> bit (drop_bit LENGTH('w) ?v) j" unfolding j by (simp add: bit_drop_bit_eq)
    also have "\<dots> \<longleftrightarrow> bit (mp_word us (j div LENGTH('w))) (j mod LENGTH('w))" unfolding t by (rule Cons)
    also have "\<dots> \<longleftrightarrow> bit (mp_word (u # us) (i div LENGTH('w))) (i mod LENGTH('w))"
      unfolding j by (simp add: mp_word_def div_add_self1)
    finally show ?thesis .
  qed
qed (simp add: mp_word_def)

lemma mp_val_bitI:
  fixes x :: "'w::len word list"
  assumes "\<And>i j. i < length x \<Longrightarrow> j < LENGTH('w) \<Longrightarrow> bit (x ! i) j \<longleftrightarrow> bit v (i * LENGTH('w) + j)"
  shows "mp_val x = v mod base TYPE('w) ^ length x"
proof (rule bit_eqI)
  fix k
  let ?i = "k div LENGTH('w)"
  have p: "base TYPE('w) ^ length x = 2 ^ (length x * LENGTH('w))" by (simp add: power_mult[symmetric] mult.commute)
  have "bit (mp_val x) k \<longleftrightarrow> ?i < length x \<and> bit v k"
    using assms[of ?i "k mod LENGTH('w)"] by (auto simp: bit_mp_val mp_word_def)
  also have "\<dots> \<longleftrightarrow> k < length x * LENGTH('w) \<and> bit v k" by (simp add: div_less_iff_less_mult)
  finally show "bit (mp_val x) k \<longleftrightarrow> bit (v mod base TYPE('w) ^ length x) k"
    unfolding p by (simp flip: take_bit_eq_mod add: bit_take_bit_iff)
qed

lemma split_index:
  assumes "j < w" "0 < w" shows "(i * w + j) div w = (i :: nat)" "(i * w + j) mod w = j"
  using assms by simp_all

lemma bit_mp_val_at: "j < LENGTH('w) \<Longrightarrow> bit (mp_val x) (i * LENGTH('w) + j) \<longleftrightarrow> bit (mp_word x i) j"
  for x :: "'w::len word list"
  by (simp add: bit_mp_val split_index)

lemma bit_lshift_word:
  fixes a :: "'w::len word list"
  assumes "j < LENGTH('w)" "off < LENGTH('w)"
  shows "bit (lshift_word a words off i) j \<longleftrightarrow>
    words * LENGTH('w) + off \<le> i * LENGTH('w) + j \<and> bit (mp_val a) (i * LENGTH('w) + j - (words * LENGTH('w) + off))"
proof -
  let ?w = "LENGTH('w)"
  consider "i < words" | q where "i = words + q" "off \<le> j" | "i = words" "j < off" | q where "i = words + Suc q" "j < off"
    by (metis add.right_neutral add_diff_inverse_nat not_less old.nat.exhaust)
  then show ?thesis
  proof cases
    case 1
    then have "i * ?w + ?w \<le> words * ?w" using mult_le_mono1[of "Suc i" words ?w] by simp
    then show ?thesis using 1 assms by (simp add: lshift_word_def)
  next
    case (2 q)
    then have e: "i * ?w + j - (words * ?w + off) = q * ?w + (j - off)" "words * ?w + off \<le> i * ?w + j"
      by (simp_all add: algebra_simps)
    have l: "j - off < ?w" using assms by linarith
    have "\<not> bit (mp_word a (q - 1)) (?w - off + j)" using 2 assms by (auto dest: bit_imp_le_length)
    then have "bit (lshift_word a words off i) j \<longleftrightarrow> bit (mp_word a q) (j - off)"
      using 2 assms by (auto simp: lshift_word_def bit_simps Let_def add.commute)
    then show ?thesis unfolding e(1) bit_mp_val_at[OF l] using e(2) by simp
  next
    case 3
    then show ?thesis using assms by (simp add: lshift_word_def bit_simps)
  next
    case (4 q)
    then have e: "i * ?w + j - (words * ?w + off) = q * ?w + (?w - off + j)" "words * ?w + off \<le> i * ?w + j"
      using assms by (simp_all add: algebra_simps)
    have l: "?w - off + j < ?w" using 4 assms by linarith
    have "bit (lshift_word a words off i) j \<longleftrightarrow> bit (mp_word a q) (?w - off + j)"
      using 4 assms by (auto simp: lshift_word_def bit_simps Let_def add.commute)
    then show ?thesis unfolding e(1) bit_mp_val_at[OF l] using e(2) by simp
  qed
qed

lemma mp_val_lshift_fixed_into:
  "mp_val (mp_lshift_fixed_into rw a bits) = (mp_val a * 2 ^ bits) mod base TYPE('w) ^ rw"
  for a :: "'w::len word list"
proof -
  have "mp_val (mp_lshift_fixed_into rw a bits) = push_bit bits (mp_val a) mod base TYPE('w) ^ length (mp_lshift_fixed_into rw a bits)"
    by (rule mp_val_bitI) (simp add: mp_lshift_fixed_into_def Let_def bit_lshift_word bit_push_bit_iff)
  then show ?thesis by (simp add: mp_lshift_fixed_into_def Let_def push_bit_eq_mult)
qed

lemma bit_rshift_word:
  fixes a :: "'w::len word list"
  assumes "j < LENGTH('w)" "off < LENGTH('w)"
  shows "bit (rshift_word a words off i) j \<longleftrightarrow> bit (mp_val a) (i * LENGTH('w) + j + (words * LENGTH('w) + off))"
proof (cases "j + off < LENGTH('w)")
  case True
  have e: "i * LENGTH('w) + j + (words * LENGTH('w) + off) = (i + words) * LENGTH('w) + (j + off)" by (simp add: algebra_simps)
  show ?thesis using True assms unfolding e bit_mp_val_at[OF True] by (auto simp: rshift_word_def bit_simps Let_def add.commute)
next
  case False
  then obtain q where q: "j + off = LENGTH('w) + q" using le_Suc_ex not_less by blast
  then have l: "q < LENGTH('w)" using assms by linarith
  have e: "i * LENGTH('w) + j + (words * LENGTH('w) + off) = (i + words + 1) * LENGTH('w) + q" using q by (simp add: algebra_simps)
  have "off \<noteq> 0" "j - (LENGTH('w) - off) = q" "LENGTH('w) - off \<le> j" "\<not> bit (mp_word a (i + words)) (off + j)"
    using q assms by (auto dest: bit_imp_le_length)
  then show ?thesis using assms unfolding e bit_mp_val_at[OF l] by (auto simp: rshift_word_def bit_simps Let_def)
qed

lemma mp_val_rshift_fixed_into:
  "mp_val (mp_rshift_fixed_into rw a bits) = (mp_val a div 2 ^ bits) mod base TYPE('w) ^ rw"
  for a :: "'w::len word list"
proof -
  have "mp_val (mp_rshift_fixed_into rw a bits) = drop_bit bits (mp_val a) mod base TYPE('w) ^ length (mp_rshift_fixed_into rw a bits)"
    by (rule mp_val_bitI) (simp add: mp_rshift_fixed_into_def Let_def bit_rshift_word bit_drop_bit_eq algebra_simps)
  then show ?thesis by (simp add: mp_rshift_fixed_into_def Let_def drop_bit_eq_div)
qed

lemma mp_val_reduce_mod_2to: "mp_val (mp_reduce_mod_2to x p) = mp_val x mod 2 ^ p"
  for x :: "'w::len word list"
proof -
  have m: "push_bit k 1 - 1 = (mask k :: 'w word)" for k by (simp add: mask_eq_decr_exp)
  have "mp_val (mp_reduce_mod_2to x p) = take_bit p (mp_val x) mod base TYPE('w) ^ length (mp_reduce_mod_2to x p)"
  proof (rule mp_val_bitI)
    fix i j
    assume ij: "i < length (mp_reduce_mod_2to x p)" "j < LENGTH('w)"
    define q r where "q = p div LENGTH('w)" "r = p mod LENGTH('w)"
    then have p: "p = q * LENGTH('w) + r" "r < LENGTH('w)" by simp_all
    have "i * LENGTH('w) + j < p \<longleftrightarrow> i < q \<or> i = q \<and> j < r"
    proof (cases i q rule: linorder_cases)
      case less
      then show ?thesis using mult_le_mono1[of "Suc i" q "LENGTH('w)"] ij p by simp
    next
      case greater
      then show ?thesis using mult_le_mono1[of "Suc q" i "LENGTH('w)"] ij p by simp
    qed (simp add: p)
    then show "bit (mp_reduce_mod_2to x p ! i) j \<longleftrightarrow> bit (take_bit p (mp_val x)) (i * LENGTH('w) + j)"
      using ij unfolding bit_take_bit_iff bit_mp_val_at[OF ij(2)]
      by (auto simp: mp_reduce_mod_2to_def Let_def q_r_def[symmetric] m[unfolded push_bit_of_1] bit_simps mp_word_def)
  qed
  moreover have "mp_val x mod 2 ^ p < base TYPE('w) ^ length x"
    using mp_val_less[of x] by (rule le_less_trans[OF mod_less_eq_dividend])
  ultimately show ?thesis by (simp add: mp_reduce_mod_2to_def Let_def take_bit_eq_mod)
qed

section \<open>Equality\<close>

lemma normalise_to_1_iff: "normalise_to_1 u = (if u = 0 then 0 else 1)" if "2 \<le> LENGTH('w)" for u :: "'w::len word"
proof (cases "u = 0")
  case False
  define v where "v = drop_bit 1 u OR (u AND 1)"
  let ?w = "LENGTH('w)"
  have "v \<noteq> 0"
  proof
    assume z: "v = 0"
    have "\<not> bit u i" for i
    proof (cases i)
      case 0
      show ?thesis
      proof
        assume "bit u i"
        then have "bit v 0" unfolding v_def 0 by (simp add: bit_or_iff bit_and_iff)
        then show False unfolding z by simp
      qed
    next
      case (Suc k)
      show ?thesis
      proof
        assume "bit u i"
        then have "bit v k" unfolding v_def Suc by (simp add: bit_or_iff bit_drop_bit_eq)
        then show False unfolding z by simp
      qed
    qed
    then show False using False by (simp add: bit_eq_iff)
  qed
  moreover have "unat v < 2 ^ (?w - 1)"
  proof -
    have n: "i < ?w - 1" if b: "bit v i" for i
    proof -
      consider "bit u (1 + i)" | "i = 0" using b by (auto simp: v_def bit_or_iff bit_and_iff bit_drop_bit_eq bit_1_iff)
      then show ?thesis
      proof cases
        case 1
        then have "1 + i < ?w" by (rule bit_imp_le_length)
        then show ?thesis by linarith
      next
        case 2
        then show ?thesis using \<open>2 \<le> ?w\<close> by linarith
      qed
    qed
    have "take_bit (?w - 1) v = v" by (rule bit_eqI) (use n in \<open>auto simp: bit_take_bit_iff\<close>)
    then have "unat v = take_bit (?w - 1) (unat v)" by (metis unsigned_take_bit_eq)
    then show ?thesis using take_bit_nat_less_exp[of "?w - 1" "unat v"] by simp
  qed
  ultimately have v: "0 < unat v" "unat v < 2 ^ (?w - 1)" by (simp_all add: unat_gt_0)
  have p: "(2 :: nat) ^ ?w = 2 * 2 ^ (?w - 1)" by (simp flip: power_Suc)
  have "unat (- v) = 2 ^ ?w - unat v"
  proof -
    have "of_nat (2 ^ ?w - unat v) = - v" by (simp add: of_nat_diff less_imp_le)
    then show ?thesis using v(1) unat_of_nat_base[of "2 ^ ?w - unat v", where 'w = 'w] by simp
  qed
  then have "unat (drop_bit (?w - 1) (- v)) = (2 ^ ?w - unat v) div 2 ^ (?w - 1)"
    unfolding unat_drop_bit_eq by (simp only: drop_bit_eq_div)
  also have "\<dots> = 1" unfolding p by (rule div_nat_eqI) (use v in simp_all)
  finally have "drop_bit (?w - 1) (- v) = 1" by (simp only: word_unat_eq_iff unat_1)
  then show ?thesis using False unfolding normalise_to_1_def Let_def v_def by (simp only: if_False)
qed (simp add: normalise_to_1_def)


lemma xor_zero_iff: "u XOR v = 0 \<longleftrightarrow> u = (v :: 'w::len word)"
  by (auto simp: bit_eq_iff bit_xor_iff)

lemma fold_or_eq_0: "fold (\<lambda>i d. d OR f i) is d = (0 :: 'w::len word) \<longleftrightarrow> d = 0 \<and> (\<forall>i\<in>set is. f i = 0)"
  by (induction "is" arbitrary: d) (auto simp: or_eq_0_iff)

lemma mp_cmp_eq_iff: "mp_cmp_eq a b = (if mp_val a = mp_val b then 1 else 0)" if "2 \<le> LENGTH('w)"
  for a b :: "'w::len word list"
proof -
  let ?n = "max (length a) (length b)"
  have "mp_val a = mp_val b \<longleftrightarrow> words_at a 0 ?n = words_at b 0 ?n"
  proof -
    have "mp_val a < base TYPE('w) ^ ?n" "mp_val b < base TYPE('w) ^ ?n"
      using less_le_trans[OF mp_val_less[of a] power_increasing[of "length a" ?n]]
        less_le_trans[OF mp_val_less[of b] power_increasing[of "length b" ?n]] by simp_all
    then have "mp_val (words_at a 0 ?n) = mp_val a" "mp_val (words_at b 0 ?n) = mp_val b" by (simp_all add: mp_val_words_at)
    then show ?thesis using mp_val_inj[of "words_at a 0 ?n" "words_at b 0 ?n"] by auto
  qed
  also have "\<dots> \<longleftrightarrow> (\<forall>i\<in>set [0..<?n]. mp_word a i XOR mp_word b i = 0)"
    by (simp add: words_at_def xor_zero_iff)
  also have "\<dots> \<longleftrightarrow> fold (\<lambda>i diff. diff OR (mp_word a i XOR mp_word b i)) [0..<?n] 0 = 0"
    by (simp add: fold_or_eq_0)
  finally show ?thesis by (simp add: mp_cmp_eq_def normalise_to_1_iff[OF that])
qed

text \<open>
  C22: The operations on big numbers are those of arithmetic modulo the size of the result: sum, difference,
  conditional sum and difference, negation, shifts both ways, and reduction modulo a power of two, whatever
  the sizes of the operands and the width of the words.
\<close>
theorem mpint_arithmetic:
  "mp_val (mp_add_into n a b) = (mp_val a + mp_val b) mod 2 ^ (LENGTH('w) * n) \<and>
   int (mp_val (mp_sub_into n a b)) = (int (mp_val a) - int (mp_val b)) mod 2 ^ (LENGTH('w) * n) \<and>
   int (mp_val (mp_neg_into n a)) = (- int (mp_val a)) mod 2 ^ (LENGTH('w) * n) \<and>
   mp_val (mp_cond_add_into n a b yes) = (mp_val a + yes mod 2 * mp_val b) mod 2 ^ (LENGTH('w) * n) \<and>
   int (mp_val (mp_cond_sub_into n a b yes)) = (int (mp_val a) - int (yes mod 2 * mp_val b)) mod 2 ^ (LENGTH('w) * n) \<and>
   mp_val (mp_lshift_fixed_into n a bits) = mp_val a * 2 ^ bits mod 2 ^ (LENGTH('w) * n) \<and>
   mp_val (mp_rshift_fixed_into n a bits) = mp_val a div 2 ^ bits mod 2 ^ (LENGTH('w) * n) \<and>
   mp_val (mp_reduce_mod_2to a bits) = mp_val a mod 2 ^ bits"
  for a b :: "'w::len word list"
  using mp_val_sub_into[of n a b] mp_val_sub_into[of n "[]" a] mp_val_cond_sub_into[of n a b yes]
  by (cases "odd yes")
    (simp_all add: mp_val_add_into mp_neg_into_def mp_val_cond_add_into mp_val_lshift_fixed_into mp_val_rshift_fixed_into
      mp_val_reduce_mod_2to power_mult odd_iff_mod_2_eq_one even_iff_mod_2_eq_zero)

text \<open>
  C35: Comparison, the smaller and the greater of two numbers, and selection by a condition, all computed by
  masks and without a branch on the data, agree with the order of the numbers.
\<close>
theorem mpint_compare:
  assumes "2 \<le> LENGTH('w)"
  shows "mp_cmp_hs a b = (if mp_val b \<le> mp_val a then 1 else 0 :: 'w::len word) \<and>
    mp_cmp_eq a b = (if mp_val a = mp_val b then 1 else 0) \<and>
    mp_val (mp_min_into n a b) = min (mp_val a) (mp_val b) mod 2 ^ (LENGTH('w) * n) \<and>
    mp_val (mp_max_into n a b) = max (mp_val a) (mp_val b) mod 2 ^ (LENGTH('w) * n) \<and>
    mp_val (mp_select_into n a b which) = (if odd which then mp_val b else mp_val a) mod 2 ^ (LENGTH('w) * n)"
  using mp_cmp_eq_iff[OF assms, of a b] mp_cmp_hs_iff[of a b]
  by (simp add: mp_min_into_def mp_max_into_def mp_select_into_eq mp_val_words_at word_unat_eq_iff power_mult)

theorem mpint_compare_witness:
  "mp_val (mp_min_into 2 [255, 1, 0] [0, 2 :: 8 word]) = 511"
  using mpint_compare[where 'w = 8, of "[255, 1, 0]" "[0, 2]" 2 0] by simp

end
