(* ===== verification/MpintMul.thy ===== *)
theory MpintMul
  imports Mpint
begin

text \<open>
  \<open>mpint.c\<close>, second part: multiplication. The product is cut to the size of the result. Long
  multiplication for short numbers, Karatsuba's divide and conquer for long ones, with scratch space of
  fixed size, which is modelled by its size.
\<close>

section \<open>Long multiplication\<close>

fun carry_loop :: "'w::len word list \<Rightarrow> 'w word \<Rightarrow> 'w word list" where
  "carry_loop [] carry = []"
| "carry_loop (r # rs) carry = (let (r, carry) = BignumADC carry r 0 in r # carry_loop rs carry)"

fun row_loop :: "'w::len word \<Rightarrow> 'w word list \<Rightarrow> 'w word list \<Rightarrow> 'w word \<Rightarrow> 'w word list" where
  "row_loop adata [] rs carry = carry_loop rs carry"
| "row_loop adata (b # bs) [] carry = []"
| "row_loop adata (b # bs) (r # rs) carry =
     (let (carry, r) = BignumMULADD2 adata b r carry in r # row_loop adata bs rs carry)"

fun mp_mul_add_simple :: "'w::len word list \<Rightarrow> 'w word list \<Rightarrow> 'w word list \<Rightarrow> 'w word list" where
  "mp_mul_add_simple [] as bs = []"
| "mp_mul_add_simple rs [] bs = rs"
| "mp_mul_add_simple (r # rs) (a # as) bs =
     (let row = row_loop a bs (r # rs) 0 in hd row # mp_mul_add_simple (tl row) as bs)"

section \<open>Karatsuba\<close>

abbreviation (input) KARATSUBA_THRESHOLD :: nat where "KARATSUBA_THRESHOLD \<equiv> 24"

definition mp_mul_scratchspace_unary :: "nat \<Rightarrow> nat" where
  "mp_mul_scratchspace_unary n = n * 6"

definition mp_mul_scratchspace :: "nat \<Rightarrow> nat \<Rightarrow> nat \<Rightarrow> nat" where
  "mp_mul_scratchspace rw aw bw = mp_mul_scratchspace_unary (min rw (max aw bw))"

definition mp_make_alias :: "'w::len word list \<Rightarrow> nat \<Rightarrow> nat \<Rightarrow> 'w word list" where
  "mp_make_alias x offset n = take n (drop offset x)"

text \<open>What is left of the scratch space; \<open>None\<close> is the failed assertion.\<close>

definition mp_alloc_from_scratch :: "nat \<Rightarrow> nat \<Rightarrow> nat option" where
  "mp_alloc_from_scratch pool n = (if n \<le> pool then Some (pool - n) else None)"

text \<open>\<open>r1 := r1 + s\<close>, where \<open>r1\<close> is the part of \<open>r\<close> from \<open>at\<close> on.\<close>

definition add_at :: "nat \<Rightarrow> 'w::len word list \<Rightarrow> 'w word list \<Rightarrow> 'w word list" where
  "add_at k r s = take k r @ mp_add_into (length r - k) (drop k r) s"

lemma mul_shrinks:
  "\<not> n < KARATSUBA_THRESHOLD \<Longrightarrow> length a \<le> n - n div 2 + 1 \<Longrightarrow> length b \<le> n - n div 2 + 1 \<Longrightarrow>
    min rw (max (length a) (length b)) < n"
  by (rule le_less_trans[OF min.cobounded2]) auto

lemma alias_short: "length (mp_make_alias x i k) \<le> k" "length (mp_make_alias x i k) \<le> Suc k"
  by (simp_all add: mp_make_alias_def min_def)

lemma alias_half: "length (mp_make_alias x i (n div 2)) \<le> n - n div 2 + 1"
  by (rule le_trans[OF alias_short(1)]) auto

function mp_mul_internal :: "nat \<Rightarrow> 'w::len word list \<Rightarrow> 'w word list \<Rightarrow> nat \<Rightarrow> 'w word list option" where
  "mp_mul_internal rw a b scratch =
     (let inlen = min rw (max (length a) (length b)) in
      if scratch < mp_mul_scratchspace_unary inlen then None
      else if inlen < KARATSUBA_THRESHOLD \<or> a = [] \<or> b = [] then Some (mp_mul_add_simple (replicate rw 0) a b)
      else
        let toplen = inlen div 2; botlen = inlen - toplen;
            a0 = mp_make_alias a 0 botlen; b0 = mp_make_alias b 0 botlen;
            a1 = mp_make_alias a botlen toplen; b1 = mp_make_alias b botlen toplen
        in do {
          r0 \<leftarrow> mp_mul_internal (min rw (botlen * 2)) a0 b0 scratch;
          r2 \<leftarrow> mp_mul_internal (rw - botlen * 2) a1 b1 scratch;
          let r = r0 @ r2;
          if rw < inlen * 2 then do {
            let sw = min (botlen + toplen) (rw - botlen);
            scratch \<leftarrow> mp_alloc_from_scratch scratch sw;
            s \<leftarrow> mp_mul_internal sw a0 b1 scratch;
            let r = add_at botlen r s;
            s \<leftarrow> mp_mul_internal sw a1 b0 scratch;
            Some (add_at botlen r s)
          }
          else do {
            scratch \<leftarrow> mp_alloc_from_scratch scratch (botlen + 1);
            scratch \<leftarrow> mp_alloc_from_scratch scratch (botlen + 1);
            let asum = mp_add_into (botlen + 1) a0 a1;
            let bsum = mp_add_into (botlen + 1) b0 b1;
            scratch \<leftarrow> mp_alloc_from_scratch scratch (botlen * 2 + 1);
            product \<leftarrow> mp_mul_internal (botlen * 2 + 1) asum bsum scratch;
            let product = mp_sub_into (botlen * 2 + 1) product r0;
            let product = mp_sub_into (botlen * 2 + 1) product r2;
            Some (add_at botlen r product)
          }
        })"
  by pat_completeness auto
termination
  apply (relation "measure (\<lambda>(rw, a, b, scratch). min rw (max (length a) (length b)))")
  subgoal by simp
  subgoal premises p unfolding in_measure prod.case p(1)[symmetric]
    by (rule mul_shrinks) (use p(2-9) in \<open>simp_all add: alias_short alias_half[simplified]\<close>)
  subgoal premises p unfolding in_measure prod.case p(1)[symmetric]
    by (rule mul_shrinks) (use p(2-9) in \<open>simp_all add: alias_short alias_half[simplified]\<close>)
  subgoal premises p unfolding in_measure prod.case p(1)[symmetric]
    by (rule mul_shrinks) (use p(2-9) in \<open>simp_all add: alias_short alias_half[simplified]\<close>)
  subgoal premises p unfolding in_measure prod.case p(1)[symmetric]
    by (rule mul_shrinks) (use p(2-9) in \<open>simp_all add: alias_short alias_half[simplified]\<close>)
  subgoal premises p unfolding in_measure prod.case p(1)[symmetric]
    by (rule mul_shrinks) (use p(2-) in \<open>simp_all add: alias_short alias_half[simplified]\<close>)
  done

declare mp_mul_internal.simps [simp del]

definition mp_mul_into :: "nat \<Rightarrow> 'w::len word list \<Rightarrow> 'w word list \<Rightarrow> 'w word list option" where
  "mp_mul_into rw a b =
     do { scratch :: 'w word list \<leftarrow> mp_make_sized (mp_mul_scratchspace rw (length a) (length b));
          mp_mul_internal rw a b (length scratch) }"

definition mp_mul :: "'w::len word list \<Rightarrow> 'w word list \<Rightarrow> 'w word list option" where
  "mp_mul x y = do { r :: 'w word list \<leftarrow> mp_make_sized (length x + length y); mp_mul_into (length r) x y }"

section \<open>Long multiplication multiplies\<close>

lemma mod_step: "r < B \<Longrightarrow> r + B * (x mod B ^ n) = (r + B * x) mod B ^ Suc n" for r :: nat
  by (simp add: mod_mult2_eq)

lemma length_carry_loop [simp]: "length (carry_loop rs c) = length rs"
  by (induction rs arbitrary: c) (simp_all split: prod.split)

lemma BignumADC_val0:
  "BignumADC a b 0 = (r, d) \<Longrightarrow> unat r + base TYPE('w) * unat d = unat (a :: 'w::len word) + unat b"
  using BignumADC_val[of a b 0 r d] by simp

lemma mp_val_carry_loop: "mp_val (carry_loop rs c) = (mp_val rs + unat c) mod base TYPE('w) ^ length rs"
  for rs :: "'w::len word list"
proof (induction rs arbitrary: c)
  case (Cons r rs)
  obtain x d where x: "BignumADC c r 0 = (x, d)" by fastforce
  have "mp_val (carry_loop (r # rs) c) = unat x + base TYPE('w) * ((mp_val rs + unat d) mod base TYPE('w) ^ length rs)"
    using x Cons by simp
  also have "\<dots> = (unat x + base TYPE('w) * (mp_val rs + unat d)) mod base TYPE('w) ^ Suc (length rs)"
    by (rule mod_step) simp
  also have "unat x + base TYPE('w) * (mp_val rs + unat d) = mp_val (r # rs) + unat c"
    using BignumADC_val0[OF x] by (simp add: algebra_simps)
  finally show ?case by simp
qed simp

lemma MULADD2_val:
  "BignumMULADD2 a b c d = (h, l) \<Longrightarrow>
    unat l + base TYPE('w) * unat h = unat (a :: 'w::len word) * unat b + unat c + unat d"
proof -
  assume h: "BignumMULADD2 a b c d = (h, l)"
  let ?B = "base TYPE('w)"
  let ?t = "unat a * unat b + unat c + unat d"
  have le: "unat u \<le> ?B - 1" for u :: "'w word" using unat_less_base[of u] by linarith
  have "unat a * unat b \<le> (?B - 1) * (?B - 1)" by (rule mult_le_mono) (rule le)+
  then have "?t \<le> (?B - 1) * (?B - 1) + (?B - 1) + (?B - 1)" using le[of c] le[of d] by linarith
  also have "\<dots> < ?B * ?B"
  proof -
    obtain m where "?B = Suc m" using base_pos(1)[where 'w = 'w] gr0_conv_Suc by blast
    then show ?thesis by simp
  qed
  finally have "?t div ?B < ?B" by (simp add: less_mult_imp_div_less)
  then have "unat h = ?t div ?B" "unat l = ?t mod ?B"
    using h by (auto simp: BignumMULADD2_def Let_def unat_of_nat_base simp del: of_nat_add of_nat_mult)
  then show ?thesis by simp
qed

lemma length_row_loop [simp]: "length (row_loop a bs rs c) = length rs"
  by (induction a bs rs c rule: row_loop.induct) (simp_all split: prod.split)

lemma mp_val_row_loop:
  "mp_val (row_loop a bs rs c) = (mp_val rs + unat a * mp_val bs + unat c) mod base TYPE('w) ^ length rs"
  for a :: "'w::len word"
proof (induction a bs rs c rule: row_loop.induct)
  case (3 a b bs r rs c)
  obtain d x where x: "BignumMULADD2 a b r c = (d, x)" by fastforce
  have "mp_val (row_loop a (b # bs) (r # rs) c) =
      unat x + base TYPE('w) * ((mp_val rs + unat a * mp_val bs + unat d) mod base TYPE('w) ^ length rs)"
    using x 3[OF x[symmetric]] by simp
  also have "\<dots> = (unat x + base TYPE('w) * (mp_val rs + unat a * mp_val bs + unat d)) mod base TYPE('w) ^ Suc (length rs)"
    by (rule mod_step) simp
  also have "unat x + base TYPE('w) * (mp_val rs + unat a * mp_val bs + unat d) =
      mp_val (r # rs) + unat a * mp_val (b # bs) + unat c"
    using MULADD2_val[OF x] by (simp add: algebra_simps)
  finally show ?case by simp
qed (simp_all add: mp_val_carry_loop)

lemma length_mul_add_simple [simp]: "length (mp_mul_add_simple rs as bs) = length rs"
  by (induction rs as bs rule: mp_mul_add_simple.induct) (simp_all add: Let_def)

lemma mp_val_hd_tl: "xs \<noteq> [] \<Longrightarrow> mp_val xs = unat (hd xs) + base TYPE('w) * mp_val (tl xs)" for xs :: "'w::len word list"
  by (cases xs) simp_all

lemma mp_val_mul_add_simple:
  "mp_val (mp_mul_add_simple rs as bs) = (mp_val rs + mp_val as * mp_val bs) mod base TYPE('w) ^ length rs"
  for rs :: "'w::len word list"
proof (induction rs as bs rule: mp_mul_add_simple.induct)
  case (2 r rs bs)
  then show ?case using mp_val_less[of "r # rs"] by simp
next
  case (3 r rs a as bs)
  let ?B = "base TYPE('w)"
  define row where "row = row_loop a bs (r # rs) 0"
  have row: "length row = Suc (length rs)" "row \<noteq> []" by (auto simp: row_def dest: arg_cong[where f = length])
  have "mp_val (mp_mul_add_simple (r # rs) (a # as) bs) =
      unat (hd row) + ?B * ((mp_val (tl row) + mp_val as * mp_val bs) mod ?B ^ length rs)"
    using 3[OF row_def] row(1) by (simp add: row_def[symmetric])
  also have "\<dots> = (unat (hd row) + ?B * (mp_val (tl row) + mp_val as * mp_val bs)) mod ?B ^ Suc (length rs)"
    by (rule mod_step) simp
  also have "unat (hd row) + ?B * (mp_val (tl row) + mp_val as * mp_val bs) = mp_val row + ?B * (mp_val as * mp_val bs)"
    using mp_val_hd_tl[OF row(2)] by (simp add: algebra_simps)
  also have "mp_val row = (mp_val (r # rs) + unat a * mp_val bs) mod ?B ^ Suc (length rs)"
    using mp_val_row_loop[of a bs "r # rs" 0] by (simp add: row_def)
  also have "((mp_val (r # rs) + unat a * mp_val bs) mod ?B ^ Suc (length rs) + ?B * (mp_val as * mp_val bs)) mod ?B ^ Suc (length rs) =
      (mp_val (r # rs) + mp_val (a # as) * mp_val bs) mod ?B ^ Suc (length rs)"
    unfolding mod_add_left_eq by (simp add: algebra_simps)
  finally show ?case by simp
qed simp

section \<open>Karatsuba multiplies\<close>

lemma length_alias: "length (mp_make_alias x i n) = min n (length x - i)"
  by (simp add: mp_make_alias_def min.commute)

lemma mp_val_alias: "mp_val (mp_make_alias x i n) = mp_val (x :: 'w::len word list) div base TYPE('w) ^ i mod base TYPE('w) ^ n"
  by (simp add: mp_make_alias_def mp_val_take mp_val_drop)

lemma length_add_at [simp]: "k \<le> length r \<Longrightarrow> length (add_at k r s) = length r"
  by (simp add: add_at_def)

lemma mp_val_add_at:
  fixes r :: "'w::len word list"
  assumes "k \<le> length r"
  shows "mp_val (add_at k r s) = (mp_val r + base TYPE('w) ^ k * mp_val s) mod base TYPE('w) ^ length r"
proof -
  let ?B = "base TYPE('w)"
  have p: "?B ^ length r = ?B ^ k * ?B ^ (length r - k)" using assms by (simp flip: power_add)
  have "mp_val (add_at k r s) = mp_val r mod ?B ^ k + ?B ^ k * ((mp_val r div ?B ^ k + mp_val s) mod ?B ^ (length r - k))"
    using assms by (simp add: add_at_def mp_val_append mp_val_take mp_val_drop mp_val_add_into)
  also have "\<dots> = (mp_val r mod ?B ^ k + ?B ^ k * (mp_val r div ?B ^ k + mp_val s)) mod ?B ^ length r"
    unfolding p by (simp add: mod_mult2_eq)
  also have "mp_val r mod ?B ^ k + ?B ^ k * (mp_val r div ?B ^ k + mp_val s) = mp_val r + ?B ^ k * mp_val s"
    by (simp add: algebra_simps)
  finally show ?thesis .
qed


text \<open>What the two halves of the inputs give, for results shorter than the product (first lemma) and not.\<close>

lemma halves:
  fixes x :: nat
  assumes "k + t = m"
  shows "x mod B ^ k + B ^ k * (x div B ^ k mod B ^ t) = x mod B ^ m"
  unfolding assms[symmetric] power_add mod_mult2_eq by simp

lemma halves_less:
  assumes "0 < B" shows "(x :: nat) mod B ^ k < B ^ k" "x div B ^ k mod B ^ t < B ^ t"
  using assms by simp_all

lemma mod_min:
  fixes x y :: nat
  assumes "rw = m \<or> x < B ^ m \<and> y < B ^ m"
  shows "(x mod B ^ m) * (y mod B ^ m) mod B ^ rw = x * y mod B ^ rw"
  using assms by (auto simp: mod_mult_eq)

lemma outer_terms:
  fixes p q :: nat
  assumes "p < B ^ k" "u = p mod B ^ min rw k" "v = q mod B ^ (rw - k)" "0 < B"
  shows "u + B ^ min rw k * v = (p + B ^ k * q) mod B ^ rw"
proof (cases "rw \<le> k")
  case True
  have "B ^ k = B ^ rw * B ^ (k - rw)" using True by (simp flip: power_add)
  then show ?thesis using True assms by (simp add: min_def mult.assoc)
next
  case False
  then have e: "B ^ rw = B ^ k * B ^ (rw - k)" by (simp flip: power_add)
  have "u + B ^ min rw k * v = p + B ^ k * (q mod B ^ (rw - k))" using False assms by (simp add: min_def)
  then show ?thesis unfolding e mod_mult2_eq using assms by simp
qed

lemma inner_term:
  fixes z w :: nat
  assumes "z < B ^ (k + t)" "k \<le> rw"
  shows "(w + B ^ k * (z mod B ^ min (k + t) (rw - k))) mod B ^ rw = (w + B ^ k * z) mod B ^ rw"
proof (cases "k + t \<le> rw - k")
  case True
  then have "min (k + t) (rw - k) = k + t" by simp
  then show ?thesis using assms(1) by simp
next
  case False
  then have m: "min (k + t) (rw - k) = rw - k" by simp
  have e: "B ^ rw = B ^ k * B ^ (rw - k)" using assms(2) by (simp flip: power_add)
  have "B ^ k * (z mod B ^ (rw - k)) = (B ^ k * z) mod B ^ rw" unfolding e by (rule mult_mod_right)
  then show ?thesis unfolding m by (simp only: mod_add_right_eq)
qed

text \<open>The one product of the middle.\<close>

lemma middle_term:
  fixes a0 a1 b0 b1 :: nat
  assumes "a0 < D" "b0 < D" "a1 < E" "b1 < E" "E \<le> D" "2 * (D * D) \<le> M"
  shows "((int (a0 + a1) * int (b0 + b1)) mod int M - int (a0 * b0)) mod int M - int (a1 * b1) = P \<Longrightarrow>
    P mod int M = int (a0 * b1 + a1 * b0)"
proof -
  assume P: "((int (a0 + a1) * int (b0 + b1)) mod int M - int (a0 * b0)) mod int M - int (a1 * b1) = P"
  have "P mod int M = (int (a0 + a1) * int (b0 + b1) - int (a0 * b0) - int (a1 * b1)) mod int M"
    unfolding P[symmetric] by (simp add: mod_diff_left_eq mod_diff_eq)
  also have "int (a0 + a1) * int (b0 + b1) - int (a0 * b0) - int (a1 * b1) = int (a0 * b1 + a1 * b0)"
    by (simp add: algebra_simps)
  also have "a0 * b1 + a1 * b0 < M"
  proof -
    have "a0 * b1 < D * D" "a1 * b0 < D * D" using assms by (intro mult_strict_mono; simp)+
    then show ?thesis using assms(6) by linarith
  qed
  then have "int (a0 * b1 + a1 * b0) mod int M = int (a0 * b1 + a1 * b0)"
    by (simp only: zmod_int[symmetric] mod_less)
  finally show ?thesis .
qed


lemma scratch_suffices:
  assumes "\<not> n < KARATSUBA_THRESHOLD" "lo = n - n div 2" "mp_mul_scratchspace_unary n \<le> pool"
  shows "mp_mul_scratchspace_unary lo \<le> pool - n" "n \<le> pool"
    "mp_mul_scratchspace_unary (lo + 1) \<le> pool - (lo + 1) - (lo + 1) - (lo * 2 + 1)"
    "lo + 1 \<le> pool" "lo + 1 \<le> pool - (lo + 1)" "lo * 2 + 1 \<le> pool - (lo + 1) - (lo + 1)"
proof -
  have "2 * lo \<le> n + 1" "24 \<le> n" using assms by simp_all
  then have "10 * lo + 9 \<le> pool" "n * 6 \<le> pool" "lo * 6 \<le> n * 5" using assms(3) unfolding mp_mul_scratchspace_unary_def by linarith+
  then show "mp_mul_scratchspace_unary lo \<le> pool - n" "n \<le> pool"
    "mp_mul_scratchspace_unary (lo + 1) \<le> pool - (lo + 1) - (lo + 1) - (lo * 2 + 1)"
    "lo + 1 \<le> pool" "lo + 1 \<le> pool - (lo + 1)" "lo * 2 + 1 \<le> pool - (lo + 1) - (lo + 1)"
    unfolding mp_mul_scratchspace_unary_def by simp_all
qed

text \<open>The words that the two ways of the code leave, from the values of the parts.\<close>

lemma outer_value:
  fixes r0 r2 :: "'w::len word list"
  assumes "x0 < base TYPE('w) ^ lo" "y0 < base TYPE('w) ^ lo"
    "length r0 = min rw (lo * 2)" "mp_val r0 = x0 * y0 mod base TYPE('w) ^ min rw (lo * 2)"
    "length r2 = rw - lo * 2" "mp_val r2 = x1 * y1 mod base TYPE('w) ^ (rw - lo * 2)"
  shows "length (r0 @ r2) = rw"
    "mp_val (r0 @ r2) = (x0 * y0 + base TYPE('w) ^ (lo * 2) * (x1 * y1)) mod base TYPE('w) ^ rw"
proof -
  have "x0 * y0 < base TYPE('w) ^ (lo * 2)" using mult_strict_mono[OF assms(1,2)] by (simp add: power_mult power2_eq_square)
  from outer_terms[OF this assms(4,6)]
  show "length (r0 @ r2) = rw" "mp_val (r0 @ r2) = (x0 * y0 + base TYPE('w) ^ (lo * 2) * (x1 * y1)) mod base TYPE('w) ^ rw"
    using assms(3,5) by (simp_all add: mp_val_append)
qed

lemma cut_value:
  fixes r s1 s2 :: "'w::len word list"
  assumes "x0 < base TYPE('w) ^ lo" "y0 < base TYPE('w) ^ lo" "x1 < base TYPE('w) ^ hi" "y1 < base TYPE('w) ^ hi"
    "lo \<le> length r" "sw = min (lo + hi) (length r - lo)"
    "mp_val s1 = x0 * y1 mod base TYPE('w) ^ sw" "mp_val s2 = x1 * y0 mod base TYPE('w) ^ sw"
  shows "mp_val (add_at lo (add_at lo r s1) s2) = (mp_val r + base TYPE('w) ^ lo * (x0 * y1 + x1 * y0)) mod base TYPE('w) ^ length r"
proof -
  let ?B = "base TYPE('w)"
  have b: "x0 * y1 < ?B ^ (lo + hi)" "x1 * y0 < ?B ^ (lo + hi)"
    using mult_strict_mono[OF assms(1,4)] mult_strict_mono[OF assms(3,2)] by (simp_all add: power_add mult.commute)
  have "mp_val (add_at lo (add_at lo r s1) s2) = (mp_val (add_at lo r s1) + ?B ^ lo * (x1 * y0)) mod ?B ^ length r"
    using assms(5) inner_term[OF b(2) assms(5)] by (simp add: mp_val_add_at assms(6,8))
  also have "mp_val (add_at lo r s1) = (mp_val r + ?B ^ lo * (x0 * y1)) mod ?B ^ length r"
    using assms(5) inner_term[OF b(1) assms(5)] by (simp add: mp_val_add_at assms(6,7))
  finally show ?thesis unfolding mod_add_left_eq by (simp add: algebra_simps)
qed

lemma base_ge_2: "2 \<le> base TYPE('w::len)"
  using self_le_power[of 2 "LENGTH('w)"] by simp

lemma middle_value:
  fixes a0 a1 b0 b1 p r0 r2 :: "'w::len word list"
  assumes "mp_val a0 < base TYPE('w) ^ lo" "mp_val b0 < base TYPE('w) ^ lo"
    "mp_val a1 < base TYPE('w) ^ hi" "mp_val b1 < base TYPE('w) ^ hi" "hi \<le> lo"
    "mp_val r0 = mp_val a0 * mp_val b0" "mp_val r2 = mp_val a1 * mp_val b1"
    "mp_val p = mp_val (mp_add_into (lo + 1) a0 a1) * mp_val (mp_add_into (lo + 1) b0 b1) mod base TYPE('w) ^ (lo * 2 + 1)"
  shows "mp_val (mp_sub_into (lo * 2 + 1) (mp_sub_into (lo * 2 + 1) p r0) r2) =
    mp_val a0 * mp_val b1 + mp_val a1 * mp_val b0"
proof -
  let ?B = "base TYPE('w)"
  define M where "M = ?B ^ (lo * 2 + 1)"
  have D: "?B ^ hi \<le> ?B ^ lo" using assms(5) by (simp add: power_increasing)
  have "2 * (?B ^ lo * ?B ^ lo) \<le> M" using base_ge_2[where 'w = 'w] by (simp add: M_def power_mult power2_eq_square)
  note middle = middle_term[OF assms(1-4) D this, OF refl]
  have "2 * ?B ^ lo \<le> ?B ^ (lo + 1)" using base_ge_2[where 'w = 'w] by simp
  then have "mp_val a0 + mp_val a1 < ?B ^ (lo + 1)" "mp_val b0 + mp_val b1 < ?B ^ (lo + 1)"
    using assms(1-4) D by linarith+
  then have ws: "mp_val (mp_add_into (lo + 1) a0 a1) = mp_val a0 + mp_val a1"
    "mp_val (mp_add_into (lo + 1) b0 b1) = mp_val b0 + mp_val b1" by (simp_all add: mp_val_add_into)
  have "int (mp_val (mp_sub_into (lo * 2 + 1) (mp_sub_into (lo * 2 + 1) p r0) r2)) =
      int (mp_val a0 * mp_val b1 + mp_val a1 * mp_val b0)"
    using middle by (simp only: mp_val_sub_into M_def[symmetric] assms(6-8) ws zmod_int of_nat_mult)
  then show ?thesis by (simp only: of_nat_eq_iff)
qed

lemma halves_product:
  fixes a b :: "'w::len word list"
  assumes "lo + hi = min rw (max (length a) (length b))"
    and "x0 = mp_val (mp_make_alias a 0 lo)" "y0 = mp_val (mp_make_alias b 0 lo)"
    and "x1 = mp_val (mp_make_alias a lo hi)" "y1 = mp_val (mp_make_alias b lo hi)"
  shows "((x0 * y0 + base TYPE('w) ^ (lo * 2) * (x1 * y1)) mod base TYPE('w) ^ rw + base TYPE('w) ^ lo * (x0 * y1 + x1 * y0))
      mod base TYPE('w) ^ rw = mp_val a * mp_val b mod base TYPE('w) ^ rw"
proof -
  let ?B = "base TYPE('w)"
  define inlen where "inlen = min rw (max (length a) (length b))"
  have whole: "x0 + ?B ^ lo * x1 = mp_val a mod ?B ^ inlen" "y0 + ?B ^ lo * y1 = mp_val b mod ?B ^ inlen"
    using halves[OF assms(1)[folded inlen_def]] by (simp_all add: assms(2-) mp_val_alias)
  have "x0 * y0 + ?B ^ (lo * 2) * (x1 * y1) + ?B ^ lo * (x0 * y1 + x1 * y0) =
      (x0 + ?B ^ lo * x1) * (y0 + ?B ^ lo * y1)"
    by (simp add: algebra_simps power_mult power2_eq_square)
  moreover have "rw = inlen \<or> mp_val a < ?B ^ inlen \<and> mp_val b < ?B ^ inlen"
  proof (cases "rw \<le> max (length a) (length b)")
    case True then show ?thesis by (simp add: inlen_def)
  next
    case wide: False
    then have i: "inlen = max (length a) (length b)" by (simp add: inlen_def)
    show ?thesis unfolding i by (intro disjI2 conjI; rule less_le_trans[OF mp_val_less]; rule power_increasing; simp)
  qed
  ultimately show ?thesis unfolding whole mod_add_left_eq using mod_min by metis
qed

definition product_ok :: "nat \<Rightarrow> 'w::len word list \<Rightarrow> 'w word list \<Rightarrow> 'w word list option \<Rightarrow> bool" where
  "product_ok rw a b res \<longleftrightarrow>
     (case res of None \<Rightarrow> False | Some r \<Rightarrow> length r = rw \<and> mp_val r = mp_val a * mp_val b mod base TYPE('w) ^ rw)"

lemma product_okE:
  fixes a b :: "'w::len word list"
  assumes "product_ok rw a b res"
  obtains r where "res = Some r" "length r = rw" "mp_val r = mp_val a * mp_val b mod base TYPE('w) ^ rw"
  using assms by (auto simp: product_ok_def split: option.splits)

text \<open>One step: products of the parts give the product.\<close>

lemma mul_step:
  fixes a b :: "'w::len word list"
  assumes pool: "mp_mul_scratchspace_unary inlen \<le> pool" and inlen: "inlen = min rw (max (length a) (length b))"
    and big: "\<not> inlen < KARATSUBA_THRESHOLD" "a \<noteq> []" "b \<noteq> []"
    and IH: "\<And>q m pool' (u :: 'w word list) v. length u \<le> m \<Longrightarrow> length v \<le> m \<Longrightarrow> m \<le> inlen - inlen div 2 + 1 \<Longrightarrow>
      mp_mul_scratchspace_unary m \<le> pool' \<Longrightarrow> product_ok q u v (mp_mul_internal q u v pool')"
  shows "product_ok rw a b (mp_mul_internal rw a b pool)"
proof -
  let ?B = "base TYPE('w)"
  define hi lo where tb: "hi = inlen div 2" "lo = inlen - inlen div 2"
  define a0 b0 a1 b1 where ab: "a0 = mp_make_alias a 0 lo" "b0 = mp_make_alias b 0 lo"
    "a1 = mp_make_alias a lo hi" "b1 = mp_make_alias b lo hi"
  have tb': "inlen div 2 = hi" "inlen - hi = lo" and sum: "lo + hi = inlen" "hi \<le> lo" by (simp_all add: tb)
  have lo: "lo \<le> rw" using sum(1) inlen by simp
  note room = scratch_suffices[OF big(1) tb(2) pool]
  note product = halves_product[OF sum(1)[unfolded inlen] refl refl refl refl, folded ab]
  have v: "mp_val a0 < ?B ^ lo" "mp_val b0 < ?B ^ lo" "mp_val a1 < ?B ^ hi" "mp_val b1 < ?B ^ hi"
    by (simp_all add: ab mp_val_alias)
  have lens: "length a0 \<le> lo" "length b0 \<le> lo" "length a1 \<le> lo" "length b1 \<le> lo"
    using sum(2) by (simp_all add: ab length_alias min.coboundedI1)
  have room0: "mp_mul_scratchspace_unary lo \<le> pool" using room(1) by simp
  obtain r0 where r0: "mp_mul_internal (min rw (lo * 2)) a0 b0 pool = Some r0" "length r0 = min rw (lo * 2)"
    "mp_val r0 = mp_val a0 * mp_val b0 mod ?B ^ min rw (lo * 2)"
    using IH[OF lens(1,2) _ room0, THEN product_okE] tb(2) by auto
  obtain r2 where r2: "mp_mul_internal (rw - lo * 2) a1 b1 pool = Some r2" "length r2 = rw - lo * 2"
    "mp_val r2 = mp_val a1 * mp_val b1 mod ?B ^ (rw - lo * 2)"
    using IH[OF lens(3,4) _ room0, THEN product_okE] tb(2) by auto
  note outer = outer_value[OF v(1,2) r0(2,3) r2(2,3)]
  have "\<exists>r. mp_mul_internal rw a b pool = Some r \<and> length r = rw \<and> mp_val r =
      (mp_val (r0 @ r2) + ?B ^ lo * (mp_val a0 * mp_val b1 + mp_val a1 * mp_val b0)) mod ?B ^ rw"
  proof (cases "rw < inlen * 2")
    case True
    define sw where "sw = min (lo + hi) (rw - lo)"
    have s: "mp_alloc_from_scratch pool sw = Some (pool - sw)" "mp_mul_scratchspace_unary lo \<le> pool - sw"
      using room(1,2) by (simp_all add: mp_alloc_from_scratch_def sw_def sum)
    obtain s1 where s1: "mp_mul_internal sw a0 b1 (pool - sw) = Some s1" "mp_val s1 = mp_val a0 * mp_val b1 mod ?B ^ sw"
      using IH[OF lens(1,4) _ s(2), THEN product_okE] tb(2) by auto
    obtain s2 where s2: "mp_mul_internal sw a1 b0 (pool - sw) = Some s2" "mp_val s2 = mp_val a1 * mp_val b0 mod ?B ^ sw"
      using IH[OF lens(3,2) _ s(2), THEN product_okE] tb(2) by auto
    have "mp_mul_internal rw a b pool = Some (add_at lo (add_at lo (r0 @ r2) s1) s2)"
      using pool big True r0(1) r2(1) s(1) s1(1) s2(1) unfolding sw_def
      by (subst mp_mul_internal.simps) (simp add: Let_def inlen[symmetric] tb' ab[symmetric])
    then show ?thesis using cut_value[OF v, of "r0 @ r2", unfolded outer(1), OF lo sw_def s1(2) s2(2)] lo outer(1) by simp
  next
    case wide: False
    obtain pool' where s: "mp_alloc_from_scratch pool (lo + 1) = Some (pool - (lo + 1))"
      "mp_alloc_from_scratch (pool - (lo + 1)) (lo + 1) = Some (pool - (lo + 1) - (lo + 1))"
      "mp_alloc_from_scratch (pool - (lo + 1) - (lo + 1)) (lo * 2 + 1) = Some pool'"
      "mp_mul_scratchspace_unary (lo + 1) \<le> pool'"
      using room(3-6) by (simp add: mp_alloc_from_scratch_def)
    obtain p where p: "mp_mul_internal (lo * 2 + 1) (mp_add_into (lo + 1) a0 a1) (mp_add_into (lo + 1) b0 b1) pool' = Some p"
      "mp_val p = mp_val (mp_add_into (lo + 1) a0 a1) * mp_val (mp_add_into (lo + 1) b0 b1) mod ?B ^ (lo * 2 + 1)"
      using IH[OF _ _ _ s(4), THEN product_okE, of "mp_add_into (lo + 1) a0 a1" "mp_add_into (lo + 1) b0 b1" "lo * 2 + 1"] tb(2)
      by (metis length_add_into le_refl)
    have m: "min rw (lo * 2) = lo * 2" "hi * 2 \<le> rw - lo * 2" using wide sum by linarith+
    have "mp_mul_internal rw a b pool =
        Some (add_at lo (r0 @ r2) (mp_sub_into (lo * 2 + 1) (mp_sub_into (lo * 2 + 1) p r0) r2))"
      using pool big wide r0(1) r2(1) s(1-3) p(1)
      by (subst mp_mul_internal.simps) (simp add: Let_def inlen[symmetric] tb' ab[symmetric] m)
    moreover have w0: "mp_val r0 = mp_val a0 * mp_val b0" "mp_val r2 = mp_val a1 * mp_val b1"
    proof -
      have "?B ^ (hi * 2) \<le> ?B ^ (rw - lo * 2)" using m(2) by (simp add: power_increasing)
      then show "mp_val r0 = mp_val a0 * mp_val b0" "mp_val r2 = mp_val a1 * mp_val b1"
        using mult_strict_mono[OF v(1,2)] mult_strict_mono[OF v(3,4)]
        by (simp_all add: r0(3) r2(3) m(1) power_mult power2_eq_square)
    qed
    ultimately show ?thesis
      using middle_value[OF v sum(2) w0 p(2)] mp_val_add_at[of lo "r0 @ r2"] lo outer(1) by simp
  qed
  then show ?thesis unfolding outer(2) product by (auto simp: product_ok_def)
qed

lemma mul_internal_ok:
  "mp_mul_scratchspace_unary (min rw (max (length a) (length b))) \<le> pool \<Longrightarrow> product_ok rw a b (mp_mul_internal rw a b pool)"
  for a b :: "'w::len word list"
proof (induction "min rw (max (length a) (length b))" arbitrary: rw a b pool rule: less_induct)
  case less
  define inlen where "inlen = min rw (max (length a) (length b))"
  show ?case
  proof (cases "inlen < KARATSUBA_THRESHOLD \<or> a = [] \<or> b = []")
    case True
    then show ?thesis using less.prems
      by (subst mp_mul_internal.simps) (auto simp: inlen_def[symmetric] Let_def mp_val_mul_add_simple product_ok_def)
  next
    case False
    then have big: "\<not> inlen < KARATSUBA_THRESHOLD" "a \<noteq> []" "b \<noteq> []" by simp_all
    show ?thesis
    proof (rule mul_step[OF less.prems[folded inlen_def] inlen_def big])
      fix q m pool' and u v :: "'w word list"
      assume m: "length u \<le> m" "length v \<le> m" "m \<le> inlen - inlen div 2 + 1" "mp_mul_scratchspace_unary m \<le> pool'"
      show "product_ok q u v (mp_mul_internal q u v pool')"
      proof (rule less.hyps)
        show "min q (max (length u) (length v)) < min rw (max (length a) (length b))"
          unfolding inlen_def[symmetric] by (rule mul_shrinks[OF big(1)]) (use m in simp_all)
        show "mp_mul_scratchspace_unary (min q (max (length u) (length v))) \<le> pool'"
          using m by (simp add: mp_mul_scratchspace_unary_def)
      qed
    qed
  qed
qed

lemma mp_mul_into_value:
  fixes a b :: "'w::len word list"
  assumes "0 < rw" "a \<noteq> [] \<or> b \<noteq> []"
  shows "\<exists>r. mp_mul_into rw a b = Some r \<and> length r = rw \<and> mp_val r = mp_val a * mp_val b mod 2 ^ (LENGTH('w) * rw)"
proof -
  have "0 < mp_mul_scratchspace rw (length a) (length b)"
    using assms by (auto simp: mp_mul_scratchspace_def mp_mul_scratchspace_unary_def less_max_iff_disj)
  then have "mp_mul_into rw a b = mp_mul_internal rw a b (mp_mul_scratchspace rw (length a) (length b))"
    by (simp add: mp_mul_into_def)
  then show ?thesis unfolding mp_mul_scratchspace_def power_mult
    by (auto intro: product_okE[OF mul_internal_ok[OF le_refl, of rw a b]])
qed

text \<open>
  C10: Karatsuba multiplication (\<open>mp_mul_internal\<close>) is multiplication: for every size of the result, of
  the operands and of the words, it leaves the product modulo the size of the result, and the scratch space that
  \<open>mp_mul_scratchspace\<close> computes is enough for the whole recursion, so that no assertion fails.
\<close>
theorem mp_mul_into_correct:
  fixes a b :: "'w::len word list"
  assumes "0 < rw" "a \<noteq> [] \<or> b \<noteq> []"
  shows "\<exists>r. mp_mul_into rw a b = Some r \<and> length r = rw \<and> mp_val r = mp_val a * mp_val b mod 2 ^ (LENGTH('w) * rw)"
  using assms by (rule mp_mul_into_value)

theorem mp_mul_into_correct_witness:
  "\<exists>r. mp_mul_into 2 [255 :: 8 word] [254, 1] = Some r \<and> length r = 2 \<and> mp_val r = 255 * 510 mod 65536"
  using mp_mul_into_correct[of 2 "[255 :: 8 word]" "[254, 1]"] by simp

text \<open>The exact product.\<close>

lemma mp_mul_exact:
  fixes a b :: "'w::len word list"
  assumes "a \<noteq> [] \<or> b \<noteq> []"
  obtains r where "mp_mul a b = Some r" "length r = length a + length b" "mp_val r = mp_val a * mp_val b"
proof -
  have l: "mp_val a * mp_val b < base TYPE('w) ^ (length a + length b)"
    unfolding power_add by (intro mult_strict_mono mp_val_less) simp_all
  have p: "0 < length a + length b" using assms by auto
  obtain r where r: "mp_mul_internal (length a + length b) a b (mp_mul_scratchspace (length a + length b) (length a) (length b)) = Some r"
    "length r = length a + length b" "mp_val r = mp_val a * mp_val b"
    using product_okE[OF mul_internal_ok[OF le_refl, of "length a + length b" a b]] l
    by (auto simp: mp_mul_scratchspace_def)
  moreover have "0 < mp_mul_scratchspace (length a + length b) (length a) (length b)"
    using assms by (auto simp: mp_mul_scratchspace_def mp_mul_scratchspace_unary_def less_max_iff_disj)
  ultimately show ?thesis using p by (intro that[of r]) (simp_all add: mp_mul_def mp_mul_into_def)
qed

end
