(* ===== verification/MpintRecip.thy ===== *)
theory MpintRecip
  imports Complex_Main Prelude
begin

text \<open>
  \<open>mpint.c\<close>, the approximate reciprocal of 32 bits that division starts from: a polynomial of degree 8
  in integer arithmetic. The comment of the code bounds its error by exhaustive iteration; here the bound is proved.
\<close>

text \<open>The 64 bits of \<open>r\<close>, and their truncation by the return type.\<close>

definition recip_steps :: "u32 \<Rightarrow> u64" where
  "recip_steps x =
     (let x = ucast x :: u64; r = 0x92db03d6;
          r = 0xf63e71ea - drop_bit 34 (r * x);
          r = 0xb63721e8 - drop_bit 34 (r * x);
          r = 0x9c2da00e - drop_bit 33 (r * x);
          r = 0xaada0bb8 - drop_bit 32 (r * x);
          r = 0xf75cd403 - drop_bit 31 (r * x);
          r = 0xecf97a41 - drop_bit 31 (r * x);
          r = 0x90d876cd - drop_bit 31 (r * x);
          r = 0x6682799a0 - drop_bit 26 (r * x)
      in r)"

definition recip_approx_32 :: "u32 \<Rightarrow> u32" where
  "recip_approx_32 x = ucast (recip_steps x)"

section \<open>Polynomials that are not negative on an interval\<close>

text \<open>
  Coefficients from the constant one up. A polynomial is nonnegative on the unit interval when its reverse,
  moved by one, has no negative coefficient; an interval of \<open>k\<close> units is cut into its units.
\<close>

fun horner :: "int list \<Rightarrow> real \<Rightarrow> real" where
  "horner [] t = 0"
| "horner (c # cs) t = of_int c + t * horner cs t"

fun add_poly :: "int list \<Rightarrow> int list \<Rightarrow> int list" where
  "add_poly [] ys = ys"
| "add_poly xs [] = xs"
| "add_poly (x # xs) (y # ys) = (x + y) # add_poly xs ys"

fun shift_poly :: "int list \<Rightarrow> int list" where
  "shift_poly [] = []"
| "shift_poly (c # cs) = (let ds = shift_poly cs in add_poly (c # ds) ds)"

fun nonneg_on :: "nat \<Rightarrow> int list \<Rightarrow> bool" where
  "nonneg_on 0 cs = True"
| "nonneg_on (Suc k) cs = ((case cs of [] \<Rightarrow> True | c # _ \<Rightarrow> 0 \<le> c) \<and> list_all (\<lambda>d. 0 \<le> d) (shift_poly (rev cs)) \<and> nonneg_on k (shift_poly cs))"

text \<open>The polynomial in \<open>k\<close>-ths, times \<open>k\<close> to its degree.\<close>

fun scale_poly :: "int \<Rightarrow> int list \<Rightarrow> int list" where
  "scale_poly k [] = []"
| "scale_poly k (c # cs) = (c * k ^ length cs) # scale_poly k cs"

lemma horner_add: "horner (add_poly xs ys) t = horner xs t + horner ys t"
  by (induction xs ys rule: add_poly.induct) (simp_all add: algebra_simps)

lemma horner_shift: "horner (shift_poly cs) t = horner cs (t + 1)"
  by (induction cs) (simp_all add: horner_add Let_def algebra_simps)

lemma horner_nonneg: "list_all (\<lambda>d. 0 \<le> d) cs \<Longrightarrow> 0 \<le> t \<Longrightarrow> 0 \<le> horner cs t"
  by (induction cs) simp_all

lemma horner_append: "horner (xs @ ys) t = horner xs t + t ^ length xs * horner ys t"
  by (induction xs) (simp_all add: algebra_simps)

lemma horner_rev: "0 < t \<Longrightarrow> horner (rev cs) t = t ^ length cs / t * horner cs (1 / t)"
  by (induction cs) (simp_all add: horner_append algebra_simps)

lemma horner_unit:
  assumes "list_all (\<lambda>d. 0 \<le> d) (shift_poly (rev cs))" "0 < t" "t \<le> 1"
  shows "0 \<le> horner cs t"
proof -
  have u: "0 < 1 / t" "0 \<le> 1 / t - 1" using assms(2,3) by (simp_all add: field_simps)
  have "0 \<le> horner (rev cs) (1 / t)"
    using horner_nonneg[OF assms(1) u(2)] horner_shift[of "rev cs" "1 / t - 1"] by simp
  then have "0 \<le> (1 / t) ^ length cs / (1 / t) * horner cs t" using horner_rev[OF u(1), of cs] by simp
  moreover have "0 < (1 / t) ^ length cs / (1 / t)" using assms(2) by simp
  ultimately show ?thesis by (simp only: zero_le_mult_iff) auto
qed

lemma length_add_poly: "length (add_poly xs ys) = max (length xs) (length ys)"
  by (induction xs ys rule: add_poly.induct) simp_all

lemma nonneg_on_horner: "nonneg_on k cs \<Longrightarrow> 0 < k \<Longrightarrow> 0 \<le> t \<Longrightarrow> t \<le> real k \<Longrightarrow> 0 \<le> horner cs t"
proof (induction k arbitrary: cs t)
  case (Suc k)
  consider "t = 0" | "0 < t" "t \<le> 1" | "1 < t" using Suc.prems by linarith
  then show ?case
  proof cases
    case 1
    then show ?thesis using Suc.prems by (cases cs) simp_all
  next
    case 2
    then show ?thesis using Suc.prems horner_unit by simp
  next
    case 3
    then have "0 < k" using Suc.prems by (cases k) auto
    then show ?thesis using Suc.IH[of "shift_poly cs" "t - 1"] Suc.prems 3 by (simp add: horner_shift)
  qed
qed simp

lemma horner_scale: "k \<noteq> 0 \<Longrightarrow> horner (scale_poly k cs) t * k = horner cs (t / k) * k ^ length cs"
proof (induction cs)
  case (Cons c cs)
  then show ?case by (simp add: algebra_simps)
qed simp

text \<open>On \<open>[1, 1 + k / m]\<close>.\<close>

lemma nonneg_interval:
  assumes "nonneg_on k (scale_poly (int m) (shift_poly cs))" "0 < m" "0 < k" "1 \<le> y" "y \<le> 1 + real k / real m"
  shows "0 \<le> horner cs y"
proof -
  have "0 \<le> (y - 1) * m" "(y - 1) * m \<le> k" using assms(2-5) by (simp_all add: field_simps)
  then have "0 \<le> horner (scale_poly (int m) (shift_poly cs)) ((y - 1) * m)" by (rule nonneg_on_horner[OF assms(1,3)])
  then have "0 \<le> horner (scale_poly (int m) (shift_poly cs)) ((y - 1) * m) * m" by simp
  also have "\<dots> = horner (shift_poly cs) (y - 1) * real m ^ length (shift_poly cs)"
    using horner_scale[of "int m" "shift_poly cs" "(y - 1) * m"] assms(2) by simp
  also have "\<dots> = horner cs y * real m ^ length (shift_poly cs)" by (simp add: horner_shift)
  finally have "0 \<le> horner cs y * real m ^ length (shift_poly cs)" .
  moreover have "0 < real m ^ length (shift_poly cs)" using assms(2) by simp
  ultimately show ?thesis by (meson mult_neg_pos not_le)
qed

section \<open>The error of the polynomial\<close>

text \<open>The coefficients, 512 times, of what the steps compute over the reals from \<open>y = x / 2 ^ 31\<close>.\<close>

definition poly_step :: "int \<Rightarrow> int \<Rightarrow> int list \<Rightarrow> int list" where
  "poly_step c k cs = (512 * c) # map (\<lambda>a. - (k * a) div 8) cs"

definition "ip0 = [512 * 0x92db03d6 :: int]"
definition "ip1 = poly_step 0xf63e71ea 1 ip0"
definition "ip2 = poly_step 0xb63721e8 1 ip1"
definition "ip3 = poly_step 0x9c2da00e 2 ip2"
definition "ip4 = poly_step 0xaada0bb8 4 ip3"
definition "ip5 = poly_step 0xf75cd403 8 ip4"
definition "ip6 = poly_step 0xecf97a41 8 ip5"
definition "ip7 = poly_step 0x90d876cd 8 ip6"
definition "ip8 = poly_step 0x6682799a0 256 ip7"

abbreviation (input) on_1_2 :: "int list \<Rightarrow> bool" where
  "on_1_2 cs \<equiv> nonneg_on 16 (scale_poly 16 (shift_poly cs))"

text \<open>All polynomials are at least 900; the last one is the reciprocal up to 1100, and below the top near 1.\<close>

lemma polys_positive:
  "list_all (\<lambda>cs. on_1_2 (add_poly [- 512 * 900] cs)) [ip1, ip2, ip3, ip4, ip5, ip6, ip7]"
  by code_simp

lemma reciprocal_polys:
  "on_1_2 (add_poly [512 * 2 ^ 32, 512 * 1100] (0 # map uminus ip8))"
  "on_1_2 (add_poly [- 512 * 2 ^ 32, 512 * 1100] (0 # ip8))"
  "nonneg_on 4 (scale_poly 16 (shift_poly (add_poly [512 * (2 ^ 32 - 300)] (map uminus ip8))))"
  by code_simp+

lemma step_error:
  fixes r x c :: u64 and y p p' k lo hi Y :: real
  assumes "unat r < 2 ^ 32" "unat x < 2 ^ 32" "real (unat x) = 2 ^ 31 * y" "y \<le> Y"
    and "k * 2 ^ s = 2 ^ 31" "lo \<le> unat r - p" "unat r - p \<le> hi" "lo \<le> 0" "0 \<le> hi"
    and p': "p' = unat c - k * y * p" "Y * k * hi \<le> p'"
  shows "- (Y * k * hi) \<le> unat (c - drop_bit s (r * x)) - p'" "unat (c - drop_bit s (r * x)) - p' \<le> 1 - Y * k * lo"
    "unat (c - drop_bit s (r * x)) \<le> unat c"
proof -
  define m where "m = unat r * unat x div 2 ^ s"
  have y: "0 \<le> y" "y \<le> Y" using assms(3,4) of_nat_0_le_iff[of "unat x", where 'a = real] by simp_all
  have k: "0 \<le> k" using assms(5) by (metis less_eq_real_def not_le mult_neg_pos zero_less_power zero_less_numeral)
  have "unat r * unat x < 2 ^ 32 * 2 ^ 32" using assms(1,2) by (intro mult_strict_mono) simp_all
  then have "unat (r * x) = unat r * unat x" by (simp add: unat_word_ariths)
  then have m: "unat (drop_bit s (r * x)) = m" unfolding m_def unat_drop_bit_eq by (simp add: drop_bit_eq_div)
  have q: "real (unat r * unat x) / 2 ^ s = k * y * unat r"
  proof -
    have "real (unat x) = k * y * 2 ^ s" unfolding assms(3) assms(5)[symmetric] by simp
    then show ?thesis by simp
  qed
  have "m * 2 ^ s \<le> unat r * unat x" "unat r * unat x < (m + 1) * 2 ^ s"
    unfolding m_def using dividend_less_div_times[of "2 ^ s" "unat r * unat x"] by (simp_all add: algebra_simps)
  then have "real (m * 2 ^ s) \<le> real (unat r * unat x)" "real (unat r * unat x) \<le> real ((m + 1) * 2 ^ s)"
    unfolding of_nat_le_iff by simp_all
  then have "real m \<le> real (unat r * unat x) / 2 ^ s" "real (unat r * unat x) / 2 ^ s \<le> real m + 1"
    unfolding pos_le_divide_eq[OF zero_less_power[OF zero_less_numeral]] pos_divide_le_eq[OF zero_less_power[OF zero_less_numeral]]
    by (simp_all add: algebra_simps)
  then have m1: "real m \<le> k * y * unat r" "k * y * unat r \<le> real m + 1" unfolding q .
  have e: "k * y * unat r = k * y * p + k * y * (unat r - p)" by (simp add: algebra_simps)
  have b: "k * y * (unat r - p) \<le> Y * k * hi" "Y * k * lo \<le> k * y * (unat r - p)"
  proof -
    have "k * y * (unat r - p) \<le> k * y * hi" using assms(7) y k by (intro mult_left_mono) simp_all
    also have "\<dots> \<le> k * Y * hi" using y k assms(9) by (intro mult_right_mono mult_left_mono) simp_all
    finally show "k * y * (unat r - p) \<le> Y * k * hi" by (simp add: mult.commute mult.left_commute)
    have "k * Y * lo \<le> k * y * lo" using y k assms(8) by (intro mult_right_mono_neg mult_left_mono) simp_all
    also have "\<dots> \<le> k * y * (unat r - p)" using assms(6) y k by (intro mult_left_mono) simp_all
    finally show "Y * k * lo \<le> k * y * (unat r - p)" by (simp add: mult.commute mult.left_commute)
  qed
  have "real m \<le> real (unat c)" using m1(1) e b(1) p' by linarith
  then have "m \<le> unat c" unfolding of_nat_le_iff .
  then have u: "unat (c - drop_bit s (r * x)) = unat c - m" using m by (simp add: unat_sub word_le_nat_alt)
  show "- (Y * k * hi) \<le> unat (c - drop_bit s (r * x)) - p'" "unat (c - drop_bit s (r * x)) - p' \<le> 1 - Y * k * lo"
    "unat (c - drop_bit s (r * x)) \<le> unat c"
    unfolding u of_nat_diff[OF \<open>m \<le> unat c\<close>] using m1 e b p' by (linarith, linarith, simp)
qed

text \<open>The steps over the reals.\<close>

definition rp1 :: "real \<Rightarrow> real" where "rp1 y = 0xf63e71ea - 1/8 * y * 0x92db03d6"
definition rp2 :: "real \<Rightarrow> real" where "rp2 y = 0xb63721e8 - 1/8 * y * rp1 y"
definition rp3 :: "real \<Rightarrow> real" where "rp3 y = 0x9c2da00e - 1/4 * y * rp2 y"
definition rp4 :: "real \<Rightarrow> real" where "rp4 y = 0xaada0bb8 - 1/2 * y * rp3 y"
definition rp5 :: "real \<Rightarrow> real" where "rp5 y = 0xf75cd403 - 1 * y * rp4 y"
definition rp6 :: "real \<Rightarrow> real" where "rp6 y = 0xecf97a41 - 1 * y * rp5 y"
definition rp7 :: "real \<Rightarrow> real" where "rp7 y = 0x90d876cd - 1 * y * rp6 y"
definition rp8 :: "real \<Rightarrow> real" where "rp8 y = 0x6682799a0 - 32 * y * rp7 y"

lemma horner_poly_step:
  "list_all (\<lambda>a. 8 dvd k * a) cs \<Longrightarrow> horner (poly_step c k cs) y = 512 * c - of_int k / 8 * y * horner cs y"
proof -
  have "list_all (\<lambda>a. 8 dvd k * a) cs \<Longrightarrow> horner (map (\<lambda>a. - (k * a) div 8) cs) y = - (of_int k / 8 * horner cs y)"
  proof (induction cs)
    case (Cons a cs)
    obtain b where "k * a = 8 * b" using Cons.prems by (auto elim: dvdE)
    then have "real_of_int k * real_of_int a = 8 * real_of_int b" by (metis of_int_mult of_int_numeral)
    moreover have "- (k * a) div 8 = - b" using \<open>k * a = 8 * b\<close> by (metis mult_minus_right nonzero_mult_div_cancel_left zero_neq_numeral)
    ultimately have "real_of_int (- (k * a) div 8) = - (of_int k / 8 * of_int a)" by simp
    then show ?case using Cons by (simp add: algebra_simps)
  qed simp
  then show "list_all (\<lambda>a. 8 dvd k * a) cs \<Longrightarrow> ?thesis" by (simp add: poly_step_def algebra_simps)
qed

lemma ips_exact:
  "list_all (\<lambda>a. 8 dvd 1 * a) ip0" "list_all (\<lambda>a. 8 dvd 1 * a) ip1" "list_all (\<lambda>a. 8 dvd 2 * a) ip2"
  "list_all (\<lambda>a. 8 dvd 4 * a) ip3" "list_all (\<lambda>a. 8 dvd 8 * a) ip4" "list_all (\<lambda>a. 8 dvd 8 * a) ip5"
  "list_all (\<lambda>a. 8 dvd 8 * a) ip6" "list_all (\<lambda>a. 8 dvd 256 * a) ip7"
  by code_simp+

lemma horner_ips:
  "horner ip1 y = 512 * rp1 y" "horner ip2 y = 512 * rp2 y" "horner ip3 y = 512 * rp3 y" "horner ip4 y = 512 * rp4 y"
  "horner ip5 y = 512 * rp5 y" "horner ip6 y = 512 * rp6 y" "horner ip7 y = 512 * rp7 y" "horner ip8 y = 512 * rp8 y"
proof -
  have 0: "horner ip0 y = 512 * 0x92db03d6" by (simp add: ip0_def)
  show 1: "horner ip1 y = 512 * rp1 y" unfolding ip1_def horner_poly_step[OF ips_exact(1)] 0 by (simp add: rp1_def)
  show 2: "horner ip2 y = 512 * rp2 y" unfolding ip2_def horner_poly_step[OF ips_exact(2)] 1 by (simp add: rp2_def)
  show 3: "horner ip3 y = 512 * rp3 y" unfolding ip3_def horner_poly_step[OF ips_exact(3)] 2 by (simp add: rp3_def)
  show 4: "horner ip4 y = 512 * rp4 y" unfolding ip4_def horner_poly_step[OF ips_exact(4)] 3 by (simp add: rp4_def)
  show 5: "horner ip5 y = 512 * rp5 y" unfolding ip5_def horner_poly_step[OF ips_exact(5)] 4 by (simp add: rp5_def)
  show 6: "horner ip6 y = 512 * rp6 y" unfolding ip6_def horner_poly_step[OF ips_exact(6)] 5 by (simp add: rp6_def)
  show 7: "horner ip7 y = 512 * rp7 y" unfolding ip7_def horner_poly_step[OF ips_exact(7)] 6 by (simp add: rp7_def)
  show "horner ip8 y = 512 * rp8 y" unfolding ip8_def horner_poly_step[OF ips_exact(8)] 7 by (simp add: rp8_def)
qed

lemma horner_uminus: "horner (map uminus cs) t = - horner cs t"
  by (induction cs) simp_all

lemma on_1_2_horner: "on_1_2 cs \<Longrightarrow> 1 \<le> y \<Longrightarrow> y \<le> 2 \<Longrightarrow> 0 \<le> horner cs y"
  using nonneg_interval[of 16 16 cs y] by simp

lemma rp_positive:
  assumes "1 \<le> y" "y \<le> 2"
  shows "900 \<le> rp1 y" "900 \<le> rp2 y" "900 \<le> rp3 y" "900 \<le> rp4 y" "900 \<le> rp5 y" "900 \<le> rp6 y" "900 \<le> rp7 y"
proof -
  have p: "900 \<le> horner cs y / 512" if "cs \<in> set [ip1, ip2, ip3, ip4, ip5, ip6, ip7]" for cs
  proof -
    have "on_1_2 (add_poly [- 512 * 900] cs)" using polys_positive that unfolding list_all_iff by blast
    from on_1_2_horner[OF this assms] show ?thesis by (simp add: horner_add)
  qed
  show "900 \<le> rp1 y" "900 \<le> rp2 y" "900 \<le> rp3 y" "900 \<le> rp4 y" "900 \<le> rp5 y" "900 \<le> rp6 y" "900 \<le> rp7 y"
    using p[of ip1] p[of ip2] p[of ip3] p[of ip4] p[of ip5] p[of ip6] p[of ip7] by (simp_all add: horner_ips)
qed

lemma rp8_reciprocal:
  assumes "1 \<le> y" "y \<le> 2"
  shows "y * rp8 y \<le> 2 ^ 32 + 1100 * y" "2 ^ 32 \<le> y * rp8 y + 1100 * y"
  using reciprocal_polys(1,2)[THEN on_1_2_horner, OF assms]
  by (simp_all add: horner_add horner_uminus horner_ips algebra_simps)

lemma rp8_below:
  assumes "1 \<le> y" "y \<le> 5/4"
  shows "rp8 y \<le> 2 ^ 32 - 300"
  using nonneg_interval[OF reciprocal_polys(3)[folded of_nat_numeral[where 'a = int]], of y] assms
  by (simp add: horner_add horner_uminus horner_ips)

section \<open>The error of the code\<close>

lemma recip_range:
  fixes x :: u32
  assumes "2 ^ 31 \<le> unat x" "real (unat x) = 2 ^ 31 * y"
  shows "1 \<le> y" "y < 2"
proof -
  have "2 ^ 31 \<le> real (unat x)" using assms(1) by (metis of_nat_le_iff of_nat_numeral of_nat_power)
  moreover have "real (unat x) < real (2 ^ 32)" using u32_less[of x] unfolding of_nat_less_iff by simp
  ultimately show "1 \<le> y" "y < 2" using assms(2) by simp_all
qed

text \<open>One step, with bounds on the error before and after it.\<close>

abbreviation (input) near :: "u64 \<Rightarrow> real \<Rightarrow> real \<Rightarrow> real \<Rightarrow> bool" where
  "near r p lo hi \<equiv> lo \<le> real (unat r) - p \<and> real (unat r) - p \<le> hi \<and> lo \<le> 0 \<and> 0 \<le> hi"

definition widens :: "real \<Rightarrow> real \<times> real \<Rightarrow> real \<times> real \<Rightarrow> bool" where
  "widens k b b' \<longleftrightarrow> fst b' \<le> - (k * snd b) \<and> 1 - k * fst b \<le> snd b' \<and> - 900 \<le> fst b' \<and> fst b' \<le> 0 \<and> 0 \<le> snd b'"

lemma step_near:
  fixes r x c :: u64 and y p p' k Y :: real
  assumes "near r p (fst b) (snd b)" "unat r < 2 ^ 32" "unat x < 2 ^ 32" "real (unat x) = 2 ^ 31 * y" "y \<le> Y"
    and "k * 2 ^ s = 2 ^ 31" "p' = unat c - k * y * p" "900 \<le> p'" "widens (Y * k) b b'"
  shows "near (c - drop_bit s (r * x)) p' (fst b') (snd b')" "unat (c - drop_bit s (r * x)) \<le> unat c"
proof -
  have "Y * k * snd b \<le> p'" using assms(8,9) by (simp add: widens_def)
  from step_error[where lo = "fst b" and hi = "snd b" and p = p, OF assms(2-6) _ _ _ _ assms(7) this] assms(1,9)
  show "near (c - drop_bit s (r * x)) p' (fst b') (snd b')" "unat (c - drop_bit s (r * x)) \<le> unat c"
    by (auto simp: widens_def)
qed

text \<open>The errors of all roundings together. Near 1 they are smaller.\<close>

lemma recip_chain:
  fixes x :: u32
  assumes x: "2 ^ 31 \<le> unat x" "real (unat x) = 2 ^ 31 * y" and "y \<le> Y"
    and w: "widens (Y * (1/8)) (0, 0) b1" "widens (Y * (1/8)) b1 b2" "widens (Y * (1/4)) b2 b3" "widens (Y * (1/2)) b3 b4"
      "widens (Y * 1) b4 b5" "widens (Y * 1) b5 b6" "widens (Y * 1) b6 b7" "widens (Y * 32) b7 b8"
  shows "near (recip_steps x) (rp8 y) (fst b8) (snd b8)"
proof -
  note y = recip_range[OF x]
  define X where "X = (ucast x :: u64)"
  have "unat X = take_bit 64 (unat x)" by (simp add: X_def unsigned_ucast_eq)
  also have "\<dots> = unat x" by (rule take_bit_nat_eq_self) (rule less_trans[OF u32_less], simp)
  finally have X: "unat X < 2 ^ 32" "real (unat X) = 2 ^ 31 * y" using u32_less[of x] x(2) by simp_all
  define r0 :: u64 where "r0 = 0x92db03d6"
  define r1 where "r1 = 0xf63e71ea - drop_bit 34 (r0 * X)"
  define r2 where "r2 = 0xb63721e8 - drop_bit 34 (r1 * X)"
  define r3 where "r3 = 0x9c2da00e - drop_bit 33 (r2 * X)"
  define r4 where "r4 = 0xaada0bb8 - drop_bit 32 (r3 * X)"
  define r5 where "r5 = 0xf75cd403 - drop_bit 31 (r4 * X)"
  define r6 where "r6 = 0xecf97a41 - drop_bit 31 (r5 * X)"
  define r7 where "r7 = 0x90d876cd - drop_bit 31 (r6 * X)"
  define r8 where "r8 = 0x6682799a0 - drop_bit 26 (r7 * X)"
  have code: "recip_steps x = r8"
    by (simp only: recip_steps_def Let_def r0_def r1_def r2_def r3_def r4_def r5_def r6_def r7_def r8_def X_def)
  note pos = rp_positive[OF y(1) less_imp_le[OF y(2)]]
  have n0: "near r0 0x92db03d6 (fst (0, 0)) (snd (0, 0))" "unat r0 < 2 ^ 32" by (simp_all add: r0_def)
  have n1: "near r1 (rp1 y) (fst b1) (snd b1)" "unat r1 \<le> unat (0xf63e71ea :: u64)"
    unfolding r1_def by (rule step_near[OF n0(1) n0(2) X assms(3) _ _ pos(1) w(1)]; simp add: rp1_def)+
  have l1: "unat r1 < 2 ^ 32" using n1(2) by simp
  have n2: "near r2 (rp2 y) (fst b2) (snd b2)" "unat r2 \<le> unat (0xb63721e8 :: u64)"
    unfolding r2_def by (rule step_near[OF n1(1) l1 X assms(3) _ _ pos(2) w(2)]; simp add: rp2_def)+
  have l2: "unat r2 < 2 ^ 32" using n2(2) by simp
  have n3: "near r3 (rp3 y) (fst b3) (snd b3)" "unat r3 \<le> unat (0x9c2da00e :: u64)"
    unfolding r3_def by (rule step_near[OF n2(1) l2 X assms(3) _ _ pos(3) w(3)]; simp add: rp3_def)+
  have l3: "unat r3 < 2 ^ 32" using n3(2) by simp
  have n4: "near r4 (rp4 y) (fst b4) (snd b4)" "unat r4 \<le> unat (0xaada0bb8 :: u64)"
    unfolding r4_def by (rule step_near[OF n3(1) l3 X assms(3) _ _ pos(4) w(4)]; simp add: rp4_def)+
  have l4: "unat r4 < 2 ^ 32" using n4(2) by simp
  have n5: "near r5 (rp5 y) (fst b5) (snd b5)" "unat r5 \<le> unat (0xf75cd403 :: u64)"
    unfolding r5_def by (rule step_near[OF n4(1) l4 X assms(3) _ _ pos(5) w(5)]; simp add: rp5_def)+
  have l5: "unat r5 < 2 ^ 32" using n5(2) by simp
  have n6: "near r6 (rp6 y) (fst b6) (snd b6)" "unat r6 \<le> unat (0xecf97a41 :: u64)"
    unfolding r6_def by (rule step_near[OF n5(1) l5 X assms(3) _ _ pos(6) w(6)]; simp add: rp6_def)+
  have l6: "unat r6 < 2 ^ 32" using n6(2) by simp
  have n7: "near r7 (rp7 y) (fst b7) (snd b7)" "unat r7 \<le> unat (0x90d876cd :: u64)"
    unfolding r7_def by (rule step_near[OF n6(1) l6 X assms(3) _ _ pos(7) w(7)]; simp add: rp7_def)+
  have l7: "unat r7 < 2 ^ 32" using n7(2) by simp
  have pos8: "900 \<le> rp8 y"
  proof -
    have "2 ^ 32 - 1100 * y \<le> y * rp8 y" using rp8_reciprocal(2)[OF y(1) less_imp_le[OF y(2)]] by simp
    moreover have "2000 * y \<le> 2 ^ 32" using y(2) by simp
    ultimately have "900 * y \<le> y * rp8 y" by simp
    then show ?thesis using y(1) by (simp add: mult.commute[of y])
  qed
  have n8: "near r8 (rp8 y) (fst b8) (snd b8)" "unat r8 \<le> unat (0x6682799a0 :: u64)"
    unfolding r8_def by (rule step_near[OF n7(1) l7 X assms(3) _ _ pos8 w(8)]; simp add: rp8_def)+
  show ?thesis unfolding code by (rule n8(1))
qed

lemma recip_bounded:
  fixes x :: u32
  assumes "2 ^ 31 \<le> unat x"
  shows "\<bar>int (unat (recip_approx_32 x)) * int (unat x) - 2 ^ 63\<bar> \<le> 2000 * int (unat x)"
proof -
  define y where "y = real (unat x) / 2 ^ 31"
  then have xy: "real (unat x) = 2 ^ 31 * y" by simp
  note y = recip_range[OF assms xy]
  define r where "r = recip_steps x"
  have r: "\<bar>real (unat r) - rp8 y\<bar> \<le> 897"
    using recip_chain[OF assms xy less_imp_le[OF y(2)],
        of "(0, 1)" "(- 1/4, 1)" "(- 1/2, 9/8)" "(- 9/8, 3/2)" "(- 3, 13/4)" "(- 13/2, 7)" "(- 14, 14)" "(- 896, 897)"]
    by (auto simp: widens_def abs_le_iff r_def)
  note p = rp8_reciprocal[OF y(1) less_imp_le[OF y(2)]]
  have "y * \<bar>real (unat r) - rp8 y\<bar> \<le> y * 897" using r y(1) by (intro mult_left_mono) simp_all
  then have "\<bar>y * real (unat r) - y * rp8 y\<bar> \<le> 897 * y"
    using y(1) by (simp only: right_diff_distrib[symmetric] abs_mult)
  then have close: "\<bar>y * real (unat r) - 2 ^ 32\<bar> \<le> 2000 * y" using p y(1) by (simp only: abs_le_iff) linarith
  have "real (unat r) < 2 ^ 32"
  proof (cases "y \<le> 5/4")
    case True
    have "real (unat r) - rp8 y \<le> 181"
      using recip_chain[OF assms xy True,
        of "(0, 1)" "(- 1/5, 1)" "(- 2/5, 11/10)" "(- 7/10, 5/4)" "(- 2, 2)" "(- 5/2, 7/2)" "(- 9/2, 9/2)" "(- 180, 181)"]
      by (auto simp: widens_def r_def)
    then show ?thesis using rp8_below[OF y(1) True] by linarith
  next
    case False
    then have "5/4 * real (unat r) \<le> y * real (unat r)" by (intro mult_right_mono of_nat_0_le_iff) simp
    then show ?thesis using close y(2) by (simp add: abs_le_iff)
  qed
  then have "unat r < 2 ^ 32" by (metis of_nat_less_iff of_nat_numeral of_nat_power)
  then have "unat (recip_approx_32 x) = unat r"
    by (simp add: recip_approx_32_def r_def unsigned_ucast_eq unsigned_take_bit_eq take_bit_nat_eq_self)
  then have "real_of_int (int (unat (recip_approx_32 x)) * int (unat x) - 2 ^ 63) = 2 ^ 31 * (y * real (unat r) - 2 ^ 32)"
    using xy by (simp add: algebra_simps)
  then have "\<bar>real_of_int (int (unat (recip_approx_32 x)) * int (unat x) - 2 ^ 63)\<bar> = 2 ^ 31 * \<bar>y * real (unat r) - 2 ^ 32\<bar>"
    by (simp only: abs_mult) simp
  also have "\<dots> \<le> real_of_int (2000 * int (unat x))" using close xy by simp
  finally show ?thesis by linarith
qed

text \<open>
  C19: The division-free reciprocal of the code is never more than 2000 away from \<open>2 ^ 63 / x\<close>, for every \<open>x\<close> with its
  top bit set, and does not overflow. (The code asks for less than 2048, which it justifies by exhaustive iteration.)
\<close>
theorem recip_approx_32_error:
  fixes x :: u32
  assumes "2 ^ 31 \<le> unat x"
  shows "\<bar>int (unat (recip_approx_32 x)) * int (unat x) - 2 ^ 63\<bar> \<le> 2000 * int (unat x)"
  using assms by (rule recip_bounded)

theorem recip_approx_32_error_witness:
  "unat (recip_approx_32 0xfbefd986) = 2182115287 \<and>
   \<bar>int (unat (recip_approx_32 0xfbefd986)) * int (unat (0xfbefd986 :: u32)) - 2 ^ 63\<bar> \<le> 2000 * 0xfbefd986"
  using recip_approx_32_error[of "0xfbefd986"] by (simp add: recip_approx_32_def recip_steps_def Let_def)

end
