(* ===== verification/MpintDiv.thy ===== *)
theory MpintDiv
  imports MpintMul MpintRecip
begin

text \<open>
  \<open>mpint.c\<close>, division: the reciprocal of the divisor by Newton's iteration from the approximation of its
  top 32 bits, the quotient by one multiplication, and corrections. Words have 64 bits here
  (\<open>BIGNUM_INT_BITS\<close> of the 64-bit builds), since the code mixes them with \<open>uint64_t\<close>. Sizes and shift
  counts that the code computes in \<open>size_t\<close> with wrap-around are words as well.
\<close>

abbreviation (input) BIGNUM_INT_BITS :: nat where "BIGNUM_INT_BITS \<equiv> 64"
abbreviation (input) BIGNUM_INT_BITS_BITS :: nat where "BIGNUM_INT_BITS_BITS \<equiv> 6"

section \<open>The top of a number\<close>

definition normalise_to_1_u64 :: "u64 \<Rightarrow> u64" where
  "normalise_to_1_u64 n = (let n = drop_bit 1 n OR (n AND 1) in drop_bit 63 (- n))"

text \<open>\<open>a\<close>, or \<open>b\<close> where the indicator is 1.\<close>

definition mux :: "u64 \<Rightarrow> u64 \<Rightarrow> u64 \<Rightarrow> u64" where
  "mux indicator a b = a XOR ((b XOR a) AND - indicator)"

text \<open>For words of 64 bits the shift of the word just read from the high to the low part is a move.\<close>

fun word_pair_loop :: "nat \<Rightarrow> u64 \<Rightarrow> u64 list \<Rightarrow> u64 \<Rightarrow> u64 \<Rightarrow> u64 \<times> u64 \<times> u64 \<Rightarrow> u64 \<times> u64 \<times> u64" where
  "word_pair_loop shift_wanted i [] curr_hi curr_lo out = out"
| "word_pair_loop shift_wanted i (curr_word # ws) curr_hi curr_lo (index, hi, lo) =
     (let indicator = normalise_to_1 curr_word;
          curr_lo = 0 OR push_bit (64 - BIGNUM_INT_BITS) curr_hi;
          curr_hi = 0 OR push_bit shift_wanted curr_word
      in word_pair_loop shift_wanted (i + 1) ws curr_hi curr_lo
           (mux indicator index i, mux indicator hi curr_hi, mux indicator lo curr_lo))"

definition mp_find_highest_nonzero_word_pair ::
  "u64 list \<Rightarrow> nat \<Rightarrow> u64 \<Rightarrow> u64 \<Rightarrow> u64 \<Rightarrow> u64 \<times> u64 \<times> u64" where
  "mp_find_highest_nonzero_word_pair x shift_wanted index hi lo = word_pair_loop shift_wanted 0 x 0 0 (index, hi, lo)"

text \<open>The two loops that shift 128 bits by a secret count, for \<open>i\<close> from the top down.\<close>

fun normalise_loop :: "nat \<Rightarrow> u64 \<times> u64 \<times> u64 \<Rightarrow> u64 \<times> u64 \<times> u64" where
  "normalise_loop 0 st = st"
| "normalise_loop (Suc i) (hibits, lobits, shift_up) =
     (let sl = 2 ^ i; sr = 64 - sl;
          indicator = 1 XOR normalise_to_1_u64 (drop_bit sr hibits);
          new_hibits = push_bit sl hibits OR drop_bit sr lobits;
          new_lobits = push_bit sl lobits;
          new_shift_up = shift_up + of_nat sl
      in normalise_loop i (mux indicator hibits new_hibits, mux indicator lobits new_lobits, mux indicator shift_up new_shift_up))"

fun shift_up_loop :: "nat \<Rightarrow> u64 \<Rightarrow> u64 \<times> u64 \<Rightarrow> u64 \<times> u64" where
  "shift_up_loop 0 shift_up st = st"
| "shift_up_loop (Suc i) shift_up (hibits, lobits) =
     (let sl = 2 ^ i; sr = 64 - sl;
          indicator = 1 AND drop_bit i shift_up;
          new_hibits = push_bit sl hibits OR drop_bit sr lobits;
          new_lobits = push_bit sl lobits
      in shift_up_loop i shift_up (mux indicator hibits new_hibits, mux indicator lobits new_lobits))"

section \<open>Adding an integer at a secret place\<close>

fun shifted_loop :: "u64 list \<Rightarrow> u64 \<Rightarrow> nat \<Rightarrow> nat \<Rightarrow> u64 \<Rightarrow> u64 \<Rightarrow> u64 \<Rightarrow> u64 list" where
  "shifted_loop a word_index i 0 indicator n carry = []"
| "shifted_loop a word_index i (Suc k) indicator n carry =
     (let indicator = indicator OR (1 XOR normalise_to_1 (of_nat i XOR word_index));
          bword = n AND - indicator;
          new_n = 0;
          n = n XOR ((n XOR new_n) AND - indicator);
          (out, carry) = BignumADC (mp_word a i) bword carry
      in out # shifted_loop a word_index (Suc i) k indicator n carry)"

definition mp_add_integer_into_shifted_by_words :: "nat \<Rightarrow> u64 list \<Rightarrow> u64 \<Rightarrow> u64 \<Rightarrow> u64 list" where
  "mp_add_integer_into_shifted_by_words rw a n word_index = shifted_loop a word_index 0 rw 0 n 0"

section \<open>Newton's iteration\<close>

text \<open>The exponent of \<open>R\<close>, and the number of words for twice \<open>R\<close>.\<close>

definition division_log2_R :: "nat \<Rightarrow> nat \<Rightarrow> nat" where
  "division_log2_R n_nw d_nw =
     (let max_log2_n = (n_nw + d_nw) * BIGNUM_INT_BITS;
          log2_R = max_log2_n + 3;
          log2_R = log2_R - min 191 log2_R;
          log2_R = (log2_R + BIGNUM_INT_BITS - 1) div BIGNUM_INT_BITS * BIGNUM_INT_BITS
      in log2_R + 191)"

definition division_rw :: "nat \<Rightarrow> nat" where
  "division_rw log2_R = ((log2_R + 2) + BIGNUM_INT_BITS - 1) div BIGNUM_INT_BITS"

text \<open>\<open>None\<close> is the assertion on the place of the approximation.\<close>

definition initial_reciprocal :: "u64 list \<Rightarrow> nat \<Rightarrow> nat \<Rightarrow> u64 list option" where
  "initial_reciprocal d log2_R rw =
     (let (hiword_index, hibits, lobits) = mp_find_highest_nonzero_word_pair d (64 - BIGNUM_INT_BITS) 0 0 0;
          (hibits, lobits, shift_up) = normalise_loop BIGNUM_INT_BITS_BITS (hibits, lobits, 0);
          lobits = push_bit 32 (ucast (recip_approx_32 (ucast (drop_bit 32 hibits))));
          hibits = 0;
          (hibits, lobits) = shift_up_loop BIGNUM_INT_BITS_BITS shift_up (hibits, lobits);
          input_bit_index = (hiword_index * 64) - (128 - 64);
          output_bit_index = of_nat log2_R - 191 - input_bit_index
      in if output_bit_index mod 64 \<noteq> 0 then None
         else
           let output_word_index = output_bit_index div 64;
               r_approx = mp_add_integer_into_shifted_by_words rw (replicate rw 0) lobits output_word_index
           in Some (mp_add_integer_into_shifted_by_words rw r_approx hibits (output_word_index + of_nat (64 div BIGNUM_INT_BITS))))"

partial_function (option) newton_loop ::
  "u64 list \<Rightarrow> nat \<Rightarrow> nat \<Rightarrow> u64 list \<Rightarrow> nat \<Rightarrow> nat \<Rightarrow> nat \<Rightarrow> u64 list \<Rightarrow> u64 list option" where
  "newton_loop d log2_R rw two_R scratchsize good_bits_needed good_bits r_approx =
     (if good_bits < good_bits_needed then do {
        dr \<leftarrow> mp_mul_internal (rw + length d) r_approx d scratchsize;
        let diff = mp_sub_into (max rw (rw + length d)) two_R dr;
        product \<leftarrow> mp_mul_internal (rw + max rw (rw + length d)) r_approx diff scratchsize;
        let product_shifted = mp_make_alias product (log2_R div BIGNUM_INT_BITS) (length product);
        let r_approx = mp_rshift_fixed_into rw product_shifted (log2_R mod BIGNUM_INT_BITS);
        newton_loop d log2_R rw two_R scratchsize good_bits_needed (good_bits * 2 - 1) r_approx }
      else Some r_approx)"

section \<open>Quotient and remainder\<close>

definition correct :: "u64 list \<Rightarrow> u64 list \<times> u64 \<Rightarrow> u64 list \<times> u64" where
  "correct d = (\<lambda>(remainder, q_correction).
     let need_correction = mp_cmp_hs remainder d
     in (mp_cond_sub_into (length remainder) remainder d (unat need_correction), q_correction + need_correction))"

text \<open>
  The sizes of the numbers for the quotient and the remainder are given, where the caller wants them. The
  scratch space of the iteration is as long as the larger of the two multiplications needs.
\<close>

definition mp_divmod_into ::
  "u64 list \<Rightarrow> u64 list \<Rightarrow> nat option \<Rightarrow> nat option \<Rightarrow> (u64 list option \<times> u64 list option) option" where
  "mp_divmod_into n d q_out r_out =
     (if mp_eq_integer d 0 \<noteq> 0 then None
      else do {
        let log2_R = division_log2_R (length n) (length d);
        let rw = division_rw log2_R;
        r_approx \<leftarrow> initial_reciprocal d log2_R rw;
        let two_R = mp_add_integer_into_shifted_by_words rw (replicate rw 0)
          (push_bit ((log2_R + 1) mod BIGNUM_INT_BITS) 1) (of_nat ((log2_R + 1) div BIGNUM_INT_BITS));
        let scratchsize = max (mp_mul_scratchspace (rw + length d) rw (length d))
          (mp_mul_scratchspace (rw + max rw (rw + length d)) rw (max rw (rw + length d)));
        r_approx \<leftarrow> newton_loop d log2_R rw two_R scratchsize (BIGNUM_INT_BITS * length n + 4) (31 - 11) r_approx;
        quotient_full \<leftarrow> mp_mul r_approx n;
        let quotient_alias = mp_make_alias quotient_full (log2_R div BIGNUM_INT_BITS) (length quotient_full);
        quotient :: u64 list \<leftarrow> mp_make_sized (length n);
        let quotient = mp_rshift_fixed_into (length quotient) quotient_alias (log2_R mod BIGNUM_INT_BITS);
        remainder :: u64 list \<leftarrow> mp_make_sized (length d);
        remainder \<leftarrow> mp_mul_into (length remainder) quotient d;
        let remainder = mp_sub_into (length d) n remainder;
        let (remainder, q_correction) = correct d (correct d (remainder, 0));
        let quotient = mp_add_integer_into (length quotient) quotient q_correction;
        if mp_cmp_hs remainder d \<noteq> 0 then None
        else Some (map_option (\<lambda>nw. mp_copy_into nw quotient) q_out, map_option (\<lambda>nw. mp_copy_into nw remainder) r_out)
      })"

definition mp_div :: "u64 list \<Rightarrow> u64 list \<Rightarrow> u64 list option" where
  "mp_div n d = do {
     q :: u64 list \<leftarrow> mp_make_sized (length n);
     (q, _) \<leftarrow> mp_divmod_into n d (Some (length q)) None;
     q }"

definition mp_mod :: "u64 list \<Rightarrow> u64 list \<Rightarrow> u64 list option" where
  "mp_mod n d = do {
     r :: u64 list \<leftarrow> mp_make_sized (length d);
     (_, r) \<leftarrow> mp_divmod_into n d None (Some (length r));
     r }"

definition mp_modmul :: "u64 list \<Rightarrow> u64 list \<Rightarrow> u64 list \<Rightarrow> u64 list option" where
  "mp_modmul x y modulus = do { product \<leftarrow> mp_mul x y; mp_mod product modulus }"

definition mp_modadd :: "u64 list \<Rightarrow> u64 list \<Rightarrow> u64 list \<Rightarrow> u64 list option" where
  "mp_modadd x y modulus = do { sum \<leftarrow> mp_add x y; mp_mod sum modulus }"

definition mp_modsub :: "u64 list \<Rightarrow> u64 list \<Rightarrow> u64 list \<Rightarrow> u64 list option" where
  "mp_modsub x y modulus = do {
     diff :: u64 list \<leftarrow> mp_make_sized (max (length x) (length y));
     let diff = mp_sub_into (length diff) x y;
     let negate = mp_cmp_hs y x;
     let diff = mp_cond_negate (length diff) diff (unat negate);
     residue \<leftarrow> mp_mod diff modulus;
     let residue = mp_cond_negate (length residue) residue (unat negate);
     let make_positive = negate AND NOT (mp_eq_integer residue 0);
     Some (mp_cond_add_into (length residue) residue modulus (unat make_positive)) }"

definition mp_modadd_in_range :: "u64 list \<Rightarrow> u64 list \<Rightarrow> u64 list \<Rightarrow> u64 list option" where
  "mp_modadd_in_range x y modulus = do {
     sum :: u64 list \<leftarrow> mp_make_sized (length modulus);
     let (sum, carry) = mp_add_masked_into (length sum) x y (NOT 0) 0 0;
     Some (mp_cond_sub_into (length sum) sum modulus (unat (carry OR mp_cmp_hs sum modulus))) }"

definition mp_modsub_in_range :: "u64 list \<Rightarrow> u64 list \<Rightarrow> u64 list \<Rightarrow> u64 list option" where
  "mp_modsub_in_range x y modulus = do {
     diff :: u64 list \<leftarrow> mp_make_sized (length modulus);
     let diff = mp_sub_into (length diff) x y;
     Some (mp_cond_add_into (length diff) diff modulus (unat (1 XOR mp_cmp_hs x y))) }"

section \<open>Shifting 128 bits\<close>

lemma mux_simps [simp]: "mux 0 a b = a" "mux 1 a b = b"
  by (simp_all add: mux_def xor.assoc[symmetric] xor.commute xor.left_commute)

lemma normalise_u64 [simp]: "normalise_to_1_u64 n = (if n = 0 then 0 else 1)"
  using normalise_to_1_iff[of n] by (simp add: normalise_to_1_def normalise_to_1_u64_def)

lemma normalise_word [simp]: "normalise_to_1 (n :: u64) = (if n = 0 then 0 else 1)"
  by (rule normalise_to_1_iff) simp

definition wide :: "u64 \<Rightarrow> u64 \<Rightarrow> nat" where
  "wide hi lo = unat hi * 2 ^ 64 + unat lo"

lemma drop_bit_zero_iff: "drop_bit k x = 0 \<longleftrightarrow> unat x < 2 ^ k" for x :: u64
proof -
  have "drop_bit k x = 0 \<longleftrightarrow> unat (drop_bit k x) = 0" by (simp only: word_unat_eq_iff unat_0)
  then show ?thesis unfolding unat_drop_bit_eq unfolding drop_bit_eq_div by (simp add: div_eq_0_iff)
qed

lemma shift128:
  assumes "unat hi < 2 ^ (64 - sl)" "0 < sl" "sl < 64"
  shows "wide (push_bit sl hi OR drop_bit (64 - sl) lo) (push_bit sl lo) = wide hi lo * 2 ^ sl"
proof -
  have p: "(2 :: nat) ^ 64 = 2 ^ (64 - sl) * 2 ^ sl" using assms by (simp flip: power_add)
  have "unat hi * 2 ^ sl < 2 ^ 64" unfolding p using assms(1) by simp
  then have h: "unat (push_bit sl hi) = unat hi * 2 ^ sl"
    unfolding unsigned_push_bit_eq unfolding push_bit_eq_mult take_bit_eq_mod by simp
  have d: "unat (drop_bit (64 - sl) lo) = unat lo div 2 ^ (64 - sl)"
    unfolding unat_drop_bit_eq unfolding drop_bit_eq_div ..
  have l: "unat (push_bit sl lo) = unat lo * 2 ^ sl mod 2 ^ 64"
    unfolding unsigned_push_bit_eq unfolding push_bit_eq_mult take_bit_eq_mod by simp
  have "push_bit sl hi OR drop_bit (64 - sl) lo = push_bit sl hi + drop_bit (64 - sl) lo"
    by (rule disjunctive_add_eq_or[symmetric])
      (auto simp: bit_eq_iff bit_and_iff bit_push_bit_iff bit_drop_bit_eq dest: bit_imp_le_length)
  moreover have "unat hi * 2 ^ sl + unat lo div 2 ^ (64 - sl) < 2 ^ 64"
  proof -
    have "unat lo < 2 ^ (64 - sl) * 2 ^ sl" using u64_less[of lo] unfolding p[symmetric] by simp
    then have "unat lo div 2 ^ (64 - sl) < 2 ^ sl" by (simp add: less_mult_imp_div_less mult.commute)
    moreover have "(unat hi + 1) * 2 ^ sl \<le> 2 ^ 64" unfolding p using assms(1) by (intro mult_le_mono1) simp
    ultimately show ?thesis by (simp add: algebra_simps)
  qed
  ultimately have o: "unat (push_bit sl hi OR drop_bit (64 - sl) lo) = unat hi * 2 ^ sl + unat lo div 2 ^ (64 - sl)"
    using h d by (simp add: unat_word_ariths)
  have "unat lo * 2 ^ sl div 2 ^ 64 = unat lo div 2 ^ (64 - sl)" unfolding p by simp
  then have "unat lo * 2 ^ sl = unat lo div 2 ^ (64 - sl) * 2 ^ 64 + unat lo * 2 ^ sl mod 2 ^ 64"
    using div_mult_mod_eq[of "unat lo * 2 ^ sl" "2 ^ 64"] by metis
  then show ?thesis unfolding wide_def o l by (simp only: algebra_simps)
qed

lemma wide_ge: "2 ^ 64 * k \<le> wide hi lo \<Longrightarrow> k \<le> unat hi"
proof (rule ccontr)
  assume "2 ^ 64 * k \<le> wide hi lo" "\<not> k \<le> unat hi"
  then have "2 ^ 64 * (unat hi + 1) \<le> wide hi lo"
    using mult_le_mono2[of "unat hi + 1" k "2 ^ 64"] by linarith
  then show False using u64_less[of lo] by (simp add: wide_def)
qed

lemma normalise_loop_value:
  assumes "2 ^ (64 - 2 ^ i) \<le> unat hi" "unat su + 2 ^ i \<le> 64" "i \<le> 6"
    and "normalise_loop i (hi, lo, su) = (h, l, s)"
  shows "2 ^ 63 \<le> unat h \<and> unat su \<le> unat s \<and> unat s \<le> 63 \<and> wide h l = wide hi lo * 2 ^ (unat s - unat su)"
  using assms
proof (induction i arbitrary: hi lo su)
  case (Suc i)
  have sl: "0 < (2 :: nat) ^ i" "2 ^ i < (64 :: nat)" "2 ^ i \<le> (32 :: nat)"
    using power_increasing[of i 5 "2 :: nat"] Suc.prems(3) by simp_all
  show ?case
  proof (cases "unat hi < 2 ^ (64 - 2 ^ i)")
    case True
    define nhi nlo where n: "nhi = push_bit (2 ^ i) hi OR drop_bit (64 - 2 ^ i) lo" "nlo = push_bit (2 ^ i) lo"
    have w: "wide nhi nlo = wide hi lo * 2 ^ 2 ^ i" unfolding n by (rule shift128[OF True sl(1,2)])
    have step: "normalise_loop i (nhi, nlo, su + of_nat (2 ^ i)) = (h, l, s)"
      using Suc.prems(4) True by (simp add: Let_def drop_bit_zero_iff n)
    have su: "unat (su + of_nat (2 ^ i)) = unat su + 2 ^ i"
      using Suc.prems(2) sl by (simp add: unat_word_ariths unat_of_nat del: of_nat_power of_nat_numeral)
    have "64 - 2 ^ Suc i + 2 ^ i = 64 - (2 :: nat) ^ i" using Suc.prems(2) by simp
    then have "2 ^ (64 - 2 ^ i) = (2 :: nat) ^ (64 - 2 ^ Suc i) * 2 ^ 2 ^ i" by (metis power_add)
    also have "2 ^ 64 * \<dots> \<le> wide hi lo * 2 ^ 2 ^ i"
      using Suc.prems(1) by (simp add: wide_def mult.assoc[symmetric])
    finally have "2 ^ (64 - 2 ^ i) \<le> unat nhi" unfolding w[symmetric] by (rule wide_ge)
    from Suc.IH[OF this _ _ step] have r: "2 ^ 63 \<le> unat h" "unat su + 2 ^ i \<le> unat s" "unat s \<le> 63"
      "wide h l = wide nhi nlo * 2 ^ (unat s - (unat su + 2 ^ i))"
      unfolding su using Suc.prems(2,3) by auto
    have "(2 :: nat) ^ 2 ^ i * 2 ^ (unat s - (unat su + 2 ^ i)) = 2 ^ (unat s - unat su)"
      using r(2) by (simp flip: power_add)
    then show ?thesis using r unfolding w by (simp add: mult.assoc)
  next
    case False
    then have "normalise_loop i (hi, lo, su) = (h, l, s)"
      using Suc.prems(4) by (simp add: Let_def drop_bit_zero_iff)
    then show ?thesis using Suc.IH[of hi su lo] Suc.prems False by simp
  qed
qed simp

lemma shift_up_loop_value:
  assumes "wide hi lo * 2 ^ (unat su mod 2 ^ i) < 2 ^ 128" "i \<le> 6"
    and "shift_up_loop i su (hi, lo) = (h, l)"
  shows "wide h l = wide hi lo * 2 ^ (unat su mod 2 ^ i)"
  using assms
proof (induction i arbitrary: hi lo)
  case (Suc i)
  have sl: "0 < (2 :: nat) ^ i" "2 ^ i < (64 :: nat)" using power_increasing[of i 5 "2 :: nat"] Suc.prems(2) by simp_all
  have "bit su i \<longleftrightarrow> odd (unat su div 2 ^ i)"
    using bit_unsigned_iff[of su i, where ?'a = nat] Suc.prems(2) by (auto simp: bit_iff_odd dest: bit_imp_le_length)
  moreover have "unat su mod 2 ^ Suc i = 2 ^ i * (unat su div 2 ^ i mod 2) + unat su mod 2 ^ i"
    using mod_mult2_eq[of "unat su" "2 ^ i" 2] by (simp add: mult.commute)
  ultimately have m: "unat su mod 2 ^ Suc i = (if bit su i then 2 ^ i else 0) + unat su mod 2 ^ i"
    by (simp add: mod2_eq_if)
  have b: "1 AND drop_bit i su = (if bit su i then 1 else 0)"
    unfolding bit_iff_odd_drop_bit one_and_eq by (simp add: mod2_eq_if)
  show ?case
  proof (cases "bit su i")
    case True
    define nhi nlo where n: "nhi = push_bit (2 ^ i) hi OR drop_bit (64 - 2 ^ i) lo" "nlo = push_bit (2 ^ i) lo"
    have "unat hi < 2 ^ (64 - 2 ^ i)"
    proof (rule ccontr)
      assume "\<not> unat hi < 2 ^ (64 - 2 ^ i)"
      then have "2 ^ (64 - 2 ^ i) * 2 ^ 64 * 2 ^ 2 ^ i \<le> wide hi lo * 2 ^ 2 ^ i" by (simp add: wide_def)
      also have "\<dots> \<le> wide hi lo * 2 ^ (unat su mod 2 ^ Suc i)" unfolding m using True by (simp add: power_add)
      finally have "2 ^ (64 - 2 ^ i) * 2 ^ 64 * 2 ^ 2 ^ i < (2 :: nat) ^ 128" using Suc.prems(1) by (rule le_less_trans)
      moreover have "(2 :: nat) ^ (64 - 2 ^ i) * 2 ^ 64 * 2 ^ 2 ^ i = 2 ^ 128" using sl by (simp flip: power_add)
      ultimately show False by simp
    qed
    from shift128[OF this sl] have w: "wide nhi nlo = wide hi lo * 2 ^ 2 ^ i" unfolding n .
    have "shift_up_loop i su (nhi, nlo) = (h, l)" using Suc.prems(3) b True by (simp add: Let_def n)
    then show ?thesis using Suc.IH[of nhi nlo] Suc.prems(1,2) True unfolding w m by (simp add: power_add mult.assoc)
  next
    case False
    then have "shift_up_loop i su (hi, lo) = (h, l)" using Suc.prems(3) b by (simp add: Let_def)
    then show ?thesis using Suc.IH[of hi lo] Suc.prems(1,2) False unfolding m by simp
  qed
qed simp

section \<open>The top words, and adding at a place\<close>

lemma word_pair_zeros: "word_pair_loop k i (replicate z 0) chi clo out = out"
proof (induction z arbitrary: i chi clo)
  case (Suc z)
  obtain a b c where "out = (a, b, c)" by (cases out)
  then show ?case using Suc by simp
qed simp

lemma word_pair_top:
  "w \<noteq> 0 \<Longrightarrow> word_pair_loop 0 i (ls @ w # replicate z 0) chi clo out = (i + of_nat (length ls), w, last (chi # ls))"
proof (induction ls arbitrary: i chi clo out)
  case Nil
  obtain a b c where "out = (a, b, c)" by (cases out)
  then show ?case using Nil word_pair_zeros by simp
next
  case (Cons l ls)
  obtain a b c where "out = (a, b, c)" by (cases out)
  then show ?case using Cons by (simp add: Let_def algebra_simps)
qed

text \<open>A number that is not 0, cut at its highest word.\<close>

lemma top_split:
  fixes d :: "'w::len word list"
  assumes "mp_val d \<noteq> 0"
  obtains ls w z where "d = ls @ w # replicate z 0" "w \<noteq> 0"
  using assms
proof (induction d arbitrary: thesis rule: rev_induct)
  case (snoc u us)
  show ?case
  proof (cases "u = 0")
    case True
    then have "mp_val us \<noteq> 0" using snoc.prems(2) by (simp add: mp_val_append)
    then obtain ls w z where "us = ls @ w # replicate z 0" "w \<noteq> 0" using snoc.IH by blast
    then show ?thesis using True snoc.prems(1)[of ls w "Suc z"] by (simp add: replicate_append_same)
  next
    case False
    then show ?thesis using snoc.prems(1)[of us u 0] by simp
  qed
qed simp

lemma mp_eq_integer_0: "mp_eq_integer (d :: u64 list) 0 = (if mp_val d = 0 then 1 else 0)"
proof -
  have "mp_val d = 0 \<longleftrightarrow> (\<forall>i<length d. d ! i = 0)"
  proof (induction d)
    case (Cons u us)
    have "(\<forall>i<length (u # us). (u # us) ! i = 0) \<longleftrightarrow> u = 0 \<and> (\<forall>i<length us. us ! i = 0)"
      by (auto simp: nth_Cons split: nat.splits)
    then show ?case using Cons by (simp add: unat_eq_0)
  qed simp
  also have "\<dots> \<longleftrightarrow> fold (\<lambda>i diff. diff OR d ! i) [0..<length d] 0 = 0" by (auto simp: fold_or_eq_0)
  finally show ?thesis by (simp add: mp_eq_integer_def Let_def cong: if_cong)
qed

lemma carry_step:
  fixes x d :: "'w::len word"
  assumes "unat x + base TYPE('w) * unat d = u + b + c" "r = (V + e + unat d) mod base TYPE('w) ^ k"
  shows "unat x + base TYPE('w) * r = (u + base TYPE('w) * V + (b + base TYPE('w) * e) + c) mod base TYPE('w) ^ Suc k"
proof -
  have "unat x + base TYPE('w) * r = (unat x + base TYPE('w) * (V + e + unat d)) mod base TYPE('w) ^ Suc k"
    unfolding assms(2) by (rule mod_step) simp
  also have "unat x + base TYPE('w) * (V + e + unat d) = u + base TYPE('w) * V + (b + base TYPE('w) * e) + c"
    using assms(1) by (simp add: algebra_simps)
  finally show ?thesis .
qed

lemma shifted_placed:
  fixes a :: "u64 list"
  assumes "unat c \<le> 1"
  shows "length (shifted_loop a p i k 1 0 c) = k \<and>
    mp_val (shifted_loop a p i k 1 0 c) = (mp_val (words_at a i k) + 0 + unat c) mod base TYPE(64) ^ k"
  using assms
proof (induction k arbitrary: i c)
  case (Suc k)
  obtain x d where x: "BignumADC (mp_word a i) 0 c = (x, d)" by fastforce
  have X: "unat x + base TYPE(64) * unat d = unat (mp_word a i) + 0 + unat c" "unat d \<le> 1"
    using BignumADC_val[OF x Suc.prems] by simp_all
  have s: "shifted_loop a p i (Suc k) 1 0 c = x # shifted_loop a p (Suc i) k 1 0 d"
    using x by (simp add: Let_def)
  note L = Suc.IH[OF X(2), of "Suc i"]
  show ?case unfolding s words_at_Suc mp_val.simps
    using carry_step[OF X(1) conjunct2[OF L]] conjunct1[OF L] by simp
qed simp

lemma shifted_before:
  fixes a :: "u64 list"
  assumes "unat c \<le> 1" "i \<le> unat p" "i + k \<le> 2 ^ 64"
  shows "length (shifted_loop a p i k 0 n c) = k \<and>
    mp_val (shifted_loop a p i k 0 n c) = (mp_val (words_at a i k) + unat n * base TYPE(64) ^ (unat p - i) + unat c) mod base TYPE(64) ^ k"
  using assms
proof (induction k arbitrary: i c)
  case (Suc k)
  have i: "of_nat i XOR p = 0 \<longleftrightarrow> i = unat p"
  proof -
    have "of_nat i XOR p = 0 \<longleftrightarrow> of_nat i = p" by (rule xor_zero_iff)
    also have "\<dots> \<longleftrightarrow> unat (of_nat i :: u64) = unat p" by (rule word_unat_eq_iff)
    finally show ?thesis using Suc.prems(3) by (simp add: unat_of_nat)
  qed
  define e where "e = unat p - Suc i"
  show ?case
  proof (cases "i = unat p")
    case True
    obtain x d where x: "BignumADC (mp_word a i) n c = (x, d)" by fastforce
    have X: "unat x + base TYPE(64) * unat d = unat (mp_word a i) + unat n + unat c" "unat d \<le> 1"
      using BignumADC_val[OF x Suc.prems(1)] by simp_all
    have "shifted_loop a p i (Suc k) 0 n c = x # shifted_loop a p (Suc i) k 1 0 d"
      using x i True by (simp add: Let_def)
    moreover note L = shifted_placed[OF X(2), of a p "Suc i" k]
    ultimately show ?thesis unfolding words_at_Suc mp_val.simps True
      using carry_step[OF X(1) conjunct2[OF L]] conjunct1[OF L] True by simp
  next
    case False
    obtain x d where x: "BignumADC (mp_word a i) 0 c = (x, d)" by fastforce
    have X: "unat x + base TYPE(64) * unat d = unat (mp_word a i) + 0 + unat c" "unat d \<le> 1"
      using BignumADC_val[OF x Suc.prems(1)] by simp_all
    have e: "unat p - i = Suc e" "Suc i \<le> unat p" using False Suc.prems(2) by (simp_all add: e_def)
    have s: "shifted_loop a p i (Suc k) 0 n c = x # shifted_loop a p (Suc i) k 0 n d"
      using x False i by (simp add: Let_def)
    have "Suc i + k \<le> 2 ^ 64" using Suc.prems(3) by simp
    note L = Suc.IH[OF X(2) e(2) this, folded e_def]
    have "base TYPE(64) * (unat n * base TYPE(64) ^ e) = unat n * base TYPE(64) ^ Suc e" by simp
    then show ?thesis unfolding s words_at_Suc mp_val.simps e(1)
      using carry_step[OF X(1) conjunct2[OF L]] conjunct1[OF L] by (simp only: add_0 list.size) simp
  qed
qed simp

lemma mp_val_add_shifted:
  "rw \<le> 2 ^ 64 \<Longrightarrow> length (mp_add_integer_into_shifted_by_words rw a n p) = rw \<and>
    mp_val (mp_add_integer_into_shifted_by_words rw a n p) = (mp_val a + unat n * base TYPE(64) ^ unat p) mod base TYPE(64) ^ rw"
  using shifted_before[of 0 0 p rw a n]
  by (simp add: mp_add_integer_into_shifted_by_words_def mp_val_words_at mod_add_left_eq)

section \<open>The error of the reciprocal\<close>

lemma initial_error:
  fixes rho x D B su i q m A :: nat
  assumes low: "x * 2 ^ 96 * B ^ i \<le> D * B * 2 ^ su" and high: "D * B * 2 ^ su \<le> (x + 1) * 2 ^ 96 * B ^ i"
    and q: "q + i = m + 1" and rho: "\<bar>int rho * int x - 2 ^ 63\<bar> \<le> 2000 * int x"
    and x: "x < 2 ^ 32" and r: "rho < 2 ^ 32" and A: "A = rho * 2 ^ 32 * 2 ^ su * B ^ q" and B: "0 < B"
  shows "\<bar>int (D * A) - int (2 ^ 191 * B ^ m)\<bar> * 2 ^ 20 \<le> int (2 ^ 191 * B ^ m)"
proof -
  define G where "G = 2 ^ 128 * B ^ m"
  have p: "B ^ q * B ^ i = B ^ m * B" using q by (metis power_add power_one_right)
  have eq: "D * A * B = rho * 2 ^ 32 * B ^ q * (D * B * 2 ^ su)" unfolding A by (simp only: mult_ac)
  have t: "rho * 2 ^ 32 * B ^ q * (y * 2 ^ 96 * B ^ i) = rho * y * G * B" for y
  proof -
    have "rho * 2 ^ 32 * B ^ q * (y * 2 ^ 96 * B ^ i) = rho * y * (2 ^ 32 * 2 ^ 96) * (B ^ q * B ^ i)" by (simp only: mult_ac)
    also have "\<dots> = rho * y * 2 ^ 128 * (B ^ m * B)" unfolding p by simp
    finally show ?thesis by (simp only: G_def mult_ac)
  qed
  have "rho * x * G * B \<le> D * A * B" unfolding eq t[symmetric] by (rule mult_le_mono2[OF low])
  then have l: "rho * x * G \<le> D * A" using B by simp
  have "D * A * B \<le> rho * (x + 1) * G * B" unfolding eq t[symmetric] by (rule mult_le_mono2[OF high])
  then have u: "D * A \<le> rho * (x + 1) * G" using B by simp
  have R: "2 ^ 191 * B ^ m = 2 ^ 63 * G" unfolding G_def by (simp add: mult.assoc[symmetric])
  have "int (D * A) - int (2 ^ 63 * G) \<le> int (rho * (x + 1) * G) - int (2 ^ 63 * G)"
    using u[unfolded of_nat_le_iff[symmetric, where 'a = int]] by linarith
  also have "\<dots> = (int rho * int x - 2 ^ 63 + int rho) * int G" by (simp add: algebra_simps)
  also have "\<dots> \<le> (2001 * 2 ^ 32) * int G" using rho x r by (intro mult_right_mono) simp_all
  finally have a: "int (D * A) - int (2 ^ 63 * G) \<le> 2001 * 2 ^ 32 * int G" .
  have "int (2 ^ 63 * G) - int (D * A) \<le> int (2 ^ 63 * G) - int (rho * x * G)"
    using l[unfolded of_nat_le_iff[symmetric, where 'a = int]] by linarith
  also have "\<dots> = (2 ^ 63 - int rho * int x) * int G" by (simp add: algebra_simps)
  also have "\<dots> \<le> (2001 * 2 ^ 32) * int G" using rho x by (intro mult_right_mono) simp_all
  finally have "\<bar>int (D * A) - int (2 ^ 63 * G)\<bar> \<le> 2001 * 2 ^ 32 * int G" using a by simp
  then have "\<bar>int (D * A) - int (2 ^ 63 * G)\<bar> * 2 ^ 20 \<le> 2001 * 2 ^ 32 * int G * 2 ^ 20" by simp
  also have "\<dots> \<le> int (2 ^ 63 * G)" by simp
  finally show ?thesis unfolding R .
qed

text \<open>\<open>g\<close> good bits, or as good as rounding allows.\<close>

definition good :: "nat \<Rightarrow> nat \<Rightarrow> nat \<Rightarrow> nat \<Rightarrow> bool" where
  "good R D g r \<longleftrightarrow> \<bar>int (D * r) - int R\<bar> * 2 ^ g \<le> int R \<or> \<bar>int (D * r) - int R\<bar> \<le> 2 * int D"

lemma good_bound: "good R D g r \<Longrightarrow> 4 * D \<le> R \<Longrightarrow> D * r \<le> 2 * R"
proof -
  assume "good R D g r" "4 * D \<le> R"
  moreover have "\<bar>int (D * r) - int R\<bar> * 1 \<le> \<bar>int (D * r) - int R\<bar> * 2 ^ g" by (intro mult_left_mono) simp_all
  ultimately have "\<bar>int (D * r) - int R\<bar> \<le> int R" by (auto simp: good_def)
  then show ?thesis by linarith
qed

lemma newton_good:
  assumes "good R D g r" "4 * D \<le> R" "0 < D" "0 < g"
  shows "good R D (2 * g - 1) (r * (2 * R - D * r) div R)"
proof -
  define e where "e = int (D * r) - int R"
  define t where "t = r * (2 * R - D * r) div R"
  define f where "f = int (D * t) - int R"
  have R: "0 < R" using assms(2,3) by linarith
  have "int (2 * R - D * r) = int R - e" using good_bound[OF assms(1,2)] by (simp add: e_def of_nat_diff)
  then have "int (D * (r * (2 * R - D * r))) = (int R + e) * (int R - e)" by (simp add: e_def)
  then have X: "int (D * (r * (2 * R - D * r))) = int R * int R - e * e" by (simp add: algebra_simps)
  have "R * t \<le> r * (2 * R - D * r)" "r * (2 * R - D * r) < R * t + R"
    unfolding t_def using R dividend_less_div_times[OF R, of "r * (2 * R - D * r)"] by (simp_all add: algebra_simps)
  then have "D * (R * t) \<le> D * (r * (2 * R - D * r))" "D * (r * (2 * R - D * r)) < D * (R * t + R)"
    using assms(3) by simp_all
  then have "int (D * (R * t)) \<le> int R * int R - e * e" "int R * int R - e * e < int (D * (R * t + R))"
    unfolding X[symmetric] of_nat_le_iff of_nat_less_iff by simp_all
  moreover have "int (D * (R * t)) = int R * int R + int R * f" by (simp add: f_def algebra_simps)
  moreover have "int (D * (R * t + R)) = int (D * (R * t)) + int D * int R" by (simp add: algebra_simps)
  ultimately have f: "int R * f \<le> - (e * e)" "- (e * e) - int D * int R < int R * f" by linarith+
  have ee: "0 \<le> e * e" by simp
  have "int R * \<bar>f\<bar> = \<bar>int R * f\<bar>" by (simp add: abs_mult)
  then have bound: "int R * \<bar>f\<bar> < e * e + int D * int R \<or> e * e = 0 \<and> int R * \<bar>f\<bar> \<le> int D * int R"
    using f ee assms(3) R by (cases "int R * f = 0") auto
  then have b: "int R * \<bar>f\<bar> \<le> e * e + int D * int R" by auto
  have small: "\<bar>f\<bar> \<le> 2 * int D" if "e * e \<le> int D * int R"
  proof -
    have "int R * \<bar>f\<bar> \<le> int R * (2 * int D)" using b that by (simp add: algebra_simps)
    then show ?thesis using R by simp
  qed
  show ?thesis unfolding good_def t_def[symmetric] f_def[symmetric]
  proof (cases "e * e \<le> int D * int R")
    case True
    then show "\<bar>f\<bar> * 2 ^ (2 * g - 1) \<le> int R \<or> \<bar>f\<bar> \<le> 2 * int D" using small by blast
  next
    case False
    have "\<not> \<bar>e\<bar> \<le> 2 * int D"
    proof
      assume "\<bar>e\<bar> \<le> 2 * int D"
      then have "\<bar>e\<bar> * \<bar>e\<bar> \<le> 2 * int D * (2 * int D)" by (intro mult_mono) simp_all
      also have "\<dots> = int D * int (4 * D)" by simp
      also have "\<dots> \<le> int D * int R" using assms(2) by (intro mult_left_mono) simp_all
      finally show False using False by simp
    qed
    then have g: "\<bar>e\<bar> * 2 ^ g \<le> int R" using assms(1) by (simp add: good_def e_def)
    then have "(\<bar>e\<bar> * 2 ^ g) * (\<bar>e\<bar> * 2 ^ g) \<le> int R * int R" by (intro mult_mono) simp_all
    moreover have "(\<bar>e\<bar> * 2 ^ g) * (\<bar>e\<bar> * 2 ^ g) = e * e * 2 ^ (2 * g)"
      by (simp add: power_add mult_2 mult.assoc mult.left_commute)
    ultimately have E: "e * e * 2 ^ (2 * g) \<le> int R * int R" by simp
    have p: "(2 :: int) ^ (2 * g) = 2 * 2 ^ (2 * g - 1)" using assms(4) by (simp flip: power_Suc)
    have "int R * \<bar>f\<bar> \<le> 2 * (e * e)" using b False by linarith
    then have "int R * \<bar>f\<bar> * 2 ^ (2 * g - 1) \<le> 2 * (e * e) * 2 ^ (2 * g - 1)" by (intro mult_right_mono) simp_all
    also have "\<dots> = e * e * 2 ^ (2 * g)" unfolding p by simp
    also have "\<dots> \<le> int R * int R" by (rule E)
    finally have "int R * (\<bar>f\<bar> * 2 ^ (2 * g - 1)) \<le> int R * int R" by (simp add: mult.assoc)
    then show "\<bar>f\<bar> * 2 ^ (2 * g - 1) \<le> int R \<or> \<bar>f\<bar> \<le> 2 * int D" using R by simp
  qed
qed

text \<open>The quotient from a good reciprocal is right, or one too small where the division is exact.\<close>

lemma quotient_good:
  assumes "good R D g r" "n < N" "N * 2 ^ 4 \<le> 2 ^ g" "8 * (N * D) \<le> R" "0 < D"
  shows "n * r div R * D \<le> n" "n - n * r div R * D \<le> D"
proof -
  define e where "e = int (D * r) - int R"
  define q where "q = n * r div R"
  have R: "0 < R" using assms(2,4,5) by (metis gr0I le_zero_eq less_nat_zero_code mult_is_0 zero_neq_numeral)
  have ne: "\<bar>int n * e\<bar> < int R"
  proof -
    have "int N * \<bar>e\<bar> < int R"
      using assms(1) unfolding good_def e_def[symmetric]
    proof
      assume a: "\<bar>e\<bar> * 2 ^ g \<le> int R"
      have "int (N * 2 ^ 4) * \<bar>e\<bar> \<le> int (2 ^ g) * \<bar>e\<bar>" using assms(3) by (intro mult_right_mono) (simp_all only: of_nat_le_iff abs_ge_zero)
      then have "16 * (int N * \<bar>e\<bar>) \<le> int R" using a by (simp add: mult.commute mult.left_commute)
      then show "int N * \<bar>e\<bar> < int R" using R by linarith
    next
      assume a: "\<bar>e\<bar> \<le> 2 * int D"
      have "int N * \<bar>e\<bar> \<le> int N * (2 * int D)" using a by (intro mult_left_mono) simp_all
      also have "\<dots> = 2 * int (N * D)" by simp
      finally show "int N * \<bar>e\<bar> < int R" using assms(4) R by linarith
    qed
    moreover have "\<bar>int n * e\<bar> \<le> int N * \<bar>e\<bar>" using assms(2) by (simp add: abs_mult mult_right_mono)
    ultimately show ?thesis by linarith
  qed
  have X: "int (D * (n * r)) = int n * int R + int n * e" by (simp add: e_def algebra_simps)
  have "R * q \<le> n * r" "n * r < R * q + R"
    unfolding q_def using R dividend_less_div_times[OF R, of "n * r"] by (simp_all add: algebra_simps)
  then have "D * (R * q) \<le> D * (n * r)" "D * (n * r) < D * (R * q + R)" using assms(5) by simp_all
  then have "int (D * (R * q)) \<le> int n * int R + int n * e" "int n * int R + int n * e < int (D * (R * q + R))"
    unfolding X[symmetric] of_nat_le_iff of_nat_less_iff by simp_all
  then have "int R * int (q * D) < int R * (int n + 1)" "int R * (int n - 1) < int R * int (q * D + D)"
    using ne unfolding abs_less_iff by (simp_all add: algebra_simps)
  then have "int (q * D) < int n + 1" "int n - 1 < int (q * D + D)" using R by (simp_all only: mult_less_cancel_left_pos of_nat_0_less_iff)
  then show "n * r div R * D \<le> n" "n - n * r div R * D \<le> D" unfolding q_def[symmetric] by linarith+
qed

section \<open>The first approximation\<close>

lemma base_64: "base TYPE(64) = 2 ^ 64"
  by simp

lemma division_sizes:
  assumes "0 < nn"
  obtains m where "division_log2_R nn dn = 191 + 64 * m" "dn \<le> m + 1" "64 * (nn + dn) + 3 \<le> 191 + 64 * m"
    "m \<le> nn + dn" "191 + 64 * m + 2 \<le> 64 * division_rw (division_log2_R nn dn)" "division_rw (division_log2_R nn dn) \<le> m + 5"
proof -
  define m where "m = ((nn + dn) * 64 + 3 - min 191 ((nn + dn) * 64 + 3) + 63) div 64"
  have L: "division_log2_R nn dn = 191 + 64 * m" by (simp add: division_log2_R_def m_def Let_def)
  have "64 * m \<le> (nn + dn) * 64 + 3 - min 191 ((nn + dn) * 64 + 3) + 63" by (simp add: m_def)
  moreover have "(nn + dn) * 64 + 3 - min 191 ((nn + dn) * 64 + 3) + 63 < 64 * m + 64"
    unfolding m_def using dividend_less_div_times[of 64 "(nn + dn) * 64 + 3 - min 191 ((nn + dn) * 64 + 3) + 63"] by simp
  ultimately have "64 * (nn + dn) + 3 \<le> 191 + 64 * m" "m \<le> nn + dn" "dn \<le> m + 1" using assms by (simp_all add: min_def split: if_splits)
  moreover have "191 + 64 * m + 2 \<le> 64 * division_rw (191 + 64 * m)" "division_rw (191 + 64 * m) \<le> m + 5"
    unfolding division_rw_def by simp_all
  ultimately show ?thesis using that L by simp
qed

lemma top_two:
  fixes ls :: "'w::len word list"
  obtains r where "mp_val (ls @ w # replicate z 0) * base TYPE('w) =
      r + base TYPE('w) ^ length ls * (unat w * base TYPE('w) + unat (last (0 # ls)))" "r < base TYPE('w) ^ length ls"
proof (cases ls rule: rev_cases)
  case Nil
  then show ?thesis using that[of 0] by simp
next
  case (snoc us u)
  then show ?thesis using that[of "mp_val us * base TYPE('w)"] mp_val_less[of us]
    by (simp add: mp_val_append algebra_simps)
qed

lemma top_bits:
  fixes ls :: "u64 list"
  shows "wide w (last (0 # ls)) * (2 ^ 64) ^ length ls \<le> mp_val (ls @ w # replicate z 0) * 2 ^ 64"
    "mp_val (ls @ w # replicate z 0) * 2 ^ 64 < (wide w (last (0 # ls)) + 1) * (2 ^ 64) ^ length ls"
proof -
  obtain r where r: "mp_val (ls @ w # replicate z 0) * 2 ^ 64 = r + (2 ^ 64) ^ length ls * wide w (last (0 # ls))"
    "r < (2 ^ 64) ^ length ls"
    using top_two[of ls w z] unfolding base_64 wide_def .
  show "wide w (last (0 # ls)) * (2 ^ 64) ^ length ls \<le> mp_val (ls @ w # replicate z 0) * 2 ^ 64"
    unfolding r(1) by (simp only: mult.commute le_add2)
  show "mp_val (ls @ w # replicate z 0) * 2 ^ 64 < (wide w (last (0 # ls)) + 1) * (2 ^ 64) ^ length ls"
    unfolding r(1) using r(2) by (simp only: add_mult_distrib mult.commute[of _ "wide w (last (0 # ls))"] mult_1 add.commute[of r] add_less_cancel_left)
qed

text \<open>The top 32 bits after the number is shifted up.\<close>

lemma top_32:
  assumes "wide h l = W * 2 ^ su" "2 ^ 63 \<le> unat h" "su \<le> 63"
  defines "x \<equiv> unat (ucast (drop_bit 32 h) :: u32)"
  shows "2 ^ 31 \<le> x" "x * 2 ^ 96 \<le> W * 2 ^ su" "(W + 1) * 2 ^ su \<le> (x + 1) * 2 ^ 96"
proof -
  have d: "unat (drop_bit 32 h) = unat h div 2 ^ 32" unfolding unat_drop_bit_eq unfolding drop_bit_eq_div ..
  have "unat h div 2 ^ 32 < 2 ^ 32" using u64_less[of h] by (simp add: less_mult_imp_div_less)
  then have x: "x = unat h div 2 ^ 32"
    unfolding x_def unsigned_ucast_eq unsigned_take_bit_eq d by (simp add: take_bit_nat_eq_self)
  show "2 ^ 31 \<le> x" unfolding x using div_le_mono[OF assms(2), of "2 ^ 32"] by simp
  have h: "x * 2 ^ 32 \<le> unat h" "unat h < (x + 1) * 2 ^ 32"
    unfolding x using dividend_less_div_times[of "2 ^ 32" "unat h"] by simp_all
  have "x * 2 ^ 96 = x * 2 ^ 32 * 2 ^ 64" by simp
  also have "\<dots> \<le> wide h l" using h(1) by (simp add: wide_def)
  finally show "x * 2 ^ 96 \<le> W * 2 ^ su" unfolding assms(1) .
  have p: "(2 :: nat) ^ 96 = 2 ^ (96 - su) * 2 ^ su" using assms(3) by (simp flip: power_add)
  have "wide h l < (unat h + 1) * 2 ^ 64" using u64_less[of l] by (simp add: wide_def)
  also have "\<dots> \<le> (x + 1) * 2 ^ 32 * 2 ^ 64" using h(2) by (intro mult_le_mono1) simp
  also have "\<dots> = (x + 1) * 2 ^ 96" by simp
  also have "\<dots> = (x + 1) * 2 ^ (96 - su) * 2 ^ su" unfolding p by (simp only: mult.assoc)
  finally have "W < (x + 1) * 2 ^ (96 - su)" unfolding assms(1) by simp
  then have "(W + 1) * 2 ^ su \<le> (x + 1) * 2 ^ (96 - su) * 2 ^ su" by (intro mult_le_mono1) simp
  then show "(W + 1) * 2 ^ su \<le> (x + 1) * 2 ^ 96" unfolding p by (simp only: mult.assoc)
qed

lemma initial_reciprocal_good:
  fixes d :: "u64 list"
  assumes "mp_val d \<noteq> 0" "length d \<le> m + 1" "m < 2 ^ 57" "191 + 64 * m + 2 \<le> 64 * rw" "rw \<le> m + 5"
  shows "\<exists>A. initial_reciprocal d (191 + 64 * m) rw = Some A \<and> length A = rw \<and>
    \<bar>int (mp_val d * mp_val A) - int (2 ^ (191 + 64 * m))\<bar> * 2 ^ 20 \<le> int (2 ^ (191 + 64 * m))"
proof -
  obtain ls w z where d: "d = ls @ w # replicate z 0" "w \<noteq> 0" using top_split[OF assms(1)] .
  define lo i where "lo = last (0 # ls)" "i = length ls"
  obtain h l su where n: "normalise_loop 6 (w, lo, 0) = (h, l, su)" by (cases "normalise_loop 6 (w, lo, 0)") auto
  have "2 ^ (64 - 2 ^ 6) \<le> unat w" using d(2) by (simp add: Suc_le_eq unat_gt_0)
  from normalise_loop_value[OF this _ _ n] have N: "2 ^ 63 \<le> unat h" "unat su \<le> 63" "wide h l = wide w lo * 2 ^ unat su" by simp_all
  define x where "x = (ucast (drop_bit 32 h) :: u32)"
  note T = top_32[OF N(3,1,2), folded x_def]
  define rho where "rho = unat (recip_approx_32 x)"
  have rho: "\<bar>int rho * int (unat x) - 2 ^ 63\<bar> \<le> 2000 * int (unat x)" "rho < 2 ^ 32"
    using recip_bounded[OF T(1)] u32_less[of "recip_approx_32 x"] by (simp_all add: rho_def)
  define lob where "lob = (push_bit 32 (ucast (recip_approx_32 x)) :: u64)"
  have lob: "wide 0 lob = rho * 2 ^ 32"
  proof -
    have "unat (ucast (recip_approx_32 x) :: u64) = rho"
      unfolding rho_def unsigned_ucast_eq unsigned_take_bit_eq
      by (rule take_bit_nat_eq_self) (rule less_trans[OF u32_less], simp)
    then have "unat lob = rho * 2 ^ 32"
      unfolding lob_def unsigned_push_bit_eq unfolding push_bit_eq_mult take_bit_eq_mod using rho(2) by simp
    then show ?thesis by (simp add: wide_def)
  qed
  obtain h2 l2 where u: "shift_up_loop 6 su (0, lob) = (h2, l2)" by fastforce
  have su: "unat su mod 2 ^ 6 = unat su" using N(2) by simp
  have "rho * 2 ^ 32 * 2 ^ unat su < 2 ^ 32 * 2 ^ 32 * 2 ^ 64"
    using rho(2) N(2) by (intro mult_strict_mono mult_strict_right_mono power_strict_increasing) simp_all
  then have W: "wide h2 l2 = rho * 2 ^ 32 * 2 ^ unat su"
    using shift_up_loop_value[OF _ _ u] unfolding su lob by simp
  have i: "i \<le> m" using assms(2) d by (simp add: lo_i_def)
  define q where "q = m + 1 - i"
  have q: "q + i = m + 1" "64 * q < 2 ^ 64" "q + 1 < 2 ^ 64" using i assms(3) by (simp_all add: q_def)
  have out: "of_nat (191 + 64 * m) - 191 - (of_nat i * 64 - (128 - 64)) = (of_nat (64 * q) :: u64)"
    using i by (simp add: q_def of_nat_diff algebra_simps)
  have uq: "unat (of_nat (64 * q) :: u64) = 64 * q" "unat (of_nat q :: u64) = q" "unat (of_nat q + 1 :: u64) = q + 1"
    using q(2,3) by (simp_all add: unat_of_nat unat_word_ariths del: of_nat_mult)
  have aligned: "(of_nat (64 * q) :: u64) mod 64 = 0" "(of_nat (64 * q) :: u64) div 64 = of_nat q"
    unfolding word_unat_eq_iff unat_mod_distrib unat_div_distrib uq by simp_all
  define A where "A = mp_add_integer_into_shifted_by_words rw
    (mp_add_integer_into_shifted_by_words rw (replicate rw 0) l2 (of_nat q)) h2 (of_nat q + 1)"
  have f: "mp_find_highest_nonzero_word_pair d (64 - BIGNUM_INT_BITS) 0 0 0 = (of_nat i, w, lo)"
    using word_pair_top[OF d(2), of 0 ls z 0 0 "(0, 0, 0)"] by (simp add: mp_find_highest_nonzero_word_pair_def d(1) lo_i_def)
  have code: "initial_reciprocal d (191 + 64 * m) rw = Some A"
    unfolding initial_reciprocal_def f Let_def prod.case n x_def[symmetric] lob_def[symmetric] u out aligned A_def by simp
  have rw: "rw \<le> 2 ^ 64" using assms(3,5) by simp
  note S1 = mp_val_add_shifted[OF rw, of "replicate rw 0" l2 "of_nat q", unfolded uq base_64]
  note S2 = mp_val_add_shifted[OF rw, of "mp_add_integer_into_shifted_by_words rw (replicate rw 0) l2 (of_nat q)" h2 "of_nat q + 1", unfolded uq base_64]
  have A: "length A = rw" "mp_val A = (wide h2 l2 * (2 ^ 64) ^ q) mod (2 ^ 64) ^ rw"
  proof -
    show "length A = rw" unfolding A_def by (rule conjunct1[OF S2])
    have "mp_val A = (unat l2 * (2 ^ 64) ^ q + unat h2 * (2 ^ 64) ^ (q + 1)) mod (2 ^ 64) ^ rw"
      unfolding A_def conjunct2[OF S2] conjunct2[OF S1] mod_add_left_eq mp_val_replicate_0 add_0 ..
    also have "unat l2 * (2 ^ 64) ^ q + unat h2 * (2 ^ 64) ^ (q + 1) = wide h2 l2 * (2 ^ 64) ^ q"
      by (simp only: wide_def algebra_simps power_add power_one_right)
    finally show "mp_val A = (wide h2 l2 * (2 ^ 64) ^ q) mod (2 ^ 64) ^ rw" .
  qed
  have R: "(2 :: nat) ^ (191 + 64 * m) = 2 ^ 191 * (2 ^ 64) ^ m" by (simp only: power_add power_mult)
  have D: "unat x * 2 ^ 96 * (2 ^ 64) ^ i \<le> mp_val d * 2 ^ 64 * 2 ^ unat su"
    "mp_val d * 2 ^ 64 * 2 ^ unat su \<le> (unat x + 1) * 2 ^ 96 * (2 ^ 64) ^ i"
  proof -
    note top = top_bits[where w = w and ls = ls and z = z, folded d(1) lo_i_def]
    have "unat x * 2 ^ 96 * (2 ^ 64) ^ i \<le> wide w lo * 2 ^ unat su * (2 ^ 64) ^ i" by (rule mult_le_mono1[OF T(2)])
    also have "\<dots> = wide w lo * (2 ^ 64) ^ i * 2 ^ unat su" by (simp only: mult_ac)
    also have "\<dots> \<le> mp_val d * 2 ^ 64 * 2 ^ unat su" by (rule mult_le_mono1[OF top(1)])
    finally show "unat x * 2 ^ 96 * (2 ^ 64) ^ i \<le> mp_val d * 2 ^ 64 * 2 ^ unat su" .
    have "mp_val d * 2 ^ 64 * 2 ^ unat su \<le> (wide w lo + 1) * (2 ^ 64) ^ i * 2 ^ unat su"
      by (rule mult_le_mono1[OF less_imp_le[OF top(2)]])
    also have "\<dots> = (wide w lo + 1) * 2 ^ unat su * (2 ^ 64) ^ i" by (simp only: mult_ac)
    also have "\<dots> \<le> (unat x + 1) * 2 ^ 96 * (2 ^ 64) ^ i" by (rule mult_le_mono1[OF T(3)])
    finally show "mp_val d * 2 ^ 64 * 2 ^ unat su \<le> (unat x + 1) * 2 ^ 96 * (2 ^ 64) ^ i" .
  qed
  have err: "\<bar>int (mp_val d * (wide h2 l2 * (2 ^ 64) ^ q)) - int (2 ^ (191 + 64 * m))\<bar> * 2 ^ 20 \<le> int (2 ^ (191 + 64 * m))"
    unfolding R by (rule initial_error[OF D q(1) rho(1) _ rho(2)]) (use u32_less[of x] in \<open>simp_all add: W\<close>)
  have "wide h2 l2 * (2 ^ 64) ^ q < (2 ^ 64) ^ rw"
  proof -
    define e where "e = int (mp_val d * (wide h2 l2 * (2 ^ 64) ^ q)) - int (2 ^ (191 + 64 * m))"
    have "\<bar>e\<bar> \<le> \<bar>e\<bar> * 2 ^ 20" by simp
    then have "e \<le> int (2 ^ (191 + 64 * m))" using err unfolding e_def[symmetric] by linarith
    then have "mp_val d * (wide h2 l2 * (2 ^ 64) ^ q) \<le> 2 * 2 ^ (191 + 64 * m)" unfolding e_def by linarith
    moreover have "1 * (wide h2 l2 * (2 ^ 64) ^ q) \<le> mp_val d * (wide h2 l2 * (2 ^ 64) ^ q)"
      using assms(1) by (intro mult_le_mono1) simp
    moreover have "2 * 2 ^ (191 + 64 * m) < (2 :: nat) ^ (64 * rw)"
      unfolding power_Suc[symmetric] using assms(4) by (intro power_strict_increasing) simp_all
    ultimately show ?thesis unfolding power_mult by linarith
  qed
  then show ?thesis using code A err by auto
qed

section \<open>The iteration\<close>

lemma mul_internal_exact:
  fixes a b :: "'w::len word list"
  assumes "mp_mul_scratchspace rw (length a) (length b) \<le> pool" "mp_val a * mp_val b < base TYPE('w) ^ rw"
  obtains r where "mp_mul_internal rw a b pool = Some r" "length r = rw" "mp_val r = mp_val a * mp_val b"
  using product_okE[OF mul_internal_ok[OF assms(1)[unfolded mp_mul_scratchspace_def]]] assms(2) by (metis mod_less)

text \<open>A shift by whole words and bits.\<close>

lemma mp_val_shifted_alias:
  "mp_val (mp_rshift_fixed_into rw (mp_make_alias a (k div 64) (length a)) (k mod 64)) =
    mp_val a div 2 ^ k mod base TYPE(64) ^ rw" for a :: "u64 list"
proof -
  have "mp_val a < base TYPE(64) ^ length a" by (rule mp_val_less)
  then have "mp_val a div base TYPE(64) ^ (k div 64) mod base TYPE(64) ^ length a = mp_val a div base TYPE(64) ^ (k div 64)"
    by (intro mod_less le_less_trans[OF div_le_dividend])
  moreover have "(2 :: nat) ^ k = base TYPE(64) ^ (k div 64) * 2 ^ (k mod 64)"
    unfolding base_64 power_mult[symmetric] power_add[symmetric] by simp
  ultimately show ?thesis unfolding mp_val_rshift_fixed_into mp_val_alias by (simp only: div_mult2_eq)
qed

lemma newton_loop_returns:
  fixes d :: "u64 list"
  assumes D: "0 < mp_val d" "4 * mp_val d \<le> 2 ^ L" and rw: "2 * 2 ^ L < ((2 :: nat) ^ 64) ^ rw" and R2: "mp_val two_R = 2 * 2 ^ L"
    and pool: "mp_mul_scratchspace (rw + length d) rw (length d) \<le> pool"
      "mp_mul_scratchspace (rw + max rw (rw + length d)) rw (max rw (rw + length d)) \<le> pool"
  shows "2 \<le> g \<Longrightarrow> length r = rw \<Longrightarrow> good (2 ^ L) (mp_val d) g (mp_val r) \<Longrightarrow>
    \<exists>r' g'. newton_loop d L rw two_R pool needed g r = Some r' \<and> length r' = rw \<and> needed \<le> g' \<and> good (2 ^ L) (mp_val d) g' (mp_val r')"
proof (induction "needed - g" arbitrary: g r rule: less_induct)
  case less
  show ?case
  proof (cases "g < needed")
    case False
    then have "newton_loop d L rw two_R pool needed g r = Some r" by (subst newton_loop.simps) simp
    then show ?thesis using False less.prems not_less by blast
  next
    case True
    let ?B = "(2 ^ 64 :: nat)"
    let ?D = "mp_val d"
    have r: "mp_val r < ?B ^ rw" using mp_val_less[of r] less.prems(2) unfolding base_64 by simp
    have d: "?D < ?B ^ length d" using mp_val_less[of d] unfolding base_64 .
    have "mp_val r * ?D < ?B ^ (rw + length d)" unfolding power_add by (intro mult_strict_mono r d) simp_all
    then obtain dr where dr: "mp_mul_internal (rw + length d) r d pool = Some dr" "mp_val dr = mp_val r * ?D"
      using mul_internal_exact[of "rw + length d" r d pool] pool(1) less.prems(2) unfolding base_64 by metis
    define diff where "diff = mp_sub_into (max rw (rw + length d)) two_R dr"
    have b: "?D * mp_val r \<le> 2 * 2 ^ L" using good_bound[OF less.prems(3) D(2)] .
    have "2 * 2 ^ L < ?B ^ max rw (rw + length d)"
      using rw by (rule less_le_trans) (intro power_increasing; simp)
    then have diff: "mp_val diff = 2 * 2 ^ L - ?D * mp_val r"
      unfolding diff_def using mp_val_sub_into_le[of dr two_R "max rw (rw + length d)"] b
      unfolding base_64 R2 dr(2) by (simp only: mult.commute)
    have "mp_val r * mp_val diff < ?B ^ (rw + max rw (rw + length d))"
      unfolding power_add using mp_val_less[of diff] unfolding base_64 diff_def length_sub_into
      by (intro mult_strict_mono r) simp_all
    then obtain p where p: "mp_mul_internal (rw + max rw (rw + length d)) r diff pool = Some p" "mp_val p = mp_val r * mp_val diff"
      using mul_internal_exact[of "rw + max rw (rw + length d)" r diff pool] pool(2) less.prems(2)
      unfolding base_64 diff_def length_sub_into by metis
    define r1 where "r1 = mp_rshift_fixed_into rw (mp_make_alias p (L div 64) (length p)) (L mod 64)"
    have step: "newton_loop d L rw two_R pool needed g r = newton_loop d L rw two_R pool needed (g * 2 - 1) r1"
      using True dr(1) p(1)[unfolded diff_def] by (subst newton_loop.simps) (simp add: r1_def Let_def)
    define t where "t = mp_val r * (2 * 2 ^ L - ?D * mp_val r) div 2 ^ L"
    have g: "good (2 ^ L) ?D (2 * g - 1) t" unfolding t_def
      by (rule newton_good[OF less.prems(3) D(2,1)]) (use less.prems(1) in simp)
    have "1 * t \<le> ?D * t" using D(1) by (intro mult_le_mono1) simp
    also have "\<dots> \<le> 2 * 2 ^ L" by (rule good_bound[OF g D(2)])
    finally have "t < ?B ^ rw" using rw by simp
    then have v: "mp_val r1 = t" unfolding r1_def mp_val_shifted_alias base_64 p(2) diff t_def by simp
    have "length r1 = rw" by (simp add: r1_def mp_rshift_fixed_into_def Let_def)
    then show ?thesis
      unfolding step using less.hyps[of "g * 2 - 1" r1] True less.prems(1) g v by (simp add: mult.commute)
  qed
qed

section \<open>Quotient and remainder\<close>

lemma correct_value:
  fixes r d :: "u64 list"
  assumes "length r = length d" "mp_val r \<le> mp_val d" "0 < mp_val d" "correct d (r, c) = (r', c')"
  shows "length r' = length d" "mp_val r' = mp_val r mod mp_val d" "unat c' = (unat c + (if mp_val r = mp_val d then 1 else 0)) mod 2 ^ 64"
proof -
  let ?need = "mp_cmp_hs r d"
  have n: "unat ?need = (if mp_val r = mp_val d then 1 else 0)" using assms(2) mp_cmp_hs_iff[of r d] by simp
  have r': "r' = mp_cond_sub_into (length r) r d (unat ?need)" "c' = c + ?need" using assms(4) by (auto simp: correct_def Let_def)
  show "length r' = length d" unfolding r' using assms(1) by simp
  have "mp_val r < base TYPE(64) ^ length r" by (rule mp_val_less)
  then have "int (mp_val r') = int (mp_val r mod mp_val d)"
    unfolding r'(1) mp_val_cond_sub_into n using assms(2,3)
    by (cases "mp_val r = mp_val d") (simp_all flip: zmod_int)
  then show "mp_val r' = mp_val r mod mp_val d" by (simp only: of_nat_eq_iff)
  show "unat c' = (unat c + (if mp_val r = mp_val d then 1 else 0)) mod 2 ^ 64"
    unfolding r'(2) n[symmetric] by (simp add: unat_word_ariths)
qed

lemma mp_val_add_integer_into: "mp_val (mp_add_integer_into rw a k) = (mp_val a + unat k) mod base TYPE(64) ^ rw"
  for a :: "u64 list"
proof -
  have later: "unat c \<le> 1 \<Longrightarrow> 0 < i \<Longrightarrow> length (fst (add_integer_loop a k (NOT 0) 0 i n c)) = n \<and>
      mp_val (fst (add_integer_loop a k (NOT 0) 0 i n c)) = (mp_val (words_at a i n) + 0 + unat c) mod base TYPE(64) ^ n" for i n c
  proof (induction n arbitrary: i c)
    case (Suc n)
    obtain x d where x: "BignumADC (mp_word a i) 0 c = (x, d)" by fastforce
    have X: "unat x + base TYPE(64) * unat d = unat (mp_word a i) + 0 + unat c" "unat d \<le> 1"
      using BignumADC_val[OF x Suc.prems(1)] by simp_all
    have s: "fst (add_integer_loop a k (NOT 0) 0 i (Suc n) c) = x # fst (add_integer_loop a k (NOT 0) 0 (Suc i) n d)"
      using x Suc.prems(2) by (simp add: Let_def split: prod.split)
    show ?case unfolding s words_at_Suc mp_val.simps
      using carry_step[OF X(1), of _ _ 0 n] Suc.IH[OF X(2), of "Suc i"] by simp
  qed simp
  show ?thesis
  proof (cases rw)
    case 0
    then show ?thesis by (simp add: mp_add_integer_into_def)
  next
    case (Suc n)
    obtain x d where x: "BignumADC (mp_word a 0) k 0 = (x, d)" by fastforce
    have X: "unat x + base TYPE(64) * unat d = unat (mp_word a 0) + unat k + unat (0 :: u64)" "unat d \<le> 1"
      using BignumADC_val[OF x] by simp_all
    have s: "mp_add_integer_into rw a k = x # fst (add_integer_loop a k (NOT 0) 0 1 n d)"
      using x by (simp add: mp_add_integer_into_def Suc Let_def split: prod.split)
    have "mp_val (mp_add_integer_into rw a k) = (mp_val (words_at a 0 (Suc n)) + unat k) mod base TYPE(64) ^ Suc n"
      unfolding s words_at_Suc mp_val.simps using carry_step[OF X(1) conjunct2[OF later[OF X(2), of 1 n]]] by simp
    then show ?thesis unfolding Suc mp_val_words_at by (simp only: power_0 div_by_1 mod_add_left_eq)
  qed
qed

text \<open>The last steps, from a reciprocal that is good enough: the code after the iteration.\<close>

lemma final_steps:
  fixes n d A :: "u64 list"
  assumes "n \<noteq> []" "0 < mp_val d" and good: "good (2 ^ L) (mp_val d) g (mp_val A)" "64 * length n + 4 \<le> g"
    and L: "64 * (length n + length d) + 3 \<le> L"
  obtains full rem0 where "mp_mul A n = Some full"
    "mp_mul_into (length d) (mp_rshift_fixed_into (length n) (mp_make_alias full (L div 64) (length full)) (L mod 64)) d = Some rem0"
    "\<And>r1 c1 r2 c2. correct d (mp_sub_into (length d) n rem0, 0) = (r1, c1) \<Longrightarrow> correct d (r1, c1) = (r2, c2) \<Longrightarrow>
      length r2 = length d \<and> mp_val r2 = mp_val n mod mp_val d \<and>
      mp_val (mp_add_integer_into (length n)
        (mp_rshift_fixed_into (length n) (mp_make_alias full (L div 64) (length full)) (L mod 64)) c2) = mp_val n div mp_val d"
proof -
  let ?B = "(2 ^ 64 :: nat)"
  define D N where "D = mp_val d" "N = mp_val n"
  have N: "N < ?B ^ length n" using mp_val_less[of n] unfolding base_64 D_N_def .
  have D: "D < ?B ^ length d" using mp_val_less[of d] unfolding base_64 D_N_def .
  have d: "d \<noteq> []" using assms(2) by auto
  obtain full where full: "mp_mul A n = Some full" "mp_val full = mp_val A * N"
    using mp_mul_exact[of A n] assms(1) unfolding D_N_def by blast
  define q0 where "q0 = N * mp_val A div 2 ^ L"
  have p1: "?B ^ length n * 2 ^ 4 \<le> 2 ^ g"
    unfolding power_mult[symmetric] power_add[symmetric] using good(2) by (intro power_increasing) simp_all
  have p2: "8 * (?B ^ length n * D) \<le> 2 ^ L"
  proof -
    have "8 * (?B ^ length n * D) \<le> 8 * (?B ^ length n * ?B ^ length d)" using D by (intro mult_le_mono2) simp
    also have "\<dots> = 2 ^ (64 * (length n + length d) + 3)" by (simp add: power_add power_mult)
    also have "\<dots> \<le> 2 ^ L" using L by (intro power_increasing) simp_all
    finally show ?thesis .
  qed
  note q = quotient_good[OF good(1)[folded D_N_def] N p1 p2 assms(2)[folded D_N_def], folded q0_def]
  have "q0 * 1 \<le> q0 * D" using assms(2) unfolding D_N_def by (intro mult_le_mono2) simp
  then have q0: "q0 < ?B ^ length n" using q(1) N by linarith
  define quot where "quot = mp_rshift_fixed_into (length n) (mp_make_alias full (L div 64) (length full)) (L mod 64)"
  have quot: "length quot = length n" "mp_val quot = q0"
    unfolding quot_def mp_val_shifted_alias base_64 full(2) using q0
    by (simp_all add: mp_rshift_fixed_into_def Let_def q0_def mult.commute)
  obtain rem0 where rem0: "mp_mul_into (length d) quot d = Some rem0" "mp_val rem0 = q0 * D mod ?B ^ length d"
    using mp_mul_into_value[of "length d" quot d] d unfolding quot(2) power_mult D_N_def by auto
  define rem where "rem = mp_sub_into (length d) n rem0"
  have rem: "length rem = length d" "mp_val rem = N - q0 * D"
  proof -
    show "length rem = length d" by (simp add: rem_def)
    have "int (mp_val rem) = (int N - int (q0 * D)) mod int (?B ^ length d)"
      unfolding rem_def mp_val_sub_into base_64 rem0(2) D_N_def(2)[symmetric] zmod_int mod_diff_right_eq ..
    also have "\<dots> = int (N - q0 * D)"
      unfolding of_nat_diff[OF q(1), symmetric] zmod_int[symmetric] using q(2) D by simp
    finally show "mp_val rem = N - q0 * D" by (simp only: of_nat_eq_iff)
  qed
  have result: "length r2 = length d \<and> mp_val r2 = N mod D \<and> mp_val (mp_add_integer_into (length n) quot c2) = N div D"
    if c: "correct d (rem, 0) = (r1, c1)" "correct d (r1, c1) = (r2, c2)" for r1 c1 r2 c2
  proof -
    have le: "mp_val rem \<le> mp_val d" using rem(2) q(2) by (simp add: D_N_def)
    note C1 = correct_value[OF rem(1) le assms(2) c(1)]
    have lt: "mp_val r1 < D" using C1(2) assms(2) by (simp add: D_N_def)
    note C2 = correct_value[OF C1(1) less_imp_le[OF lt[unfolded D_N_def]] assms(2) c(2)]
    have c2: "unat c2 = (if mp_val rem = D then 1 else 0)"
      using C1(3) C2(3) lt by (simp add: D_N_def)
    have split: "N = q0 * D + mp_val rem" unfolding rem(2) using q(1) by simp
    have div: "N div D = q0 + unat c2" "N mod D = mp_val r2"
    proof -
      have "mp_val r2 = mp_val rem mod D" using C1(2) C2(2) by (simp add: D_N_def)
      then show "N mod D = mp_val r2" unfolding split by simp
      show "N div D = q0 + unat c2"
        unfolding split c2 using le assms(2) by (cases "mp_val rem = D") (simp_all add: D_N_def)
    qed
    have "q0 + unat c2 < ?B ^ length n" unfolding div(1)[symmetric] using N by (rule le_less_trans[OF div_le_dividend])
    then show ?thesis unfolding mp_val_add_integer_into base_64 quot(2) div using C2(1) by simp
  qed
  show ?thesis using that[OF full(1) rem0(1)[unfolded quot_def]] result unfolding D_N_def quot_def rem_def by blast
qed

lemma divmod_value:
  fixes n d :: "u64 list"
  assumes "mp_val d \<noteq> 0" "n \<noteq> []" "length n + length d < 2 ^ 56"
  obtains Q R where "\<And>q_out r_out. mp_divmod_into n d q_out r_out =
      Some (map_option (\<lambda>nw. mp_copy_into nw Q) q_out, map_option (\<lambda>nw. mp_copy_into nw R) r_out)"
    "mp_val Q = mp_val n div mp_val d" "mp_val R = mp_val n mod mp_val d"
proof -
  have "0 < length n" using assms(2) by simp
  then obtain m where m: "division_log2_R (length n) (length d) = 191 + 64 * m" "length d \<le> m + 1"
    "64 * (length n + length d) + 3 \<le> 191 + 64 * m" "m \<le> length n + length d"
    "191 + 64 * m + 2 \<le> 64 * division_rw (191 + 64 * m)" "division_rw (191 + 64 * m) \<le> m + 5"
    using division_sizes by metis
  define L rw where "L = 191 + 64 * m" "rw = division_rw L"
  note mL = m[folded L_rw_def]
  have m57: "m < 2 ^ 57" using mL(4) assms(3) by simp
  obtain A where A: "initial_reciprocal d L rw = Some A" "length A = rw"
    "\<bar>int (mp_val d * mp_val A) - int (2 ^ L)\<bar> * 2 ^ 20 \<le> int (2 ^ L)"
    using initial_reciprocal_good[OF assms(1) m(2) m57 m(5,6)] unfolding L_rw_def by blast
  define two_R where "two_R = mp_add_integer_into_shifted_by_words rw (replicate rw 0)
      (push_bit ((L + 1) mod 64) 1) (of_nat ((L + 1) div 64))"
  have big: "2 * 2 ^ L < ((2 :: nat) ^ 64) ^ rw"
    unfolding power_mult[symmetric] power_Suc[symmetric] using mL(5) by (intro power_strict_increasing) simp_all
  have two_R: "mp_val two_R = 2 * 2 ^ L"
  proof -
    have rw: "rw \<le> 2 ^ 64" using mL(6) m57 by simp
    have "(2 :: nat) ^ ((L + 1) mod 64) < 2 ^ 64" by (intro power_strict_increasing) simp_all
    then have a: "unat (push_bit ((L + 1) mod 64) (1 :: u64)) = 2 ^ ((L + 1) mod 64)"
      unfolding unsigned_push_bit_eq unfolding push_bit_eq_mult take_bit_eq_mod by simp
    have b: "unat (of_nat ((L + 1) div 64) :: u64) = (L + 1) div 64"
      unfolding unat_of_nat by (rule mod_less) (use m57 in \<open>simp add: L_rw_def(1)\<close>)
    have c: "(2 :: nat) ^ ((L + 1) mod 64) * (2 ^ 64) ^ ((L + 1) div 64) = 2 * 2 ^ L"
      unfolding power_mult[symmetric] power_add[symmetric] power_Suc[symmetric] by simp
    show ?thesis
      unfolding two_R_def conjunct2[OF mp_val_add_shifted[OF rw]] base_64 a b c using big by simp
  qed
  have D: "0 < mp_val d" "4 * mp_val d \<le> 2 ^ L"
  proof -
    show "0 < mp_val d" using assms(1) by simp
    have "4 * mp_val d \<le> 4 * (2 ^ 64) ^ length d" using mp_val_less[of d] unfolding base_64 by simp
    also have "\<dots> = 2 ^ (64 * length d + 2)" by (simp add: power_add power_mult)
    also have "\<dots> \<le> 2 ^ L" using mL(3) by (intro power_increasing) simp_all
    finally show "4 * mp_val d \<le> 2 ^ L" .
  qed
  define pool where "pool = max (mp_mul_scratchspace (rw + length d) rw (length d))
      (mp_mul_scratchspace (rw + max rw (rw + length d)) rw (max rw (rw + length d)))"
  have pool: "mp_mul_scratchspace (rw + length d) rw (length d) \<le> pool"
    "mp_mul_scratchspace (rw + max rw (rw + length d)) rw (max rw (rw + length d)) \<le> pool" by (simp_all only: pool_def max.cobounded1 max.cobounded2)
  have "good (2 ^ L) (mp_val d) 20 (mp_val A)" using A(3) by (simp add: good_def)
  then obtain r g where r: "newton_loop d L rw two_R pool (64 * length n + 4) 20 A = Some r" "64 * length n + 4 \<le> g"
    "good (2 ^ L) (mp_val d) g (mp_val r)"
    using newton_loop_returns[OF D big two_R pool _ A(2), of 20 "64 * length n + 4"] by auto
  obtain full rem0 where F: "mp_mul r n = Some full"
    "mp_mul_into (length d) (mp_rshift_fixed_into (length n) (mp_make_alias full (L div 64) (length full)) (L mod 64)) d = Some rem0"
    "\<And>r1 c1 r2 c2. correct d (mp_sub_into (length d) n rem0, 0) = (r1, c1) \<Longrightarrow> correct d (r1, c1) = (r2, c2) \<Longrightarrow>
      length r2 = length d \<and> mp_val r2 = mp_val n mod mp_val d \<and>
      mp_val (mp_add_integer_into (length n)
        (mp_rshift_fixed_into (length n) (mp_make_alias full (L div 64) (length full)) (L mod 64)) c2) = mp_val n div mp_val d"
    using final_steps[OF assms(2) D(1) r(3,2) mL(3)] by blast
  obtain r1 c1 where c1: "correct d (mp_sub_into (length d) n rem0, 0) = (r1, c1)" by fastforce
  obtain r2 c2 where c2: "correct d (r1, c1) = (r2, c2)" by fastforce
  note G = F(3)[OF c1 c2]
  have hs: "mp_cmp_hs r2 d = 0"
    using mp_cmp_hs_iff[of r2 d] G D(1) by (simp add: word_unat_eq_iff not_le)
  define Q where "Q = mp_add_integer_into (length n)
    (mp_rshift_fixed_into (length n) (mp_make_alias full (L div 64) (length full)) (L mod 64)) c2"
  have code: "mp_divmod_into n d q_out r_out = Some (map_option (\<lambda>nw. mp_copy_into nw Q) q_out, map_option (\<lambda>nw. mp_copy_into nw r2) r_out)"
    for q_out r_out
  proof -
    have e: "mp_eq_integer d 0 = 0" using assms(1) by (simp add: mp_eq_integer_0)
    have ne: "0 < length n" "0 < length d" using assms(1,2) by auto
    have k: "31 - 11 = (20 :: nat)" by simp
    show ?thesis
      unfolding mp_divmod_into_def e Let_def mL(1) L_rw_def(2)[symmetric] A(1) Option.bind.simps two_R_def[symmetric]
        pool_def[symmetric] k r(1) F(1) make_sized_pos[OF ne(1)] make_sized_pos[OF ne(2)] length_replicate F(2) c1 c2 prod.case hs Q_def
      by (simp add: mp_rshift_fixed_into_def Let_def)
  qed
  show ?thesis using that[OF code] G unfolding Q_def by blast
qed

section \<open>Arithmetic modulo a number\<close>

lemma div_value:
  fixes n d :: "u64 list"
  assumes "mp_val d \<noteq> 0" "n \<noteq> []" "length n + length d < 2 ^ 56"
  obtains q where "mp_div n d = Some q" "length q = length n" "mp_val q = mp_val n div mp_val d"
proof -
  obtain Q R where D: "\<And>q_out r_out. mp_divmod_into n d q_out r_out =
      Some (map_option (\<lambda>nw. mp_copy_into nw Q) q_out, map_option (\<lambda>nw. mp_copy_into nw R) r_out)"
    "mp_val Q = mp_val n div mp_val d" using divmod_value[OF assms] by metis
  have "mp_val n div mp_val d < base TYPE(64) ^ length n"
    by (rule le_less_trans[OF div_le_dividend mp_val_less])
  then show ?thesis using that[of "mp_copy_into (length n) Q"] D assms(2) by (simp add: mp_div_def mp_val_copy_into)
qed

lemma mod_value:
  fixes n d :: "u64 list"
  assumes "mp_val d \<noteq> 0" "n \<noteq> []" "length n + length d < 2 ^ 56"
  obtains r where "mp_mod n d = Some r" "length r = length d" "mp_val r = mp_val n mod mp_val d"
proof -
  obtain Q R where D: "\<And>q_out r_out. mp_divmod_into n d q_out r_out =
      Some (map_option (\<lambda>nw. mp_copy_into nw Q) q_out, map_option (\<lambda>nw. mp_copy_into nw R) r_out)"
    "mp_val R = mp_val n mod mp_val d" using divmod_value[OF assms] by metis
  have "mp_val n mod mp_val d < base TYPE(64) ^ length d"
    by (rule less_trans[OF mod_less_divisor mp_val_less]) (use assms(1) in simp)
  moreover have "d \<noteq> []" using assms(1) by auto
  ultimately show ?thesis using that[of "mp_copy_into (length d) R"] D by (simp add: mp_mod_def mp_val_copy_into)
qed

lemma modmul_value:
  fixes x y d :: "u64 list"
  assumes "mp_val d \<noteq> 0" "x \<noteq> []" "length x + length y + length d < 2 ^ 56"
  obtains r where "mp_modmul x y d = Some r" "length r = length d" "mp_val r = mp_val x * mp_val y mod mp_val d"
proof -
  obtain p where p: "mp_mul x y = Some p" "length p = length x + length y" "mp_val p = mp_val x * mp_val y"
    using mp_mul_exact[of x y] assms(2) by blast
  then have "p \<noteq> []" "length p + length d < 2 ^ 56" using assms(2,3) by auto
  then show ?thesis using mod_value[OF assms(1)] that p unfolding mp_modmul_def by (metis Option.bind.bind_lunit)
qed

lemma modadd_value:
  fixes x y d :: "u64 list"
  assumes "mp_val d \<noteq> 0" "max (length x) (length y) + 1 + length d < 2 ^ 56"
  obtains r where "mp_modadd x y d = Some r" "length r = length d" "mp_val r = (mp_val x + mp_val y) mod mp_val d"
proof -
  let ?k = "max (length x) (length y)"
  define s where "s = mp_add_into (?k + 1) x y"
  have a: "mp_add x y = Some s" unfolding mp_add_def s_def by simp
  have "mp_val x < base TYPE(64) ^ ?k" "mp_val y < base TYPE(64) ^ ?k"
    using less_le_trans[OF mp_val_less[of x] power_increasing[of "length x" ?k]]
      less_le_trans[OF mp_val_less[of y] power_increasing[of "length y" ?k]] by simp_all
  then have "mp_val x + mp_val y < 2 * base TYPE(64) ^ ?k" by simp
  also have "\<dots> \<le> base TYPE(64) ^ (?k + 1)" by simp
  finally have v: "mp_val s = mp_val x + mp_val y" unfolding s_def mp_val_add_into by (rule mod_less)
  have "s \<noteq> []" "length s + length d < 2 ^ 56" using assms(2) by (auto simp: s_def dest: arg_cong[where f = length])
  then show ?thesis using mod_value[OF assms(1)] that a v unfolding mp_modadd_def by (metis Option.bind.bind_lunit)
qed

lemma negate_loop_value:
  fixes x :: "'w::len word list"
  assumes "unat c \<le> 1"
  shows "length (negate_loop x flip i n c) = n \<and>
    mp_val (negate_loop x flip i n c) = (mp_val (map (\<lambda>u. u XOR flip) (words_at x i n)) + 0 + unat c) mod base TYPE('w) ^ n"
  using assms
proof (induction n arbitrary: i c)
  case (Suc n)
  obtain r d where r: "BignumADC 0 (mp_word x i XOR flip) c = (r, d)" by fastforce
  have X: "unat r + base TYPE('w) * unat d = unat (mp_word x i XOR flip) + 0 + unat c" "unat d \<le> 1"
    using BignumADC_val[OF r Suc.prems] by simp_all
  have s: "negate_loop x flip i (Suc n) c = r # negate_loop x flip (Suc i) n d" using r by simp
  note L = Suc.IH[OF X(2), of "Suc i"]
  show ?case unfolding s words_at_Suc list.map mp_val.simps
    using carry_step[OF X(1) conjunct2[OF L]] conjunct1[OF L] by simp
qed simp

lemma mp_val_cond_negate:
  fixes x :: "'w::len word list"
  assumes "length x \<le> n"
  shows "length (mp_cond_negate n x 0) = n" "mp_val (mp_cond_negate n x 0) = mp_val x"
    "length (mp_cond_negate n x 1) = n" "mp_val (mp_cond_negate n x 1) = (base TYPE('w) ^ n - mp_val x) mod base TYPE('w) ^ n"
proof -
  have x: "mp_val x < base TYPE('w) ^ n"
    using less_le_trans[OF mp_val_less[of x] power_increasing[OF assms]] by simp
  show "length (mp_cond_negate n x 0) = n" "mp_val (mp_cond_negate n x 0) = mp_val x"
    using negate_loop_value[of 0 x 0 0 n] x by (simp_all add: mp_cond_negate_def mp_val_words_at)
  have m: "(\<lambda>u :: 'w word. u XOR (- 1)) = NOT" by (simp add: fun_eq_iff)
  have "mp_val (map NOT (words_at x 0 n)) + mp_val x + 1 = base TYPE('w) ^ n"
    using mp_val_not[of "words_at x 0 n"] x by (simp add: mp_val_words_at)
  then have "mp_val (map NOT (words_at x 0 n)) + 1 = base TYPE('w) ^ n - mp_val x" by linarith
  then show "length (mp_cond_negate n x 1) = n" "mp_val (mp_cond_negate n x 1) = (base TYPE('w) ^ n - mp_val x) mod base TYPE('w) ^ n"
    using negate_loop_value[of 1 x "- 1" 0 n] by (simp_all add: mp_cond_negate_def m)
qed

lemma modsub_value:
  fixes x y d :: "u64 list"
  assumes "mp_val d \<noteq> 0" "x \<noteq> []" "max (length x) (length y) + length d < 2 ^ 56"
  obtains r where "mp_modsub x y d = Some r" "length r = length d"
    "int (mp_val r) = (int (mp_val x) - int (mp_val y)) mod int (mp_val d)"
proof -
  let ?k = "max (length x) (length y)"
  let ?m = "mp_val d"
  have k: "0 < ?k" using assms(2) by (simp add: less_max_iff_disj)
  have xk: "mp_val x < base TYPE(64) ^ ?k" "mp_val y < base TYPE(64) ^ ?k"
    using less_le_trans[OF mp_val_less[of x] power_increasing[of "length x" ?k]]
      less_le_trans[OF mp_val_less[of y] power_increasing[of "length y" ?k]] by simp_all
  define neg where "neg = mp_cmp_hs y x"
  define diff where "diff = mp_cond_negate ?k (mp_sub_into ?k x y) (unat neg)"
  have neg: "unat neg = (if mp_val x \<le> mp_val y then 1 else 0)" unfolding neg_def by (rule mp_cmp_hs_iff)
  have diff: "length diff = ?k" "mp_val diff = (if mp_val x \<le> mp_val y then mp_val y - mp_val x else mp_val x - mp_val y)"
  proof -
    note c = mp_val_cond_negate[of "mp_sub_into ?k x y" ?k]
    show "length diff = ?k" unfolding diff_def neg using c(1,3) by simp
    show "mp_val diff = (if mp_val x \<le> mp_val y then mp_val y - mp_val x else mp_val x - mp_val y)"
    proof (cases "mp_val x \<le> mp_val y")
      case False
      then show ?thesis unfolding diff_def neg using c(2) mp_val_sub_into_le[of y x ?k] xk by simp
    next
      case True
      let ?s = "mp_val (mp_sub_into ?k x y)"
      have s: "?s < base TYPE(64) ^ ?k" using mp_val_less[of "mp_sub_into ?k x y"] by simp
      have "mp_val diff = (base TYPE(64) ^ ?k - ?s) mod base TYPE(64) ^ ?k" unfolding diff_def neg using True c(4) by simp
      then have "int (mp_val diff) = (- int ?s) mod int (base TYPE(64) ^ ?k)"
        using s by (simp only: zmod_int of_nat_diff less_imp_le) simp
      also have "\<dots> = (int (mp_val y) - int (mp_val x)) mod int (base TYPE(64) ^ ?k)"
        unfolding mp_val_sub_into by (simp only: mod_minus_eq minus_diff_eq)
      also have "\<dots> = int (mp_val y - mp_val x)"
        unfolding of_nat_diff[OF True, symmetric] zmod_int[symmetric] using xk(2) by simp
      finally show ?thesis using True by (simp only: of_nat_eq_iff if_True)
    qed
  qed
  have "diff \<noteq> []" "length diff + length d < 2 ^ 56" using diff(1) k assms(3) by auto
  then obtain res where res: "mp_mod diff d = Some res" "length res = length d" "mp_val res = mp_val diff mod ?m"
    using mod_value[OF assms(1)] by metis
  define res1 where "res1 = mp_cond_negate (length d) res (unat neg)"
  define pos where "pos = neg AND NOT (mp_eq_integer res1 0)"
  have dB: "?m < base TYPE(64) ^ length d" by (rule mp_val_less)
  have lt: "mp_val res < ?m" using res(3) assms(1) by simp
  note c = mp_val_cond_negate[of res "length d", unfolded res(2), OF le_refl]
  have len: "length res1 = length d" unfolding res1_def neg using c(1,3) by simp
  have v: "int (mp_val (mp_cond_add_into (length d) res1 d (unat pos))) = (int (mp_val x) - int (mp_val y)) mod int ?m"
  proof (cases "mp_val x \<le> mp_val y")
    case False
    then have "neg = 0" using neg by (simp add: word_unat_eq_iff)
    then have "unat pos = 0" "mp_val res1 = mp_val res" using c(2) by (simp_all add: pos_def res1_def)
    then show ?thesis using False lt dB diff(2) res(3) by (simp add: mp_val_cond_add_into zmod_int of_nat_diff)
  next
    case True
    then have n1: "neg = 1" using neg by (simp add: word_unat_eq_iff)
    have r1: "mp_val res1 = (base TYPE(64) ^ length d - mp_val res) mod base TYPE(64) ^ length d"
      using c(4) n1 by (simp add: res1_def)
    have e: "(int (mp_val x) - int (mp_val y)) mod int ?m = (- int (mp_val res)) mod int ?m"
      using True diff(2) res(3) by (simp add: zmod_int mod_minus_eq of_nat_diff)
    show ?thesis
    proof (cases "mp_val res = 0")
      case z: True
      then have "mp_val res1 = 0" using r1 by simp
      then have "pos = 0" "mp_val res1 = 0" by (simp_all add: pos_def n1 mp_eq_integer_0)
      then show ?thesis unfolding e z by (simp add: mp_val_cond_add_into)
    next
      case nz: False
      then have r1: "mp_val res1 = base TYPE(64) ^ length d - mp_val res" using r1 lt dB by simp
      then have "mp_val res1 \<noteq> 0" using lt dB by linarith
      then have "pos = 1" by (simp add: pos_def n1 mp_eq_integer_0)
      then have "mp_val (mp_cond_add_into (length d) res1 d (unat pos)) = (base TYPE(64) ^ length d - mp_val res + ?m) mod base TYPE(64) ^ length d"
        by (simp add: mp_val_cond_add_into r1)
      also have "base TYPE(64) ^ length d - mp_val res + ?m = base TYPE(64) ^ length d + (?m - mp_val res)" using lt dB by linarith
      also have "\<dots> mod base TYPE(64) ^ length d = ?m - mp_val res"
      proof -
        have "?m - mp_val res < base TYPE(64) ^ length d" using dB by linarith
        then show ?thesis by simp
      qed
      finally have v: "mp_val (mp_cond_add_into (length d) res1 d (unat pos)) = ?m - mp_val res" .
      have "(- int (mp_val res)) mod int ?m = (int ?m - int (mp_val res)) mod int ?m" by simp
      also have "\<dots> = int (?m - mp_val res)"
        unfolding of_nat_diff[OF less_imp_le[OF lt], symmetric] zmod_int[symmetric] using nz lt by simp
      finally show ?thesis unfolding e v ..
    qed
  qed
  have "mp_modsub x y d = Some (mp_cond_add_into (length d) res1 d (unat pos))"
    unfolding mp_modsub_def make_sized_pos[OF k] Option.bind.simps Let_def length_replicate length_sub_into neg_def[symmetric]
      diff_def[symmetric] res(1) res(2) res1_def[symmetric] pos_def[symmetric] len ..
  then show ?thesis using that v by simp
qed

text \<open>Operands below the modulus need no division.\<close>

lemma modadd_in_range_value:
  fixes x y d :: "u64 list"
  assumes "mp_val x < mp_val d" "mp_val y < mp_val d"
  obtains r where "mp_modadd_in_range x y d = Some r" "length r = length d" "mp_val r = (mp_val x + mp_val y) mod mp_val d"
proof -
  let ?n = "length d" let ?B = "base TYPE(64) ^ length d"
  obtain s c where s: "mp_add_masked_into ?n x y (NOT 0) 0 0 = (s, c)" by fastforce
  have d: "mp_val d < ?B" by (rule mp_val_less)
  have "d \<noteq> []" using assms(1) by auto
  then have n: "0 < ?n" by simp
  have S: "length s = ?n" "mp_val s + ?B * unat c = mp_val x + mp_val y"
    using mp_add_carry[OF s] assms d by simp_all
  have sB: "mp_val s < ?B" using mp_val_less[of s] S(1) by simp
  have "unat c < 2"
  proof (rule ccontr)
    assume "\<not> unat c < 2"
    then have "?B * 2 \<le> ?B * unat c" by (intro mult_le_mono2) simp
    then show False using S(2) assms d by linarith
  qed
  then have c01: "unat c = 0 \<or> unat c = 1" by linarith
  let ?q = "unat (c OR mp_cmp_hs s d)"
  have "int (mp_val (mp_cond_sub_into ?n s d ?q)) = int ((mp_val x + mp_val y) mod mp_val d)"
  proof (cases "unat c = 0 \<and> mp_val s < mp_val d")
    case True
    then have "c = 0" "mp_cmp_hs s d = 0" using mp_cmp_hs_iff[of s d] by (simp_all add: word_unat_eq_iff not_le)
    then have "?q = 0" by simp
    then have "int (mp_val (mp_cond_sub_into ?n s d ?q)) = int (mp_val s mod ?B)" by (simp add: mp_val_cond_sub_into zmod_int)
    then show ?thesis using True S(2) sB by simp
  next
    case False
    have "odd ?q"
    proof (cases "unat c = 0")
      case True
      then have "c = 0" "mp_cmp_hs s d = 1" using False mp_cmp_hs_iff[of s d] by (simp_all add: word_unat_eq_iff not_le not_less)
      then show ?thesis by simp
    next
      case False
      then have "c = 1" using c01 by (simp add: word_unat_eq_iff)
      moreover have "mp_cmp_hs s d = 0 \<or> mp_cmp_hs s d = 1" using mp_cmp_hs_iff[of s d] by (simp add: word_unat_eq_iff)
      ultimately show ?thesis by auto
    qed
    have eq: "mp_val x + mp_val y - mp_val d < mp_val d" "mp_val d \<le> mp_val x + mp_val y"
      using False c01 S(2) assms d by auto
    have "(int (mp_val s) - int (mp_val d)) mod int ?B = (int (mp_val s) - int (mp_val d) + int ?B * int (unat c)) mod int ?B" by simp
    also have "int (mp_val s) - int (mp_val d) + int ?B * int (unat c) = int (mp_val x + mp_val y) - int (mp_val d)"
      unfolding S(2)[symmetric] by simp
    also have "\<dots> = int (mp_val x + mp_val y - mp_val d)" using eq(2) by (simp only: of_nat_diff)
    also have "\<dots> mod int ?B = int (mp_val x + mp_val y - mp_val d)"
      unfolding zmod_int[symmetric] using eq(1) d by simp
    finally show ?thesis using \<open>odd ?q\<close> eq by (simp add: mp_val_cond_sub_into mod_if)
  qed
  then show ?thesis using that[of "mp_cond_sub_into ?n s d ?q"] n s S(1) by (simp add: mp_modadd_in_range_def)
qed

lemma modsub_in_range_value:
  fixes x y d :: "u64 list"
  assumes "mp_val x < mp_val d" "mp_val y < mp_val d"
  obtains r where "mp_modsub_in_range x y d = Some r" "length r = length d"
    "int (mp_val r) = (int (mp_val x) - int (mp_val y)) mod int (mp_val d)"
proof -
  let ?n = "length d" let ?B = "base TYPE(64) ^ length d"
  have d: "mp_val d < ?B" by (rule mp_val_less)
  have "d \<noteq> []" using assms(1) by auto
  then have n: "0 < ?n" by simp
  define s where "s = mp_sub_into ?n x y"
  let ?q = "unat (1 XOR mp_cmp_hs x y)"
  have "int (mp_val (mp_cond_add_into ?n s d ?q)) = (int (mp_val x) - int (mp_val y)) mod int (mp_val d)"
  proof (cases "mp_val y \<le> mp_val x")
    case True
    then have "mp_cmp_hs x y = 1" using mp_cmp_hs_iff[of x y] by (simp add: word_unat_eq_iff)
    then have "?q = 0" by simp
    moreover have "mp_val s = mp_val x - mp_val y" unfolding s_def using mp_val_sub_into_le[OF True] assms d by simp
    ultimately show ?thesis using True assms d by (simp add: mp_val_cond_add_into of_nat_diff zmod_int)
  next
    case False
    then have "mp_cmp_hs x y = 0" using mp_cmp_hs_iff[of x y] by (simp add: word_unat_eq_iff)
    then have q: "?q = 1" by simp
    have "int (mp_val (mp_cond_add_into ?n s d ?q)) = (int (mp_val s) + int (mp_val d)) mod int ?B"
      unfolding mp_val_cond_add_into q by (simp add: zmod_int)
    also have "\<dots> = (int (mp_val x) - int (mp_val y) + int (mp_val d)) mod int ?B"
      unfolding s_def mp_val_sub_into mod_add_left_eq ..
    also have "\<dots> = int (mp_val x) - int (mp_val y) + int (mp_val d)" 
    proof (rule mod_pos_pos_trivial)
      have "int (mp_val d) < int ?B" using d by (simp only: of_nat_less_iff)
      then show "int (mp_val x) - int (mp_val y) + int (mp_val d) < int ?B" using False by linarith
    qed (use assms(2) in simp)
    also have "\<dots> = (int (mp_val x) - int (mp_val y)) mod int (mp_val d)" using False assms
      by (subst mod_add_self2[symmetric], subst mod_pos_pos_trivial) simp_all
    finally show ?thesis .
  qed
  then show ?thesis using that[of "mp_cond_add_into ?n s d ?q"] n by (simp add: mp_modsub_in_range_def s_def)
qed

text \<open>
  C6: Division of big numbers, by Newton's iteration from the approximate reciprocal of 32 bits and without a division
  instruction, is division: it terminates, no assertion fails, and quotient and remainder are right for every dividend and
  every divisor but 0, cut to the sizes that the caller asks for.
\<close>
theorem mp_divmod_into_correct:
  fixes n d :: "u64 list"
  assumes "mp_val d \<noteq> 0" "n \<noteq> []" "length n + length d < 2 ^ 56"
  shows "\<exists>q r. mp_divmod_into n d (Some q_nw) (Some r_nw) = Some (Some q, Some r) \<and> length q = q_nw \<and> length r = r_nw \<and>
    mp_val q = mp_val n div mp_val d mod 2 ^ (64 * q_nw) \<and> mp_val r = mp_val n mod mp_val d mod 2 ^ (64 * r_nw)"
proof -
  obtain Q R where "\<And>q_out r_out. mp_divmod_into n d q_out r_out =
      Some (map_option (\<lambda>nw. mp_copy_into nw Q) q_out, map_option (\<lambda>nw. mp_copy_into nw R) r_out)"
    "mp_val Q = mp_val n div mp_val d" "mp_val R = mp_val n mod mp_val d" using divmod_value[OF assms] by metis
  then show ?thesis by (simp add: mp_val_copy_into power_mult)
qed

theorem mp_divmod_into_correct_witness:
  "\<exists>q r. mp_divmod_into [5, 7, 1] [0, 3] (Some 3) (Some 2) = Some (Some q, Some r) \<and> length q = 3 \<and> length r = 2 \<and>
    mp_val q = 6148914691236517207 \<and> mp_val r = 18446744073709551621 + 18446744073709551616"
  using mp_divmod_into_correct[of "[0, 3]" "[5, 7, 1]" 3 2] by simp

text \<open>
  C32: Addition, subtraction and multiplication modulo a number are those of modular arithmetic, for operands of every
  size; the variants that only correct once are right for operands below the modulus.
\<close>
theorem modular_arithmetic:
  fixes x y m :: "u64 list"
  assumes "mp_val m \<noteq> 0" "x \<noteq> []" "length x + length y + length m < 2 ^ 55"
  shows "\<exists>s t p. mp_modadd x y m = Some s \<and> mp_modsub x y m = Some t \<and> mp_modmul x y m = Some p \<and>
    int (mp_val s) = (int (mp_val x) + int (mp_val y)) mod int (mp_val m) \<and>
    int (mp_val t) = (int (mp_val x) - int (mp_val y)) mod int (mp_val m) \<and>
    int (mp_val p) = (int (mp_val x) * int (mp_val y)) mod int (mp_val m) \<and>
    (mp_val x < mp_val m \<and> mp_val y < mp_val m \<longrightarrow>
      mp_modadd_in_range x y m = Some s \<and> mp_modsub_in_range x y m = Some t)"
proof -
  have l: "max (length x) (length y) + 1 + length m < 2 ^ 56" "max (length x) (length y) + length m < 2 ^ 56"
    "length x + length y + length m < 2 ^ 56" using assms(3) by simp_all
  obtain s where s: "mp_modadd x y m = Some s" "length s = length m" "mp_val s = (mp_val x + mp_val y) mod mp_val m"
    using modadd_value[OF assms(1) l(1)] .
  obtain t where t: "mp_modsub x y m = Some t" "length t = length m" "int (mp_val t) = (int (mp_val x) - int (mp_val y)) mod int (mp_val m)"
    using modsub_value[OF assms(1,2) l(2)] .
  obtain p where p: "mp_modmul x y m = Some p" "mp_val p = mp_val x * mp_val y mod mp_val m"
    using modmul_value[OF assms(1,2) l(3)] .
  have "mp_modadd_in_range x y m = Some s \<and> mp_modsub_in_range x y m = Some t" if r: "mp_val x < mp_val m" "mp_val y < mp_val m"
  proof -
    obtain a where a: "mp_modadd_in_range x y m = Some a" "length a = length m" "mp_val a = (mp_val x + mp_val y) mod mp_val m"
      using modadd_in_range_value[OF r] .
    obtain b where b: "mp_modsub_in_range x y m = Some b" "length b = length m" "int (mp_val b) = (int (mp_val x) - int (mp_val y)) mod int (mp_val m)"
      using modsub_in_range_value[OF r] .
    have "a = s" using a s by (intro mp_val_inj) simp_all
    moreover have "b = t" using b t by (intro mp_val_inj) simp_all
    ultimately show ?thesis using a b by simp
  qed
  then show ?thesis using s t p by (auto simp: zmod_int)
qed

theorem modular_arithmetic_witness:
  "\<exists>t. mp_modsub [3] [5] [7 :: u64] = Some t \<and> int (mp_val t) = 5"
  using modular_arithmetic[of "[7]" "[3]" "[5]"] by auto

end
