(* ===== verification/MpintMonty.thy ===== *)
theory MpintMonty
  imports MpintDiv
begin

text \<open>
  \<open>mpint.c\<close>, powers modulo an odd number: the inverse modulo a power of two, which doubles its bits at every step,
  Montgomery reduction, which replaces the division by the modulus by one by a power of the word size, and
  exponentiation by squaring. Words have 64 bits. Scratch space is modelled by its size.
\<close>

section \<open>Bits\<close>

definition mp_get_bit :: "u64 list \<Rightarrow> nat \<Rightarrow> nat" where
  "mp_get_bit x k = unat (1 AND drop_bit (k mod BIGNUM_INT_BITS) (mp_word x (k div BIGNUM_INT_BITS)))"

text \<open>\<open>None\<close> is the assertion that there is such a word.\<close>

definition mp_set_bit :: "u64 list \<Rightarrow> nat \<Rightarrow> nat \<Rightarrow> u64 list option" where
  "mp_set_bit x k val =
     (let w = k div BIGNUM_INT_BITS in
      if w < length x then
        let shift = k mod BIGNUM_INT_BITS; u = x ! w AND NOT (push_bit shift 1)
        in Some (x[w := u OR push_bit shift (of_nat (val mod 2))])
      else None)"

section \<open>The inverse modulo a power of two\<close>

text \<open>One step: from the inverse modulo \<open>2 ^ b\<close> to that modulo \<open>2 ^ (2 * b)\<close>.\<close>

definition invert_step :: "u64 list \<Rightarrow> nat \<Rightarrow> nat \<Rightarrow> nat \<Rightarrow> u64 list \<Rightarrow> u64 list option" where
  "invert_step x scratch mul_scratch b r = do {
     let Bw = (b + BIGNUM_INT_BITS - 1) div BIGNUM_INT_BITS;
     let B2w = (2 * b + BIGNUM_INT_BITS - 1) div BIGNUM_INT_BITS;
     scratch \<leftarrow> mp_alloc_from_scratch scratch Bw;
     let x0 = mp_reduce_mod_2to (mp_copy_into Bw x) b;
     let r0 = mp_make_alias r 0 Bw;
     scratch \<leftarrow> mp_alloc_from_scratch scratch B2w;
     Kshift \<leftarrow> mp_mul_internal B2w x0 r0 mul_scratch;
     scratch \<leftarrow> mp_alloc_from_scratch scratch Bw;
     let K = mp_rshift_fixed_into Bw Kshift b;
     scratch \<leftarrow> mp_alloc_from_scratch scratch Bw;
     let x1 = mp_reduce_mod_2to (mp_rshift_fixed_into Bw x b) b;
     let n = length (mp_make_alias Kshift 0 Bw);
     r0x1 \<leftarrow> mp_mul_internal n r0 x1 mul_scratch;
     let r0x1 = mp_add_into n r0x1 K;
     let r0x1 = mp_neg_into n r0x1;
     scratch \<leftarrow> mp_alloc_from_scratch scratch Bw;
     r1 \<leftarrow> mp_mul_internal Bw r0 r0x1 mul_scratch;
     let r1 = mp_reduce_mod_2to r1 b;
     let K = mp_lshift_fixed_into Bw r1 (b mod BIGNUM_INT_BITS);
     let Bpos = b div BIGNUM_INT_BITS;
     let r1_position = mp_make_alias r Bpos (B2w - Bpos);
     Some (take Bpos r @ mp_add_into (length r1_position) r1_position K @ drop (Bpos + length r1_position) r) }"

partial_function (option) invert_loop :: "u64 list \<Rightarrow> nat \<Rightarrow> nat \<Rightarrow> nat \<Rightarrow> nat \<Rightarrow> u64 list \<Rightarrow> u64 list option" where
  "invert_loop x p scratch mul_scratch b r =
     (if b < p then do {
        r \<leftarrow> invert_step x scratch mul_scratch b r;
        invert_loop x p scratch mul_scratch (2 * b) r }
      else Some r)"

definition mp_invert_mod_2to :: "u64 list \<Rightarrow> nat \<Rightarrow> u64 list option" where
  "mp_invert_mod_2to x p =
     (if length x = 0 \<or> even (x ! 0) \<or> p = 0 then None
      else do {
        let rw = max ((p + BIGNUM_INT_BITS - 1) div BIGNUM_INT_BITS) 1;
        r :: u64 list \<leftarrow> mp_make_sized rw;
        let mul_scratchsize = mp_mul_scratchspace (2 * rw) rw rw;
        scratch_orig :: u64 list \<leftarrow> mp_make_sized (6 * rw + mul_scratchsize);
        scratch \<leftarrow> mp_alloc_from_scratch (length scratch_orig) mul_scratchsize;
        r \<leftarrow> invert_loop x p scratch mul_scratchsize 1 (r[0 := 1]);
        Some (mp_reduce_mod_2to r p) })"

section \<open>Montgomery arithmetic\<close>

record monty_context =
  mc_m :: "u64 list"
  mc_rbits :: nat
  mc_rw :: nat
  mc_pw :: nat
  minus_minv_mod_r :: "u64 list"
  powers_of_r_mod_m :: "u64 list list"
  mc_scratch :: nat

definition monty_scratch_size :: "nat \<Rightarrow> nat \<Rightarrow> nat" where
  "monty_scratch_size rw pw = 3 * rw + pw + mp_mul_scratchspace pw rw rw"

definition monty_new :: "u64 list \<Rightarrow> monty_context option" where
  "monty_new m = do {
     let rw = length m;
     let rbits = rw * BIGNUM_INT_BITS;
     let pw = rw * 2 + 1;
     minv \<leftarrow> mp_invert_mod_2to m rbits;
     let minv = mp_neg_into (length minv) minv;
     r :: u64 list \<leftarrow> mp_make_sized (rw + 1);
     let r = r[rw := 1];
     p0 \<leftarrow> mp_mod r m;
     p1 \<leftarrow> mp_modmul p0 p0 m;
     p2 \<leftarrow> mp_modmul p0 p1 m;
     s :: u64 list \<leftarrow> mp_make_sized (monty_scratch_size rw pw);
     Some \<lparr>mc_m = m, mc_rbits = rbits, mc_rw = rw, mc_pw = pw, minus_minv_mod_r = minv, powers_of_r_mod_m = [p0, p1, p2],
       mc_scratch = length s\<rparr> }"

text \<open>The length of the alias of the low part is given in bits where words are meant; the number is not cut.\<close>

definition monty_reduce_internal :: "monty_context \<Rightarrow> u64 list \<Rightarrow> nat \<Rightarrow> u64 list option" where
  "monty_reduce_internal mc x scratch = do {
     let x_lo = mp_make_alias x 0 (mc_rbits mc);
     scratch \<leftarrow> mp_alloc_from_scratch scratch (mc_rw mc);
     k \<leftarrow> mp_mul_internal (mc_rw mc) x_lo (minus_minv_mod_r mc) scratch;
     scratch \<leftarrow> mp_alloc_from_scratch scratch (mc_pw mc);
     mk \<leftarrow> mp_mul_internal (mc_pw mc) (mc_m mc) k scratch;
     let mk = mp_add_into (mc_pw mc) x mk;
     let toret = mp_make_alias mk (mc_rw mc) (length mk - mc_rw mc);
     Some (mp_cond_sub_into (length toret) toret (mc_m mc) (unat (mp_cmp_hs toret (mc_m mc)))) }"

definition monty_mul_into :: "monty_context \<Rightarrow> nat \<Rightarrow> u64 list \<Rightarrow> u64 list \<Rightarrow> u64 list option" where
  "monty_mul_into mc r_nw x y =
     (if mc_rw mc < length x \<or> mc_rw mc < length y then None
      else do {
        s \<leftarrow> mp_alloc_from_scratch (mc_scratch mc) (2 * mc_rw mc);
        tmp \<leftarrow> mp_mul_into (2 * mc_rw mc) x y;
        reduced \<leftarrow> monty_reduce_internal mc tmp s;
        Some (mp_copy_into r_nw reduced) })"

definition monty_mul :: "monty_context \<Rightarrow> u64 list \<Rightarrow> u64 list \<Rightarrow> u64 list option" where
  "monty_mul mc x y = do { toret :: u64 list \<leftarrow> mp_make_sized (mc_rw mc); monty_mul_into mc (length toret) x y }"

definition monty_modulus :: "monty_context \<Rightarrow> u64 list" where
  "monty_modulus mc = mc_m mc"

definition monty_identity :: "monty_context \<Rightarrow> u64 list" where
  "monty_identity mc = powers_of_r_mod_m mc ! 0"

definition monty_import :: "monty_context \<Rightarrow> u64 list \<Rightarrow> u64 list option" where
  "monty_import mc x = mp_modmul x (powers_of_r_mod_m mc ! 0) (mc_m mc)"

definition monty_import_into :: "monty_context \<Rightarrow> nat \<Rightarrow> u64 list \<Rightarrow> u64 list option" where
  "monty_import_into mc r_nw x = do { imported \<leftarrow> monty_import mc x; Some (mp_copy_into r_nw imported) }"

definition monty_export_into :: "monty_context \<Rightarrow> nat \<Rightarrow> u64 list \<Rightarrow> u64 list option" where
  "monty_export_into mc r_nw x =
     (if 2 * mc_rw mc < length x then None
      else do { reduced \<leftarrow> monty_reduce_internal mc x (mc_scratch mc); Some (mp_copy_into r_nw reduced) })"

definition monty_export :: "monty_context \<Rightarrow> u64 list \<Rightarrow> u64 list option" where
  "monty_export mc x = do { toret :: u64 list \<leftarrow> mp_make_sized (mc_rw mc); monty_export_into mc (length toret) x }"

definition monty_reduce :: "monty_context \<Rightarrow> u64 list \<Rightarrow> u64 list option" where
  "monty_reduce mc x = do { reduced \<leftarrow> monty_reduce_internal mc x (mc_scratch mc); Some (mp_copy_into (length x) reduced) }"

definition monty_add :: "monty_context \<Rightarrow> u64 list \<Rightarrow> u64 list \<Rightarrow> u64 list option" where
  "monty_add mc x y = mp_modadd_in_range x y (mc_m mc)"

definition monty_sub :: "monty_context \<Rightarrow> u64 list \<Rightarrow> u64 list \<Rightarrow> u64 list option" where
  "monty_sub mc x y = mp_modsub_in_range x y (mc_m mc)"

function pow_loop :: "monty_context \<Rightarrow> u64 list \<Rightarrow> nat \<Rightarrow> u64 list \<Rightarrow> u64 list \<Rightarrow> u64 list option" where
  "pow_loop mc exponent i out square = do {
     tmp \<leftarrow> mp_mul_into (mc_rw mc * 2) out square;
     tmp \<leftarrow> monty_reduce mc tmp;
     let out = mp_select_into (length out) out tmp (mp_get_bit exponent i);
     if length exponent * BIGNUM_INT_BITS \<le> i + 1 then Some out
     else do {
       tmp \<leftarrow> mp_mul_into (mc_rw mc * 2) square square;
       tmp \<leftarrow> monty_reduce mc tmp;
       pow_loop mc exponent (i + 1) out (mp_copy_into (length square) tmp) } }"
  by pat_completeness auto
termination
  by (relation "measure (\<lambda>(mc, exponent, i, out, square). length exponent * BIGNUM_INT_BITS - i)") auto

declare pow_loop.simps [simp del]

definition monty_pow :: "monty_context \<Rightarrow> u64 list \<Rightarrow> u64 list \<Rightarrow> u64 list option" where
  "monty_pow mc b exponent = do {
     tmp :: u64 list \<leftarrow> mp_make_sized (mc_rw mc * 2);
     pow_loop mc exponent 0 (powers_of_r_mod_m mc ! 0) b }"

definition mp_modpow :: "u64 list \<Rightarrow> u64 list \<Rightarrow> u64 list \<Rightarrow> u64 list option" where
  "mp_modpow b exponent m =
     (if length m = 0 \<or> even (m ! 0) then None
      else do {
        mc \<leftarrow> monty_new m;
        m_base \<leftarrow> monty_import mc b;
        m_out \<leftarrow> monty_pow mc m_base exponent;
        monty_export mc m_out })"

section \<open>The inverse is an inverse\<close>

lemma inverse_double:
  fixes x r B M :: int
  assumes inv: "x * r mod B = 1" and M: "B dvd M"
  defines "K \<equiv> (x mod B) * r div B"
  defines "r1 \<equiv> r * ((- (r * (x div B mod B) + K)) mod M) mod B"
  shows "B * B dvd x * (r + B * r1) - 1"
proof -
  let ?x0 = "x mod B" let ?x1 = "x div B mod B"
  obtain x2 where x: "x = ?x0 + B * ?x1 + B * B * x2"
  proof
    show "x = ?x0 + B * ?x1 + B * B * (x div B div B)"
      using mult_div_mod_eq[of B x] mult_div_mod_eq[of B "x div B"] by (metis add.assoc add.commute distrib_left mult.assoc)
  qed
  have "?x0 * r mod B = 1" using inv by (simp add: mod_mult_left_eq)
  then have K: "?x0 * r = K * B + 1" unfolding K_def using mult_div_mod_eq[of B "?x0 * r"] by (simp add: mult.commute)
  define X where "X = - (r * ?x1 + K)"
  obtain m where m: "M = B * m" using M by (elim dvdE)
  have N: "X mod M = X + B * (m * - (X div M))" using mult_div_mod_eq[of M X] unfolding m by (simp add: algebra_simps)
  have "r1 = r * (X mod M) + B * - (r * (X mod M) div B)"
    unfolding r1_def X_def[symmetric] using mult_div_mod_eq[of B "r * (X mod M)"] by (simp add: algebra_simps)
  also have "\<dots> = r * (X + B * (m * - (X div M))) + B * - (r * (X mod M) div B)" by (subst N) (rule refl)
  also have "\<dots> = r * X + B * (r * (m * - (X div M)) - r * (X mod M) div B)" by (simp only: algebra_simps)
  finally obtain w where "r1 = r * X + B * w" by blast
  then have r1: "r1 = r * (- (r * ?x1 + K)) + B * w" unfolding X_def .
  have "?x0 * r1 = (?x0 * r) * (- (r * ?x1 + K)) + B * (?x0 * w)" unfolding r1 by (simp add: algebra_simps)
  then have "?x0 * r1 + ?x1 * r + K = B * (?x0 * w - K * (r * ?x1 + K))" unfolding K by (simp add: algebra_simps)
  then obtain v where v: "?x0 * r1 + ?x1 * r + K = B * v" by blast
  have "(?x0 + B * ?x1 + B * B * x2) * (r + B * r1) - 1 =
      (?x0 * r - 1) + B * (?x0 * r1 + ?x1 * r) + B * B * (?x1 * r1 + x2 * (r + B * r1))" by (simp add: algebra_simps)
  then have "x * (r + B * r1) - 1 = (?x0 * r - 1) + B * (?x0 * r1 + ?x1 * r) + B * B * (?x1 * r1 + x2 * (r + B * r1))"
    unfolding x[symmetric] .
  also have "?x0 * r - 1 = B * K" unfolding K by simp
  also have "B * K + B * (?x0 * r1 + ?x1 * r) = B * (B * v)" unfolding v[symmetric] by (simp add: algebra_simps)
  finally have "x * (r + B * r1) - 1 = B * B * (v + (?x1 * r1 + x2 * (r + B * r1)))" by (simp add: algebra_simps)
  then show ?thesis by (rule dvdI)
qed

lemma mp_get_bit_val: "mp_get_bit x k = mp_val x div 2 ^ k mod 2"
proof -
  have "bit (mp_word x (k div 64)) (k mod 64) \<longleftrightarrow> odd (mp_val x div 2 ^ k)"
    using bit_mp_val[of x k] by (simp add: bit_iff_odd)
  moreover have "1 AND drop_bit (k mod 64) (mp_word x (k div 64)) = (if bit (mp_word x (k div 64)) (k mod 64) then 1 else 0)"
    unfolding bit_iff_odd_drop_bit one_and_eq by (simp add: mod2_eq_if)
  ultimately show ?thesis by (simp add: mp_get_bit_def mod2_eq_if)
qed

lemma mul_internal_mod:
  fixes a b :: "'w::len word list"
  assumes "length a \<le> m" "length b \<le> m" "mp_mul_scratchspace_unary m \<le> pool"
  obtains r where "mp_mul_internal rw a b pool = Some r" "length r = rw"
    "mp_val r = mp_val a * mp_val b mod base TYPE('w) ^ rw"
proof -
  have "mp_mul_scratchspace_unary (min rw (max (length a) (length b))) \<le> pool"
    using assms by (simp add: mp_mul_scratchspace_unary_def)
  from product_okE[OF mul_internal_ok[OF this]] show ?thesis using that .
qed

text \<open>The sizes that the loop counter \<open>b\<close>, a power of two, can have.\<close>

lemma step_sizes:
  fixes b n Bw B2w :: nat
  assumes "0 < b" "b < 64 * n" "b mod 64 = 0 \<or> 2 * b \<le> 64" and B: "Bw = (b + 63) div 64" "B2w = (2 * b + 63) div 64"
  shows "Bw \<le> n \<and> B2w \<le> 2 * Bw \<and> b \<le> 64 * Bw \<and> 2 * b \<le> 64 * B2w \<and> b + b mod 64 \<le> 64 * Bw \<and> Bw \<le> B2w \<and>
    (n < B2w \<longrightarrow> 64 * n < 2 * b) \<and> b div 64 \<le> B2w \<and> b div 64 \<le> n"
proof -
  consider k where "b = 64 * k" | "b \<le> 32" using assms(3) by fastforce
  then show ?thesis
  proof cases
    case (1 k)
    then have "Bw = k" "B2w = 2 * k" unfolding B by simp_all
    then show ?thesis using 1 assms(2) by simp
  next
    case 2
    have "Bw = 1" unfolding B by (rule div_nat_eqI) (use 2 assms(1) in simp_all)
    moreover have "B2w = 1" unfolding B by (rule div_nat_eqI) (use 2 assms(1) in simp_all)
    ultimately show ?thesis using 2 assms(2) by simp
  qed
qed

text \<open>What a step leaves.\<close>

lemma invert_step_value:
  fixes x r :: "u64 list"
  assumes b: "0 < b" "b < 64 * length r" "b mod 64 = 0 \<or> 2 * b \<le> 64"
    and r: "mp_val r < 2 ^ b" "mp_val x * mp_val r mod 2 ^ b = 1"
    and pool: "mp_mul_scratchspace_unary (length r) \<le> pool" "6 * length r \<le> space"
  defines "e \<equiv> min (2 * b) (64 * length r)"
  shows "\<exists>r'. invert_step x space pool b r = Some r' \<and> length r' = length r \<and> mp_val r' < 2 ^ e \<and>
    mp_val x * mp_val r' mod 2 ^ e = 1"
proof -
  define Bw B2w where B: "Bw = (b + 63) div 64" "B2w = (2 * b + 63) div 64"
  have sizes: "Bw \<le> length r" "B2w \<le> 2 * Bw" "b \<le> 64 * Bw" "2 * b \<le> 64 * B2w" "b + b mod 64 \<le> 64 * Bw" "Bw \<le> B2w"
    "length r < B2w \<longrightarrow> 64 * length r < 2 * b" "b div 64 \<le> B2w" "b div 64 \<le> length r"
    using step_sizes[OF b B] by simp_all
  let ?W = "(2 ^ 64 :: nat)"
  define X R where "X = mp_val x" "R = mp_val r"
  have pw: "2 ^ b \<le> ?W ^ Bw" unfolding power_mult[symmetric] using sizes(3) by (intro power_increasing) simp_all
  obtain q where q: "?W ^ Bw = 2 ^ b * q" 
    unfolding power_mult[symmetric] using le_imp_power_dvd[OF sizes(3), of "2 :: nat"] by (elim dvdE)
  define x0 r0 where "x0 = mp_reduce_mod_2to (mp_copy_into Bw x) b" "r0 = mp_make_alias r 0 Bw"
  have len: "length x0 \<le> Bw" "length r0 \<le> Bw" by (simp_all add: x0_r0_def mp_reduce_mod_2to_def Let_def length_alias)
  have x0: "mp_val x0 = X mod 2 ^ b"
    unfolding x0_r0_def mp_val_reduce_mod_2to mp_val_copy_into base_64 q X_R_def by (rule mod_mod_cancel) simp
  have r0: "mp_val r0 = R"
    unfolding x0_r0_def mp_val_alias base_64 X_R_def using less_le_trans[OF r(1) pw] by simp
  have m: "mp_mul_scratchspace_unary Bw \<le> pool" using pool(1) sizes(1) by (simp add: mp_mul_scratchspace_unary_def)
  obtain Ks where Ks: "mp_mul_internal B2w x0 r0 pool = Some Ks" "length Ks = B2w" "mp_val Ks = mp_val x0 * mp_val r0 mod base TYPE(64) ^ B2w"
    using mul_internal_mod[OF len m] .
  have "mp_val x0 * mp_val r0 < 2 ^ b * 2 ^ b" unfolding x0 r0 using r(1) by (intro mult_strict_mono) (simp_all add: X_R_def)
  also have "\<dots> \<le> ?W ^ B2w" unfolding power_mult[symmetric] power_add[symmetric] using sizes(4) by (intro power_increasing) simp_all
  finally have Kv: "mp_val Ks = X mod 2 ^ b * R" unfolding Ks(3) base_64 x0 r0 by (rule mod_less)
  define K where "K = mp_rshift_fixed_into Bw Ks b"
  have "X mod 2 ^ b * R div 2 ^ b \<le> R"
  proof -
    have "X mod 2 ^ b * R \<le> 2 ^ b * R" by (intro mult_le_mono1) simp
    from div_le_mono[OF this, of "2 ^ b"] show ?thesis by simp
  qed
  then have K: "mp_val K = X mod 2 ^ b * R div 2 ^ b"
    unfolding K_def mp_val_rshift_fixed_into base_64 Kv using r(1) pw by (intro mod_less) (simp add: X_R_def)
  define x1 where "x1 = mp_reduce_mod_2to (mp_rshift_fixed_into Bw x b) b"
  have len1: "length x1 \<le> Bw" by (simp add: x1_def mp_reduce_mod_2to_def mp_rshift_fixed_into_def Let_def)
  have x1: "mp_val x1 = X div 2 ^ b mod 2 ^ b"
    unfolding x1_def mp_val_reduce_mod_2to mp_val_rshift_fixed_into base_64 q X_R_def by (rule mod_mod_cancel) simp
  have n: "length (mp_make_alias Ks 0 Bw) = Bw" using sizes(6) by (simp add: length_alias Ks(2))
  obtain t where t: "mp_mul_internal Bw r0 x1 pool = Some t" "length t = Bw" "mp_val t = mp_val r0 * mp_val x1 mod base TYPE(64) ^ Bw"
    using mul_internal_mod[OF len(2) len1 m] .
  define t2 where "t2 = mp_neg_into Bw (mp_add_into Bw t K)"
  have len2: "length t2 \<le> Bw" by (simp add: t2_def mp_neg_into_def)
  have t2: "int (mp_val t2) = (- (int R * (int X div 2 ^ b mod 2 ^ b) + int (mp_val K))) mod int (?W ^ Bw)"
  proof -
    have "int (mp_val t2) = (- int ((mp_val t + mp_val K) mod ?W ^ Bw)) mod int (?W ^ Bw)"
      unfolding t2_def mp_neg_into_def mp_val_sub_into mp_val_add_into base_64 by simp
    also have "\<dots> = (- int (mp_val t + mp_val K)) mod int (?W ^ Bw)" unfolding zmod_int mod_minus_eq ..
    also have "\<dots> = (- (int (mp_val r0 * mp_val x1) mod int (?W ^ Bw) + int (mp_val K))) mod int (?W ^ Bw)"
      unfolding t(3) base_64 of_nat_add zmod_int ..
    also have "\<dots> = (- (int (mp_val r0 * mp_val x1) + int (mp_val K))) mod int (?W ^ Bw)"
      unfolding mod_minus_eq[symmetric, of "int (mp_val r0 * mp_val x1) + int (mp_val K)"]
      by (subst mod_minus_eq[symmetric]) (simp only: mod_add_left_eq)
    finally show ?thesis unfolding r0 x1 by (simp add: zdiv_int zmod_int)
  qed
  obtain r1' where r1': "mp_mul_internal Bw r0 t2 pool = Some r1'" "length r1' = Bw" "mp_val r1' = mp_val r0 * mp_val t2 mod base TYPE(64) ^ Bw"
    using mul_internal_mod[OF len(2) len2 m] .
  define r1 where "r1 = mp_reduce_mod_2to r1' b"
  have r1: "mp_val r1 = R * mp_val t2 mod 2 ^ b"
    unfolding r1_def mp_val_reduce_mod_2to r1'(3) base_64 q r0 by (rule mod_mod_cancel) simp
  have fin: "int (2 ^ b) * int (2 ^ b) dvd int X * (int R + int (2 ^ b) * int (mp_val r1)) - 1"
  proof -
    have "int X * int R mod int (2 ^ b) = 1" using r(2) unfolding X_R_def by (metis of_nat_1 of_nat_mult zmod_int)
    moreover have "int (2 ^ b) dvd int (?W ^ Bw)" unfolding q by simp
    ultimately show ?thesis
      using inverse_double[of "int X" "int R" "int (2 ^ b)" "int (?W ^ Bw)"] unfolding r1 zmod_int of_nat_mult t2 K
      by (simp add: zdiv_int zmod_int)
  qed
  define K2 where "K2 = mp_lshift_fixed_into Bw r1 (b mod 64)"
  define len where "len = length (mp_make_alias r (b div 64) (B2w - b div 64))"
  have lr: "b div 64 + len = min B2w (length r)" using sizes(8,9) by (simp add: len_def length_alias)
  define r' where "r' = take (b div 64) r @ mp_add_into len (mp_make_alias r (b div 64) (B2w - b div 64)) K2 @ drop (b div 64 + len) r"
  have code: "invert_step x space pool b r = Some r'"
  proof -
    have a: "mp_alloc_from_scratch s k = Some (s - k)" if "k \<le> s" for s k using that by (simp add: mp_alloc_from_scratch_def)
    have room: "4 * Bw + B2w \<le> space" using pool(2) sizes(1,2) by linarith
    have s: "mp_alloc_from_scratch space Bw = Some (space - Bw)" "mp_alloc_from_scratch (space - Bw) B2w = Some (space - Bw - B2w)"
      "mp_alloc_from_scratch (space - Bw - B2w) Bw = Some (space - Bw - B2w - Bw)"
      "mp_alloc_from_scratch (space - Bw - B2w - Bw) Bw = Some (space - Bw - B2w - Bw - Bw)"
      "mp_alloc_from_scratch (space - Bw - B2w - Bw - Bw) Bw = Some (space - Bw - B2w - Bw - Bw - Bw)"
      using room by (intro a; linarith)+
    have B': "(b + 64 - 1) div 64 = Bw" "(2 * b + 64 - 1) div 64 = B2w" unfolding B by simp_all
    show ?thesis
      unfolding invert_step_def B' Let_def s Option.bind.simps x0_r0_def[symmetric] Ks(1) K_def[symmetric] x1_def[symmetric] n t(1)
        t2_def[symmetric] r1'(1) r1_def[symmetric] K2_def[symmetric] len_def[symmetric] r'_def ..
  qed
  have W: "?W ^ (b div 64) * 2 ^ (b mod 64) = 2 ^ b" unfolding power_mult[symmetric] power_add[symmetric] by simp
  have r1b: "mp_val r1 < 2 ^ b" unfolding r1 by simp
  have K2: "mp_val K2 = mp_val r1 * 2 ^ (b mod 64)"
  proof -
    have "mp_val r1 * 2 ^ (b mod 64) < 2 ^ b * 2 ^ (b mod 64)" using r1b by simp
    also have "\<dots> \<le> ?W ^ Bw" unfolding power_mult[symmetric] power_add[symmetric] using sizes(5) by (intro power_increasing) simp_all
    finally show ?thesis unfolding K2_def mp_val_lshift_fixed_into base_64 by (rule mod_less)
  qed
  define Y where "Y = R + 2 ^ b * mp_val r1"
  have Y: "Y < 2 ^ (2 * b)"
  proof -
    have "Y < 2 ^ b + 2 ^ b * mp_val r1" using r(1) by (simp add: Y_def X_R_def)
    also have "\<dots> = 2 ^ b * (1 + mp_val r1)" by simp
    also have "\<dots> \<le> 2 ^ b * 2 ^ b" using r1b by (intro mult_le_mono2) simp
    also have "\<dots> = 2 ^ (2 * b)" by (simp flip: power_add add: mult_2)
    finally show ?thesis .
  qed
  define k where "k = b div 64 + len"
  have rk: "R < ?W ^ k"
  proof -
    have "R < ?W ^ length r" using mp_val_less[of r] unfolding base_64 X_R_def .
    moreover have "2 ^ b \<le> ?W ^ B2w" unfolding power_mult[symmetric] using sizes(4) by (intro power_increasing) simp_all
    ultimately show ?thesis using r(1) unfolding k_def lr X_R_def by (simp add: min_def)
  qed
  have val: "mp_val r' = Y mod ?W ^ k"
  proof -
    have kr: "k \<le> length r" unfolding k_def lr by simp
    then have tk: "length (take k r) = k" "b div 64 \<le> length (take k r)" unfolding k_def by simp_all
    have al: "mp_make_alias r (b div 64) (B2w - b div 64) = drop (b div 64) (take k r)"
    proof -
      have "take (B2w - b div 64) (drop (b div 64) r) = take len (drop (b div 64) r)"
        unfolding len_def mp_make_alias_def by (simp add: min_def)
      then show ?thesis by (simp add: mp_make_alias_def k_def drop_take)
    qed
    have r': "r' = add_at (b div 64) (take k r) K2 @ drop k r"
      unfolding r'_def al add_at_def tk(1) unfolding k_def by simp
    have "mp_val (drop k r) = 0" using rk unfolding mp_val_drop base_64 X_R_def by simp
    moreover have "mp_val (take k r) = R" using rk unfolding mp_val_take base_64 X_R_def by simp
    ultimately have "mp_val r' = (R + ?W ^ (b div 64) * mp_val K2) mod ?W ^ k"
      unfolding r' mp_val_append mp_val_add_at[OF tk(2)] base_64 tk(1) by simp
    also have "?W ^ (b div 64) * mp_val K2 = 2 ^ b * mp_val r1" unfolding K2 W[symmetric] by simp
    finally show ?thesis unfolding Y_def .
  qed
  have ee: "Y mod ?W ^ k = Y mod 2 ^ e"
  proof (cases "B2w \<le> length r")
    case True
    then have "e = 2 * b" "k = B2w" unfolding e_def k_def lr using sizes(4) by simp_all
    moreover have "(2 :: nat) ^ (2 * b) \<le> ?W ^ B2w" unfolding power_mult[symmetric] using sizes(4) by (intro power_increasing) simp_all
    ultimately show ?thesis using Y by simp
  next
    case False
    then have "e = 64 * length r" "k = length r" unfolding e_def k_def lr using sizes(7) by simp_all
    then show ?thesis by (simp only: power_mult)
  qed
  have "0 < e" using b(1,2) by (cases r) (simp_all add: e_def)
  have "(2 :: int) ^ e dvd 2 ^ (2 * b)" by (intro le_imp_power_dvd) (simp add: e_def)
  also have "(2 :: int) ^ (2 * b) = int (2 ^ b) * int (2 ^ b)" by (simp flip: power_add add: mult_2)
  also have "\<dots> dvd int (X * Y) - 1" using fin unfolding Y_def by simp
  finally have "int (X * Y) mod 2 ^ e = 1 mod 2 ^ e" by (simp only: mod_eq_dvd_iff)
  then have "int (X * Y mod 2 ^ e) = int 1" using \<open>0 < e\<close> by (simp add: zmod_int)
  then have "X * Y mod 2 ^ e = 1" by (simp only: of_nat_eq_iff)
  then have "X * mp_val r' mod 2 ^ e = 1" unfolding val ee by (simp add: mod_mult_right_eq)
  moreover have "length r' = length r"
    using lr sizes(9) by (simp add: r'_def len_def[symmetric])
  moreover have "mp_val r' < 2 ^ e" unfolding val ee by simp
  ultimately show ?thesis using code unfolding X_R_def by blast
qed

lemma invert_loop_value:
  fixes x r :: "u64 list"
  assumes "p \<le> 64 * length r" "mp_mul_scratchspace_unary (length r) \<le> pool" "6 * length r \<le> space"
    and "mp_val r < 2 ^ min (2 ^ i) (64 * length r)" "mp_val x * mp_val r mod 2 ^ min (2 ^ i) (64 * length r) = 1"
  shows "\<exists>r' e. invert_loop x p space pool (2 ^ i) r = Some r' \<and> length r' = length r \<and> p \<le> e \<and> mp_val x * mp_val r' mod 2 ^ e = 1"
  using assms
proof (induction "p - 2 ^ i" arbitrary: i r rule: less_induct)
  case less
  show ?case
  proof (cases "2 ^ i < p")
    case False
    then have "invert_loop x p space pool (2 ^ i) r = Some r" by (subst invert_loop.simps) simp
    moreover have "p \<le> min (2 ^ i) (64 * length r)" using False less.prems(1) by simp
    ultimately show ?thesis using less.prems(5) by blast
  next
    case True
    then have lt: "2 ^ i < 64 * length r" using less.prems(1) by simp
    have "(2 :: nat) ^ i mod 64 = 0 \<or> 2 * 2 ^ i \<le> (64 :: nat)"
    proof (cases "i < 6")
      case True
      then have "(2 :: nat) ^ Suc i \<le> 2 ^ 6" by (intro power_increasing) simp_all
      then show ?thesis by simp
    next
      case False
      then have "(2 :: nat) ^ 6 dvd 2 ^ i" by (intro le_imp_power_dvd) simp
      then show ?thesis by simp
    qed
    from invert_step_value[OF _ lt this _ _ less.prems(2,3), of x] less.prems(4,5) lt
    obtain r' where r': "invert_step x space pool (2 ^ i) r = Some r'" "length r' = length r"
      "mp_val r' < 2 ^ min (2 ^ Suc i) (64 * length r)" "mp_val x * mp_val r' mod 2 ^ min (2 ^ Suc i) (64 * length r) = 1"
      by (auto simp: min_absorb1)
    have "(0 :: nat) < 2 ^ i" by simp
    then have "p - 2 ^ Suc i < p - 2 ^ i" using True unfolding power_Suc by linarith
    from less.hyps[OF this, of r'] less.prems(1-3) r' True show ?thesis
      by (subst invert_loop.simps) simp
  qed
qed

lemma even_mp_val: "x \<noteq> [] \<Longrightarrow> even (mp_val x) \<longleftrightarrow> even (x ! 0)" for x :: "u64 list"
proof (cases x)
  case (Cons u us)
  have "even (unat u) \<longleftrightarrow> even u"
    using bit_unsigned_iff[of u 0, where ?'a = nat] by (simp add: bit_0)
  then show ?thesis using Cons by simp
qed simp

lemma invert_value:
  fixes x :: "u64 list"
  assumes "odd (mp_val x)" "0 < p"
  obtains r where "mp_invert_mod_2to x p = Some r" "length r = max ((p + 63) div 64) 1" "mp_val r < 2 ^ p"
    "mp_val x * mp_val r mod 2 ^ p = 1"
proof -
  define rw where "rw = max ((p + 63) div 64) 1"
  define r0 :: "u64 list" where "r0 = (replicate rw 0)[0 := 1]"
  have rw: "p \<le> 64 * rw" "0 < rw" unfolding rw_def by linarith+
  have ne: "x \<noteq> []" using assms(1) by auto
  obtain k where k: "rw = Suc k" using rw(2) gr0_conv_Suc by blast
  have r0: "length r0 = rw" "mp_val r0 = 1" unfolding r0_def k by simp_all
  have m: "min (2 ^ 0) (64 * rw) = 1" using rw(2) by simp
  define pool where "pool = mp_mul_scratchspace (2 * rw) rw rw"
  have pool: "mp_mul_scratchspace_unary rw \<le> pool" by (simp add: pool_def mp_mul_scratchspace_def)
  have inv: "mp_val x * mp_val r0 mod 2 ^ min (2 ^ 0) (64 * length r0) = 1"
    unfolding r0 m using assms(1) by (simp add: odd_iff_mod_2_eq_one)
  have "mp_val r0 < 2 ^ min (2 ^ 0) (64 * length r0)" unfolding r0 m by simp
  from invert_loop_value[OF rw(1)[folded r0(1)] pool[folded r0(1)] le_refl this inv]
  obtain r e where r: "invert_loop x p (6 * rw) pool 1 r0 = Some r" "length r = rw" "p \<le> e" "mp_val x * mp_val r mod 2 ^ e = 1"
    unfolding r0(1) power_0 by blast
  define r' where "r' = mp_reduce_mod_2to r p"
  have B: "(p + 64 - 1) div 64 = (p + 63) div 64" by simp
  have "mp_alloc_from_scratch (6 * rw + pool) pool = Some (6 * rw)" by (simp add: mp_alloc_from_scratch_def)
  then have "mp_invert_mod_2to x p = Some r'"
    using ne assms rw(2) even_mp_val[OF ne] r(1)
    unfolding mp_invert_mod_2to_def Let_def B rw_def[symmetric] pool_def[symmetric] r0_def r'_def by simp
  moreover have "length r' = rw" "mp_val r' < 2 ^ p" using r(2) by (simp_all add: r'_def mp_val_reduce_mod_2to)  (simp add: mp_reduce_mod_2to_def Let_def)
  moreover have "mp_val x * mp_val r' mod 2 ^ p = 1"
  proof -
    have "mp_val x * mp_val r' mod 2 ^ p = mp_val x * mp_val r mod 2 ^ p" by (simp add: r'_def mp_val_reduce_mod_2to mod_mult_right_eq)
    also have "\<dots> = mp_val x * mp_val r mod 2 ^ e mod 2 ^ p" by (rule mod_mod_cancel[symmetric]) (rule le_imp_power_dvd[OF r(3)])
    also have "\<dots> = 1" unfolding r(4) using assms(2) by simp
    finally show ?thesis .
  qed
  ultimately show ?thesis using that unfolding rw_def by blast
qed

section \<open>Montgomery reduction reduces\<close>

abbreviation (input) radix :: "nat \<Rightarrow> nat" where "radix n \<equiv> (2 ^ 64) ^ n"

definition monty_ok :: "monty_context \<Rightarrow> bool" where
  "monty_ok mc \<longleftrightarrow>
     odd (mp_val (mc_m mc)) \<and> mc_rw mc = length (mc_m mc) \<and> mc_rbits mc = mc_rw mc * 64 \<and> mc_pw mc = mc_rw mc * 2 + 1 \<and>
     length (minus_minv_mod_r mc) = mc_rw mc \<and>
     (mp_val (minus_minv_mod_r mc) * mp_val (mc_m mc) + 1) mod radix (mc_rw mc) = 0 \<and>
     mc_scratch mc = monty_scratch_size (mc_rw mc) (mc_pw mc) \<and>
     length (powers_of_r_mod_m mc) = 3 \<and>
     (\<forall>j<3. length (powers_of_r_mod_m mc ! j) = mc_rw mc \<and>
       mp_val (powers_of_r_mod_m mc ! j) = radix (mc_rw mc) ^ (j + 1) mod mp_val (mc_m mc))"

lemma radix_double: "radix (n * 2 + 1) = 2 ^ 64 * (radix n * radix n)"
  by (simp only: power_add mult_2_right power_one_right mult_ac)

lemma clears_low:
  fixes X l y m R :: nat
  assumes "l mod R = X mod R" "(y * m + 1) mod R = 0"
  shows "(X + m * (l * y mod R)) mod R = 0"
proof -
  have "m * (l * y mod R) mod R = m * (l * y) mod R" by (rule mod_mult_right_eq)
  also have "m * (l * y) = l * (y * m)" by (simp only: mult_ac)
  also have "l * (y * m) mod R = (l mod R) * (y * m) mod R" by (rule mod_mult_left_eq[symmetric])
  also have "\<dots> = X * (y * m) mod R" unfolding assms(1) by (rule mod_mult_left_eq)
  finally have "(X + m * (l * y mod R)) mod R = (X + X * (y * m)) mod R" by (metis mod_add_right_eq)
  also have "X + X * (y * m) = X * (y * m + 1)" by simp
  also have "\<dots> mod R = X * ((y * m + 1) mod R) mod R" by (rule mod_mult_right_eq[symmetric])
  finally show ?thesis unfolding assms(2) by simp
qed

lemma monty_reduce_value:
  assumes "monty_ok mc" "mp_val x < mp_val (mc_m mc) * radix (mc_rw mc)" "mc_rw mc + mc_pw mc + 6 * mc_rw mc \<le> space"
  obtains t where "monty_reduce_internal mc x space = Some t" "length t = mc_rw mc + 1" "mp_val t < mp_val (mc_m mc)"
    "mp_val t * radix (mc_rw mc) mod mp_val (mc_m mc) = mp_val x mod mp_val (mc_m mc)"
proof -
  define n m X R where "n = mc_rw mc" "m = mp_val (mc_m mc)" "X = mp_val x" "R = radix n"
  note defs = this
  have "n = length (mc_m mc)" using assms(1) unfolding monty_ok_def defs by blast
  then have ok2: "length (mc_m mc) = n" ..
  have ok': "odd m" "mc_rbits mc = n * 64" "mc_pw mc = n * 2 + 1" "length (minus_minv_mod_r mc) = n"
    "(mp_val (minus_minv_mod_r mc) * m + 1) mod R = 0"
    using assms(1) unfolding monty_ok_def defs by blast+
  note ok = ok'(1) ok2 ok'(2-5)
  have m: "0 < m" "m < R" using ok(1) mp_val_less[of "mc_m mc"] unfolding base_64 ok(2) defs by (auto intro: Nat.gr0I)
  define lo where "lo = mp_make_alias x 0 (n * 64)"
  have lo: "mp_val lo mod R = X mod R"
  proof -
    have "R dvd radix (n * 64)" unfolding defs power_mult[symmetric] by (intro le_imp_power_dvd) simp
    then show ?thesis unfolding lo_def mp_val_alias base_64 defs(3) by (simp add: mod_mod_cancel)
  qed
  define s1 s2 where "s1 = space - n" "s2 = s1 - (n * 2 + 1)"
  have alloc: "mp_alloc_from_scratch space n = Some s1" "mp_alloc_from_scratch s1 (n * 2 + 1) = Some s2"
    using assms(3) by (simp_all add: mp_alloc_from_scratch_def s1_s2_def defs ok(4)[unfolded defs])
  have room: "mp_mul_scratchspace_unary n \<le> s1" "mp_mul_scratchspace_unary n \<le> s2"
    using assms(3) by (simp_all add: s1_s2_def defs ok(4)[unfolded defs] mp_mul_scratchspace_unary_def)
  have "mp_mul_scratchspace_unary (min n (max (length lo) (length (minus_minv_mod_r mc)))) \<le> s1"
    using room(1) by (simp add: mp_mul_scratchspace_unary_def)
  then obtain k where k: "mp_mul_internal n lo (minus_minv_mod_r mc) s1 = Some k" "length k = n"
    "mp_val k = mp_val lo * mp_val (minus_minv_mod_r mc) mod R"
    by (rule product_okE[OF mul_internal_ok]) (unfold base_64 defs(4)[symmetric], blast)
  have kR: "mp_val k < R" unfolding k(3) using m by simp
  have mkR: "m * mp_val k < radix (n * 2 + 1)"
  proof -
    have "m * mp_val k < R * R" using m(2) kR m(1) by (intro mult_strict_mono) simp_all
    also have "\<dots> \<le> 2 ^ 64 * (R * R)" by simp
    also have "\<dots> = radix (n * 2 + 1)" unfolding radix_double defs(4) ..
    finally show ?thesis .
  qed
  obtain mk where mk: "mp_mul_internal (n * 2 + 1) (mc_m mc) k s2 = Some mk" "mp_val mk = m * mp_val k"
  proof -
    have "length (mc_m mc) \<le> n" "length k \<le> n" using ok(2) k(2) by simp_all
    from mul_internal_mod[OF this room(2), of "n * 2 + 1"] show ?thesis
      using that mkR unfolding base_64 defs(2)[symmetric] by (metis mod_less)
  qed
  define sum where "sum = X + m * mp_val k"
  have "m * mp_val k < m * R" using kR m by simp
  then have "sum < 2 * (m * R)" using assms(2) unfolding sum_def defs by linarith
  then have sum: "sum < 2 * m * R" by simp
  have sumR: "sum < radix (n * 2 + 1)"
  proof -
    have "2 * m * R \<le> 2 * R * R" by (intro mult_le_mono1 mult_le_mono2 less_imp_le m(2))
    also have "\<dots> = 2 * (R * R)" by simp
    also have "\<dots> \<le> 2 ^ 64 * (R * R)" by (rule mult_le_mono1) simp
    also have "\<dots> = radix (n * 2 + 1)" unfolding radix_double defs(4) ..
    finally show ?thesis by (rule less_le_trans[OF sum])
  qed
  define big where "big = mp_add_into (n * 2 + 1) x mk"
  have big: "length big = n * 2 + 1" "mp_val big = sum"
    unfolding big_def mp_val_add_into base_64 mk(2) using sumR by (simp_all add: sum_def defs(3))
  have R0: "sum mod R = 0" unfolding sum_def k(3) by (rule clears_low[OF lo ok(6)])
  define q where "q = sum div R"
  have q: "sum = q * R" "q < 2 * m"
  proof -
    show "sum = q * R" unfolding q_def using R0 by (metis add.right_neutral div_mult_mod_eq)
    then show "q < 2 * m" using sum m(2) by simp
  qed
  define t0 where "t0 = mp_make_alias big n (length big - n)"
  have t0: "length t0 = n + 1" "mp_val t0 = q"
  proof -
    show "length t0 = n + 1" by (simp add: t0_def length_alias big(1))
    have "q < radix (n + 1)"
    proof -
      have "2 * m \<le> 2 ^ 64 * R" using m(2) by simp
      then show ?thesis using q(2) unfolding defs by simp
    qed
    then show "mp_val t0 = q" unfolding t0_def mp_val_alias base_64 big q_def[symmetric] defs(4)[symmetric] by simp
  qed
  define t where "t = mp_cond_sub_into (length t0) t0 (mc_m mc) (unat (mp_cmp_hs t0 (mc_m mc)))"
  have tv: "mp_val t = (if m \<le> q then q - m else q)"
  proof -
    have c: "unat (mp_cmp_hs t0 (mc_m mc)) = (if m \<le> q then 1 else 0)" using mp_cmp_hs_iff[of t0 "mc_m mc"] t0(2) by (simp add: defs)
    have lt: "q < radix (n + 1)" using mp_val_less[of t0] unfolding base_64 t0 .
    have "int (mp_val t) = int (if m \<le> q then q - m else q)"
    proof (cases "m \<le> q")
      case True
      have "int (mp_val t) = (int q - int m) mod int (radix (n + 1))"
        unfolding t_def mp_val_cond_sub_into c base_64 t0 using True by (simp add: defs)
      also have "\<dots> = int (q - m)"
        unfolding of_nat_diff[OF True, symmetric] zmod_int[symmetric] using lt by simp
      finally show ?thesis using True by simp
    next
      case False
      have "int (mp_val t) = int q mod int (radix (n + 1))"
        unfolding t_def mp_val_cond_sub_into c base_64 t0 using False by simp
      also have "\<dots> = int q" unfolding zmod_int[symmetric] using lt by simp
      finally show ?thesis using False by simp
    qed
    then show ?thesis by (simp only: of_nat_eq_iff)
  qed
  have code: "monty_reduce_internal mc x space = Some t"
    unfolding monty_reduce_internal_def ok(3,4) defs(1)[symmetric] Let_def lo_def[symmetric] alloc Option.bind.simps k(1) mk(1)
      big_def[symmetric] t0_def[symmetric] t_def ..
  have "mp_val t < m" unfolding tv using q(2) by auto
  moreover have "mp_val t * R mod m = X mod m"
  proof -
    have "mp_val t * R mod m = q * R mod m"
    proof (cases "m \<le> q")
      case True
      then have "q * R = (q - m) * R + m * R" by (simp flip: add_mult_distrib)
      then show ?thesis unfolding tv using True by simp
    qed (simp add: tv)
    also have "\<dots> = X mod m" unfolding q(1)[symmetric] sum_def by simp
    finally show ?thesis .
  qed
  ultimately show ?thesis using that[OF code] t0(1) unfolding defs by (simp add: t_def)
qed

section \<open>Contexts, products and powers\<close>

lemma negated_inverse:
  fixes v v' M R :: nat
  assumes "int v' = (- int v) mod int R" "M * v mod R = 1"
  shows "(v' * M + 1) mod R = 0"
proof -
  have "int R dvd int v' - - int v" unfolding assms(1) by (metis mod_eq_dvd_iff mod_mod_trivial)
  then have "int R dvd (int v' + int v) * int M" by (intro dvd_mult2) simp
  moreover have "int R dvd int (M * v) - 1"
  proof -
    have "M * v = R * (M * v div R) + 1" using mult_div_mod_eq[of R "M * v"] assms(2) by simp
    then have "int (M * v) - 1 = int R * int (M * v div R)" by (metis add_diff_cancel_right' of_nat_1 of_nat_add of_nat_mult)
    then show ?thesis by (rule dvdI)
  qed
  ultimately have "int R dvd (int v' + int v) * int M - (int (M * v) - 1)" by (rule dvd_diff)
  also have "(int v' + int v) * int M - (int (M * v) - 1) = int (v' * M + 1)" by (simp add: algebra_simps)
  finally show ?thesis by (simp only: of_nat_dvd_iff dvd_imp_mod_0)
qed

lemma residue_powers:
  fixes r m :: nat
  shows "(r mod m) * (r mod m) mod m = r ^ 2 mod m" "(r mod m) * ((r mod m) * (r mod m) mod m) mod m = r ^ 3 mod m"
proof -
  show 2: "(r mod m) * (r mod m) mod m = r ^ 2 mod m" by (simp add: mod_mult_eq power2_eq_square)
  have "(r mod m) * (r ^ 2 mod m) mod m = r * r ^ 2 mod m" by (rule mod_mult_eq)
  then show "(r mod m) * ((r mod m) * (r mod m) mod m) mod m = r ^ 3 mod m" unfolding 2 by (simp only: power3_eq_cube power2_eq_square mult.assoc)
qed

lemma monty_new_value:
  fixes m :: "u64 list"
  assumes "odd (mp_val m)" "length m < 2 ^ 54"
  obtains mc where "monty_new m = Some mc" "monty_ok mc" "mc_m mc = m"
proof -
  define n M where "n = length m" "M = mp_val m"
  have ne: "0 < n" using assms(1) by (cases m) (auto simp: n_M_def)
  have M0: "mp_val m \<noteq> 0" using odd_pos[OF assms(1)] by simp
  obtain v where v: "mp_invert_mod_2to m (n * 64) = Some v" "length v = max ((n * 64 + 63) div 64) 1" "mp_val v < 2 ^ (n * 64)"
    "M * mp_val v mod 2 ^ (n * 64) = 1"
    using invert_value[OF assms(1), of "n * 64"] ne unfolding n_M_def(2) by auto
  have lv: "length v = n" using v(2) ne by simp
  define v' where "v' = mp_neg_into n v"
  have lv': "length v' = n" by (simp add: v'_def mp_neg_into_def)
  have R: "radix n = 2 ^ (n * 64)" unfolding power_mult[symmetric] by (simp only: mult.commute)
  have inv: "(mp_val v' * M + 1) mod radix n = 0"
  proof (rule negated_inverse)
    show "int (mp_val v') = (- int (mp_val v)) mod int (radix n)"
      unfolding v'_def mp_neg_into_def mp_val_sub_into base_64 by simp
    show "M * mp_val v mod radix n = 1" unfolding R by (rule v(4))
  qed
  define r :: "u64 list" where "r = (replicate (n + 1) 0)[n := 1]"
  have r: "length r = n + 1" "mp_val r = radix n" "r \<noteq> []"
  proof -
    have "replicate (n + 1) 0 = replicate n 0 @ [0 :: u64]" by (simp add: replicate_append_same)
    then have "r = replicate n 0 @ [1]" by (simp only: r_def) (simp add: list_update_append)
    then show "length r = n + 1" "mp_val r = radix n" "r \<noteq> []" by (simp_all add: mp_val_append)
  qed
  have l: "length r + length m < 2 ^ 56" "length m + length m + length m < 2 ^ 56" using assms(2) r(1) by (simp_all add: n_M_def)
  obtain p0 where p0: "mp_mod r m = Some p0" "length p0 = n" "mp_val p0 = radix n mod M"
    using mod_value[OF M0 r(3) l(1)] unfolding r(2) n_M_def by metis
  have q0: "p0 \<noteq> []" "length p0 + length p0 + length m < 2 ^ 56" using p0(2) ne l(2) by (auto simp: n_M_def)
  obtain p1 where p1: "mp_modmul p0 p0 m = Some p1" "length p1 = n" "mp_val p1 = mp_val p0 * mp_val p0 mod M"
    using modmul_value[OF M0 q0] unfolding n_M_def by metis
  have q1: "length p0 + length p1 + length m < 2 ^ 56" using p0(2) p1(2) l(2) by (simp add: n_M_def)
  obtain p2 where p2: "mp_modmul p0 p1 m = Some p2" "length p2 = n" "mp_val p2 = mp_val p0 * mp_val p1 mod M"
    using modmul_value[OF M0 q0(1) q1] unfolding n_M_def by metis
  have sc: "0 < monty_scratch_size n (n * 2 + 1)" by (simp add: monty_scratch_size_def)
  define mc where "mc = \<lparr>mc_m = m, mc_rbits = n * 64, mc_rw = n, mc_pw = n * 2 + 1, minus_minv_mod_r = v',
    powers_of_r_mod_m = [p0, p1, p2], mc_scratch = monty_scratch_size n (n * 2 + 1)\<rparr>"
  have n1: "0 < n + 1" by simp
  have code: "monty_new m = Some mc"
    unfolding monty_new_def Let_def n_M_def(1)[symmetric] v(1) Option.bind.simps lv v'_def[symmetric] make_sized_pos[OF n1]
      r_def[symmetric] p0(1) p1(1) p2(1) make_sized_pos[OF sc] length_replicate mc_def ..
  have pows: "mp_val p1 = radix n ^ 2 mod M" "mp_val p2 = radix n ^ 3 mod M"
    unfolding p2(3) p1(3) p0(3) by (rule residue_powers)+
  have "monty_ok mc"
    unfolding monty_ok_def mc_def
    using assms(1) inv lv' p0 p1(2) p2(2) pows
    by (auto simp: n_M_def less_Suc_eq numeral_3_eq_3 numeral_2_eq_2)
  then show ?thesis using that code by (simp add: mc_def)
qed

text \<open>Powers of two can be cancelled modulo an odd number.\<close>

lemma cancel_radix:
  fixes s t m :: nat
  assumes "odd m" "s * radix n mod m = t * radix n mod m"
  shows "s mod m = t mod m"
proof -
  have "int (s * radix n) mod int m = int (t * radix n) mod int m" using assms(2) by (simp only: zmod_int[symmetric])
  then have "int m dvd int (s * radix n) - int (t * radix n)" by (simp only: mod_eq_dvd_iff)
  also have "int (s * radix n) - int (t * radix n) = (int s - int t) * int (radix n)" by (simp add: algebra_simps)
  finally have d: "int m dvd (int s - int t) * int (radix n)" .
  have "coprime (int m) (int (radix n))"
    unfolding power_mult[symmetric] of_nat_power using assms(1) by (simp add: coprime_commute)
  then have "int m dvd int s - int t" using d by (simp only: coprime_dvd_mult_left_iff)
  then have "int s mod int m = int t mod int m" by (simp only: mod_eq_dvd_iff)
  then show ?thesis by (simp only: zmod_int[symmetric] of_nat_eq_iff)
qed

lemma radix_square: "radix n * radix n = 2 ^ (64 * (2 * n))"
proof -
  have "64 * (2 * n) = 64 * n + 64 * n" by linarith
  then show ?thesis by (simp only: power_add power_mult)
qed

text \<open>\<open>x\<close> stands for \<open>a\<close> in Montgomery's representation.\<close>

definition rep :: "monty_context \<Rightarrow> nat \<Rightarrow> u64 list \<Rightarrow> bool" where
  "rep mc a x \<longleftrightarrow> length x = mc_rw mc \<and> mp_val x = a * radix (mc_rw mc) mod mp_val (mc_m mc)"

lemma monty_okD:
  assumes "monty_ok mc"
  shows "odd (mp_val (mc_m mc))" "mc_rw mc = length (mc_m mc)" "0 < mc_rw mc" "0 < mp_val (mc_m mc)"
    "mp_val (mc_m mc) < radix (mc_rw mc)" "mc_rw mc + mc_pw mc + 6 * mc_rw mc \<le> mc_scratch mc - 2 * mc_rw mc"
    "2 * mc_rw mc \<le> mc_scratch mc" "rep mc 1 (powers_of_r_mod_m mc ! 0)"
proof -
  show o: "odd (mp_val (mc_m mc))" and l: "mc_rw mc = length (mc_m mc)" using assms unfolding monty_ok_def by blast+
  show "0 < mp_val (mc_m mc)" by (rule odd_pos[OF o])
  show n: "0 < mc_rw mc" unfolding l using o by (cases "mc_m mc") simp_all
  show "mp_val (mc_m mc) < radix (mc_rw mc)" using mp_val_less[of "mc_m mc"] unfolding base_64 l .
  have s: "mc_scratch mc = 3 * mc_rw mc + mc_pw mc + 6 * mc_rw mc"
    using assms unfolding monty_ok_def monty_scratch_size_def mp_mul_scratchspace_def mp_mul_scratchspace_unary_def by simp
  then show "mc_rw mc + mc_pw mc + 6 * mc_rw mc \<le> mc_scratch mc - 2 * mc_rw mc" "2 * mc_rw mc \<le> mc_scratch mc" by simp_all
  have "length (powers_of_r_mod_m mc ! 0) = mc_rw mc \<and>
      mp_val (powers_of_r_mod_m mc ! 0) = radix (mc_rw mc) ^ (0 + 1) mod mp_val (mc_m mc)"
    using assms unfolding monty_ok_def by (metis zero_less_numeral)
  then show "rep mc 1 (powers_of_r_mod_m mc ! 0)" unfolding rep_def by (simp only: add_0 power_one_right mult_1)
qed

text \<open>Reduction of a product of representations is the representation of the product.\<close>

lemma reduce_product:
  assumes "monty_ok mc" "rep mc a x" "rep mc b y" "mp_val tmp = mp_val x * mp_val y" "mc_rw mc + mc_pw mc + 6 * mc_rw mc \<le> space"
  obtains t where "monty_reduce_internal mc tmp space = Some t" "length t = mc_rw mc + 1"
    "mp_val t = a * b * radix (mc_rw mc) mod mp_val (mc_m mc)"
proof -
  define m R where "m = mp_val (mc_m mc)" "R = radix (mc_rw mc)"
  note ok = monty_okD(1,4,5)[OF assms(1), folded m_R_def]
  have x: "mp_val x = a * R mod m" "mp_val y = b * R mod m" using assms(2,3) by (simp_all only: rep_def m_R_def)
  have "mp_val tmp < m * R"
  proof -
    have "mp_val x * mp_val y < m * m" unfolding x using ok(2) by (intro mult_strict_mono) simp_all
    also have "\<dots> \<le> m * R" using ok(3) by simp
    finally show ?thesis unfolding assms(4) .
  qed
  then obtain t where t: "monty_reduce_internal mc tmp space = Some t" "length t = mc_rw mc + 1" "mp_val t < m"
    "mp_val t * R mod m = mp_val tmp mod m"
    using monty_reduce_value[OF assms(1) _ assms(5)] unfolding m_R_def by metis
  have "mp_val tmp mod m = (a * R) * (b * R) mod m" unfolding assms(4) x by (rule mod_mult_eq)
  also have "(a * R) * (b * R) = (a * b * R) * R" by (simp only: mult_ac)
  finally have "mp_val t * R mod m = (a * b * R) * R mod m" using t(4) by simp
  from cancel_radix[OF ok(1) this[unfolded m_R_def(2)]] have "mp_val t = a * b * R mod m" using t(3) by (simp add: m_R_def)
  then show ?thesis using that t unfolding m_R_def by blast
qed

text \<open>A product in the loop: a number of twice the size, of which the low half is the representation.\<close>

lemma loop_product:
  assumes "monty_ok mc" "rep mc a x" "rep mc b y"
  obtains tmp t where "mp_mul_into (mc_rw mc * 2) x y = Some tmp" "monty_reduce mc tmp = Some t" "rep mc (a * b) (words_at t 0 (mc_rw mc))"
proof -
  define n where "n = mc_rw mc"
  note ok = monty_okD[OF assms(1), folded n_def]
  have l: "length x = n" "length y = n" using assms(2,3) by (simp_all add: rep_def n_def)
  have nz: "0 < n * 2" "x \<noteq> [] \<or> y \<noteq> []" using ok(3) l by auto
  obtain tmp where tmp: "mp_mul_into (n * 2) x y = Some tmp" "length tmp = n * 2" "mp_val tmp = mp_val x * mp_val y mod 2 ^ (64 * (n * 2))"
    using mp_mul_into_value[OF nz] by auto
  have "mp_val x * mp_val y < radix n * radix n"
    using mp_val_less[of x] mp_val_less[of y] unfolding base_64 l by (intro mult_strict_mono) simp_all
  also have "\<dots> = 2 ^ (64 * (n * 2))" unfolding power_mult power_add[symmetric] mult_2_right by (simp only: power2_eq_square[symmetric] power_mult power_add)
  finally have v: "mp_val tmp = mp_val x * mp_val y" unfolding tmp(3) by (rule mod_less)
  have "mc_rw mc + mc_pw mc + 6 * mc_rw mc \<le> mc_scratch mc" using ok(6) by (simp add: n_def)
  from reduce_product[OF assms v this] obtain t where t: "monty_reduce_internal mc tmp (mc_scratch mc) = Some t"
    "mp_val t = a * b * radix n mod mp_val (mc_m mc)" unfolding n_def by metis
  define t' where "t' = mp_copy_into (length tmp) t"
  have lt: "mp_val t < radix n" unfolding t(2) using mod_less_divisor[OF ok(4)] ok(5) by (rule less_trans)
  then have lt2: "mp_val t < radix (n * 2)" by (rule less_le_trans) (intro power_increasing; simp)
  have "mp_val t' = mp_val t" unfolding t'_def mp_val_copy_into base_64 tmp(2) by (rule mod_less[OF lt2])
  then have "mp_val (words_at t' 0 n) = mp_val t" unfolding mp_val_words_at base_64 power_0 div_by_1 using lt by simp
  then have "rep mc (a * b) (words_at t' 0 n)" unfolding rep_def n_def[symmetric] t(2) by simp
  moreover have "monty_reduce mc tmp = Some t'" by (simp add: monty_reduce_def t(1) t'_def)
  ultimately show ?thesis using that tmp(1) unfolding n_def by blast
qed

lemma pow_loop_value:
  assumes "monty_ok mc" "rep mc (b ^ (mp_val e mod 2 ^ i)) out" "rep mc (b ^ 2 ^ i) square"
  shows "\<exists>r. pow_loop mc e i out square = Some r \<and> rep mc (b ^ mp_val e) r"
  using assms(2,3)
proof (induction "length e * 64 - i" arbitrary: i out square rule: less_induct)
  case less
  define E where "E = mp_val e"
  obtain tmp t where t: "mp_mul_into (mc_rw mc * 2) out square = Some tmp" "monty_reduce mc tmp = Some t"
    "rep mc (b ^ (E mod 2 ^ i) * b ^ 2 ^ i) (words_at t 0 (mc_rw mc))"
    using loop_product[OF assms(1) less.prems] unfolding E_def by metis
  define out' where "out' = mp_select_into (length out) out t (mp_get_bit e i)"
  have split: "E mod 2 ^ Suc i = 2 ^ i * (E div 2 ^ i mod 2) + E mod 2 ^ i"
    using mod_mult2_eq[of E "2 ^ i" 2] by (simp only: power_Suc mult.commute)
  have lo: "length out = mc_rw mc" using less.prems(1) by (simp add: rep_def)
  have out': "rep mc (b ^ (E mod 2 ^ Suc i)) out'"
  proof (cases "odd (E div 2 ^ i)")
    case True
    then have "out' = words_at t 0 (mc_rw mc)" unfolding out'_def mp_select_into_eq mp_get_bit_val E_def[symmetric] lo by simp
    moreover have "b ^ (E mod 2 ^ Suc i) = b ^ (E mod 2 ^ i) * b ^ 2 ^ i" unfolding split using True by (simp add: power_add odd_iff_mod_2_eq_one)
    ultimately show ?thesis using t(3) by simp
  next
    case False
    then have "out' = words_at out 0 (mc_rw mc)" unfolding out'_def mp_select_into_eq mp_get_bit_val E_def[symmetric] lo by simp
    then have "out' = out" by (simp add: words_at_eq lo)
    moreover have "E mod 2 ^ Suc i = E mod 2 ^ i" unfolding split using False by (simp add: even_iff_mod_2_eq_zero)
    ultimately show ?thesis using less.prems(1) unfolding E_def by simp
  qed
  show ?case
  proof (cases "length e * 64 \<le> i + 1")
    case True
    have "E < 2 ^ Suc i"
    proof -
      have "E < radix (length e)" using mp_val_less[of e] unfolding base_64 E_def .
      also have "\<dots> \<le> 2 ^ Suc i" unfolding power_mult[symmetric] using True by (intro power_increasing) simp_all
      finally show ?thesis .
    qed
    then have "rep mc (b ^ E) out'" using out' by simp
    moreover have "pow_loop mc e i out square = Some out'"
      using True t(1,2) by (subst pow_loop.simps) (simp add: out'_def)
    ultimately show ?thesis unfolding E_def by blast
  next
    case False
    obtain tmp2 t2 where t2: "mp_mul_into (mc_rw mc * 2) square square = Some tmp2" "monty_reduce mc tmp2 = Some t2"
      "rep mc (b ^ 2 ^ i * b ^ 2 ^ i) (words_at t2 0 (mc_rw mc))"
      using loop_product[OF assms(1) less.prems(2) less.prems(2)] .
    have ls: "length square = mc_rw mc" using less.prems(2) by (simp add: rep_def)
    define square' where "square' = mp_copy_into (length square) t2"
    have "b ^ 2 ^ i * b ^ 2 ^ i = b ^ 2 ^ Suc i" by (simp add: power_add[symmetric] mult_2)
    then have sq: "rep mc (b ^ 2 ^ Suc i) square'" using t2(3) by (simp add: square'_def copy_into_eq ls)
    have step: "pow_loop mc e i out square = pow_loop mc e (i + 1) out' square'"
      using False t(1,2) t2(1,2) by (subst pow_loop.simps) (simp add: out'_def square'_def)
    have dec: "length e * 64 - Suc i < length e * 64 - i" using False by linarith
    from less.hyps[OF dec out'[unfolded E_def] sq] show ?thesis unfolding step by simp
  qed
qed

lemma import_value:
  assumes "monty_ok mc" "x \<noteq> []" "length x + 2 * mc_rw mc < 2 ^ 56"
  obtains y where "monty_import mc x = Some y" "rep mc (mp_val x) y"
proof -
  note ok = monty_okD[OF assms(1)]
  have p: "length (powers_of_r_mod_m mc ! 0) = mc_rw mc" "mp_val (powers_of_r_mod_m mc ! 0) = radix (mc_rw mc) mod mp_val (mc_m mc)"
    using ok(8) by (simp_all only: rep_def mult_1)
  have "mp_val (mc_m mc) \<noteq> 0" "length x + length (powers_of_r_mod_m mc ! 0) + length (mc_m mc) < 2 ^ 56"
    using ok(2,4) p(1) assms(3) by simp_all
  from modmul_value[OF this(1) assms(2) this(2)] obtain y where y: "monty_import mc x = Some y" "length y = mc_rw mc"
    "mp_val y = mp_val x * (radix (mc_rw mc) mod mp_val (mc_m mc)) mod mp_val (mc_m mc)"
    unfolding monty_import_def ok(2) p(2) by metis
  then have "rep mc (mp_val x) y" unfolding rep_def by (simp only: mod_mult_right_eq)
  then show ?thesis using that y(1) by blast
qed

lemma export_value:
  assumes "monty_ok mc" "rep mc a x"
  obtains y where "monty_export mc x = Some y" "length y = mc_rw mc" "mp_val y = a mod mp_val (mc_m mc)"
proof -
  define m n where "m = mp_val (mc_m mc)" "n = mc_rw mc"
  note ok = monty_okD[OF assms(1), folded m_n_def]
  have x: "length x = n" "mp_val x = a * radix n mod m" using assms(2) by (simp_all only: rep_def m_n_def)
  have "mp_val x < m * radix n"
    unfolding x using mod_less_divisor[OF ok(4)] by (rule less_le_trans) simp
  moreover have "mc_rw mc + mc_pw mc + 6 * mc_rw mc \<le> mc_scratch mc" using ok(6) by (simp add: m_n_def)
  ultimately obtain t where t: "monty_reduce_internal mc x (mc_scratch mc) = Some t" "mp_val t < m" "mp_val t * radix n mod m = mp_val x mod m"
    using monty_reduce_value[OF assms(1)] unfolding m_n_def by metis
  have "mp_val t * radix n mod m = a * radix n mod m" using t(3) unfolding x by simp
  from cancel_radix[OF ok(1) this] have v: "mp_val t = a mod m" using t(2) by simp
  have "mp_val (mp_copy_into n t) = a mod m"
    unfolding mp_val_copy_into base_64 v using less_trans[OF mod_less_divisor[OF ok(4)] ok(5)] by (rule mod_less)
  then show ?thesis using that[of "mp_copy_into n t"] t(1) ok(3) x(1) unfolding m_n_def
    by (simp add: monty_export_def monty_export_into_def)
qed

text \<open>
  C28: Products of Montgomery representations: of two numbers imported into the context of an odd modulus, \<open>monty_mul\<close>
  gives the representation of their product, and exporting it gives the product modulo the modulus; no assertion about sizes or scratch space fails.
\<close>
theorem monty_mul_correct:
  fixes m x y :: "u64 list"
  assumes "odd (mp_val m)" "x \<noteq> []" "y \<noteq> []" "length x + length y + 2 * length m < 2 ^ 54"
  shows "\<exists>mc a b c r. monty_new m = Some mc \<and> monty_import mc x = Some a \<and> monty_import mc y = Some b \<and>
    monty_mul mc a b = Some c \<and> monty_export mc c = Some r \<and> length r = length m \<and>
    mp_val r = mp_val x * mp_val y mod mp_val m"
proof -
  obtain mc where mc: "monty_new m = Some mc" "monty_ok mc" "mc_m mc = m"
    using monty_new_value[OF assms(1)] assms(4) by auto
  note ok = monty_okD[OF mc(2), unfolded mc(3)]
  have l: "length x + 2 * mc_rw mc < 2 ^ 56" "length y + 2 * mc_rw mc < 2 ^ 56" using assms(4) ok(2) by simp_all
  obtain a where a: "monty_import mc x = Some a" "rep mc (mp_val x) a" using import_value[OF mc(2) assms(2) l(1)] .
  obtain b where b: "monty_import mc y = Some b" "rep mc (mp_val y) b" using import_value[OF mc(2) assms(3) l(2)] .
  have len: "length a = mc_rw mc" "length b = mc_rw mc" using a(2) b(2) by (simp_all add: rep_def)
  have nz: "0 < 2 * mc_rw mc" "a \<noteq> [] \<or> b \<noteq> []" using ok(3) len by auto
  obtain tmp where tmp: "mp_mul_into (2 * mc_rw mc) a b = Some tmp" "mp_val tmp = mp_val a * mp_val b mod 2 ^ (64 * (2 * mc_rw mc))"
    using mp_mul_into_value[OF nz] by auto
  have "mp_val a * mp_val b < radix (mc_rw mc) * radix (mc_rw mc)"
    using mp_val_less[of a] mp_val_less[of b] unfolding base_64 len by (intro mult_strict_mono) simp_all
  also have "\<dots> = 2 ^ (64 * (2 * mc_rw mc))" by (rule radix_square)
  finally have v: "mp_val tmp = mp_val a * mp_val b" unfolding tmp(2) by (rule mod_less)
  obtain t where t: "monty_reduce_internal mc tmp (mc_scratch mc - 2 * mc_rw mc) = Some t"
    "mp_val t = mp_val x * mp_val y * radix (mc_rw mc) mod mp_val m"
    using reduce_product[OF mc(2) a(2) b(2) v monty_okD(6)[OF mc(2)]] unfolding mc(3) by metis
  define c where "c = mp_copy_into (mc_rw mc) t"
  have "mp_val t < radix (mc_rw mc)" unfolding t(2) using mod_less_divisor[OF ok(4)] ok(5) by (rule less_trans)
  then have "rep mc (mp_val x * mp_val y) c" unfolding rep_def c_def mp_val_copy_into base_64 mc(3) t(2)[symmetric] by simp
  then obtain r where r: "monty_export mc c = Some r" "length r = mc_rw mc" "mp_val r = mp_val x * mp_val y mod mp_val m"
    using export_value[OF mc(2)] unfolding mc(3) by metis
  have "mp_alloc_from_scratch (mc_scratch mc) (2 * mc_rw mc) = Some (mc_scratch mc - 2 * mc_rw mc)"
    using ok(7) by (simp add: mp_alloc_from_scratch_def)
  then have "monty_mul mc a b = Some c"
    using ok(3) len tmp(1) t(1) by (simp add: monty_mul_def monty_mul_into_def c_def)
  then show ?thesis using mc(1) a(1) b(1) r ok(2) by auto
qed

theorem monty_mul_correct_witness:
  "\<exists>mc a b c r. monty_new [15] = Some mc \<and> monty_import mc [100] = Some a \<and> monty_import mc [7] = Some b \<and>
    monty_mul mc a b = Some c \<and> monty_export mc c = Some r \<and> length r = 1 \<and> mp_val r = 10"
  using monty_mul_correct[of "[15]" "[100]" "[7]"] by simp

text \<open>
  C4: Modular exponentiation computes the power: for every odd modulus, base and exponent \<open>mp_modpow\<close> returns, and its value is
  \<open>base ^ exponent mod modulus\<close>. This covers the inverse modulo a power of two, the Montgomery reductions, the division that makes the
  context, and all scratch space.
\<close>
theorem mp_modpow_correct:
  fixes b e m :: "u64 list"
  assumes "odd (mp_val m)" "b \<noteq> []" "length b + 2 * length m < 2 ^ 54"
  shows "\<exists>r. mp_modpow b e m = Some r \<and> length r = length m \<and> mp_val r = mp_val b ^ mp_val e mod mp_val m"
proof -
  obtain mc where mc: "monty_new m = Some mc" "monty_ok mc" "mc_m mc = m"
    using monty_new_value[OF assms(1)] assms(3) by auto
  note ok = monty_okD[OF mc(2), unfolded mc(3)]
  have "length b + 2 * mc_rw mc < 2 ^ 56" using assms(3) ok(2) by simp
  then obtain x where x: "monty_import mc b = Some x" "rep mc (mp_val b) x" using import_value[OF mc(2) assms(2)] by blast
  have "rep mc (mp_val b ^ (mp_val e mod 2 ^ 0)) (powers_of_r_mod_m mc ! 0)" "rep mc (mp_val b ^ 2 ^ 0) x"
    using ok(8) x(2) by simp_all
  from pow_loop_value[OF mc(2) this] obtain y where y: "pow_loop mc e 0 (powers_of_r_mod_m mc ! 0) x = Some y" "rep mc (mp_val b ^ mp_val e) y" by blast
  obtain r where r: "monty_export mc y = Some r" "length r = mc_rw mc" "mp_val r = mp_val b ^ mp_val e mod mp_val m"
    using export_value[OF mc(2) y(2)] unfolding mc(3) .
  have "m \<noteq> []" using assms(1) by auto
  moreover from this have "odd (m ! 0)" using even_mp_val[of m] assms(1) by simp
  moreover have "monty_pow mc x e = Some y" using ok(3) y(1) by (simp add: monty_pow_def)
  ultimately have "mp_modpow b e m = Some r" using mc(1) x(1) r(1) by (simp add: mp_modpow_def)
  then show ?thesis using r ok(2) by auto
qed

theorem mp_modpow_correct_witness:
  "\<exists>r. mp_modpow [7] [10] [15] = Some r \<and> length r = 1 \<and> mp_val r = 4"
  using mp_modpow_correct[of "[15]" "[7]" "[10]"] by simp

end
