(* ===== verification/Spec2Isabelle.thy ===== *)
theory Spec2Isabelle
  imports Hashpop Ripc4 Gman Ruler Kvaas Wildcard Telnet Adder StraceMe SmartLocky Decrypto3
    Crc AuthDb Chameleon MpintMonty
begin

text \<open>
  Verification of the C programs of the BSidesSF CTF 2020 release.

  The repository holds the challenges of a security competition. Most are small C programs, each with a
  flaw that is meant to be found; one (\<open>maltty\<close>) is a copy of PuTTY with a few added files. The
  development models the programs as they are written: correct parts are proved correct, and where a program has
  its intended flaw, the theorem says what the flaw does.

  \<^bold>\<open>The parts and how they interact.\<close>

  \<^item> \<open>hashpop\<close> (\<open>urldecode.c\<close>, \<open>base64.c\<close>, \<open>hashpop.c\<close>): \<open>Urldecode\<close>, \<open>Base64\<close>, \<open>Hashpop\<close>. The request is
    split into fields, the data is decoded by \<open>urldecode\<close>, hashed by OpenSSL (a parameter), and printed in hex or
    through \<open>base64_encode\<close>. The digest is written into a struct in front of a function pointer; the struct is a list of
    bytes (\<open>area\<close>), so that the overflow is one of its writes.
  \<^item> \<open>ripc4\<close>: \<open>Ripc4\<close>, with \<open>Base64\<close>. The state of the session is the record of the workspace, whose union is the list of its bytes;
    commands are the steps of the inductive set \<open>reached\<close>.
  \<^item> \<open>gman\<close> (\<open>gman.c\<close>, \<open>password.c\<close>): \<open>GmanBoard\<close> (bit grids in 71-byte arrays), \<open>GmanPassword\<close> (diamond grids),
    \<open>Gman\<close> (one tick, ghosts, menu, main loop). The random numbers and the keys pressed are lists that the loop consumes.
  \<^item> \<open>ruler\<close>: \<open>Ruler\<close>. Run-length encoding and the hash struct whose buffer lies in front of a callback.
  \<^item> \<open>kvaas\<close> (\<open>nodes.c\<close>, \<open>prompt.c\<close>, \<open>main.c\<close>): \<open>Kvaas\<close>. An explicit heap of nodes and strings with \<open>malloc\<close> and
    \<open>free\<close>; commands are the steps of the inductive set \<open>session\<close>.
  \<^item> \<open>adding-machine\<close>, \<open>strace-me\<close>, \<open>smart-locky\<close>, \<open>decrypto-3\<close>, \<open>chameleon\<close>: \<open>Adder\<close>, \<open>StraceMe\<close>, \<open>SmartLocky\<close>,
    \<open>Decrypto3\<close>, \<open>Chameleon\<close>, one program each.
  \<^item> \<open>maltty\<close>, PuTTY: \<open>Wildcard\<close> (\<open>wildcard.c\<close>), \<open>Telnet\<close> (\<open>telnet.c\<close>), \<open>Crc\<close> (\<open>sshcrc.c\<close>, \<open>sshcrcda.c\<close>),
    \<open>Bufchain\<close> (\<open>utils.c\<close>), \<open>WinNet\<close> (\<open>windows/winnet.c\<close>, over \<open>Bufchain\<close>), \<open>Marshal\<close> (\<open>marshal.c\<close>, whose
    sinks are \<open>Bufchain\<close>'s queue and the string buffer), \<open>Sha256\<close> (\<open>sshsh256.c\<close>, a sink of \<open>Marshal\<close>), the big numbers of
    \<open>mpint.c\<close> in \<open>Mpint\<close>, \<open>MpintMul\<close>, \<open>MpintRecip\<close>, \<open>MpintDiv\<close>, \<open>MpintMonty\<close>, and \<open>AuthDb\<close>: the file added for the
    challenge, which sends the user's login over a socket of \<open>WinNet\<close>, in the format of \<open>Marshal\<close>, guarded by \<open>Sha256\<close>.

  \<^bold>\<open>Conventions.\<close> A machine integer is a word of its width; a byte is a \<open>u8\<close>, and \<open>char\<close> is read as signed where the
  code depends on it. A C buffer is a list of bytes, read and written by the checked accesses \<open>rd\<close> and \<open>wr\<close> of
  \<open>Prelude\<close>: \<open>None\<close> is an access outside of it, and also a failed assertion, so that a theorem whose conclusion has \<open>Some\<close> says that
  neither happens. A struct is a \<open>record\<close>, an enum a \<open>datatype\<close>. The definitions keep the names of the functions.

  \<^bold>\<open>Contracts.\<close> \<open>Prelude\<close> declares the locales that several programs share: \<open>codec\<close> (decoding undoes encoding, so
  that encoding is injective), its extension \<open>exact_codec\<close> (only encodings decode), and \<open>self_inverse\<close> (applying the
  function twice gives the argument back). They are interpreted on base64, the passwords of \<open>gman\<close>, the run-length code,
  the text form of keys in \<open>chameleon\<close>, the messages of \<open>Marshal\<close>, on RC4, on the secrets of \<open>kvaas\<close> and on the XOR of two byte lists.
  \<open>GmanBoard.grid\<close> is the contract of a bit grid (look after put), interpreted on the 71-byte arrays; \<open>Crc.open_table\<close> that of a table with open
  addressing, interpreted on the hash table of the attack detector; \<open>Bufchain.byte_queue\<close> that of a queue of bytes, interpreted on the chain of
  granules and used by the socket; \<open>Marshal.byte_sink\<close> that of a sink that keeps what is written, interpreted on the queue, the string buffer and SHA-256.

  \<^bold>\<open>What the groups of lemmas show.\<close> For each component: (1) the invariant of its state and that every operation keeps it
  (\<open>socket_keeps_stream\<close>, \<open>frame_safe\<close>, the types of the \<open>ripc4\<close> workspace, the heap of \<open>kvaas\<close>, the table of \<open>Crc\<close>);
  (2) equality with a reference written apart from the code: the language of wildcards, RC4, FIPS 180-4 for SHA-256, the bitwise
  shift register of the CRC, the queue of bytes, the arithmetic of natural numbers for big numbers; (3) round trips of the codes;
  (4) the exact effect of the flaws (which bytes reach which pointer); (5) errors: every early return is a branch, and the theorems cover it;
  (6) termination: a loop that is not structurally recursive is a \<open>function\<close> with a measure, or a \<open>partial_function (option)\<close> together with a theorem that it returns.

  \<^bold>\<open>Bounds and fuel.\<close> \<open>Kvaas\<close> walks its list with fuel equal to the top of the heap, which is more than the number of
  nodes; \<open>Gman\<close> bounds the search of a ghost by the 100 tries of the code; the outer loop of \<open>Wildcard\<close> runs at most once per character of the pattern. The
  loops of \<open>Bufchain\<close>, \<open>Crc\<close>, \<open>Sha256\<close>, \<open>AuthDb\<close> and the iterations of \<open>MpintDiv\<close> are partial functions that are proved to return. Sizes are assumed to be below
  the limits of their C types where a theorem says so. The division of big numbers is modelled for words of 64 bits, the other operations for words of every width.

  \<^bold>\<open>Code outside of the repository\<close> is a parameter: OpenSSL's ciphers, digests and HMAC (\<open>decrypto-3\<close>, \<open>hashpop\<close>, \<open>ruler\<close>), the
  allocator, the page size of \<open>mmap\<close>, clock, random device and \<open>strftime\<close>, what the network answers, the Windows calls, the
  AES of PuTTY in \<open>AuthDb\<close>, crypto library and server of \<open>chameleon\<close>. The hypotheses on them are those of their documentation (a cipher is inverted by its decryption, a
  call returns at most as much as it was asked for), and each theorem with such a hypothesis has a witness where the parameter is a concrete function.

  \<^bold>\<open>Not modelled.\<close> The rest of PuTTY: its terminal emulator, SSH transport and connection layers (coroutines over packet queues and peers), the
  other ciphers and public keys, file transfer, forwarding, settings, the GTK and Windows front ends; of \<open>mpint.c\<close> the greatest common divisor, roots, random numbers and conversions. Of the modelled programs:
  banners and ASCII art, curses output, set-up calls. The challenges in Go, JavaScript, PHP, Python, Perl, Rust, C++ (JNI) and those that are data only are
  outside of the C code that this development is about.
\<close>

end
